(* ===== verification/Prelude.thy ===== *)
theory Prelude
  imports Main "HOL-Library.Word"
begin

text \<open>
  Shared vocabulary of the development: the C integer types as words, the result type of
  code that may not return, the loop over page addresses that several files of the
  kernel write, and the arithmetic lemmas that carry the address reasoning.
\<close>

unbundle bit_operations_syntax

subsection \<open>C types\<close>

type_synonym u8 = "8 word"
type_synonym u16 = "16 word"
type_synonym u32 = "32 word"
type_synonym s32 = "32 word" \<comment> \<open>\<open>int32_t\<close>: the same bits, read with \<open>sint\<close>\<close>

named_theorems prog_simps \<open>unfolding of the sequencing combinators\<close>
named_theorems unat_simps \<open>unat of address arithmetic that does not wrap\<close>

text \<open>A C string literal, without its terminating NUL.\<close>

definition cstr :: "string \<Rightarrow> u8 list" where
  "cstr s = map of_char s"

subsection \<open>Code that may not return\<close>

text \<open>
  \<open>Assert_Failed\<close> is a failed \<open>ASSERT\<close> (\<open>panic_assert\<close> loops forever with interrupts
  off), \<open>Panicked\<close> a \<open>PANIC\<close>, \<open>Diverges\<close> a loop whose counter wraps around,
  \<open>Null_Call\<close> a call through a null function pointer, \<open>Undefined\<close> behaviour that C does
  not define, \<open>Div_Zero\<close> a division trap, \<open>No_Fuel\<close> the bound on the recursion of
  \<open>alloc\<close> (never a behaviour of the code).
\<close>

datatype halt =
    Assert_Failed string
  | Panicked string
  | Diverges
  | Null_Call
  | Undefined string
  | Div_Zero
  | No_Fuel

type_synonym ('s, 'a) prog = "'s \<Rightarrow> halt + 'a \<times> 's"

definition ret :: "'a \<Rightarrow> ('s, 'a) prog" where
  "ret x = (\<lambda>s. Inr (x, s))"

definition stop :: "halt \<Rightarrow> ('s, 'a) prog" where
  "stop h = (\<lambda>_. Inl h)"

definition seq :: "('s, 'a) prog \<Rightarrow> ('a \<Rightarrow> ('s, 'b) prog) \<Rightarrow> ('s, 'b) prog" where
  "seq p f = (\<lambda>s. case p s of Inl h \<Rightarrow> Inl h | Inr (x, s') \<Rightarrow> f x s')"

definition gets :: "('s \<Rightarrow> 'a) \<Rightarrow> ('s, 'a) prog" where
  "gets f = (\<lambda>s. Inr (f s, s))"

definition modify :: "('s \<Rightarrow> 's) \<Rightarrow> ('s, unit) prog" where
  "modify f = (\<lambda>s. Inr ((), f s))"

definition assert_that :: "string \<Rightarrow> bool \<Rightarrow> ('s, unit) prog" where
  "assert_that desc b = (if b then ret () else stop (Assert_Failed desc))"

lemma ret_apply [prog_simps]: "ret x s = Inr (x, s)"
  by (simp add: ret_def)

lemma stop_apply [prog_simps]: "stop h s = Inl h"
  by (simp add: stop_def)

lemma gets_apply [prog_simps]: "gets f s = Inr (f s, s)"
  by (simp add: gets_def)

lemma modify_apply [prog_simps]: "modify f s = Inr ((), f s)"
  by (simp add: modify_def)

lemma assert_that_apply [prog_simps]:
  "assert_that d b s = (if b then Inr ((), s) else Inl (Assert_Failed d))"
  by (simp add: assert_that_def ret_def stop_def)

lemma seq_Inr [prog_simps]: "p s = Inr (x, s') \<Longrightarrow> seq p f s = f x s'"
  by (simp add: seq_def)

lemma seq_Inl [prog_simps]: "p s = Inl h \<Longrightarrow> seq p f s = Inl h"
  by (simp add: seq_def)

lemma seq_InrE:
  assumes "seq p f s = Inr r"
  obtains x s' where "p s = Inr (x, s')" and "f x s' = Inr r"
  using assms by (auto simp: seq_def split: sum.splits prod.splits)

subsection \<open>The loop \<open>for (; i < limit; i += 0x1000) body(i)\<close>\<close>

text \<open>
  The limit is read again in every round, as in \<open>initialize_paging\<close>, where the body moves
  it. A counter that wraps past the top of the address space never reaches the limit.
\<close>

function page_for :: "('s \<Rightarrow> u32) \<Rightarrow> (u32 \<Rightarrow> ('s, unit) prog) \<Rightarrow> u32 \<Rightarrow> ('s, unit) prog" where
  "page_for limit body i s =
     (if i < limit s then
        (case body i s of
           Inl h \<Rightarrow> Inl h
         | Inr (_, s') \<Rightarrow>
             if i + 0x1000 < i then Inl Diverges else page_for limit body (i + 0x1000) s')
      else Inr ((), s))"
  by pat_completeness auto

lemma unat_bound32: "unat (w :: u32) < 4294967296"
  using unsigned_less [of w] by simp

lemma page_step_unat: "\<not> i + 0x1000 < i \<Longrightarrow> unat (i + 0x1000) = unat i + 0x1000" for i :: u32
  using unat_bound32 [of i]
  by (simp add: word_less_nat_alt unat_word_ariths mod_if split: if_splits)

lemma page_step_measure:
  "\<not> i + 0x1000 < i \<Longrightarrow> 2 ^ 32 - unat (i + 0x1000) < 2 ^ 32 - unat i" for i :: u32
  using unat_bound32 [of i] page_step_unat [of i] unat_bound32 [of "i + 0x1000"] by simp

termination page_for
  by (relation "measure (\<lambda>(_, _, i, _). 2 ^ 32 - unat i)")
    (auto dest: page_step_measure)

declare page_for.simps [simp del]

subsection \<open>Words and \<open>unat\<close>\<close>

lemma unat_add32 [unat_simps]:
  "unat a + unat b < 4294967296 \<Longrightarrow> unat (a + b) = unat a + unat b" for a b :: u32
  by (simp add: unat_word_ariths)

lemma unat_of_nat32 [unat_simps]: "n < 4294967296 \<Longrightarrow> unat (of_nat n :: u32) = n"
  by (simp add: unsigned_of_nat take_bit_nat_eq_self)

lemma unat_numeral32 [unat_simps]:
  "numeral k < (4294967296 :: nat) \<Longrightarrow> unat (numeral k :: u32) = numeral k"
  using unat_of_nat32 [of "numeral k"] by simp

lemma unat_add_numeral32 [unat_simps]:
  "unat a + numeral k < 4294967296 \<Longrightarrow> unat (a + numeral k) = unat a + numeral k" for a :: u32
proof -
  assume bound: "unat a + numeral k < 4294967296"
  then have "(numeral k :: nat) < 4294967296" by (rule le_less_trans [OF le_add2])
  then have "unat (numeral k :: u32) = numeral k" by (rule unat_numeral32)
  then show ?thesis using unat_add32 [of a "numeral k"] bound by (simp only:)
qed

lemma unat_Suc32 [unat_simps]:
  "i < j \<Longrightarrow> unat (i + 1) = Suc (unat i)" for i j :: u32
  using unat_bound32 [of j] unat_add32 [of i 1] by (simp add: word_less_nat_alt)

lemma unat_sub32 [unat_simps]:
  "unat b \<le> unat a \<Longrightarrow> unat (a - b) = unat a - unat b" for a b :: u32
  by (simp add: unat_sub_if')

lemma unat_eqI32: "unat a = unat b \<Longrightarrow> a = b" for a b :: u32
  by (simp add: word_unat_eq_iff)

end
