(* ===== verification/Memory.thy ===== *)
theory Memory
  imports Prelude
begin

text \<open>
  The linear address space the kernel's C code reads and writes: one byte per 32-bit
  address. A \<open>uint32_t\<close> or a pointer is four bytes, least significant first, at any
  address (the x86 does not ask for alignment). Objects are located by the \<open>nat\<close>
  interval of their addresses, so that separation is linear arithmetic.
\<close>

unbundle bit_operations_syntax

type_synonym memory = "u32 \<Rightarrow> u8"

definition ld8 :: "memory \<Rightarrow> u32 \<Rightarrow> u8" where
  "ld8 m a = m a"

definition st8 :: "memory \<Rightarrow> u32 \<Rightarrow> u8 \<Rightarrow> memory" where
  "st8 m a v = m(a := v)"

definition ld32 :: "memory \<Rightarrow> u32 \<Rightarrow> u32" where
  "ld32 m a = ucast (m a) OR push_bit 8 (ucast (m (a + 1)))
     OR push_bit 16 (ucast (m (a + 2))) OR push_bit 24 (ucast (m (a + 3)))"

definition st32 :: "memory \<Rightarrow> u32 \<Rightarrow> u32 \<Rightarrow> memory" where
  "st32 m a v = m(a := ucast v, a + 1 := ucast (drop_bit 8 v),
     a + 2 := ucast (drop_bit 16 v), a + 3 := ucast (drop_bit 24 v))"

subsection \<open>A load after a store\<close>

lemma bytes_of_word32:
  "ucast (ucast v :: u8) OR push_bit 8 (ucast (ucast (drop_bit 8 v) :: u8))
     OR push_bit 16 (ucast (ucast (drop_bit 16 v) :: u8))
     OR push_bit 24 (ucast (ucast (drop_bit 24 v) :: u8)) = v" (is "?bytes = v") for v :: u32
proof (rule bit_word_eqI)
  fix n assume "n < LENGTH(32)"
  then consider "n < 8" | "8 \<le> n" "n < 16" | "16 \<le> n" "n < 24" | "24 \<le> n" "n < 32"
    by fastforce
  then show "bit ?bytes n = bit v n"
    by cases (auto simp: bit_simps)
qed

lemma ld32_st32_same [simp]: "ld32 (st32 m a v) a = v"
  by (simp add: ld32_def st32_def bytes_of_word32)

lemma ld32_cong:
  assumes "m' a = m a" "m' (a + 1) = m (a + 1)" "m' (a + 2) = m (a + 2)" "m' (a + 3) = m (a + 3)"
  shows "ld32 m' a = ld32 m a"
  using assms by (simp add: ld32_def)

text \<open>Two accesses whose bytes do not meet, measured around the address space.\<close>

lemma ld32_st32_apart:
  assumes "4 \<le> unat (a - b)" and "4 \<le> unat (b - a)"
  shows "ld32 (st32 m a v) b = ld32 m b"
proof -
  have "b + i \<noteq> a + j" if "unat i < 4" "unat j < 4" for i j
  proof
    assume "b + i = a + j"
    then have "a - b = i - j" and "b - a = j - i" by (simp_all add: algebra_simps)
    with assms that show False
      by (cases "unat j \<le> unat i") (simp_all add: unat_sub32)
  qed
  from this [of 0 0] this [of 0 1] this [of 0 2] this [of 0 3]
    this [of 1 0] this [of 1 1] this [of 1 2] this [of 1 3]
    this [of 2 0] this [of 2 1] this [of 2 2] this [of 2 3]
    this [of 3 0] this [of 3 1] this [of 3 2] this [of 3 3]
  show ?thesis by (intro ld32_cong) (simp_all add: st32_def)
qed

subsection \<open>Regions\<close>

text \<open>\<open>same_on lo hi m m'\<close>: the two memories agree at the addresses from \<open>lo\<close> below \<open>hi\<close>.\<close>

definition same_on :: "nat \<Rightarrow> nat \<Rightarrow> memory \<Rightarrow> memory \<Rightarrow> bool" where
  "same_on lo hi m m' \<longleftrightarrow> (\<forall>x. lo \<le> unat x \<and> unat x < hi \<longrightarrow> m' x = m x)"

text \<open>\<open>only_in lo hi m m'\<close>: the two memories differ at most at the addresses from \<open>lo\<close> below \<open>hi\<close>.\<close>

definition only_in :: "nat \<Rightarrow> nat \<Rightarrow> memory \<Rightarrow> memory \<Rightarrow> bool" where
  "only_in lo hi m m' \<longleftrightarrow> (\<forall>x. unat x < lo \<or> hi \<le> unat x \<longrightarrow> m' x = m x)"

named_theorems frame_intros \<open>what a store leaves alone\<close>

lemma same_on_refl [simp, intro]: "same_on lo hi m m"
  by (simp add: same_on_def)

lemma only_in_refl [simp, intro]: "only_in lo hi m m"
  by (simp add: only_in_def)

lemma same_on_mono: "same_on lo hi m m' \<Longrightarrow> lo \<le> lo' \<Longrightarrow> hi' \<le> hi \<Longrightarrow> same_on lo' hi' m m'"
  by (simp add: same_on_def)

lemma only_in_mono: "only_in lo hi m m' \<Longrightarrow> lo' \<le> lo \<Longrightarrow> hi \<le> hi' \<Longrightarrow> only_in lo' hi' m m'"
  by (simp add: only_in_def)

lemma same_on_trans: "same_on lo hi m m' \<Longrightarrow> same_on lo hi m' m'' \<Longrightarrow> same_on lo hi m m''"
  by (simp add: same_on_def)

lemma only_in_trans: "only_in lo hi m m' \<Longrightarrow> only_in lo hi m' m'' \<Longrightarrow> only_in lo hi m m''"
  by (simp add: only_in_def)

lemma only_in_same_on: "only_in lo hi m m' \<Longrightarrow> hi' \<le> lo \<or> hi \<le> lo' \<Longrightarrow> same_on lo' hi' m m'"
  by (auto simp: only_in_def same_on_def)

lemma ld8_same_on: "same_on lo hi m m' \<Longrightarrow> lo \<le> unat a \<Longrightarrow> unat a < hi \<Longrightarrow> ld8 m' a = ld8 m a"
  by (simp add: same_on_def ld8_def)

lemma ld32_same_on:
  assumes "same_on lo hi m m'" and "lo \<le> unat a" and "unat a + 4 \<le> hi" and "hi \<le> 4294967296"
  shows "ld32 m' a = ld32 m a"
  using assms by (intro ld32_cong) (simp_all add: same_on_def unat_simps unat_add32 [of a 1])

lemma only_in_st8: "lo \<le> unat a \<Longrightarrow> unat a < hi \<Longrightarrow> only_in lo hi m (st8 m a v)"
  by (auto simp: only_in_def st8_def)

lemma only_in_st32:
  assumes "lo \<le> unat a" and "unat a + 4 \<le> hi" and "unat a + 4 \<le> 4294967296"
  shows "only_in lo hi m (st32 m a v)"
proof -
  from assms have "unat (a + 1) = unat a + 1" "unat (a + 2) = unat a + 2" "unat (a + 3) = unat a + 3"
    by (simp_all add: unat_simps unat_add32 [of a 1])
  with assms show ?thesis by (auto simp: only_in_def st32_def)
qed

lemma only_in_st8_step:
  "only_in lo hi m m' \<Longrightarrow> lo \<le> unat a \<Longrightarrow> unat a < hi \<Longrightarrow> only_in lo hi m (st8 m' a v)"
  by (blast intro: only_in_trans only_in_st8)

lemma only_in_st32_step:
  "only_in lo hi m m' \<Longrightarrow> lo \<le> unat a \<Longrightarrow> unat a + 4 \<le> hi \<Longrightarrow> unat a + 4 \<le> 4294967296 \<Longrightarrow>
    only_in lo hi m (st32 m' a v)"
  by (blast intro: only_in_trans only_in_st32)

lemma ld8_only_in:
  "only_in lo hi m m' \<Longrightarrow> unat a < lo \<or> hi \<le> unat a \<Longrightarrow> ld8 m' a = ld8 m a"
  by (auto simp: only_in_def ld8_def)

lemma ld32_only_in:
  assumes "only_in lo hi m m'" and "unat a + 4 \<le> lo \<or> hi \<le> unat a" and "unat a + 4 \<le> 4294967296"
  shows "ld32 m' a = ld32 m a"
  using ld32_same_on [OF only_in_same_on [OF assms(1), of "unat a + 4" "unat a"]] assms(2,3)
  by simp

subsection \<open>Loads over single stores\<close>

lemma ld8_st8 [simp]: "ld8 (st8 m a v) b = (if b = a then v else ld8 m b)"
  by (simp add: ld8_def st8_def)

lemma ld32_st32_far:
  assumes "unat a + 4 \<le> unat b \<or> unat b + 4 \<le> unat a"
    and "unat a + 4 \<le> 4294967296" and "unat b + 4 \<le> 4294967296"
  shows "ld32 (st32 m a v) b = ld32 m b"
  using assms by (intro ld32_only_in [OF only_in_st32 [of "unat a" a "unat a + 4"]]) auto

lemma ld32_st8_far:
  assumes "unat a < unat b \<or> unat b + 4 \<le> unat a" and "unat b + 4 \<le> 4294967296"
  shows "ld32 (st8 m a v) b = ld32 m b"
  using assms by (intro ld32_only_in [OF only_in_st8 [of "unat a" a "unat a + 1"]]) auto

lemma ld8_st32_far:
  assumes "unat b < unat a \<or> unat a + 4 \<le> unat b" and "unat a + 4 \<le> 4294967296"
  shows "ld8 (st32 m a v) b = ld8 m b"
  using assms by (intro ld8_only_in [OF only_in_st32 [of "unat a" a "unat a + 4"]]) auto

lemmas far_simps = ld32_st32_far ld32_st8_far ld8_st32_far

subsection \<open>Byte strings in memory\<close>

fun st_bytes :: "memory \<Rightarrow> u32 \<Rightarrow> u8 list \<Rightarrow> memory" where
  "st_bytes m a [] = m"
| "st_bytes m a (b # bs) = st_bytes (st8 m a b) (a + 1) bs"

definition ld_bytes :: "memory \<Rightarrow> u32 \<Rightarrow> nat \<Rightarrow> u8 list" where
  "ld_bytes m a n = map (\<lambda>i. m (a + of_nat i)) [0..<n]"

lemma st_bytes_snoc: "st_bytes m a (bs @ [c]) = st8 (st_bytes m a bs) (a + of_nat (length bs)) c"
  by (induction bs arbitrary: m a) (simp_all add: ac_simps)

lemma st_bytes_only_in:
  "unat a + length bs \<le> 4294967296 \<Longrightarrow> only_in (unat a) (unat a + length bs) m (st_bytes m a bs)"
proof (induction bs rule: rev_induct)
  case (snoc c bs)
  then have "only_in (unat a) (unat a + length (bs @ [c])) m (st_bytes m a bs)"
    by (intro only_in_mono [OF snoc.IH]) simp_all
  moreover have "unat (a + of_nat (length bs)) = unat a + length bs"
    using snoc.prems by (simp add: unat_add32 unat_of_nat32)
  ultimately show ?case
    by (simp add: st_bytes_snoc only_in_st8_step)
qed simp

lemma st_bytes_apply:
  "unat a + length bs \<le> 4294967296 \<Longrightarrow> i < length bs \<Longrightarrow> st_bytes m a bs (a + of_nat i) = bs ! i"
proof (induction bs rule: rev_induct)
  case (snoc c bs)
  have u: "unat (a + of_nat j) = unat a + j" if "j \<le> length bs" for j
    using snoc.prems that by (simp add: unat_add32 unat_of_nat32)
  have "a + of_nat i \<noteq> a + of_nat (length bs)" if "i < length bs"
  proof
    assume "a + of_nat i = a + of_nat (length bs)"
    from arg_cong [OF this, of unat] u [of i] u [of "length bs"] that show False by linarith
  qed
  with snoc show ?case
    by (auto simp: st_bytes_snoc st8_def nth_append less_Suc_eq)
qed simp

lemma ld_st_bytes:
  "unat a + length bs \<le> 4294967296 \<Longrightarrow> ld_bytes (st_bytes m a bs) a (length bs) = bs"
  by (intro nth_equalityI) (simp_all add: ld_bytes_def st_bytes_apply)

end
