(* ===== verification/Util.thy ===== *)
theory Util
  imports Memory
begin

text \<open>
  \<open>util.c\<close> over the byte memory: \<open>memset\<close>, \<open>memcpy\<close>, \<open>strcmp\<close>, \<open>strcpy\<close> and \<open>strlen\<close>. A
  loop that reads memory until a NUL may not end, so those two return an option. The two
  panic functions are in \<open>Machine\<close>, which has the interrupt flag.
\<close>

unbundle bit_operations_syntax

subsection \<open>Operations\<close>

primrec memset_loop :: "nat \<Rightarrow> u32 \<Rightarrow> u8 \<Rightarrow> u32 \<Rightarrow> memory \<Rightarrow> memory" where
  "memset_loop 0 arr val i m = m"
| "memset_loop (Suc n) arr val i m = memset_loop n arr val (i + 1) (st8 m (arr + i) val)"

definition memset :: "u32 \<Rightarrow> s32 \<Rightarrow> u32 \<Rightarrow> memory \<Rightarrow> memory" where
  "memset ptr value num m = memset_loop (unat num) ptr (ucast value) 0 m"

primrec memcpy_loop :: "nat \<Rightarrow> u32 \<Rightarrow> u32 \<Rightarrow> memory \<Rightarrow> memory" where
  "memcpy_loop 0 dp sp m = m"
| "memcpy_loop (Suc len) dp sp m = memcpy_loop len (dp + 1) (sp + 1) (st8 m dp (ld8 m sp))"

definition memcpy :: "u32 \<Rightarrow> u32 \<Rightarrow> u32 \<Rightarrow> memory \<Rightarrow> memory" where
  "memcpy dest src len m = memcpy_loop (unat len) dest src m"

text \<open>\<open>sizeof(string1)\<close>: both arguments are pointers.\<close>

definition sizeof_ptr :: u32 where
  "sizeof_ptr = 4"

primrec strcmp_loop :: "nat \<Rightarrow> u32 \<Rightarrow> u32 \<Rightarrow> u32 \<Rightarrow> memory \<Rightarrow> s32" where
  "strcmp_loop 0 string1 string2 i m = 0"
| "strcmp_loop (Suc n) string1 string2 i m =
     (if ld8 m (string1 + i) \<noteq> ld8 m (string2 + i) then 1
      else strcmp_loop n string1 string2 (i + 1) m)"

definition strcmp :: "u32 \<Rightarrow> u32 \<Rightarrow> memory \<Rightarrow> s32" where
  "strcmp string1 string2 m =
     (if sizeof_ptr < sizeof_ptr then - 1
      else if sizeof_ptr > sizeof_ptr then 1
      else strcmp_loop (unat sizeof_ptr) string1 string2 0 m)"

partial_function (option) strcpy_loop :: "u32 \<Rightarrow> u32 \<Rightarrow> u32 \<Rightarrow> memory \<Rightarrow> memory option" where
  "strcpy_loop dest source i m =
     (if ld8 m (source + i) \<noteq> 0
      then strcpy_loop dest source (i + 1) (st8 m (dest + i) (ld8 m (source + i)))
      else Some (st8 m (dest + i) 0))"

definition strcpy :: "u32 \<Rightarrow> u32 \<Rightarrow> memory \<Rightarrow> memory option" where
  "strcpy dest source m = strcpy_loop dest source 0 m"

partial_function (option) strlen_loop :: "u32 \<Rightarrow> u32 \<Rightarrow> memory \<Rightarrow> u32 option" where
  "strlen_loop src i m = (if ld8 m src \<noteq> 0 then strlen_loop (src + 1) (i + 1) m else Some i)"

definition strlen :: "u32 \<Rightarrow> memory \<Rightarrow> u32 option" where
  "strlen src m = strlen_loop src 0 m"

subsection \<open>\<open>memset\<close> and \<open>memcpy\<close>\<close>

lemma unat_pred_less: "(d = 0 \<or> unat (d - 1) < n) = (unat d < Suc n)" if "n < 4294967296" for d :: u32
proof (cases "d = 0")
  case False
  then have "0 < unat d" by (simp add: unat_gt_0)
  then have "unat (d - 1) = unat d - 1" by (simp add: unat_sub32)
  with \<open>0 < unat d\<close> False show ?thesis by auto
qed simp

lemma memset_loop_apply:
  "n \<le> 4294967296 \<Longrightarrow> memset_loop n arr val i m x = (if unat (x - (arr + i)) < n then val else m x)"
proof (induction n arbitrary: i m)
  case (Suc n)
  let ?d = "x - (arr + i)"
  have d: "x - (arr + (i + 1)) = ?d - 1" by simp
  have "memset_loop (Suc n) arr val i m x = (if unat (?d - 1) < n then val else st8 m (arr + i) val x)"
    using Suc.IH [of "i + 1"] Suc.prems unfolding memset_loop.simps d by simp
  also have "\<dots> = (if ?d = 0 \<or> unat (?d - 1) < n then val else m x)"
    by (auto simp: st8_def)
  also have "\<dots> = (if unat ?d < Suc n then val else m x)"
    using Suc.prems by (subst unat_pred_less) simp_all
  finally show ?case .
qed simp

lemma memset_apply: "memset p v n m x = (if unat (x - p) < unat n then ucast v else m x)"
  using unat_bound32 [of n] by (simp add: memset_def memset_loop_apply)

lemma memset_only_in:
  "unat p + unat n \<le> 4294967296 \<Longrightarrow> only_in (unat p) (unat p + unat n) m (memset p v n m)"
  by (auto simp: only_in_def memset_apply unat_sub_if' split: if_splits)

lemma ld_bytes_Suc: "ld_bytes m a (Suc n) = m a # ld_bytes m (a + 1) n"
  by (simp add: ld_bytes_def map_upt_Suc ac_simps del: upt_Suc)

lemma ld_bytes_st8_outside:
  assumes "unat b < unat a \<or> unat a + n \<le> unat b" and "unat a + n \<le> 4294967296"
  shows "ld_bytes (st8 m b v) a n = ld_bytes m a n"
proof -
  have "unat (a + of_nat i) = unat a + i" if "i < n" for i
    using assms(2) that by (simp add: unat_add32 unat_of_nat32)
  with assms(1) show ?thesis by (fastforce simp: ld_bytes_def st8_def)
qed

lemma memcpy_loop_bytes:
  assumes "unat dp + n \<le> unat sp \<or> unat sp + n \<le> unat dp"
    and "unat dp + n \<le> 4294967296" and "unat sp + n \<le> 4294967296"
  shows "memcpy_loop n dp sp m = st_bytes m dp (ld_bytes m sp n)"
  using assms
proof (induction n arbitrary: dp sp m)
  case (Suc n)
  show ?case
  proof (cases n)
    case 0
    then show ?thesis by (simp add: ld_bytes_def ld8_def)
  next
    case (Suc k)
    with Suc.prems have u: "unat (dp + 1) = unat dp + 1" "unat (sp + 1) = unat sp + 1"
      by (simp_all add: unat_add32 [of _ 1])
    have "memcpy_loop (Suc n) dp sp m
        = st_bytes (st8 m dp (m sp)) (dp + 1) (ld_bytes (st8 m dp (m sp)) (sp + 1) n)"
      using Suc.IH [of "dp + 1" "sp + 1" "st8 m dp (m sp)"] Suc.prems unfolding u
      by (simp add: ld8_def) arith
    also have "ld_bytes (st8 m dp (m sp)) (sp + 1) n = ld_bytes m (sp + 1) n"
      using Suc.prems u by (intro ld_bytes_st8_outside) auto
    finally show ?thesis by (simp add: ld_bytes_Suc)
  qed
qed (simp add: ld_bytes_def)

subsection \<open>NUL-terminated strings\<close>

definition c_string :: "memory \<Rightarrow> u32 \<Rightarrow> u8 list \<Rightarrow> bool" where
  "c_string m a cs \<longleftrightarrow> 0 \<notin> set cs \<and> unat a + length cs < 4294967296
     \<and> ld_bytes m a (Suc (length cs)) = cs @ [0]"

lemma c_string_Nil: "c_string m a [] \<longleftrightarrow> m a = 0"
  using unat_bound32 [of a] by (auto simp: c_string_def ld_bytes_def)

lemma c_string_Cons:
  "c_string m a (c # cs) \<longleftrightarrow> c \<noteq> 0 \<and> m a = c \<and> unat a + 1 < 4294967296 \<and> c_string m (a + 1) cs"
  by (auto simp: c_string_def ld_bytes_Suc unat_add32 [of _ 1])

lemma strlen_loop_length:
  "c_string m a cs \<Longrightarrow> strlen_loop a i m = Some (i + of_nat (length cs))"
proof (induction cs arbitrary: a i)
  case Nil
  then show ?case by (subst strlen_loop.simps) (simp add: c_string_Nil ld8_def)
next
  case (Cons c cs)
  then show ?case
    by (subst strlen_loop.simps) (simp add: c_string_Cons ld8_def add.assoc)
qed


lemma c_string_st8_outside:
  assumes "c_string m a cs" and "unat b < unat a \<or> unat a + length cs < unat b"
  shows "c_string (st8 m b v) a cs"
  using assms ld_bytes_st8_outside [of b a "Suc (length cs)" m v]
  by (auto simp: c_string_def Suc_le_eq)

lemma strcpy_loop_bytes:
  assumes "c_string m (src + i) cs" and "unat (dest + i) + length cs < 4294967296"
    and "unat (dest + i) + length cs < unat (src + i) \<or> unat (src + i) + length cs < unat (dest + i)"
  shows "strcpy_loop dest src i m = Some (st_bytes m (dest + i) (cs @ [0]))"
  using assms
proof (induction cs arbitrary: i m)
  case Nil
  then show ?case by (subst strcpy_loop.simps) (simp add: c_string_Nil ld8_def)
next
  case (Cons c cs)
  let ?m = "st8 m (dest + i) c"
  from Cons.prems(1) have c: "m (src + i) = c" "c \<noteq> 0" "unat (src + i) + 1 < 4294967296"
    and rest: "c_string m (src + i + 1) cs" by (simp_all add: c_string_Cons)
  have u: "unat (src + i + 1) = unat (src + i) + 1" "unat (dest + i + 1) = unat (dest + i) + 1"
    using c(3) Cons.prems(2) by (simp_all add: unat_add32 [of _ 1])
  have "c_string ?m (src + i + 1) cs"
    using rest Cons.prems(3) u by (intro c_string_st8_outside) auto
  then have "strcpy_loop dest src (i + 1) ?m = Some (st_bytes ?m (dest + (i + 1)) (cs @ [0]))"
    using Cons.prems(2,3) u by (intro Cons.IH) (auto simp: add.assoc [symmetric])
  with c show ?case by (subst strcpy_loop.simps) (simp add: ld8_def add.assoc)
qed

lemma strcmp_loop_zero:
  "strcmp_loop n s1 s2 i m = (if \<forall>k < n. m (s1 + i + of_nat k) = m (s2 + i + of_nat k) then 0 else 1)"
proof (induction n arbitrary: i)
  case (Suc n)
  have "(\<forall>k < Suc n. m (s1 + i + of_nat k) = m (s2 + i + of_nat k)) \<longleftrightarrow>
      m (s1 + i) = m (s2 + i) \<and> (\<forall>k < n. m (s1 + (i + 1) + of_nat k) = m (s2 + (i + 1) + of_nat k))"
    by (simp add: All_less_Suc2 ac_simps)
  with Suc show ?case by (simp add: ld8_def)
qed simp

lemma strcmp_eq: "strcmp s1 s2 m = (if ld_bytes m s1 4 = ld_bytes m s2 4 then 0 else 1)"
  by (simp add: strcmp_def sizeof_ptr_def strcmp_loop_zero ld_bytes_def list_eq_iff_nth_eq)

subsection \<open>Properties\<close>

text \<open>
  On separate buffers \<open>memcpy\<close> copies the source bytes to the destination in order and
  changes no byte outside the destination.
\<close>

theorem memcpy_copies:
  assumes "unat dest + unat len \<le> unat src \<or> unat src + unat len \<le> unat dest"
    and "unat dest + unat len \<le> 4294967296" and "unat src + unat len \<le> 4294967296"
  shows "ld_bytes (memcpy dest src len m) dest (unat len) = ld_bytes m src (unat len)
    \<and> only_in (unat dest) (unat dest + unat len) m (memcpy dest src len m)"
  using memcpy_loop_bytes [OF assms, of m] assms(2)
    ld_st_bytes [of dest "ld_bytes m src (unat len)" m]
    st_bytes_only_in [of dest "ld_bytes m src (unat len)" m]
  by (simp add: memcpy_def ld_bytes_def)

theorem memcpy_copies_witness:
  "ld_bytes (memcpy 0x2000 0x1000 3 (\<lambda>a. ucast a)) 0x2000 3 = [0, 1, 2]"
  using memcpy_copies [of "0x2000" 3 "0x1000" "\<lambda>a. ucast a"] by (simp add: ld_bytes_def upt_rec)

text \<open>
  On a NUL-terminated string \<open>strlen\<close> returns its length, and \<open>strcpy\<close> to a separate
  buffer returns and leaves exactly the string with its NUL there.
\<close>

theorem strcpy_copies:
  assumes "c_string m src cs" and "unat dest + length cs < 4294967296"
    and "unat dest + length cs < unat src \<or> unat src + length cs < unat dest"
  shows "strlen src m = Some (of_nat (length cs))
    \<and> (\<exists>m'. strcpy dest src m = Some m' \<and> c_string m' dest cs
      \<and> only_in (unat dest) (unat dest + length cs + 1) m m')"
proof -
  let ?m = "st_bytes m dest (cs @ [0])"
  have "strcpy dest src m = Some ?m"
    using strcpy_loop_bytes [of m src 0 cs dest] assms by (simp add: strcpy_def)
  moreover have "c_string ?m dest cs"
    using ld_st_bytes [of dest "cs @ [0]" m] assms(1,2) by (simp add: c_string_def)
  moreover have "only_in (unat dest) (unat dest + length cs + 1) m ?m"
    using st_bytes_only_in [of dest "cs @ [0]" m] assms(2) by simp
  ultimately show ?thesis using strlen_loop_length [OF assms(1), of 0] by (simp add: strlen_def)
qed

theorem strcpy_copies_witness:
  "strlen 0x1000 (st_bytes (\<lambda>_. 0) 0x1000 (cstr ''dev'')) = Some 3"
  using strcpy_copies [of "st_bytes (\<lambda>_. 0) 0x1000 (cstr ''dev'')" "0x1000" "cstr ''dev''" "0x2000"]
  by (simp add: c_string_def ld_bytes_def cstr_def upt_rec st8_def)

text \<open>
  \<open>strcmp\<close> compares exactly four bytes, the size of a pointer, whatever the strings:
  it returns 0 when these agree and 1 otherwise, never -1.
\<close>

theorem strcmp_four_bytes:
  "strcmp s1 s2 m = (if ld_bytes m s1 4 = ld_bytes m s2 4 then 0 else 1)"
  by (rule strcmp_eq)

text \<open>
  So two names that share their first four characters compare equal, and two equal names
  shorter than three characters compare by what lies behind their NUL.
\<close>

lemma strcmp_prefix:
  "strcmp 0x1000 0x2000 (st_bytes (st_bytes (\<lambda>_. 0) 0x1000 (cstr ''test1'')) 0x2000 (cstr ''test2'')) = 0"
  "strcmp 0x1000 0x2000 ((st_bytes (st_bytes (\<lambda>_. 0) 0x1000 (cstr ''a'')) 0x2000 (cstr ''a''))(0x1002 := 1)) = 1"
  by (simp_all add: strcmp_eq ld_bytes_def upt_rec cstr_def st8_def)

end
