(* ===== verification/Ordered_Array.thy ===== *)
theory Ordered_Array
  imports Util "HOL-Library.Multiset"
begin

text \<open>
  \<open>ordered_array.c\<close> over the byte memory: an array of 32-bit elements kept sorted by
  insertion under a comparison predicate. The header structure is a record passed and
  returned; the elements are in memory at \<open>array\<close>. A comparison may read memory, as
  \<open>header_t_less_than\<close> of \<open>kheap.c\<close> does.
\<close>

unbundle bit_operations_syntax

subsection \<open>Data\<close>

text \<open>The functions the program stores in a \<open>lessthan_predicate_t\<close>, and the null pointer.\<close>

datatype lessthan_predicate_t = Null_Predicate | Standard_Lessthan | Header_T_Less_Than

record ordered_array_t =
  array :: u32
  oa_size :: u32
  max_size :: u32
  less_than :: lessthan_predicate_t

definition standard_lessthan_predicate :: "u32 \<Rightarrow> u32 \<Rightarrow> bool" where
  "standard_lessthan_predicate a b \<longleftrightarrow> a < b"

text \<open>\<open>((header_t *) a)->size < ((header_t *) b)->size\<close>; \<open>size\<close> is at offset 8 of a header.\<close>

definition header_t_less_than :: "memory \<Rightarrow> u32 \<Rightarrow> u32 \<Rightarrow> bool" where
  "header_t_less_than m a b \<longleftrightarrow> ld32 m (a + 8) < ld32 m (b + 8)"

text \<open>The call through the pointer; \<open>ASSERT\<close> keeps the null case from being reached.\<close>

fun call_less_than :: "lessthan_predicate_t \<Rightarrow> memory \<Rightarrow> u32 \<Rightarrow> u32 \<Rightarrow> bool" where
  "call_less_than Null_Predicate m a b = False"
| "call_less_than Standard_Lessthan m a b = standard_lessthan_predicate a b"
| "call_less_than Header_T_Less_Than m a b = header_t_less_than m a b"

text \<open>The address of \<open>array[i]\<close>.\<close>

definition elem_addr :: "ordered_array_t \<Rightarrow> u32 \<Rightarrow> u32" where
  "elem_addr oa i = array oa + 4 * i"

subsection \<open>Operations\<close>

definition place_ordered_array ::
  "u32 \<Rightarrow> u32 \<Rightarrow> lessthan_predicate_t \<Rightarrow> memory \<Rightarrow> ordered_array_t \<times> memory" where
  "place_ordered_array addr maxs lt m =
     (\<lparr>array = addr, oa_size = 0, max_size = maxs, less_than = lt\<rparr>, memset addr 0 (maxs * 4) m)"

text \<open>\<open>while (iterator < size && less_than(array[iterator], item)) iterator++;\<close>\<close>

function insert_position :: "memory \<Rightarrow> ordered_array_t \<Rightarrow> u32 \<Rightarrow> u32 \<Rightarrow> u32" where
  "insert_position m oa item i =
     (if i < oa_size oa \<and> call_less_than (less_than oa) m (ld32 m (elem_addr oa i)) item
      then insert_position m oa item (i + 1) else i)"
  by pat_completeness auto

lemma up_measure: "i < n \<Longrightarrow> unat n - unat (i + 1) < unat n - unat i" for i n :: u32
  by (simp add: unat_Suc32 word_less_nat_alt)

termination insert_position
  by (relation "measure (\<lambda>(m, oa, item, i). unat (oa_size oa) - unat i)") (auto intro: up_measure)

declare insert_position.simps [simp del]

text \<open>The loop that moves the elements behind the new one up, carrying \<open>tmp\<close>.\<close>

function insert_shift :: "ordered_array_t \<Rightarrow> u32 \<Rightarrow> u32 \<Rightarrow> memory \<Rightarrow> memory" where
  "insert_shift oa i tmp m =
     (if i < oa_size oa then
        let i' = i + 1; tmp2 = ld32 m (elem_addr oa i') in
        insert_shift oa i' tmp2 (st32 m (elem_addr oa i') tmp)
      else m)"
  by pat_completeness auto

termination insert_shift
  by (relation "measure (\<lambda>(oa, i, tmp, m). unat (oa_size oa) - unat i)") (auto intro: up_measure)

declare insert_shift.simps [simp del]

definition insert_ordered_array ::
  "u32 \<Rightarrow> ordered_array_t \<Rightarrow> (memory, ordered_array_t) prog" where
  "insert_ordered_array item oa m =
     (if less_than oa = Null_Predicate then Inl (Assert_Failed ''array->less_than'')
      else
        let i = insert_position m oa item 0 in
        if i = oa_size oa then
          Inr (oa\<lparr>oa_size := oa_size oa + 1\<rparr>, st32 m (elem_addr oa (oa_size oa)) item)
        else
          let tmp = ld32 m (elem_addr oa i);
              m = st32 m (elem_addr oa i) item
          in Inr (oa\<lparr>oa_size := oa_size oa + 1\<rparr>, insert_shift oa i tmp m))"

definition lookup_ordered_array :: "u32 \<Rightarrow> ordered_array_t \<Rightarrow> (memory, u32) prog" where
  "lookup_ordered_array i oa m =
     (if i < oa_size oa then Inr (ld32 m (elem_addr oa i), m)
      else Inl (Assert_Failed ''i < array->size''))"

function remove_shift :: "ordered_array_t \<Rightarrow> u32 \<Rightarrow> memory \<Rightarrow> memory" where
  "remove_shift oa i m =
     (if i < oa_size oa then
        remove_shift oa (i + 1) (st32 m (elem_addr oa i) (ld32 m (elem_addr oa (i + 1))))
      else m)"
  by pat_completeness auto

termination remove_shift
  by (relation "measure (\<lambda>(oa, i, m). unat (oa_size oa) - unat i)") (auto intro: up_measure)

declare remove_shift.simps [simp del]

definition remove_ordered_array ::
  "u32 \<Rightarrow> ordered_array_t \<Rightarrow> memory \<Rightarrow> ordered_array_t \<times> memory" where
  "remove_ordered_array i oa m = (oa\<lparr>oa_size := oa_size oa - 1\<rparr>, remove_shift oa i m)"

subsection \<open>The list an ordered array holds\<close>

definition cell :: "memory \<Rightarrow> ordered_array_t \<Rightarrow> nat \<Rightarrow> u32" where
  "cell m oa j = ld32 m (elem_addr oa (of_nat j))"

definition elems :: "memory \<Rightarrow> ordered_array_t \<Rightarrow> u32 list" where
  "elems m oa = map (cell m oa) [0..<unat (oa_size oa)]"

text \<open>The array lies in the address space and holds at most as many elements as it has room for.\<close>

definition oa_ok :: "ordered_array_t \<Rightarrow> bool" where
  "oa_ok oa \<longleftrightarrow> unat (array oa) + 4 * unat (max_size oa) \<le> 4294967296
     \<and> unat (oa_size oa) \<le> unat (max_size oa)"

abbreviation oa_lo :: "ordered_array_t \<Rightarrow> nat" where
  "oa_lo oa \<equiv> unat (array oa)"

abbreviation oa_hi :: "ordered_array_t \<Rightarrow> nat" where
  "oa_hi oa \<equiv> unat (array oa) + 4 * unat (max_size oa)"

lemma length_elems [simp]: "length (elems m oa) = unat (oa_size oa)"
  by (simp add: elems_def)

lemma elems_nth [simp]: "j < unat (oa_size oa) \<Longrightarrow> elems m oa ! j = cell m oa j"
  by (simp add: elems_def)

lemma unat_elem_addr:
  assumes "oa_ok oa" and "j < unat (max_size oa)"
  shows "unat (elem_addr oa (of_nat j)) = oa_lo oa + 4 * j"
proof -
  from assms have b: "oa_lo oa + 4 * j < 4294967296" by (simp add: oa_ok_def)
  then have "unat (4 * of_nat j :: u32) = 4 * j"
    using unat_of_nat32 [of "4 * j"] by simp
  with b show ?thesis by (simp add: elem_addr_def unat_add32)
qed

lemma elem_addr_word: "elem_addr oa (of_nat (unat i)) = elem_addr oa i"
  by simp

lemma cell_st32:
  assumes "oa_ok oa" and "j < unat (max_size oa)" and "k < unat (max_size oa)"
  shows "cell (st32 m (elem_addr oa (of_nat k)) v) oa j = (if j = k then v else cell m oa j)"
proof (cases "j = k")
  case True
  then show ?thesis by (simp add: cell_def)
next
  case False
  note a = unat_elem_addr [OF assms(1,2)] unat_elem_addr [OF assms(1,3)]
  have "4 * j + 4 \<le> 4 * unat (max_size oa)" "4 * k + 4 \<le> 4 * unat (max_size oa)"
    using assms(2,3) by simp_all
  with a assms(1) False show ?thesis
    unfolding cell_def by (subst ld32_st32_far) (auto simp: oa_ok_def)
qed

lemma only_in_elem:
  assumes "oa_ok oa" and "k < unat (max_size oa)" and "only_in (oa_lo oa) (oa_hi oa) m m'"
  shows "only_in (oa_lo oa) (oa_hi oa) m (st32 m' (elem_addr oa (of_nat k)) v)"
proof -
  have "4 * k + 4 \<le> 4 * unat (max_size oa)" using assms(2) by simp
  with unat_elem_addr [OF assms(1,2)] assms(1,3) show ?thesis
    by (intro only_in_st32_step) (auto simp: oa_ok_def)
qed

lemma cell_same_on:
  assumes "oa_ok oa" and "j < unat (max_size oa)" and "same_on (oa_lo oa) (oa_hi oa) m m'"
  shows "cell m' oa j = cell m oa j"
proof -
  have "4 * j + 4 \<le> 4 * unat (max_size oa)" using assms(2) by simp
  with unat_elem_addr [OF assms(1,2)] assms(1) show ?thesis
    unfolding cell_def by (intro ld32_same_on [OF assms(3)]) (auto simp: oa_ok_def)
qed

lemma elems_same_on:
  assumes "oa_ok oa" and "same_on (oa_lo oa) (oa_hi oa) m m'"
  shows "elems m' oa = elems m oa"
  using assms cell_same_on [OF assms(1) _ assms(2)]
  by (intro nth_equalityI) (auto simp: oa_ok_def)

lemma of_nat_Suc_unat: "of_nat (Suc (unat i)) = i + 1" for i :: u32
  by (simp add: ac_simps)

subsection \<open>The loops\<close>

lemma insert_shift_cells:
  assumes "oa_ok oa" and "unat (oa_size oa) < unat (max_size oa)" and "i \<le> oa_size oa"
  shows "only_in (oa_lo oa) (oa_hi oa) m (insert_shift oa i tmp m)
    \<and> (\<forall>j < unat (max_size oa). cell (insert_shift oa i tmp m) oa j =
        (if unat i < j \<and> j \<le> unat (oa_size oa)
         then if j = Suc (unat i) then tmp else cell m oa (j - 1) else cell m oa j))"
  using assms
proof (induction oa i tmp m rule: insert_shift.induct)
  case (1 oa i tmp m)
  show ?case
  proof (cases "i < oa_size oa")
    case False
    with 1(4) have "unat i = unat (oa_size oa)" by (simp add: word_le_nat_alt word_less_nat_alt)
    with False show ?thesis by (auto simp: insert_shift.simps [of oa i])
  next
    case True
    let ?e = "elem_addr oa (of_nat (Suc (unat i)))"
    let ?m = "st32 m ?e tmp" and ?tmp2 = "cell m oa (Suc (unat i))"
    have si: "unat (i + 1) = Suc (unat i)" using True by (rule unat_Suc32)
    have lt: "Suc (unat i) < unat (max_size oa)" "Suc (unat i) \<le> unat (oa_size oa)"
      using True 1(3) by (simp_all add: word_less_nat_alt)
    have step: "insert_shift oa i tmp m = insert_shift oa (i + 1) ?tmp2 ?m"
      using True by (simp add: insert_shift.simps [of oa i] cell_def Let_def add.commute)
    have IH: "only_in (oa_lo oa) (oa_hi oa) ?m (insert_shift oa (i + 1) ?tmp2 ?m)
      \<and> (\<forall>j < unat (max_size oa). cell (insert_shift oa (i + 1) ?tmp2 ?m) oa j =
        (if Suc (unat i) < j \<and> j \<le> unat (oa_size oa)
         then if j = Suc (Suc (unat i)) then ?tmp2 else cell ?m oa (j - 1) else cell ?m oa j))"
      using 1(1) [OF True refl refl] 1(2,3) lt si
      by (simp add: cell_def Let_def word_le_nat_alt add.commute)
    have "only_in (oa_lo oa) (oa_hi oa) m (insert_shift oa (i + 1) ?tmp2 ?m)"
      using IH only_in_elem [OF 1(2) lt(1) only_in_refl] only_in_trans by blast
    moreover have "cell (insert_shift oa (i + 1) ?tmp2 ?m) oa j =
        (if unat i < j \<and> j \<le> unat (oa_size oa)
         then if j = Suc (unat i) then tmp else cell m oa (j - 1) else cell m oa j)"
      if "j < unat (max_size oa)" for j
      using IH that cell_st32 [OF 1(2) _ lt(1), of _ m tmp] lt(2)
      by (cases "j = Suc (Suc (unat i))") (auto simp: not_less_eq)
    ultimately show ?thesis unfolding step by blast
  qed
qed

lemma remove_shift_cells:
  assumes "oa_ok oa" and "i < oa_size oa"
  shows "only_in (oa_lo oa) (oa_hi oa) m (remove_shift oa i m)
    \<and> (\<forall>j < unat (oa_size oa) - 1. cell (remove_shift oa i m) oa j =
        (if unat i \<le> j then cell m oa (Suc j) else cell m oa j))"
  using assms
proof (induction oa i m rule: remove_shift.induct)
  case (1 oa i m)
  let ?e = "elem_addr oa (of_nat (unat i))"
  let ?m = "st32 m ?e (ld32 m (elem_addr oa (i + 1)))"
  have si: "unat (i + 1) = Suc (unat i)" using 1(3) by (rule unat_Suc32)
  have lt: "unat i < unat (max_size oa)" "unat i < unat (oa_size oa)"
    using 1(2,3) by (simp_all add: word_less_nat_alt oa_ok_def)
  have step: "remove_shift oa i m = remove_shift oa (i + 1) ?m"
    using 1(3) by (simp add: remove_shift.simps [of oa i])
  have val: "ld32 m (elem_addr oa (i + 1)) = cell m oa (Suc (unat i))"
    by (simp add: cell_def add.commute)
  have one: "only_in (oa_lo oa) (oa_hi oa) m ?m"
    by (rule only_in_elem [OF 1(2) lt(1) only_in_refl])
  have c: "cell ?m oa j = (if j = unat i then cell m oa (Suc (unat i)) else cell m oa j)"
    if "j < unat (max_size oa)" for j
    using cell_st32 [OF 1(2) that lt(1), of m] by (simp add: val)
  show ?case
  proof (cases "i + 1 < oa_size oa")
    case False
    then have last: "unat (oa_size oa) = Suc (unat i)"
      using si lt(2) by (simp add: word_less_nat_alt)
    have "remove_shift oa (i + 1) ?m = ?m" using False by (simp add: remove_shift.simps)
    with one c last lt show ?thesis unfolding step by auto
  next
    case True
    have IH: "only_in (oa_lo oa) (oa_hi oa) ?m (remove_shift oa (i + 1) ?m)
      \<and> (\<forall>j < unat (oa_size oa) - 1. cell (remove_shift oa (i + 1) ?m) oa j =
          (if Suc (unat i) \<le> j then cell ?m oa (Suc j) else cell ?m oa j))"
      using 1(1) [OF 1(3)] 1(2) True si by simp
    have "cell (remove_shift oa (i + 1) ?m) oa j =
        (if unat i \<le> j then cell m oa (Suc j) else cell m oa j)"
      if "j < unat (oa_size oa) - 1" for j
      using IH that c 1(2) by (cases "j = unat i") (auto simp: oa_ok_def)
    with IH one show ?thesis unfolding step by (blast intro: only_in_trans)
  qed
qed


lemma insert_position_spec:
  assumes "unat i \<le> unat (oa_size oa)"
  shows "insert_position m oa item i = of_nat (unat i +
      length (takeWhile (\<lambda>x. call_less_than (less_than oa) m x item) (drop (unat i) (elems m oa))))"
  using assms
proof (induction m oa item i rule: insert_position.induct)
  case (1 m oa item i)
  show ?case
  proof (cases "i < oa_size oa")
    case False
    with 1(2) have "i = oa_size oa" by (intro unat_eqI32) (simp add: word_less_nat_alt)
    then show ?thesis by (simp add: insert_position.simps [of m oa item "oa_size oa"])
  next
    case True
    then have l: "unat i < length (elems m oa)" by (simp add: word_less_nat_alt)
    then have d: "drop (unat i) (elems m oa) = cell m oa (unat i) # drop (Suc (unat i)) (elems m oa)"
      by (simp add: Cons_nth_drop_Suc [symmetric])
    have c: "cell m oa (unat i) = ld32 m (elem_addr oa i)" by (simp add: cell_def)
    show ?thesis
    proof (cases "call_less_than (less_than oa) m (cell m oa (unat i)) item")
      case True
      have si: "unat (i + 1) = Suc (unat i)" using \<open>i < oa_size oa\<close> by (rule unat_Suc32)
      with 1(1) True l \<open>i < oa_size oa\<close> show ?thesis
        by (simp add: insert_position.simps [of m oa item i] c d add.assoc)
    next
      case False
      then show ?thesis by (simp add: insert_position.simps [of m oa item i] c d)
    qed
  qed
qed

subsection \<open>Insertion and removal on the list\<close>

fun insert_by :: "('a \<Rightarrow> 'a \<Rightarrow> bool) \<Rightarrow> 'a \<Rightarrow> 'a list \<Rightarrow> 'a list" where
  "insert_by lt x [] = [x]"
| "insert_by lt x (y # ys) = (if lt y x then y # insert_by lt x ys else x # y # ys)"

lemma insert_by_takeWhile:
  "insert_by lt x ys =
     (let k = length (takeWhile (\<lambda>y. lt y x) ys) in take k ys @ x # drop k ys)"
  by (induction ys) (simp_all add: Let_def)

lemma mset_insert_by [simp]: "mset (insert_by lt x ys) = add_mset x (mset ys)"
  by (induction ys) auto

lemma set_insert_by [simp]: "set (insert_by lt x ys) = insert x (set ys)"
  by (induction ys) auto

lemma length_insert_by [simp]: "length (insert_by lt x ys) = Suc (length ys)"
  by (induction ys) auto

lemma insert_by_cong:
  "(\<And>y. y \<in> set ys \<Longrightarrow> lt y x = lt' y x) \<Longrightarrow> insert_by lt x ys = insert_by lt' x ys"
  by (induction ys) auto

lemma insert_ordered_array_elems:
  assumes ok: "oa_ok oa" and room: "unat (oa_size oa) < unat (max_size oa)"
    and lt: "less_than oa \<noteq> Null_Predicate"
  shows "\<exists>m'. insert_ordered_array item oa m = Inr (oa\<lparr>oa_size := oa_size oa + 1\<rparr>, m')
    \<and> elems m' (oa\<lparr>oa_size := oa_size oa + 1\<rparr>) =
        insert_by (call_less_than (less_than oa) m) item (elems m oa)
    \<and> only_in (oa_lo oa) (oa_hi oa) m m'"
proof -
  let ?n = "unat (oa_size oa)" and ?oa = "oa\<lparr>oa_size := oa_size oa + 1\<rparr>"
  let ?k = "length (takeWhile (\<lambda>x. call_less_than (less_than oa) m x item) (elems m oa))"
  have k: "?k \<le> ?n" using length_takeWhile_le [of _ "elems m oa"] by simp
  have pos: "insert_position m oa item 0 = of_nat ?k"
    by (simp add: insert_position_spec)
  have n': "unat (oa_size oa + 1) = Suc ?n"
    using room unat_Suc32 [of "oa_size oa" "max_size oa"] by (simp add: word_less_nat_alt)
  have uk: "unat (of_nat ?k :: u32) = ?k" using k unat_bound32 [of "oa_size oa"]
    by (intro unat_of_nat32) simp
  define m1 where "m1 = st32 m (elem_addr oa (of_nat ?k)) item"
  define m' where "m' = (if ?k = ?n then m1 else insert_shift oa (of_nat ?k) (cell m oa ?k) m1)"
  have kmax: "?k < unat (max_size oa)" using k room by simp
  have eq: "(of_nat ?k = oa_size oa) = (?k = ?n)"
    using uk by (metis of_nat_unat ucast_id)
  have run: "insert_ordered_array item oa m = Inr (?oa, m')"
    using lt eq by (auto simp: insert_ordered_array_def pos Let_def m'_def m1_def cell_def)
  have m1: "only_in (oa_lo oa) (oa_hi oa) m m1"
    unfolding m1_def by (rule only_in_elem [OF ok kmax only_in_refl])
  have c1: "cell m1 oa j = (if j = ?k then item else cell m oa j)" if "j < unat (max_size oa)" for j
    unfolding m1_def by (rule cell_st32 [OF ok that kmax])
  have shift: "only_in (oa_lo oa) (oa_hi oa) m1 m'
    \<and> (\<forall>j \<le> ?n. cell m' oa j = (if ?k < j then cell m oa (j - 1) else if j = ?k then item else cell m oa j))"
  proof (cases "?k = ?n")
    case True
    with c1 room show ?thesis by (auto simp: m'_def)
  next
    case False
    have le: "of_nat ?k \<le> oa_size oa" using uk k by (simp add: word_le_nat_alt)
    have cs: "cell m' oa j = (if ?k < j then cell m oa (j - 1) else if j = ?k then item else cell m oa j)"
      if "j \<le> ?n" for j
      using insert_shift_cells [OF ok room le, of m1 "cell m oa ?k"] False that c1 room uk
      by (auto simp: m'_def)
    with insert_shift_cells [OF ok room le, of m1 "cell m oa ?k"] False show ?thesis
      by (simp add: m'_def)
  qed
  have "elems m' ?oa = insert_by (call_less_than (less_than oa) m) item (elems m oa)"
  proof (rule nth_equalityI)
    show "length (elems m' ?oa) = length (insert_by (call_less_than (less_than oa) m) item (elems m oa))"
      by (simp add: n')
    fix j assume "j < length (elems m' ?oa)"
    then have j: "j \<le> ?n" by (simp add: n')
    have "elems m' ?oa ! j = cell m' oa j" using j by (simp add: n' cell_def elem_addr_def)
    also have "\<dots> = (if ?k < j then cell m oa (j - 1) else if j = ?k then item else cell m oa j)"
      using shift j by blast
    also have "\<dots> = insert_by (call_less_than (less_than oa) m) item (elems m oa) ! j"
      using j k by (auto simp: insert_by_takeWhile Let_def nth_append nth_Cons' less_imp_le)
    finally show "elems m' ?oa ! j = insert_by (call_less_than (less_than oa) m) item (elems m oa) ! j" .
  qed
  with run m1 shift show ?thesis by (blast intro: only_in_trans)
qed

lemma remove_ordered_array_elems:
  assumes ok: "oa_ok oa" and i: "i < oa_size oa"
  shows "elems (snd (remove_ordered_array i oa m)) (fst (remove_ordered_array i oa m)) =
      take (unat i) (elems m oa) @ drop (Suc (unat i)) (elems m oa)
    \<and> fst (remove_ordered_array i oa m) = oa\<lparr>oa_size := oa_size oa - 1\<rparr>
    \<and> only_in (oa_lo oa) (oa_hi oa) m (snd (remove_ordered_array i oa m))"
proof -
  let ?oa = "oa\<lparr>oa_size := oa_size oa - 1\<rparr>" and ?m = "remove_shift oa i m"
  have iu: "unat i < unat (oa_size oa)" using i by (simp add: word_less_nat_alt)
  then have n': "unat (oa_size oa - 1) = unat (oa_size oa) - 1"
    by (simp add: unat_sub32)
  note cells = remove_shift_cells [OF ok i, of m]
  have "elems ?m ?oa = take (unat i) (elems m oa) @ drop (Suc (unat i)) (elems m oa)"
  proof (rule nth_equalityI)
    fix j assume "j < length (elems ?m ?oa)"
    then have j: "j < unat (oa_size oa) - 1" by (simp add: n')
    then have "elems ?m ?oa ! j = cell ?m oa j" by (simp add: n' cell_def elem_addr_def)
    also have "\<dots> = (if unat i \<le> j then cell m oa (Suc j) else cell m oa j)"
      using cells j by blast
    finally show "elems ?m ?oa ! j = (take (unat i) (elems m oa) @ drop (Suc (unat i)) (elems m oa)) ! j"
      using j iu by (simp add: nth_append)
  qed (use n' iu in simp)
  with cells show ?thesis by (simp add: remove_ordered_array_def)
qed

subsection \<open>Order\<close>

text \<open>
  What the array relies on in a predicate: it is a strict order up to ties. The lemmas are
  proved here once and used for both predicates of the program.
\<close>

definition sorted_by :: "('a \<Rightarrow> 'a \<Rightarrow> bool) \<Rightarrow> 'a list \<Rightarrow> bool" where
  "sorted_by lt xs \<longleftrightarrow> sorted_wrt (\<lambda>a b. \<not> lt b a) xs"

lemma sorted_by_removed: "sorted_by lt xs \<Longrightarrow> sorted_by lt (take i xs @ drop (Suc i) xs)"
proof -
  assume "sorted_by lt xs"
  then have "sorted_wrt (\<lambda>a b. \<not> lt b a) (take i xs @ drop i xs)" by (simp add: sorted_by_def)
  then have "sorted_wrt (\<lambda>a b. \<not> lt b a) (take i xs)"
    and "\<forall>x \<in> set (take i xs). \<forall>y \<in> set (drop i xs). \<not> lt y x"
    unfolding sorted_wrt_append by blast+
  with \<open>sorted_by lt xs\<close> show ?thesis
    using set_drop_subset_set_drop [of i "Suc i" xs] sorted_wrt_drop [of _ xs "Suc i"]
    by (auto simp: sorted_by_def sorted_wrt_append)
qed

locale lessthan =
  fixes lt :: "'a \<Rightarrow> 'a \<Rightarrow> bool"
  assumes asym: "lt a b \<Longrightarrow> \<not> lt b a"
    and neg_trans: "\<not> lt a b \<Longrightarrow> \<not> lt b c \<Longrightarrow> \<not> lt a c"
begin

lemma insert_by_sorted: "sorted_by lt xs \<Longrightarrow> sorted_by lt (insert_by lt x xs)"
proof (induction xs)
  case (Cons y ys)
  then have IH: "sorted_by lt (insert_by lt x ys)" by (simp add: sorted_by_def)
  show ?case
  proof (cases "lt y x")
    case True
    with Cons.prems IH show ?thesis by (auto simp: sorted_by_def dest: asym)
  next
    case False
    with Cons.prems show ?thesis using neg_trans by (simp add: sorted_by_def) blast
  qed
qed (simp add: sorted_by_def)

text \<open>In a sorted list no later element is below an earlier one, so the first that fits is the least that fits.\<close>

lemma first_is_least:
  assumes "sorted_by lt xs" and "i < length xs" and "j < length xs" and "\<forall>k < i. \<not> P (xs ! k)" and "P (xs ! j)"
  shows "\<not> lt (xs ! j) (xs ! i)"
proof -
  from assms(4,5) have "i \<le> j" by (meson not_less)
  then show ?thesis using assms(1,3) asym
    by (cases "i = j") (auto simp: sorted_by_def sorted_wrt_iff_nth_less)
qed

end

interpretation standard: lessthan standard_lessthan_predicate
  by unfold_locales (auto simp: standard_lessthan_predicate_def)

interpretation header: lessthan "header_t_less_than m" for m
  by unfold_locales (auto simp: header_t_less_than_def)

lemma call_less_than_lessthan: "lt \<noteq> Null_Predicate \<Longrightarrow> lessthan (call_less_than lt m)"
  by (cases lt) (auto simp: lessthan_def standard_lessthan_predicate_def header_t_less_than_def)

subsection \<open>Properties\<close>

text \<open>
  C27: Inserting into an array with room succeeds, adds exactly the new item to its
  elements, keeps them sorted by the array's predicate (either of the program's two), and
  writes no memory outside the array.
\<close>

theorem insert_keeps_sorted:
  assumes "oa_ok oa" and "unat (oa_size oa) < unat (max_size oa)" and "less_than oa \<noteq> Null_Predicate"
    and "sorted_by (call_less_than (less_than oa) m) (elems m oa)"
  shows "\<exists>oa' m'. insert_ordered_array item oa m = Inr (oa', m') \<and> oa_ok oa'
    \<and> mset (elems m' oa') = add_mset item (mset (elems m oa))
    \<and> sorted_by (call_less_than (less_than oa) m) (elems m' oa')
    \<and> only_in (unat (array oa)) (unat (array oa) + 4 * unat (max_size oa)) m m'"
proof -
  from insert_ordered_array_elems [OF assms(1-3), of item m] obtain m'
    where m': "insert_ordered_array item oa m = Inr (oa\<lparr>oa_size := oa_size oa + 1\<rparr>, m')"
      "elems m' (oa\<lparr>oa_size := oa_size oa + 1\<rparr>) = insert_by (call_less_than (less_than oa) m) item (elems m oa)"
      "only_in (oa_lo oa) (oa_hi oa) m m'" by blast
  have "unat (oa_size oa + 1) = Suc (unat (oa_size oa))"
    using assms(2) by (intro unat_Suc32) (simp add: word_less_nat_alt)
  then have "oa_ok (oa\<lparr>oa_size := oa_size oa + 1\<rparr>)" using assms(1,2) by (simp add: oa_ok_def)
  moreover have "sorted_by (call_less_than (less_than oa) m) (elems m' (oa\<lparr>oa_size := oa_size oa + 1\<rparr>))"
    unfolding m'(2) using call_less_than_lessthan [OF assms(3)] assms(4)
    by (rule lessthan.insert_by_sorted)
  ultimately show ?thesis using m' by auto
qed

definition example_oa :: ordered_array_t where
  "example_oa = \<lparr>array = 0x1000, oa_size = 0, max_size = 8, less_than = Standard_Lessthan\<rparr>"

theorem insert_keeps_sorted_witness:
  "\<exists>oa' m'. insert_ordered_array 5 example_oa (\<lambda>_. 0) = Inr (oa', m') \<and> oa_ok oa'
    \<and> mset (elems m' oa') = {#5#}"
  using insert_keeps_sorted [of example_oa "\<lambda>_. 0" 5]
  by (auto simp: example_oa_def oa_ok_def elems_def sorted_by_def)

text \<open>
  C28: Removing the element at index \<open>i\<close> moves the later ones down by one, keeps the array
  sorted, shrinks it by one, and writes no memory outside the array.
\<close>

theorem remove_keeps_sorted:
  assumes "oa_ok oa" and "i < oa_size oa" and "remove_ordered_array i oa m = (oa', m')"
  shows "elems m' oa' = take (unat i) (elems m oa) @ drop (Suc (unat i)) (elems m oa)
    \<and> (sorted_by lt (elems m oa) \<longrightarrow> sorted_by lt (elems m' oa'))
    \<and> unat (oa_size oa') = unat (oa_size oa) - 1
    \<and> only_in (unat (array oa)) (unat (array oa) + 4 * unat (max_size oa)) m m'"
proof -
  have "unat (oa_size oa - 1) = unat (oa_size oa) - 1"
    using assms(2) by (simp add: unat_sub32 word_less_nat_alt)
  then show ?thesis
    using remove_ordered_array_elems [OF assms(1,2), of m] assms(3)
    by (auto intro: sorted_by_removed)
qed

theorem remove_keeps_sorted_witness:
  "elems (snd (remove_ordered_array 0 (example_oa\<lparr>oa_size := 2\<rparr>) (st32 (\<lambda>_. 0) 0x1004 9)))
     (fst (remove_ordered_array 0 (example_oa\<lparr>oa_size := 2\<rparr>) (st32 (\<lambda>_. 0) 0x1004 9))) = [9]"
  using remove_keeps_sorted [of "example_oa\<lparr>oa_size := 2\<rparr>" 0 "st32 (\<lambda>_. 0) 0x1004 9"]
  by (simp add: example_oa_def oa_ok_def elems_def cell_def elem_addr_def upt_rec)

text \<open>
  The two assertions of the array fire exactly when they should: an insertion stops
  only for a missing predicate, and a lookup stops exactly for an index that is not below
  the size; a lookup that returns gives the element and changes nothing.
\<close>

theorem array_assertions:
  "(insert_ordered_array item oa m = Inl h \<longleftrightarrow>
      less_than oa = Null_Predicate \<and> h = Assert_Failed ''array->less_than'')
   \<and> (lookup_ordered_array i oa m =
      (if unat i < unat (oa_size oa) then Inr (elems m oa ! unat i, m)
       else Inl (Assert_Failed ''i < array->size'')))"
  by (auto simp: insert_ordered_array_def lookup_ordered_array_def Let_def word_less_nat_alt cell_def)

text \<open>
  A freshly placed array is empty, describes the memory it was given, and that memory
  is zeroed byte by byte; the rest of memory is untouched.
\<close>

theorem place_ordered_array_fresh:
  assumes "place_ordered_array addr maxs lt m = (oa, m')"
  shows "elems m' oa = [] \<and> array oa = addr \<and> max_size oa = maxs \<and> less_than oa = lt
    \<and> (\<forall>x. m' x = (if unat (x - addr) < unat (maxs * 4) then 0 else m x))"
  using assms by (auto simp: place_ordered_array_def elems_def memset_apply)

theorem place_ordered_array_fresh_witness:
  "snd (place_ordered_array 0x1000 8 Standard_Lessthan (\<lambda>_. 7)) 0x101F = 0"
  using place_ordered_array_fresh [of "0x1000" 8 Standard_Lessthan "\<lambda>_. 7"]
  by (cases "place_ordered_array 0x1000 8 Standard_Lessthan (\<lambda>_. 7)") simp

end
