(* ===== verification/Printf.thy ===== *)
theory Printf
  imports Memory
begin

text \<open>
  \<open>printf.c\<close>: number conversion (\<open>ui2a\<close>, \<open>i2a\<close>, \<open>a2d\<close>, \<open>a2i\<close>), padding (\<open>putchw\<close>), the
  format interpreter \<open>tfp_format\<close> over an arbitrary character sink, and \<open>tfp_sprintf\<close>.
  Strings are byte lists without their NUL; the long variants are not compiled
  (\<open>PRINTF_LONG_SUPPORT\<close> is never defined).
\<close>

unbundle bit_operations_syntax

subsection \<open>Numbers to digits\<close>

text \<open>
  \<open>while (num/d >= base) d *= base;\<close> The static function is only called with the bases 10
  and 16; the guard \<open>1 < base\<close> is what makes the loop end.
\<close>

function ui2a_scale :: "u32 \<Rightarrow> u32 \<Rightarrow> u32 \<Rightarrow> u32" where
  "ui2a_scale num base d =
     (if 1 < base \<and> base \<le> num div d then ui2a_scale num base (d * base) else d)"
  by pat_completeness auto

lemma scale_step:
  fixes num base d :: u32
  assumes "1 < base" and "base \<le> num div d"
  shows "unat (d * base) = unat d * unat base" and "unat d * unat base \<le> unat num" and "0 < unat d"
proof -
  from assms have b: "1 < unat base" and q: "unat base \<le> unat num div unat d"
    by (simp_all add: word_less_nat_alt word_le_nat_alt unat_div)
  from b q show d: "0 < unat d" by (cases "unat d = 0") simp_all
  from q d show le: "unat d * unat base \<le> unat num"
    by (metis less_eq_div_iff_mult_less_eq mult.commute)
  with unat_bound32 [of num] show "unat (d * base) = unat d * unat base"
    by (simp add: unat_word_ariths)
qed

lemma scale_measure:
  fixes num base d :: u32
  assumes "1 < base" and "base \<le> num div d"
  shows "unat num - unat (d * base) < unat num - unat d"
proof -
  have "unat d * 1 < unat d * unat base"
    using scale_step(3) [OF assms] assms(1) by (simp add: word_less_nat_alt)
  with scale_step(2) [OF assms] show ?thesis
    unfolding scale_step(1) [OF assms] by linarith
qed

termination ui2a_scale
  by (relation "measure (\<lambda>(num, base, d). unat num - unat d)") (auto intro: scale_measure)

declare ui2a_scale.simps [simp del]

definition digit_char :: "bool \<Rightarrow> s32 \<Rightarrow> u8" where
  "digit_char uc dgt = ucast (dgt + (if dgt <s 10 then 48 else (if uc then 65 else 97) - 10))"

function ui2a_digits :: "u32 \<Rightarrow> u32 \<Rightarrow> bool \<Rightarrow> u32 \<Rightarrow> nat \<Rightarrow> u8 list" where
  "ui2a_digits num base uc d n =
     (if d = 0 \<or> base \<le> 1 then []
      else let dgt = num div d; num' = num mod d; d' = d div base in
        if n \<noteq> 0 \<or> 0 <s dgt \<or> d' = 0
        then digit_char uc dgt # ui2a_digits num' base uc d' (Suc n)
        else ui2a_digits num' base uc d' n)"
  by pat_completeness auto

lemma unat_div_less32: "d \<noteq> 0 \<Longrightarrow> \<not> base \<le> 1 \<Longrightarrow> unat (d div base) < unat d" for d base :: u32
  by (simp add: unat_div word_le_nat_alt unat_gt_0)

termination ui2a_digits
  by (relation "measure (\<lambda>(num, base, uc, d, n). unat d)") (auto intro: unat_div_less32)

declare ui2a_digits.simps [simp del]

definition ui2a :: "u32 \<Rightarrow> u32 \<Rightarrow> bool \<Rightarrow> u8 list" where
  "ui2a num base uc = ui2a_digits num base uc (ui2a_scale num base 1) 0"

definition i2a :: "s32 \<Rightarrow> u8 list" where
  "i2a num = (if num <s 0 then 45 # ui2a (- num) 10 False else ui2a num 10 False)"

subsection \<open>Digits to numbers\<close>

definition a2d :: "u8 \<Rightarrow> s32" where
  "a2d ch = (if 48 \<le> ch \<and> ch \<le> 57 then ucast ch - 48
     else if 97 \<le> ch \<and> ch \<le> 102 then ucast ch - 97 + 10
     else if 65 \<le> ch \<and> ch \<le> 70 then ucast ch - 65 + 10
     else - 1)"

text \<open>
  The result is the character that ended the number, the rest of the source and the
  number. Reading the NUL at the end of the source gives the character 0.
\<close>

fun a2i_loop :: "u8 \<Rightarrow> u8 list \<Rightarrow> s32 \<Rightarrow> s32 \<Rightarrow> u8 \<times> u8 list \<times> s32" where
  "a2i_loop ch [] base num =
     (if a2d ch <s 0 \<or> base <s a2d ch then (ch, [], num) else (0, [], num * base + a2d ch))"
| "a2i_loop ch (c # p) base num =
     (if a2d ch <s 0 \<or> base <s a2d ch then (ch, c # p, num)
      else a2i_loop c p base (num * base + a2d ch))"

definition a2i :: "u8 \<Rightarrow> u8 list \<Rightarrow> s32 \<Rightarrow> u8 \<times> u8 list \<times> s32" where
  "a2i ch src base = a2i_loop ch src base 0"

subsection \<open>Padding\<close>

fun putchw_width :: "s32 \<Rightarrow> u8 list \<Rightarrow> s32" where
  "putchw_width n [] = n"
| "putchw_width n (c # p) = (if 0 <s n then putchw_width (n - 1) p else n)"

function putchw_pad :: "(u8 \<Rightarrow> 's \<Rightarrow> 's) \<Rightarrow> u8 \<Rightarrow> s32 \<Rightarrow> 's \<Rightarrow> 's" where
  "putchw_pad putf fc n s = (if 0 <s n then putchw_pad putf fc (n - 1) (putf fc s) else s)"
  by pat_completeness auto

lemma sint_pred32: "0 <s n \<Longrightarrow> sint (n - 1) = sint n - 1" for n :: s32
  using sint_lt [of n] by (simp add: word_sless_alt sint_word_ariths signed_take_bit_int_eq_self)

termination putchw_pad
  by (relation "measure (\<lambda>(putf, fc, n, s). nat (sint n))") (auto simp: sint_pred32 word_sless_alt)

declare putchw_pad.simps [simp del]

definition putchw :: "(u8 \<Rightarrow> 's \<Rightarrow> 's) \<Rightarrow> s32 \<Rightarrow> bool \<Rightarrow> u8 list \<Rightarrow> 's \<Rightarrow> 's" where
  "putchw putf n z bf s =
     fold putf bf (putchw_pad putf (if z then 48 else 32) (putchw_width n bf) s)"

subsection \<open>The format interpreter\<close>

text \<open>
  Arguments are what the calls of the kernel pass: 32-bit values and strings. A conversion
  that finds the other kind, or no argument, reads the stack at a wrong type: \<open>Undefined\<close>.
\<close>

datatype va_arg = VInt u32 | VStr "u8 list"

fun next_char :: "u8 list \<Rightarrow> u8 \<times> u8 list" where
  "next_char [] = (0, [])"
| "next_char (c # cs) = (c, cs)"

text \<open>After a \<open>%\<close>: an optional 0, an optional width, and the conversion character.\<close>

definition parse_spec :: "u8 list \<Rightarrow> u8 \<times> bool \<times> s32 \<times> u8 list" where
  "parse_spec fmt =
     (let (ch, fmt) = next_char fmt;
          (lz, ch, fmt) = (if ch = 48 then (True, next_char fmt) else (False, ch, fmt));
          (ch, fmt, w) = (if 48 \<le> ch \<and> ch \<le> 57 then a2i ch fmt 10 else (ch, fmt, 0))
      in (ch, lz, w, fmt))"

definition emit_spec ::
  "(u8 \<Rightarrow> 's \<Rightarrow> 's) \<Rightarrow> u8 \<Rightarrow> bool \<Rightarrow> s32 \<Rightarrow> va_arg list \<Rightarrow> 's \<Rightarrow> halt + va_arg list \<times> 's" where
  "emit_spec putf ch lz w va s =
     (if ch = 117 \<comment> \<open>u\<close> then
        (case va of VInt n # va' \<Rightarrow> Inr (va', putchw putf w lz (ui2a n 10 False) s)
         | _ \<Rightarrow> Inl (Undefined ''va_arg''))
      else if ch = 100 \<comment> \<open>d\<close> then
        (case va of VInt n # va' \<Rightarrow> Inr (va', putchw putf w lz (i2a n) s)
         | _ \<Rightarrow> Inl (Undefined ''va_arg''))
      else if ch = 120 \<or> ch = 88 \<comment> \<open>x, X\<close> then
        (case va of VInt n # va' \<Rightarrow> Inr (va', putchw putf w lz (ui2a n 16 (ch = 88)) s)
         | _ \<Rightarrow> Inl (Undefined ''va_arg''))
      else if ch = 99 \<comment> \<open>c\<close> then
        (case va of VInt n # va' \<Rightarrow> Inr (va', putf (ucast n) s)
         | _ \<Rightarrow> Inl (Undefined ''va_arg''))
      else if ch = 115 \<comment> \<open>s\<close> then
        (case va of VStr bs # va' \<Rightarrow> Inr (va', putchw putf w False bs s)
         | _ \<Rightarrow> Inl (Undefined ''va_arg''))
      else if ch = 37 then Inr (va, putf ch s)
      else Inr (va, s))"

lemma next_char_length: "next_char fmt = (c, rest) \<Longrightarrow> length rest \<le> length fmt"
  by (cases fmt) auto

lemma a2i_loop_length: "a2i_loop ch p base num = (c, rest, w) \<Longrightarrow> length rest \<le> length p"
  by (induction ch p base num rule: a2i_loop.induct) (auto split: if_splits)

lemma parse_spec_length: "parse_spec fmt = (c, lz, w, rest) \<Longrightarrow> length rest \<le> length fmt"
  by (auto simp: parse_spec_def a2i_def Let_def split: prod.splits if_splits
      dest!: next_char_length a2i_loop_length)

function tfp_format ::
  "(u8 \<Rightarrow> 's \<Rightarrow> 's) \<Rightarrow> u8 list \<Rightarrow> va_arg list \<Rightarrow> ('s, unit) prog" where
  "tfp_format putf [] va s = Inr ((), s)"
| "tfp_format putf (ch # fmt) va s =
     (if ch \<noteq> 37 then tfp_format putf fmt va (putf ch s)
      else case parse_spec fmt of (c, lz, w, rest) \<Rightarrow>
        if c = 0 then Inr ((), s)
        else (case emit_spec putf c lz w va s of
          Inl h \<Rightarrow> Inl h
        | Inr (va', s') \<Rightarrow> tfp_format putf rest va' s'))"
  by pat_completeness auto
termination
  by (relation "measure (\<lambda>(putf, fmt, va, s). length fmt)")
    (auto dest: parse_spec_length[OF sym])

text \<open>The sink of \<open>tfp_sprintf\<close>: a moving pointer into memory.\<close>

definition putcp :: "u8 \<Rightarrow> u32 \<times> memory \<Rightarrow> u32 \<times> memory" where
  "putcp c pm = (fst pm + 1, st8 (snd pm) (fst pm) c)"

definition tfp_sprintf :: "u32 \<Rightarrow> u8 list \<Rightarrow> va_arg list \<Rightarrow> (memory, unit) prog" where
  "tfp_sprintf s fmt va m =
     (case tfp_format putcp fmt va (s, m) of
        Inl h \<Rightarrow> Inl h
      | Inr (_, pm) \<Rightarrow> Inr ((), snd (putcp 0 pm)))"

subsection \<open>Correctness of the number conversions\<close>

text \<open>The digits of \<open>N\<close> at the positions \<open>k, k - 1, \<dots>, 0\<close>.\<close>

fun digs :: "nat \<Rightarrow> nat \<Rightarrow> nat \<Rightarrow> nat list" where
  "digs b 0 N = [N]"
| "digs b (Suc k) N = N div b ^ Suc k # digs b k (N mod b ^ Suc k)"

lemma length_digs [simp]: "length (digs b k N) = Suc k"
  by (induction k arbitrary: N) auto

lemma digs_bound: "N < b ^ Suc k \<Longrightarrow> 0 < b \<Longrightarrow> \<forall>d \<in> set (digs b k N). d < b"
proof (induction k arbitrary: N)
  case (Suc k)
  from Suc.prems have "N div b ^ Suc k < b"
    by (simp add: less_mult_imp_div_less mult.commute)
  moreover have "\<forall>d \<in> set (digs b k (N mod b ^ Suc k)). d < b"
    using Suc.prems(2) by (intro Suc.IH) simp_all
  ultimately show ?case by simp
qed simp

lemma digs_value: "foldl (\<lambda>a d. a * b + d) a (digs b k N) = a * b ^ Suc k + N"
proof (induction k arbitrary: a N)
  case (Suc k)
  have "foldl (\<lambda>a d. a * b + d) a (digs b (Suc k) N)
      = (a * b + N div b ^ Suc k) * b ^ Suc k + N mod b ^ Suc k"
    by (simp only: digs.simps foldl.simps Suc.IH)
  also have "\<dots> = a * b ^ Suc (Suc k) + N"
    using div_mult_mod_eq [of N "b ^ Suc k"] by (simp add: algebra_simps)
  finally show ?case .
qed simp

text \<open>The scaling loop stops at the greatest power of the base below the number.\<close>

lemma ui2a_scale_power:
  assumes "1 < base" and "unat d = unat base ^ k" and "k = 0 \<or> unat base ^ k \<le> unat num"
  shows "\<exists>k. unat (ui2a_scale num base d) = unat base ^ k \<and> unat num < unat base ^ Suc k
    \<and> (k = 0 \<or> unat base ^ k \<le> unat num)"
  using assms
proof (induction num base d arbitrary: k rule: ui2a_scale.induct)
  case (1 num base d)
  have b: "1 < unat base" using 1(2) by (simp add: word_less_nat_alt)
  show ?case
  proof (cases "base \<le> num div d")
    case True
    with 1(2) have "unat (d * base) = unat base ^ Suc k" "unat base ^ Suc k \<le> unat num"
      using scale_step(1,2) [of base num d] 1(3) by (simp_all add: mult.commute)
    with 1(1) [of "Suc k"] True 1(2) show ?thesis by (simp add: ui2a_scale.simps [of num base d])
  next
    case False
    then have "unat num div unat base ^ k < unat base"
      by (simp add: word_le_nat_alt unat_div 1(3) not_le)
    with b have "unat num < unat base ^ Suc k"
      by (simp add: div_less_iff_less_mult mult.commute)
    with False 1 show ?thesis by (auto simp: ui2a_scale.simps [of num base d])
  qed
qed

lemma sless_nat32: "n < 2147483648 \<Longrightarrow> 0 <s (of_nat n :: u32) \<longleftrightarrow> 0 < n"
  by (simp add: word_sless_alt signed_of_nat signed_take_bit_int_eq_self)

lemma ui2a_digits_done [simp]: "ui2a_digits num base uc 0 n = []"
  by (subst ui2a_digits.simps) simp

text \<open>
  The digit loop. The guard that drops leading zeros never drops anything: the scale is
  the top digit's weight, so the first digit is not 0.
\<close>

lemma ui2a_digits_digs:
  assumes "1 < base" and "unat base \<le> 16" and "unat d = unat base ^ k"
    and "unat num < unat base ^ Suc k" and "n \<noteq> 0 \<or> k = 0 \<or> unat base ^ k \<le> unat num"
  shows "ui2a_digits num base uc d n = map (\<lambda>v. digit_char uc (of_nat v)) (digs (unat base) k (unat num))"
  using assms
proof (induction k arbitrary: num d n)
  case 0
  then have d: "d = 1" by (simp add: word_unat_eq_iff)
  from 0(1) have "base \<noteq> 1" by auto
  have "ui2a_digits num base uc 1 n = [digit_char uc num]"
    using 0(1) \<open>base \<noteq> 1\<close> by (subst ui2a_digits.simps) (simp add: Let_def not_le)
  with d show ?case by simp
next
  case (Suc k)
  let ?b = "unat base"
  have b: "1 < ?b" using Suc.prems(1) by (simp add: word_less_nat_alt)
  have dgt: "unat num div ?b ^ Suc k < 16"
    by (rule less_le_trans [OF less_mult_imp_div_less Suc.prems(2)])
      (use Suc.prems(4) in \<open>simp only: power_Suc\<close>)
  have d: "d \<noteq> 0" using Suc.prems(3) b by auto
  have d': "unat (d div base) = ?b ^ k" using Suc.prems(3) b by (simp add: unat_div)
  have m: "unat (num mod d) = unat num mod ?b ^ Suc k" using Suc.prems(3) by (simp add: unat_mod)
  have q: "num div d = of_nat (unat num div ?b ^ Suc k)"
    unfolding Suc.prems(3) [symmetric] unat_div [symmetric] by simp
  have go: "n \<noteq> 0 \<or> 0 <s num div d"
    using Suc.prems(5) dgt b unfolding q by (auto simp: sless_nat32 div_greater_zero_iff)
  have rest: "ui2a_digits (num mod d) base uc (d div base) (Suc n)
      = map (\<lambda>v. digit_char uc (of_nat v)) (digs ?b k (unat num mod ?b ^ Suc k))"
    using Suc.IH [of "d div base" "num mod d" "Suc n"] Suc.prems(1,2) d' m b by simp
  have "\<not> (d = 0 \<or> base \<le> 1)" using d Suc.prems(1) by (simp add: not_le)
  with go have "ui2a_digits num base uc d n
      = digit_char uc (num div d) # ui2a_digits (num mod d) base uc (d div base) (Suc n)"
    by (subst ui2a_digits.simps) (simp only: Let_def if_False if_True, metis)
  then show ?case by (simp only: rest q digs.simps list.map)
qed

lemma ui2a_digs:
  assumes "1 < base" and "unat base \<le> 16"
  shows "\<exists>k. ui2a num base uc = map (\<lambda>v. digit_char uc (of_nat v)) (digs (unat base) k (unat num))
    \<and> unat num < unat base ^ Suc k \<and> (k = 0 \<or> unat base ^ k \<le> unat num)"
proof -
  from ui2a_scale_power [of base 1 0 num] assms(1) obtain k
    where "unat (ui2a_scale num base 1) = unat base ^ k" "unat num < unat base ^ Suc k"
      "k = 0 \<or> unat base ^ k \<le> unat num" by auto
  with ui2a_digits_digs [OF assms, of "ui2a_scale num base 1" k num 0] show ?thesis
    by (auto simp: ui2a_def)
qed

lemma a2d_digit_char:
  assumes "v < 16" shows "a2d (digit_char uc (of_nat v)) = of_nat v"
proof -
  have "list_all (\<lambda>v. a2d (digit_char True (of_nat v)) = of_nat v
      \<and> a2d (digit_char False (of_nat v)) = of_nat v) [0..<16]"
    by (simp add: upt_rec a2d_def digit_char_def word_sless_alt)
  with assms show ?thesis by (cases uc) (auto simp: list_all_iff)
qed

lemma of_nat_not_sless_zero: "v < 16 \<Longrightarrow> \<not> (of_nat v :: s32) <s 0"
  by (simp add: word_sless_alt signed_of_nat signed_take_bit_int_eq_self)

lemma of_nat_sless16:
  "v < 16 \<Longrightarrow> b < 17 \<Longrightarrow> (of_nat b :: s32) <s of_nat v \<longleftrightarrow> b < v"
  by (simp add: word_sless_alt signed_of_nat signed_take_bit_int_eq_self)

text \<open>Reading digits back: \<open>a2i\<close> accumulates them and stops behind the last one.\<close>

lemma a2i_loop_digits:
  assumes "\<forall>d \<in> set ds. d < b" and "b \<le> 16"
    and "a2d c <s 0 \<or> of_nat b <s a2d c"
  shows "a2i_loop (hd (map (\<lambda>v. digit_char uc (of_nat v)) ds @ [c]))
     (tl (map (\<lambda>v. digit_char uc (of_nat v)) ds @ [c]) @ rest) (of_nat b) (of_nat a)
   = (c, rest, of_nat (foldl (\<lambda>a d. a * b + d) a ds))"
  using assms(1)
proof (induction ds arbitrary: a)
  case Nil
  with assms(3) show ?case by (cases rest) simp_all
next
  case (Cons d ds)
  from Cons.prems assms(2) have d: "d < 16" "\<not> (of_nat b :: s32) <s of_nat d"
    by (auto simp: of_nat_sless16)
  note IH = Cons.IH [of "a * b + d"]
  have d': "\<not> a2d (digit_char uc (of_nat d)) <s 0" "\<not> of_nat b <s a2d (digit_char uc (of_nat d))"
    using d by (simp_all add: a2d_digit_char of_nat_not_sless_zero)
  show ?case
    using IH Cons.prems d' d(1)
    by (cases ds) (simp_all add: a2d_digit_char)
qed

abbreviation digits_base :: "u32 \<Rightarrow> bool" where
  "digits_base base \<equiv> base = 10 \<or> base = 16"

lemma ui2a_shape:
  assumes "digits_base base"
  obtains ds where "ui2a num base uc = map (\<lambda>v. digit_char uc (of_nat v)) ds" "ds \<noteq> []"
    "\<forall>d \<in> set ds. d < unat base" "foldl (\<lambda>a d. a * unat base + d) 0 ds = unat num"
    "length ds \<le> (if base = 10 then 10 else 8)" "0 < unat num \<Longrightarrow> 0 < hd ds"
proof -
  from assms have b: "1 < base" "unat base \<le> 16" "1 < unat base" by auto
  from ui2a_digs [OF b(1,2)] obtain k
    where k: "ui2a num base uc = map (\<lambda>v. digit_char uc (of_nat v)) (digs (unat base) k (unat num))"
      "unat num < unat base ^ Suc k" "k = 0 \<or> unat base ^ k \<le> unat num" by blast
  have "k \<le> (if base = 10 then 9 else 7)"
  proof (rule ccontr)
    assume "\<not> k \<le> (if base = 10 then 9 else 7)"
    then have "Suc (if base = 10 then 9 else 7) \<le> k" by simp
    with b(3) have "unat base ^ Suc (if base = 10 then 9 else 7) \<le> unat base ^ k"
      by (intro power_increasing) simp_all
    moreover have "unat base ^ k \<le> unat num" using k(3) \<open>\<not> k \<le> _\<close> by auto
    ultimately show False using assms unat_bound32 [of num] by auto
  qed
  moreover have "0 < hd (digs (unat base) k (unat num))" if "0 < unat num"
    using that k(3) b(3) by (cases k) (auto simp: div_greater_zero_iff)
  ultimately show ?thesis
    using k b digs_bound [OF k(2)] digs_value [of "unat base" 0 k "unat num"]
    by (intro that [of "digs (unat base) k (unat num)"]) auto
qed

text \<open>\<open>a2i\<close> reads back what \<open>ui2a\<close> printed, up to a character that is no digit.\<close>

lemma a2i_reads_ui2a:
  assumes "digits_base base" and "a2d c <s 0 \<or> base <s a2d c"
  shows "a2i (hd (ui2a n base uc @ [c])) (tl (ui2a n base uc @ [c]) @ rest) base = (c, rest, n)"
proof (rule ui2a_shape [OF assms(1), of n uc])
  fix ds
  assume ds: "ui2a n base uc = map (\<lambda>v. digit_char uc (of_nat v)) ds"
    "\<forall>d \<in> set ds. d < unat base" "foldl (\<lambda>a d. a * unat base + d) 0 ds = unat n"
  from assms(1) have "unat base \<le> 16" by auto
  from a2i_loop_digits [OF ds(2) this, of c uc rest 0, unfolded ds(3)] assms(2) show ?thesis
    unfolding a2i_def ds(1) by simp
qed

subsection \<open>Padding and the sink\<close>

lemma putchw_width_sint:
  "sint (putchw_width n bf) = (if 0 < sint n then max 0 (sint n - int (length bf)) else sint n)"
proof (induction n bf rule: putchw_width.induct)
  case (2 n c p)
  then show ?case using sint_pred32 [of n] by (auto simp: word_sless_alt)
qed auto

lemma putchw_pad_fold: "putchw_pad putf fc n s = fold putf (replicate (nat (sint n)) fc) s"
proof (induction putf fc n s rule: putchw_pad.induct)
  case (1 putf fc n s)
  show ?case
  proof (cases "0 <s n")
    case True
    then have "nat (sint n) = Suc (nat (sint (n - 1)))"
      by (simp add: sint_pred32 word_sless_alt)
    with 1 True show ?thesis by (subst putchw_pad.simps) simp
  next
    case False
    then show ?thesis by (subst putchw_pad.simps) (simp add: word_sless_alt)
  qed
qed

definition padded :: "s32 \<Rightarrow> bool \<Rightarrow> u8 list \<Rightarrow> u8 list" where
  "padded n z bf = replicate (nat (sint n) - length bf) (if z then 48 else 32) @ bf"

lemma putchw_padded: "putchw putf n z bf s = fold putf (padded n z bf) s"
proof -
  have "nat (sint (putchw_width n bf)) = nat (sint n) - length bf"
    by (auto simp: putchw_width_sint nat_diff_distrib)
  then show ?thesis by (simp add: putchw_def putchw_pad_fold padded_def)
qed

text \<open>The sink only sees characters, one after the other.\<close>

lemma emit_spec_fold:
  "emit_spec putf ch lz w va (fold putf cs s) =
     (case emit_spec (\<lambda>c cs. cs @ [c]) ch lz w va cs of
        Inl h \<Rightarrow> Inl h | Inr (va', cs') \<Rightarrow> Inr (va', fold putf cs' s))"
proof -
  have app: "fold (\<lambda>c cs. cs @ [c]) bs cs = cs @ bs" for bs cs :: "u8 list"
    by (induction bs arbitrary: cs) simp_all
  show ?thesis
    by (simp add: emit_spec_def putchw_padded app split: list.split va_arg.split)
qed

lemma tfp_format_fold:
  "tfp_format putf fmt va (fold putf cs s) =
     (case tfp_format (\<lambda>c cs. cs @ [c]) fmt va cs of
        Inl h \<Rightarrow> Inl h | Inr (_, cs') \<Rightarrow> Inr ((), fold putf cs' s))"
proof (induction "\<lambda>(c :: u8) cs. cs @ [c]" fmt va cs rule: tfp_format.induct)
  case (1 va cs)
  show ?case by simp
next
  case (2 ch fmt va cs)
  obtain c lz w rest where ps: "parse_spec fmt = (c, lz, w, rest)" by (metis prod_cases4)
  show ?case
  proof (cases "ch = 37")
    case False
    with 2(1) show ?thesis by simp
  next
    case True
    show ?thesis
    proof (cases "emit_spec (\<lambda>c cs. cs @ [c]) c lz w va cs")
      case (Inl h)
      with True ps show ?thesis by (simp add: emit_spec_fold)
    next
      case (Inr r)
      with True ps 2(2) [of c _ lz _ w rest] show ?thesis
        by (cases r) (auto simp: emit_spec_fold)
    qed
  qed
qed


definition format_out :: "u8 list \<Rightarrow> va_arg list \<Rightarrow> halt + u8 list" where
  "format_out fmt va =
     (case tfp_format (\<lambda>c cs. cs @ [c]) fmt va [] of Inl h \<Rightarrow> Inl h | Inr (_, cs) \<Rightarrow> Inr cs)"

lemma tfp_format_out:
  "tfp_format putf fmt va s =
     (case format_out fmt va of Inl h \<Rightarrow> Inl h | Inr cs \<Rightarrow> Inr ((), fold putf cs s))"
  using tfp_format_fold [of putf fmt va "[]" s]
  by (auto simp: format_out_def split: sum.splits)

locale char_sink =
  fixes putf :: "u8 \<Rightarrow> 's \<Rightarrow> 's"
    and got :: "'s \<Rightarrow> u8 list \<Rightarrow> bool"
  assumes put: "got s cs \<Longrightarrow> got (putf c s) (cs @ [c])"
begin

lemma got_fold: "got s cs \<Longrightarrow> got (fold putf ds s) (cs @ ds)"
proof (induction ds arbitrary: s cs)
  case (Cons d ds)
  from Cons.IH [OF put [OF Cons.prems]] show ?case by simp
qed simp

lemma got_format:
  assumes "got s []" and "format_out fmt va = Inr out"
  shows "\<exists>s'. tfp_format putf fmt va s = Inr ((), s') \<and> got s' out"
  using got_fold [OF assms(1), of out] assms(2) by (simp add: tfp_format_out)

end

definition buffer_got :: "u32 \<Rightarrow> memory \<Rightarrow> u32 \<times> memory \<Rightarrow> u8 list \<Rightarrow> bool" where
  "buffer_got b m0 pm cs \<longleftrightarrow> pm = (b + of_nat (length cs), st_bytes m0 b cs)"

interpretation buffer: char_sink putcp "buffer_got b m0" for b m0
  by unfold_locales (simp add: buffer_got_def putcp_def st_bytes_snoc add.assoc add.commute [of 1])

lemma format_out_d: "format_out (cstr ''%d'') [VInt n] = Inr (i2a n)"
proof -
  have "fold (\<lambda>c cs. cs @ [c]) bs [] = bs" for bs :: "u8 list"
    by (induction bs rule: rev_induct) simp_all
  then show ?thesis
    by (simp add: format_out_def cstr_def parse_spec_def emit_spec_def putchw_padded padded_def)
qed

subsection \<open>Properties\<close>

text \<open>
  C30: Printing a 32-bit number with \<open>ui2a\<close> in base 10 or 16 and reading it back with
  \<open>a2i\<close> gives the same number, and leaves the character behind the digits and the rest
  of the source unread.
\<close>

theorem a2i_ui2a:
  assumes "digits_base base" and "a2d c <s 0 \<or> base <s a2d c"
  shows "a2i (hd (ui2a n base uc @ [c])) (tl (ui2a n base uc @ [c]) @ rest) base = (c, rest, n)"
  using assms by (rule a2i_reads_ui2a)

theorem a2i_ui2a_witness:
  "a2i (hd (ui2a 4711 10 False @ [117])) (tl (ui2a 4711 10 False @ [117]) @ cstr ''!'') 10
     = (117, cstr ''!'', 4711)"
  by (rule a2i_ui2a) (simp_all add: a2d_def word_sless_alt)

text \<open>
  The numbers the format interpreter prints fit its stack buffer \<open>char bf[12]\<close>, NUL
  included: at most ten decimal digits, eight hexadecimal digits, eleven characters with
  a sign.
\<close>

theorem ui2a_length:
  "length (ui2a n 10 uc) \<le> 10 \<and> length (ui2a n 16 uc) \<le> 8 \<and> length (i2a n) + 1 \<le> 12"
proof -
  have d: "length (ui2a n 10 uc) \<le> 10" for n uc
    by (rule ui2a_shape [of 10 n uc]) simp_all
  have x: "length (ui2a n 16 uc) \<le> 8" for n uc
    by (rule ui2a_shape [of 16 n uc]) simp_all
  show ?thesis using d [of n uc] d [of n False] d [of "- n" False] x by (simp add: i2a_def)
qed

text \<open>
  C31: \<open>tfp_sprintf\<close> writes exactly the formatted characters and a NUL to the buffer, in
  order, and changes no other byte.
\<close>

theorem tfp_sprintf_writes:
  assumes "format_out fmt va = Inr out"
  shows "tfp_sprintf s fmt va m = Inr ((), st_bytes m s (out @ [0]))"
proof -
  have "buffer_got s m (s, m) []" by (simp add: buffer_got_def)
  from buffer.got_format [OF this assms] show ?thesis
    by (auto simp: tfp_sprintf_def buffer_got_def putcp_def st_bytes_snoc)
qed

theorem tfp_sprintf_writes_witness:
  "tfp_sprintf 0x1000 (cstr ''%d'') [VInt 50] (\<lambda>_. 7) = Inr ((), st_bytes (\<lambda>_. 7) 0x1000 (i2a 50 @ [0]))"
  by (rule tfp_sprintf_writes) (rule format_out_d)

text \<open>
  A decimal field width in a format, printed in canonical form, is parsed to its
  value, with zero padding exactly when a 0 precedes it, and the conversion character
  behind it is the one acted on.
\<close>

theorem parse_spec_width:
  assumes "w \<noteq> 0" and "a2d c <s 0 \<or> 10 <s a2d c"
  shows "parse_spec (ui2a w 10 False @ c # rest) = (c, False, w, rest)
    \<and> parse_spec (48 # ui2a w 10 False @ c # rest) = (c, True, w, rest)"
proof -
  obtain d ds where u: "ui2a w 10 False = d # ds" and d: "48 < d" "d \<le> 57"
  proof (rule ui2a_shape [of 10 w False])
    fix vs
    assume vs: "ui2a w 10 False = map (\<lambda>v. digit_char False (of_nat v)) vs" "vs \<noteq> []"
      "\<forall>d \<in> set vs. d < unat (10 :: u32)" "0 < unat w \<Longrightarrow> 0 < hd vs"
    from vs(2) obtain v vs' where v: "vs = v # vs'" by (cases vs) auto
    from vs(3,4) v assms(1) have "v \<in> set [1..<10]" by (auto simp: unat_gt_0)
    moreover have "list_all (\<lambda>v. 48 < digit_char False (of_nat v) \<and> digit_char False (of_nat v) \<le> 57) [1..<10]"
      by (simp add: upt_rec digit_char_def word_sless_alt)
    ultimately show ?thesis using vs(1) v that by (auto simp: list_all_iff)
  qed simp_all
  from a2i_reads_ui2a [of 10 c w False rest] assms(2) u
  have "a2i d (ds @ c # rest) 10 = (c, rest, w)" by simp
  with d show ?thesis by (auto simp: parse_spec_def u)
qed

theorem parse_spec_width_witness:
  "parse_spec (ui2a 8 10 False @ 120 # cstr ''!'') = (120, False, 8, cstr ''!'')
    \<and> parse_spec (48 # ui2a 8 10 False @ 120 # cstr ''!'') = (120, True, 8, cstr ''!'')"
  by (rule parse_spec_width) (simp_all add: a2d_def word_sless_alt)

text \<open>
  A conversion pads to its field width: \<open>putchw\<close> emits the missing characters
  (zeros or spaces) and then the whole text, and a text longer than the width in full.
\<close>

theorem putchw_emits:
  "putchw putf n z bf s =
     fold putf (replicate (nat (sint n) - length bf) (if z then 48 else 32) @ bf) s"
  by (simp add: putchw_padded padded_def)

text \<open>
  The digit loop of \<open>a2i\<close> stops at a digit greater than the base, not at one equal to it,
  so in a decimal width the letter \<open>a\<close> counts as the digit 10.
\<close>

lemma parse_spec_takes_hex_digit: "parse_spec (cstr ''1ad'') = (100, False, 20, [])"
  by (simp add: parse_spec_def cstr_def a2i_def a2d_def word_sless_alt)

end
