(* ===== verification/Keyboard.thy ===== *)
theory Keyboard
  imports Prelude
begin

text \<open>
  \<open>keyboard.c\<close>: the scan code tables, the modifier state and the translation of a scan
  code to ASCII. The port read and the echo to the screen are in \<open>Interrupts\<close>.
\<close>

unbundle bit_operations_syntax

record kbd_state =
  CapLocks :: u8
  ShiftL :: u8
  ShiftR :: u8

text \<open>The initialisers of the two tables; C fills them with zeros up to 128 entries.\<close>

definition kbdus1 :: "u8 list" where
  "kbdus1 = [
    0, 27, 49, 50, 51, 52, 53, 54, 55, 56, 57, 48, 45, 61, 8,
    9, 113, 119, 101, 114, 116, 121, 117, 105, 111, 112, 91, 93, 10, 0,
    97, 115, 100, 102, 103, 104, 106, 107, 108, 59, 39, 96, 0, 92, 122,
    120, 99, 118, 98, 110, 109, 44, 46, 47, 0, 42, 0, 32, 0, 0,
    0, 0, 0, 0, 0, 0, 0, 0, 0, 0, 0, 0, 0, 0, 45,
    0, 0, 0, 43, 0, 0, 0, 0, 0, 0, 0, 0, 0, 0, 0] @ replicate 38 0"

definition kbdus2 :: "u8 list" where
  "kbdus2 = [
    0, 27, 33, 64, 35, 36, 37, 94, 38, 42, 40, 41, 95, 43, 8,
    0, 81, 87, 69, 82, 84, 89, 85, 73, 79, 80, 123, 125, 10, 0,
    65, 83, 68, 70, 71, 72, 74, 75, 76, 58, 34, 126, 0, 92, 90,
    88, 67, 86, 66, 78, 77, 60, 62, 63, 0, 42, 0, 32, 0, 0,
    0, 0, 0, 0, 0, 0, 0, 0, 0, 0, 0, 0, 0, 0, 45,
    0, 0, 0, 43, 0, 0, 0, 0, 0, 0, 0, 0, 0, 0, 0] @ replicate 38 0"

definition CapsRelease :: u8 where "CapsRelease = 0xBA"
definition leftShift :: u8 where "leftShift = 0x2A"
definition rightShift :: u8 where "rightShift = 0x36"
definition leftShiftRelease :: u8 where "leftShiftRelease = 0xAA"
definition rightShiftRelease :: u8 where "rightShiftRelease = 0xB6"

text \<open>\<open>int magicNum = 'a' - 'A'\<close>.\<close>

definition magicNum :: u8 where "magicNum = 97 - 65"

definition toUpperCase :: "u8 \<Rightarrow> u8" where
  "toUpperCase character = character - magicNum"

definition toLowerCase :: "u8 \<Rightarrow> u8" where
  "toLowerCase character = character + magicNum"

definition convertToAscii :: "u8 \<Rightarrow> kbd_state \<Rightarrow> u8 \<times> kbd_state" where
  "convertToAscii code k =
     (if code = CapsRelease then (0, k\<lparr>CapLocks := (if CapLocks k = 0 then 1 else 0)\<rparr>)
      else if code = leftShift then (0, k\<lparr>ShiftL := 1\<rparr>)
      else if code = leftShiftRelease then (0, k\<lparr>ShiftL := 0\<rparr>)
      else if code = rightShift then (0, k\<lparr>ShiftR := 1\<rparr>)
      else if code = rightShiftRelease then (0, k\<lparr>ShiftR := 0\<rparr>)
      else if 0x7F < code then (0, k)
      else if ShiftL k \<noteq> 0 \<or> ShiftR k \<noteq> 0 then (kbdus2 ! unat (code AND 0x7F), k)
      else
        let temp = kbdus1 ! unat (code AND 0x7F) in
        if CapLocks k \<noteq> 0 \<and> (ShiftL k \<noteq> 0 \<or> ShiftR k \<noteq> 0) then (temp, k)
        else if CapLocks k \<noteq> 0 \<or> ShiftL k \<noteq> 0 \<or> ShiftR k \<noteq> 0 then
          (if temp = 0 then (temp, k) else (toUpperCase temp, k))
        else (temp, k))"

text \<open>A run of the decoder over a sequence of scan codes: the characters echoed, and the state.\<close>

fun convert_all :: "u8 list \<Rightarrow> kbd_state \<Rightarrow> u8 list \<times> kbd_state" where
  "convert_all [] k = ([], k)"
| "convert_all (c # cs) k =
     (let (ch, k') = convertToAscii c k; (chs, k'') = convert_all cs k' in
      (if ch = 0 then chs else ch # chs, k''))"

lemmas scan_codes = CapsRelease_def leftShift_def leftShiftRelease_def rightShift_def rightShiftRelease_def

definition modifier :: "u8 \<Rightarrow> bool" where
  "modifier code \<longleftrightarrow> code \<in> {CapsRelease, leftShift, leftShiftRelease, rightShift, rightShiftRelease}"

lemma convert_state:
  "snd (convertToAscii code k) =
    \<lparr>CapLocks = (if code = CapsRelease then if CapLocks k = 0 then 1 else 0 else CapLocks k),
     ShiftL = (if code = leftShift then 1 else if code = leftShiftRelease then 0 else ShiftL k),
     ShiftR = (if code = rightShift then 1 else if code = rightShiftRelease then 0 else ShiftR k)\<rparr>"
  by (simp add: convertToAscii_def scan_codes Let_def)

lemma convert_all_state:
  "snd (convert_all (c # cs) k) = snd (convert_all cs (snd (convertToAscii c k)))"
  by (simp add: Let_def split: prod.splits)

definition letter_code :: "u8 \<Rightarrow> bool" where
  "letter_code code \<longleftrightarrow> code \<le> 0x7F \<and> 97 \<le> kbdus1 ! unat code \<and> kbdus1 ! unat code \<le> 122"

lemma letter_tables:
  "list_all (\<lambda>i. 97 \<le> kbdus1 ! i \<and> kbdus1 ! i \<le> 122 \<longrightarrow>
      kbdus2 ! i = toUpperCase (kbdus1 ! i) \<and> toLowerCase (kbdus2 ! i) = kbdus1 ! i
      \<and> i \<noteq> 42 \<and> i \<noteq> 54 \<and> kbdus2 ! i \<noteq> 0) [0..<128]"
  by (simp add: upt_rec kbdus1_def kbdus2_def toUpperCase_def toLowerCase_def magicNum_def)

lemma and_7F: "code AND 0x7F = code" if "code \<le> 0x7F" for code :: u8
proof -
  have "code AND 0x7F = take_bit 7 code"
    by (simp add: take_bit_eq_mask mask_eq_exp_minus_1)
  also from that have "\<dots> = code"
    by (simp add: word_unat_eq_iff unsigned_take_bit_eq take_bit_nat_eq_self word_le_nat_alt)
  finally show ?thesis .
qed

lemma letter_code_table:
  assumes "letter_code code"
  shows "kbdus2 ! unat code = toUpperCase (kbdus1 ! unat code)" "toLowerCase (kbdus2 ! unat code) = kbdus1 ! unat code"
    "\<not> modifier code" "\<not> 0x7F < code" "code AND 0x7F = code" "kbdus1 ! unat code \<noteq> 0"
proof -
  from assms have r: "unat code \<in> set [0..<128]" "code \<le> 0x7F"
    and l: "97 \<le> kbdus1 ! unat code \<and> kbdus1 ! unat code \<le> 122"
    by (auto simp: letter_code_def word_le_nat_alt)
  from letter_tables r(1) l have t: "kbdus2 ! unat code = toUpperCase (kbdus1 ! unat code)"
      "toLowerCase (kbdus2 ! unat code) = kbdus1 ! unat code" "unat code \<noteq> 42" "unat code \<noteq> 54"
    by (auto simp: list_all_iff)
  then show "kbdus2 ! unat code = toUpperCase (kbdus1 ! unat code)" "toLowerCase (kbdus2 ! unat code) = kbdus1 ! unat code"
    by simp_all
  from t(3,4) r(2) show "\<not> modifier code"
    by (auto simp: modifier_def scan_codes)
  from r(2) show "\<not> 0x7F < code" by simp
  from r(2) show "code AND 0x7F = code"
    by (rule and_7F)
  from l show "kbdus1 ! unat code \<noteq> 0" by auto
qed

subsection \<open>Properties\<close>

text \<open>
  C38: A letter key gives the lower-case letter of the first table when no modifier is on,
  and the same upper-case letter whether it is caps lock or a shift key that is on.
\<close>

theorem letter_case:
  assumes "letter_code code"
  shows "fst (convertToAscii code k) =
      (if CapLocks k = 0 \<and> ShiftL k = 0 \<and> ShiftR k = 0
       then kbdus1 ! unat code else kbdus2 ! unat code)
    \<and> toLowerCase (kbdus2 ! unat code) = kbdus1 ! unat code"
  using letter_code_table [OF assms]
  by (auto simp: convertToAscii_def modifier_def Let_def)

theorem letter_case_witness:
  "fst (convertToAscii 0x1E \<lparr>CapLocks = 1, ShiftL = 0, ShiftR = 0\<rparr>) = 65"
  using letter_case [of "0x1E" "\<lparr>CapLocks = 1, ShiftL = 0, ShiftR = 0\<rparr>"]
  by (simp add: letter_code_def kbdus1_def kbdus2_def)

text \<open>The last event of a key decides its flag; without an event the flag keeps its value.\<close>

definition last_event :: "u8 \<Rightarrow> u8 \<Rightarrow> u8 \<Rightarrow> u8 list \<Rightarrow> u8" where
  "last_event press release v cs =
     (let es = filter (\<lambda>c. c = press \<or> c = release) cs in
      if es = [] then v else if last es = press then 1 else 0)"

lemma last_event_Cons:
  "last_event press release v (c # cs) =
     last_event press release (if c = press then 1 else if c = release then 0 else v) cs"
  by (simp add: last_event_def)

text \<open>
  The modifier state tracks the keys held: after any sequence of scan codes a shift
  flag is 1 when the last event of that key was its press, 0 when it was its release, and
  unchanged when there was none; and caps lock is toggled by every release of its key.
\<close>

theorem modifiers_track:
  "ShiftL (snd (convert_all cs k)) = last_event leftShift leftShiftRelease (ShiftL k) cs
   \<and> ShiftR (snd (convert_all cs k)) = last_event rightShift rightShiftRelease (ShiftR k) cs
   \<and> (CapLocks (snd (convert_all cs k)) = 0) =
      (CapLocks k = 0 \<longleftrightarrow> even (count_list cs CapsRelease))"
proof (induction cs arbitrary: k)
  case Nil
  show ?case by (simp add: last_event_def)
next
  case (Cons c cs)
  show ?case
    unfolding convert_all_state last_event_Cons convert_state
    using Cons.IH [of "snd (convertToAscii c k)", unfolded convert_state] by auto
qed

text \<open>
  Only plain key presses are echoed: a modifier code or a release code yields the
  character 0, which \<open>echo_keyboard\<close> drops, and a plain key press never changes the
  modifier state.
\<close>

theorem echo_only_presses:
  "(fst (convertToAscii code k) \<noteq> 0 \<longrightarrow> \<not> modifier code \<and> code \<le> 0x7F)
   \<and> (\<not> modifier code \<longrightarrow> snd (convertToAscii code k) = k)"
  by (auto simp: convertToAscii_def modifier_def Let_def not_less)

theorem echo_only_presses_witness:
  "snd (convertToAscii 0x10 \<lparr>CapLocks = 0, ShiftL = 0, ShiftR = 0\<rparr>)
     = \<lparr>CapLocks = 0, ShiftL = 0, ShiftR = 0\<rparr>"
  using echo_only_presses [of "0x10" "\<lparr>CapLocks = 0, ShiftL = 0, ShiftR = 0\<rparr>"]
  by (simp add: modifier_def scan_codes)

text \<open>
  Caps lock shifts every character of the first table down by 32, not only letters: with
  it on, the key 1 gives the control character 17 and the key of \<open>;\<close> gives 27.
\<close>

lemma caps_lock_digit:
  "fst (convertToAscii 0x02 \<lparr>CapLocks = 1, ShiftL = 0, ShiftR = 0\<rparr>) = 17"
  "fst (convertToAscii 0x27 \<lparr>CapLocks = 1, ShiftL = 0, ShiftR = 0\<rparr>) = 27"
  by (simp_all add: convertToAscii_def scan_codes kbdus1_def toUpperCase_def magicNum_def)

end
