(* ===== verification/Gdt_Idt.thy ===== *)
theory Gdt_Idt
  imports Prelude
begin

text \<open>
  The descriptor tables of \<open>gdt_idt.c\<close>: the packing of a segment descriptor, the five
  entries of the GDT, the 48 gates of the IDT, and the table pointers handed to \<open>lgdt\<close> and
  \<open>lidt\<close>. The dispatch of interrupts is in \<open>Interrupts\<close>.
\<close>

unbundle bit_operations_syntax

subsection \<open>Data\<close>

record gdt_entry =
  limit_low :: u16
  base_low :: u16
  base_middle :: u8
  access :: u8
  granularity :: u8
  base_high :: u8

record idt_entry =
  low :: u16
  segmentSelector :: u16
  always0 :: u8
  flags :: u8
  high :: u16

text \<open>A \<open>gdt_ptr\<close> or \<open>idt_ptr_t\<close>: the limit and the address of the first entry.\<close>

record table_ptr =
  ptr_limit :: u16
  ptr_base :: u32

text \<open>
  The globals of the file, with the contents of the two processor registers that \<open>gdt_flush\<close>
  and \<open>load_idt\<close> (assembly) load. The addresses of the tables are the linker's.
\<close>

record tables =
  gdtTable :: "gdt_entry list"
  gdtP :: table_ptr
  idtTable :: "idt_entry list"
  idtP :: table_ptr
  gdtr :: "table_ptr option"
  idtr :: "table_ptr option"

definition gdtSize :: nat where
  "gdtSize = 5"

definition idtSize :: nat where
  "idtSize = 48"

definition sizeof_entry :: nat where
  "sizeof_entry = 8"

text \<open>The tables before initialisation.\<close>

definition blank_tables :: tables where
  "blank_tables = \<lparr>gdtTable = replicate gdtSize \<lparr>limit_low = 0, base_low = 0, base_middle = 0, access = 0,
       granularity = 0, base_high = 0\<rparr>, gdtP = \<lparr>ptr_limit = 0, ptr_base = 0\<rparr>,
     idtTable = replicate idtSize \<lparr>low = 0, segmentSelector = 0, always0 = 0, flags = 0, high = 0\<rparr>,
     idtP = \<lparr>ptr_limit = 0, ptr_base = 0\<rparr>, gdtr = None, idtr = None\<rparr>"

subsection \<open>Operations\<close>

definition gdt_set_gate :: "nat \<Rightarrow> u32 \<Rightarrow> u32 \<Rightarrow> u8 \<Rightarrow> u8 \<Rightarrow> tables \<Rightarrow> tables" where
  "gdt_set_gate num base limit acc gran t =
     t\<lparr>gdtTable := (gdtTable t)[num :=
       \<lparr>limit_low = ucast (limit AND 0xFFFF),
        base_low = ucast (base AND 0xFFFF),
        base_middle = ucast (drop_bit 16 base AND 0xFF),
        access = acc,
        granularity = ucast (drop_bit 16 limit AND 0x0F) OR (gran AND 0xF0),
        base_high = ucast (drop_bit 24 base AND 0xFF)\<rparr>]\<rparr>"

definition gdt_init :: "u32 \<Rightarrow> tables \<Rightarrow> tables" where
  "gdt_init gdt_address t =
     (let t = t\<lparr>gdtP := \<lparr>ptr_limit = of_nat (sizeof_entry * gdtSize - 1), ptr_base = gdt_address\<rparr>\<rparr>;
          t = gdt_set_gate 0 0 0 0 0 t;
          t = gdt_set_gate 1 0 0xFFFFFFFF 0x9A 0xCF t;
          t = gdt_set_gate 2 0 0xFFFFFFFF 0x92 0xCF t;
          t = gdt_set_gate 3 0 0xFFFFFFFF 0xFA 0xCF t;
          t = gdt_set_gate 4 0 0xFFFFFFFF 0xF2 0xCF t
      in t\<lparr>gdtr := Some (gdtP t)\<rparr>)"

text \<open>\<open>FILL_IDT(a)\<close>, with the address of the assembly stub \<open>interrupt_handler_a\<close>.\<close>

definition FILL_IDT :: "(nat \<Rightarrow> u32) \<Rightarrow> nat \<Rightarrow> tables \<Rightarrow> tables" where
  "FILL_IDT interrupt_handler a t =
     t\<lparr>idtTable := (idtTable t)[a :=
       \<lparr>low = ucast (interrupt_handler a AND 0x0000FFFF),
        segmentSelector = 0x08,
        always0 = 0,
        flags = 0x8E,
        high = ucast (drop_bit 16 (interrupt_handler a))\<rparr>]\<rparr>"

definition fill_idt_table :: "(nat \<Rightarrow> u32) \<Rightarrow> tables \<Rightarrow> tables" where
  "fill_idt_table interrupt_handler t = fold (FILL_IDT interrupt_handler) [0..<idtSize] t"

definition idt_init :: "(nat \<Rightarrow> u32) \<Rightarrow> u32 \<Rightarrow> tables \<Rightarrow> tables" where
  "idt_init interrupt_handler idt_address t =
     (let t = fill_idt_table interrupt_handler t;
          t = t\<lparr>idtP := \<lparr>ptr_limit = of_nat (sizeof_entry * idtSize), ptr_base = idt_address\<rparr>\<rparr>
      in t\<lparr>idtr := Some (idtP t)\<rparr>)"

subsection \<open>What the processor reads out of a descriptor\<close>

definition gdt_base :: "gdt_entry \<Rightarrow> u32" where
  "gdt_base e = ucast (base_low e) OR push_bit 16 (ucast (base_middle e)) OR push_bit 24 (ucast (base_high e))"

definition gdt_limit :: "gdt_entry \<Rightarrow> u32" where
  "gdt_limit e = ucast (limit_low e) OR push_bit 16 (ucast (granularity e AND 0x0F))"

definition idt_offset :: "idt_entry \<Rightarrow> u32" where
  "idt_offset e = ucast (low e) OR push_bit 16 (ucast (high e))"

lemma mask_words:
  "(0xFFFF :: u32) = mask 16" "(0xFF :: u32) = mask 8" "(0x0F :: u32) = mask 4" "(0x0F :: u8) = mask 4"
  "(0xF0 :: u8) = NOT (mask 4)"
  by (simp_all add: mask_eq_exp_minus_1)

lemma base_bytes:
  "ucast (ucast (base AND 0xFFFF) :: u16) OR push_bit 16 (ucast (ucast (drop_bit 16 base AND 0xFF) :: u8))
    OR push_bit 24 (ucast (ucast (drop_bit 24 base AND 0xFF) :: u8)) = base" (is "?l = base") for base :: u32
proof (rule bit_word_eqI)
  fix n assume "n < LENGTH(32)"
  then consider "n < 16" | "16 \<le> n" "n < 24" | "24 \<le> n" "n < 32" by fastforce
  then show "bit ?l n = bit base n"
    by cases (auto simp: mask_words bit_simps)
qed

lemma limit_bytes:
  "ucast (ucast (limit AND 0xFFFF) :: u16)
     OR push_bit 16 (ucast ((ucast (drop_bit 16 limit AND 0x0F) OR (gran AND 0xF0)) AND 0x0F :: u8))
   = limit AND mask 20" (is "?l = ?r") for limit :: u32
proof (rule bit_word_eqI)
  fix n assume "n < LENGTH(32)"
  then consider "n < 16" | "16 \<le> n" "n < 20" | "20 \<le> n" "n < 32" by fastforce
  then show "bit ?l n = bit ?r n"
    by cases (auto simp: mask_words bit_simps)
qed

lemma offset_halves:
  "ucast (ucast (h AND 0x0000FFFF) :: u16) OR push_bit 16 (ucast (ucast (drop_bit 16 h) :: u16)) = h"
  (is "?l = h") for h :: u32
proof (rule bit_word_eqI)
  fix n assume "n < LENGTH(32)"
  then consider "n < 16" | "16 \<le> n" "n < 32" by fastforce
  then show "bit ?l n = bit h n"
    by cases (auto simp: mask_words bit_simps)
qed

lemma gran_bits:
  "(ucast (drop_bit 16 limit AND 0x0F) OR (gran AND 0xF0)) AND 0xF0 = gran AND (0xF0 :: u8)" for limit :: u32
  by (rule bit_word_eqI) (auto simp: mask_words bit_simps)

lemma FILL_IDT_fold:
  assumes "idtSize \<le> length (idtTable t)" "n \<le> idtSize"
  shows "length (idtTable (fold (FILL_IDT f) [0..<n] t)) = length (idtTable t)
    \<and> (\<forall>a < n. idtTable (fold (FILL_IDT f) [0..<n] t) ! a
        = \<lparr>low = ucast (f a AND 0x0000FFFF), segmentSelector = 8, always0 = 0, flags = 0x8E,
           high = ucast (drop_bit 16 (f a))\<rparr>)"
  using assms
  by (induction n) (auto simp: FILL_IDT_def nth_list_update less_Suc_eq)

subsection \<open>Properties\<close>

text \<open>
  A descriptor packed by \<open>gdt_set_gate\<close> gives back its base in full, the low 20 bits
  of its limit, its access byte and its granularity flags, and no other entry changes.
\<close>

theorem gdt_gate_roundtrip:
  assumes "num < length (gdtTable t)"
  shows "gdt_base (gdtTable (gdt_set_gate num base limit acc gran t) ! num) = base
    \<and> gdt_limit (gdtTable (gdt_set_gate num base limit acc gran t) ! num) = limit AND mask 20
    \<and> access (gdtTable (gdt_set_gate num base limit acc gran t) ! num) = acc
    \<and> granularity (gdtTable (gdt_set_gate num base limit acc gran t) ! num) AND 0xF0 = gran AND 0xF0
    \<and> (\<forall>i. i \<noteq> num \<longrightarrow> gdtTable (gdt_set_gate num base limit acc gran t) ! i = gdtTable t ! i)"
  using assms base_bytes [of base] limit_bytes [of limit gran] gran_bits [of limit gran]
  by (simp add: gdt_set_gate_def gdt_base_def gdt_limit_def)

theorem gdt_gate_roundtrip_witness:
  "gdt_base (gdtTable (gdt_set_gate 1 0x12345678 0xFFFFFFFF 0x9A 0xCF blank_tables) ! 1) = 0x12345678"
  using gdt_gate_roundtrip [of 1 blank_tables "0x12345678" "0xFFFFFFFF" "0x9A" "0xCF"]
  by (simp add: blank_tables_def gdtSize_def)

text \<open>
  C37: After \<open>idt_init\<close> each of the 48 gates holds the full address of its own handler stub
  and is a present ring 0 interrupt gate in the kernel code segment, and the processor's
  register describes the table.
\<close>

theorem idt_init_gates:
  assumes "length (idtTable t) = idtSize" and "a < idtSize"
  shows "idt_offset (idtTable (idt_init f addr t) ! a) = f a
    \<and> segmentSelector (idtTable (idt_init f addr t) ! a) = 0x08
    \<and> flags (idtTable (idt_init f addr t) ! a) = 0x8E
    \<and> idtr (idt_init f addr t) = Some \<lparr>ptr_limit = 384, ptr_base = addr\<rparr>"
  using FILL_IDT_fold [of t idtSize f] assms offset_halves [of "f a"]
  by (simp add: idt_init_def fill_idt_table_def idt_offset_def Let_def idtSize_def sizeof_entry_def)

theorem idt_init_gates_witness:
  "idt_offset (idtTable (idt_init (\<lambda>a. 0x100000 + 16 * of_nat a) 0x105000 blank_tables) ! 33) = 0x100210"
  using idt_init_gates [of blank_tables 33 "\<lambda>a. 0x100000 + 16 * of_nat a" "0x105000"]
  by (simp add: blank_tables_def idtSize_def)

text \<open>
  \<open>gdt_init\<close> builds flat segments: the null descriptor, then kernel and user code and
  data descriptors, all with base 0 and the limit 0xFFFFF in 4 KiB units, told apart by
  their access bytes; and the register gets the last byte's offset as its limit.
\<close>

theorem gdt_init_flat:
  assumes "length (gdtTable t) = gdtSize"
  shows "map access (gdtTable (gdt_init addr t)) = [0, 0x9A, 0x92, 0xFA, 0xF2]
    \<and> map gdt_base (gdtTable (gdt_init addr t)) = [0, 0, 0, 0, 0]
    \<and> map gdt_limit (gdtTable (gdt_init addr t)) = [0, 0xFFFFF, 0xFFFFF, 0xFFFFF, 0xFFFFF]
    \<and> gdtr (gdt_init addr t) = Some \<lparr>ptr_limit = 39, ptr_base = addr\<rparr>"
proof -
  from assms obtain a b c d e where "gdtTable t = [a, b, c, d, e]"
    by (auto simp: gdtSize_def numeral_eq_Suc length_Suc_conv)
  then show ?thesis
    by (simp add: gdt_init_def gdt_set_gate_def gdt_base_def gdt_limit_def gdtSize_def sizeof_entry_def Let_def)
qed

theorem gdt_init_flat_witness:
  "gdtr (gdt_init 0x104000 blank_tables) = Some \<lparr>ptr_limit = 39, ptr_base = 0x104000\<rparr>"
  using gdt_init_flat [of blank_tables "0x104000"] by (simp add: blank_tables_def gdtSize_def)

end
