(* ===== verification/Machine.thy ===== *)
theory Machine
  imports Ordered_Array Printf Keyboard Gdt_Idt
begin

text \<open>
  The state of the kernel: memory, the I/O ports, the registers the C code touches through
  inline assembly, and the global variables of every file. \<open>mem\<close> is the address space as
  the kernel's code sees it; address translation by the MMU is not modelled.
\<close>

unbundle bit_operations_syntax

subsection \<open>Data\<close>

text \<open>
  \<open>heap_t\<close> of \<open>kheap.h\<close>. It is kept as a record at its address and not as bytes: it holds a
  function pointer, and the code only reaches it through its own pointer.
\<close>

record heap_t =
  index :: ordered_array_t
  start_address :: u32
  end_address :: u32
  max_address :: u32
  supervisor :: u32
  readonly :: u32

text \<open>The values of \<open>stdout_putf\<close>: the null pointer and \<open>putc\<close> of \<open>screen.c\<close>.\<close>

datatype putf_ptr = Null_Putf | Screen_Putc

record machine =
  mem :: memory
  \<comment> \<open>ports: the bytes written, in order; what each port delivers; how often it was read\<close>
  outs :: "(u16 \<times> u8) list"
  dev :: "u16 \<Rightarrow> nat \<Rightarrow> u8"
  reads :: "u16 \<Rightarrow> nat"
  \<comment> \<open>processor: interrupt flag, control registers, stack registers\<close>
  iflag :: bool
  cr0 :: u32
  cr2 :: u32
  cr3 :: u32
  esp :: u32
  ebp :: u32
  eip :: u32
  \<comment> \<open>\<open>copy_page_physical\<close> calls: source and destination frame address\<close>
  phys_copies :: "(u32 \<times> u32) list"
  \<comment> \<open>gdt_idt.c, keyboard.c, screen.c, printf.c, timer.c\<close>
  tabs :: tables
  kbd :: kbd_state
  cursorPosition :: s32
  stdout_putf :: putf_ptr
  ticks :: u32
  \<comment> \<open>kmain.c, kheap.c\<close>
  placement_address :: u32
  initial_esp :: u32
  kheap :: u32
  heap_at :: "u32 \<Rightarrow> heap_t"
  \<comment> \<open>paging.c\<close>
  kernel_directory :: u32
  current_directory :: u32
  frames :: u32
  nframes :: u32
  \<comment> \<open>task.c\<close>
  current_task :: u32
  ready_queue :: u32
  next_pid :: u32

subsection \<open>\<open>io.s\<close>: port input and output\<close>

definition outb :: "u16 \<Rightarrow> u8 \<Rightarrow> machine \<Rightarrow> machine" where
  "outb port data s = s\<lparr>outs := outs s @ [(port, data)]\<rparr>"

definition inb :: "u16 \<Rightarrow> machine \<Rightarrow> u8 \<times> machine" where
  "inb port s = (dev s port (reads s port), s\<lparr>reads := (reads s)(port := Suc (reads s port))\<rparr>)"

lemma outb_simps [simp]:
  "mem (outb p d s) = mem s" "outs (outb p d s) = outs s @ [(p, d)]"
  "cursorPosition (outb p d s) = cursorPosition s" "stdout_putf (outb p d s) = stdout_putf s"
  by (simp_all add: outb_def)

subsection \<open>Memory-level code run in the kernel's memory\<close>

definition in_mem :: "(memory, 'a) prog \<Rightarrow> (machine, 'a) prog" where
  "in_mem p s = (case p (mem s) of Inl h \<Rightarrow> Inl h | Inr (x, m) \<Rightarrow> Inr (x, s\<lparr>mem := m\<rparr>))"

lemma in_mem_Inr [prog_simps]: "p (mem s) = Inr (x, m) \<Longrightarrow> in_mem p s = Inr (x, s\<lparr>mem := m\<rparr>)"
  by (simp add: in_mem_def)

lemma in_mem_Inl [prog_simps]: "p (mem s) = Inl h \<Longrightarrow> in_mem p s = Inl h"
  by (simp add: in_mem_def)

subsection \<open>The state at power on\<close>

text \<open>
  The initial values of the globals, over any contents of memory and any devices. \<open>cr0\<close> has
  protected mode on and paging off, as the boot loader leaves it; interrupts are off.
\<close>

definition no_heap :: heap_t where
  "no_heap = \<lparr>index = \<lparr>array = 0, oa_size = 0, max_size = 0, less_than = Null_Predicate\<rparr>,
     start_address = 0, end_address = 0, max_address = 0, supervisor = 0, readonly = 0\<rparr>"

definition power_on :: "memory \<Rightarrow> (u16 \<Rightarrow> nat \<Rightarrow> u8) \<Rightarrow> machine" where
  "power_on m d =
     \<lparr>mem = m, outs = [], dev = d, reads = (\<lambda>_. 0), iflag = False,
      cr0 = 0x11, cr2 = 0, cr3 = 0, esp = 0, ebp = 0, eip = 0, phys_copies = [],
      tabs = blank_tables, kbd = \<lparr>CapLocks = 0, ShiftL = 0, ShiftR = 0\<rparr>, cursorPosition = 0,
      stdout_putf = Null_Putf, ticks = 0, placement_address = 0, initial_esp = 0, kheap = 0,
      heap_at = (\<lambda>_. no_heap), kernel_directory = 0, current_directory = 0, frames = 0, nframes = 0,
      current_task = 0, ready_queue = 0, next_pid = 1\<rparr>"

lemma power_on_simps [simp]:
  "mem (power_on m d) = m"
  "outs (power_on m d) = []"
  "dev (power_on m d) = d"
  "cursorPosition (power_on m d) = 0"
  "stdout_putf (power_on m d) = Null_Putf"
  "kheap (power_on m d) = 0"
  "placement_address (power_on m d) = 0"
  "next_pid (power_on m d) = 1"
  "ticks (power_on m d) = 0"
  "current_task (power_on m d) = 0"
  "iflag (power_on m d) = False"
  "tabs (power_on m d) = blank_tables"
  "kbd (power_on m d) = \<lparr>CapLocks = 0, ShiftL = 0, ShiftR = 0\<rparr>"
  by (simp_all add: power_on_def)

end
