(* ===== verification/Screen.thy ===== *)
theory Screen
  imports Machine "HOL-Library.Signed_Division"
begin

text \<open>
  \<open>screen.c\<close>: the VGA text framebuffer at 0xB8000, its cursor, the clock field and
  \<open>clear_screen\<close>; and what prints through it: \<open>tfp_printf\<close> with \<open>putc\<close> as its sink, and
  the two panic functions of \<open>util.c\<close>.
\<close>

unbundle bit_operations_syntax

subsection \<open>Operations\<close>

definition fb :: u32 where
  "fb = 0x000B8000"

definition FB_COMMAND_PORT :: u16 where
  "FB_COMMAND_PORT = 0x3D4"

definition FB_DATA_PORT :: u16 where
  "FB_DATA_PORT = 0x3D5"

definition FB_BLACK :: u8 where
  "FB_BLACK = 0"

definition FB_GREEN :: u8 where
  "FB_GREEN = 2"

definition fb_write_cell :: "u32 \<Rightarrow> u8 \<Rightarrow> u8 \<Rightarrow> u8 \<Rightarrow> machine \<Rightarrow> machine" where
  "fb_write_cell i c fg bg s =
     s\<lparr>mem := st8 (st8 (mem s) (fb + i) c) (fb + (i + 1)) (push_bit 4 (fg AND 0x0F) OR (bg AND 0x0F))\<rparr>"

definition fb_move_cursor :: "u16 \<Rightarrow> machine \<Rightarrow> machine" where
  "fb_move_cursor pos s =
     outb FB_DATA_PORT (ucast (pos AND 0x00FF))
       (outb FB_COMMAND_PORT 15
         (outb FB_DATA_PORT (ucast (drop_bit 8 pos AND 0x00FF))
           (outb FB_COMMAND_PORT 14 s)))"

text \<open>C's signed division, which rounds towards zero.\<close>

definition s32_div :: "s32 \<Rightarrow> s32 \<Rightarrow> s32" where
  "s32_div a b = word_of_int (sint a sdiv sint b)"

text \<open>One round of the loop of \<open>fb_write\<close>.\<close>

definition fb_put :: "u8 \<Rightarrow> machine \<Rightarrow> machine" where
  "fb_put c s =
     (if c = 10 then
        let pos = (s32_div (cursorPosition s) 80 + 1) * 80;
            pos = (if 25 <s s32_div pos 80 then 0 else pos);
            s = s\<lparr>cursorPosition := pos\<rparr>
        in fb_move_cursor (ucast (cursorPosition s)) s
      else if c = 8 then
        let pos = cursorPosition s - 1;
            pos = (if pos <s 0 then 0 else pos);
            s = s\<lparr>cursorPosition := pos\<rparr>;
            s = fb_move_cursor (ucast (cursorPosition s)) s
        in fb_write_cell (2 * cursorPosition s) 32 FB_BLACK FB_GREEN s
      else
        let s = fb_write_cell (2 * cursorPosition s) c FB_BLACK FB_GREEN s
        in s\<lparr>cursorPosition := cursorPosition s + 1\<rparr>)"

definition fb_write :: "u8 list \<Rightarrow> machine \<Rightarrow> machine" where
  "fb_write buf s = (let s = fold fb_put buf s in fb_move_cursor (ucast (cursorPosition s)) s)"

text \<open>\<open>fb_clock_write(buf, len)\<close>; \<open>i\<close> runs over the indices from \<open>i\<close> on.\<close>

fun fb_clock_loop :: "u8 list \<Rightarrow> u32 \<Rightarrow> u32 \<Rightarrow> machine \<Rightarrow> machine" where
  "fb_clock_loop [] i len s = s"
| "fb_clock_loop (c # cs) i len s =
     fb_clock_loop cs (i + 1) len (fb_write_cell (2 * 80 - 2 * (len - i)) c FB_BLACK FB_GREEN s)"

definition fb_clock_write :: "u8 list \<Rightarrow> machine \<Rightarrow> machine" where
  "fb_clock_write buf s = fb_clock_loop buf 0 (of_nat (length buf)) s"

primrec clear_loop :: "nat \<Rightarrow> u32 \<Rightarrow> machine \<Rightarrow> machine" where
  "clear_loop 0 i s = s"
| "clear_loop (Suc n) i s = clear_loop n (i + 2) (fb_write_cell i 32 FB_BLACK FB_GREEN s)"

text \<open>\<open>for (i = 0; i < 2*80*25; i = i + 2)\<close>: 2000 rounds.\<close>

definition clear_screen :: "machine \<Rightarrow> machine" where
  "clear_screen s = clear_loop (80 * 25) 0 s"

definition putc :: "u8 \<Rightarrow> machine \<Rightarrow> machine" where
  "putc c s = fb_write [c] s"

subsection \<open>Printing\<close>

definition init_printf :: "putf_ptr \<Rightarrow> machine \<Rightarrow> machine" where
  "init_printf putf s = s\<lparr>stdout_putf := putf\<rparr>"

text \<open>The call through \<open>stdout_putf\<close>; before \<open>init_printf\<close> it is a null pointer.\<close>

definition tfp_printf :: "u8 list \<Rightarrow> va_arg list \<Rightarrow> (machine, unit) prog" where
  "tfp_printf fmt va s =
     (case stdout_putf s of
        Null_Putf \<Rightarrow> (if fmt = [] then Inr ((), s) else Inl Null_Call)
      | Screen_Putc \<Rightarrow> tfp_format putc fmt va s)"

definition panic :: "u8 list \<Rightarrow> u8 list \<Rightarrow> u32 \<Rightarrow> (machine, unit) prog" where
  "panic message file line s =
     (case tfp_printf (cstr ''PANIC(%s) at %s: %s '' @ [10])
             [VStr message, VStr file, VInt line] (s\<lparr>iflag := False\<rparr>) of
        Inl h \<Rightarrow> Inl h
      | Inr _ \<Rightarrow> Inl (Panicked ''panic''))"

definition panic_assert :: "u8 list \<Rightarrow> u32 \<Rightarrow> u8 list \<Rightarrow> (machine, unit) prog" where
  "panic_assert file line desc s =
     (case tfp_printf (cstr ''ASSERTION-FAILED(%s) at %s: %s '' @ [10])
             [VStr desc, VStr file, VInt line] (s\<lparr>iflag := False\<rparr>) of
        Inl h \<Rightarrow> Inl h
      | Inr _ \<Rightarrow> Inl (Assert_Failed ''panic_assert''))"

subsection \<open>The cursor\<close>

text \<open>The position arithmetic on naturals: 80 cells a row, a newline past row 25 wraps to the top.\<close>

definition next_pos :: "u8 \<Rightarrow> nat \<Rightarrow> nat" where
  "next_pos c p = (if c = 10 then (if 25 \<le> p div 80 then 0 else (p div 80 + 1) * 80)
     else if c = 8 then p - 1 else p + 1)"

lemma next_pos_le: "next_pos c p \<le> p + 80"
  using div_times_less_eq_dividend [of p 80] by (auto simp: next_pos_def)

lemma sint_small: "unat p < 0x100000 \<Longrightarrow> sint p = int (unat p)" for p :: s32
proof -
  assume "unat p < 0x100000"
  then have "uint p < 0x100000" using uint_nat [of p] by linarith
  moreover have "- (2 ^ 31) \<le> uint p" by (rule order_trans [of _ 0]) simp_all
  ultimately have "signed_take_bit 31 (uint p) = uint p"
    by (intro signed_take_bit_int_eq_self) simp_all
  then show ?thesis by (simp add: sint_uint)
qed

lemma sdiv_nat: "int n sdiv int k = int (n div k)"
  by (simp add: signed_divide_int_def zdiv_int sgn_if)

lemma s32_div_80: "unat p < 0x100000 \<Longrightarrow> s32_div p 80 = of_nat (unat p div 80)"
  using sdiv_nat [of "unat p" 80] by (simp only: s32_div_def sint_small) simp

lemma fb_move_cursor_simps [simp]:
  "mem (fb_move_cursor p s) = mem s" "cursorPosition (fb_move_cursor p s) = cursorPosition s"
  "stdout_putf (fb_move_cursor p s) = stdout_putf s"
  by (simp_all add: fb_move_cursor_def)

lemma fb_write_cell_simps [simp]:
  "cursorPosition (fb_write_cell i c fg bg s) = cursorPosition s"
  "outs (fb_write_cell i c fg bg s) = outs s"
  "stdout_putf (fb_write_cell i c fg bg s) = stdout_putf s"
  by (simp_all add: fb_write_cell_def)

lemma unat_double: "unat p < 0x100000 \<Longrightarrow> unat (2 * p) = 2 * unat p" for p :: u32
  by (simp add: unat_word_ariths)

lemma unat_cell:
  "unat p < 0x100000 \<Longrightarrow> unat (fb + 2 * p) = 0xB8000 + 2 * unat p" 
  "unat p < 0x100000 \<Longrightarrow> unat (fb + (2 * p + 1)) = 0xB8000 + 2 * unat p + 1" for p :: u32
proof -
  assume p: "unat p < 0x100000"
  have f: "unat fb = 0xB8000" by (simp add: fb_def)
  from p show "unat (fb + 2 * p) = 0xB8000 + 2 * unat p"
    by (simp add: unat_add32 unat_double f)
  from p have "unat (2 * p + 1) = 2 * unat p + 1" by (simp add: unat_add32 unat_double)
  with p show "unat (fb + (2 * p + 1)) = 0xB8000 + 2 * unat p + 1"
    by (simp add: unat_add32 f)
qed

lemma fb_write_cell_mem:
  assumes "unat p < 0x100000"
  shows "mem (fb_write_cell (2 * p) c fg bg s) x =
    (if unat x = 0xB8000 + 2 * unat p then c
     else if unat x = 0xB8000 + 2 * unat p + 1 then push_bit 4 (fg AND 0x0F) OR (bg AND 0x0F)
     else mem s x)"
proof -
  have "(x = fb + 2 * p) = (unat x = 0xB8000 + 2 * unat p)"
    "(x = fb + (2 * p + 1)) = (unat x = 0xB8000 + 2 * unat p + 1)"
    using unat_cell [OF assms] by (simp_all add: word_unat_eq_iff)
  then show ?thesis by (auto simp: fb_write_cell_def st8_def)
qed

lemma sless_zero_pred:
  "unat p < 0x100000 \<Longrightarrow> (p - 1 <s 0) = (p = 0)" for p :: s32
proof -
  assume p: "unat p < 0x100000"
  show ?thesis
  proof (cases "p = 0")
    case False
    then have u: "unat (p - 1) = unat p - 1" using unat_gt_0 [of p] by (simp add: unat_sub32)
    then have "sint (p - 1) = int (unat p - 1)" using p sint_small [of "p - 1"] by simp
    with False show ?thesis by (simp add: word_sless_alt)
  qed (simp add: word_sless_alt)
qed

lemma fb_put_cursor:
  assumes "unat (cursorPosition s) < 0xFFF00"
  shows "unat (cursorPosition (fb_put c s)) = next_pos c (unat (cursorPosition s))"
proof -
  let ?p = "unat (cursorPosition s)"
  have p: "?p < 0x100000" using assms by simp
  consider "c = 10" | "c = 8" | "c \<noteq> 10" "c \<noteq> 8" by blast
  then show ?thesis
  proof cases
    case 1
    let ?q = "(s32_div (cursorPosition s) 80 + 1) * 80"
    have d: "?p div 80 * 80 \<le> ?p" by (rule div_times_less_eq_dividend)
    have "?q = of_nat ((?p div 80 + 1) * 80)" using p by (simp add: s32_div_80 ac_simps)
    moreover have "(?p div 80 + 1) * 80 < 4294967296" using assms d by simp
    ultimately have uq: "unat ?q = (?p div 80 + 1) * 80" by (simp only: unat_of_nat32)
    then have q: "s32_div ?q 80 = of_nat (?p div 80 + 1)"
      using assms d by (subst s32_div_80) simp_all
    have u: "unat (of_nat (?p div 80 + 1) :: s32) = ?p div 80 + 1"
      using assms d by (intro unat_of_nat32) simp
    have "sint (of_nat (?p div 80 + 1) :: s32) = int (?p div 80 + 1)"
      using assms d sint_small [of "of_nat (?p div 80 + 1)"] unfolding u by simp
    then have "(25 <s s32_div ?q 80) = (25 \<le> ?p div 80)"
      unfolding q by (simp add: word_sless_alt) arith
    with 1 uq show ?thesis by (simp add: fb_put_def next_pos_def Let_def)
  next
    case 2
    then show ?thesis
      using sless_zero_pred [OF p] unat_gt_0 [of "cursorPosition s"]
      by (auto simp: fb_put_def next_pos_def Let_def unat_sub32)
  next
    case 3
    then show ?thesis using assms by (simp add: fb_put_def next_pos_def Let_def unat_add32)
  qed
qed

lemma fb_put_only_in:
  assumes "unat (cursorPosition s) < 0xFFF00"
  shows "only_in 0xB8000 (0xB8000 + 2 * unat (cursorPosition s) + 2) (mem s) (mem (fb_put c s))"
proof -
  let ?p = "cursorPosition s"
  define q where "q = (if ?p - 1 <s 0 then 0 else ?p - 1)"
  have p: "unat ?p < 0x100000" using assms by simp
  have q: "unat q \<le> unat ?p"
    using sless_zero_pred [OF p] unat_gt_0 [of ?p] by (auto simp: q_def unat_sub32)
  consider "c = 10" | "c = 8" | "c \<noteq> 10" "c \<noteq> 8" by blast
  then show ?thesis
  proof cases
    case 2
    then have "fb_put c s = fb_write_cell (2 * q) 32 FB_BLACK FB_GREEN
        (fb_move_cursor (ucast q) (s\<lparr>cursorPosition := q\<rparr>))"
      by (simp add: fb_put_def q_def Let_def)
    with p q show ?thesis by (auto simp: only_in_def fb_write_cell_mem)
  next
    case 3
    with p show ?thesis by (auto simp: fb_put_def Let_def only_in_def fb_write_cell_mem)
  qed (simp add: fb_put_def Let_def)
qed

lemma fold_next_pos_le: "fold next_pos cs p \<le> p + 80 * length cs"
proof (induction cs arbitrary: p)
  case (Cons c cs)
  from Cons.IH [of "next_pos c p"] next_pos_le [of c p] show ?case by simp
qed simp

lemma fb_puts:
  assumes "unat (cursorPosition s) + 80 * length cs < 0xFFF00"
  shows "unat (cursorPosition (fold fb_put cs s)) = fold next_pos cs (unat (cursorPosition s))
    \<and> only_in 0xB8000 (0xB8000 + 2 * (unat (cursorPosition s) + 80 * length cs)) (mem s) (mem (fold fb_put cs s))"
  using assms
proof (induction cs arbitrary: s)
  case (Cons c cs)
  let ?s = "fb_put c s"
  have n: "unat (cursorPosition ?s) = next_pos c (unat (cursorPosition s))"
    using Cons.prems by (intro fb_put_cursor) simp
  then have le: "unat (cursorPosition ?s) \<le> unat (cursorPosition s) + 80" using next_pos_le by simp
  with Cons.prems have IH: "unat (cursorPosition (fold fb_put cs ?s)) = fold next_pos cs (unat (cursorPosition ?s))
    \<and> only_in 0xB8000 (0xB8000 + 2 * (unat (cursorPosition ?s) + 80 * length cs)) (mem ?s) (mem (fold fb_put cs ?s))"
    by (intro Cons.IH) simp
  have "only_in 0xB8000 (0xB8000 + 2 * (unat (cursorPosition s) + 80 * length (c # cs))) (mem s) (mem ?s)"
    using Cons.prems by (intro only_in_mono [OF fb_put_only_in]) simp_all
  moreover have "only_in 0xB8000 (0xB8000 + 2 * (unat (cursorPosition s) + 80 * length (c # cs)))
      (mem ?s) (mem (fold fb_put cs ?s))"
    using IH le by (intro only_in_mono [OF conjunct2 [OF IH]]) simp_all
  ultimately show ?case using IH n by (auto intro: only_in_trans)
qed simp

lemma fb_write_frame:
  assumes "unat (cursorPosition s) + 80 * length cs < 0xFFF00"
  shows "unat (cursorPosition (fb_write cs s)) = fold next_pos cs (unat (cursorPosition s))"
    and "only_in 0xB8000 (0xB8000 + 2 * (unat (cursorPosition s) + 80 * length cs)) (mem s) (mem (fb_write cs s))"
  using fb_puts [OF assms] by (simp_all add: fb_write_def Let_def)

text \<open>Plain text: no newline and no backspace.\<close>

definition plain :: "u8 list \<Rightarrow> bool" where
  "plain cs \<longleftrightarrow> 10 \<notin> set cs \<and> 8 \<notin> set cs"

text \<open>The characters and the attributes the framebuffer shows from cell \<open>p\<close> on.\<close>

definition shown :: "memory \<Rightarrow> nat \<Rightarrow> nat \<Rightarrow> (u8 \<times> u8) list" where
  "shown m p n = map (\<lambda>i. (m (of_nat (0xB8000 + 2 * (p + i))), m (of_nat (0xB8000 + 2 * (p + i) + 1)))) [0..<n]"

lemma fb_puts_plain:
  assumes "plain cs" and "unat (cursorPosition s) + length cs < 0xFFF00"
  shows "mem (fold fb_put cs s) =
      (\<lambda>x. if 0xB8000 + 2 * unat (cursorPosition s) \<le> unat x
            \<and> unat x < 0xB8000 + 2 * (unat (cursorPosition s) + length cs)
          then if even (unat x) then cs ! ((unat x - (0xB8000 + 2 * unat (cursorPosition s))) div 2) else 2
          else mem s x)
    \<and> unat (cursorPosition (fold fb_put cs s)) = unat (cursorPosition s) + length cs"
  using assms
proof (induction cs rule: rev_induct)
  case Nil
  then show ?case by (auto simp: fun_eq_iff)
next
  case (snoc c cs)
  let ?s = "fold fb_put cs s" and ?p = "unat (cursorPosition s)"
  have IH: "mem ?s = (\<lambda>x. if 0xB8000 + 2 * ?p \<le> unat x \<and> unat x < 0xB8000 + 2 * (?p + length cs)
          then if even (unat x) then cs ! ((unat x - (0xB8000 + 2 * ?p)) div 2) else 2 else mem s x)"
    and cur: "unat (cursorPosition ?s) = ?p + length cs"
    using snoc by (simp_all add: plain_def)
  have c: "c \<noteq> 10" "c \<noteq> 8" using snoc.prems(1) by (auto simp: plain_def)
  have lt: "unat (cursorPosition ?s) < 0x100000" using snoc.prems(2) cur by simp
  have "unat (cursorPosition (fb_put c ?s)) = ?p + length (cs @ [c])"
    using fb_put_cursor [of ?s c] snoc.prems(2) cur c by (simp add: next_pos_def)
  moreover have "mem (fb_put c ?s) = (\<lambda>x. if unat x = 0xB8000 + 2 * (?p + length cs) then c
      else if unat x = 0xB8000 + 2 * (?p + length cs) + 1 then 2 else mem ?s x)"
    using c lt by (auto simp: fun_eq_iff fb_put_def Let_def fb_write_cell_mem FB_BLACK_def FB_GREEN_def cur)
  ultimately show ?case by (auto simp: IH nth_append fun_eq_iff)
qed

text \<open>Printing character by character writes the same cells as one \<open>fb_write\<close>.\<close>

lemma fb_put_cong:
  assumes "mem s = mem t" and "cursorPosition s = cursorPosition t"
  shows "mem (fb_put c s) = mem (fb_put c t) \<and> cursorPosition (fb_put c s) = cursorPosition (fb_put c t)"
  using assms by (simp add: fb_put_def fb_write_cell_def Let_def)

lemma fold_putc:
  assumes "mem s = mem t" and "cursorPosition s = cursorPosition t"
  shows "mem (fold putc cs s) = mem (fold fb_put cs t)
    \<and> cursorPosition (fold putc cs s) = cursorPosition (fold fb_put cs t)"
  using assms
proof (induction cs arbitrary: s t)
  case (Cons c cs)
  have "mem (putc c s) = mem (fb_put c t)" "cursorPosition (putc c s) = cursorPosition (fb_put c t)"
    using fb_put_cong [OF Cons.prems, of c] by (simp_all add: putc_def fb_write_def Let_def)
  with Cons.IH [of "putc c s" "fb_put c t"] show ?case by simp
qed simp

interpretation screen: char_sink putc "\<lambda>s cs. s = fold putc cs s0" for s0
  by unfold_locales simp

lemma tfp_printf_screen:
  assumes "stdout_putf s = Screen_Putc" and "format_out fmt va = Inr out"
  shows "tfp_printf fmt va s = Inr ((), fold putc out s)"
  using screen.got_format [of s s fmt va out] assms by (simp add: tfp_printf_def)

subsection \<open>Properties\<close>

text \<open>
  C33: Plain text that stays within the address range of the screen memory appears cell by
  cell from the cursor on, each with attribute 2; the cursor moves behind it, and no byte
  outside these cells changes.
\<close>

theorem fb_write_shows:
  assumes "plain cs" and "unat (cursorPosition s) + length cs < 0xFFF00"
  shows "shown (mem (fb_write cs s)) (unat (cursorPosition s)) (length cs) = map (\<lambda>c. (c, 2)) cs
    \<and> unat (cursorPosition (fb_write cs s)) = unat (cursorPosition s) + length cs
    \<and> only_in (0xB8000 + 2 * unat (cursorPosition s))
        (0xB8000 + 2 * (unat (cursorPosition s) + length cs)) (mem s) (mem (fb_write cs s))"
proof -
  let ?p = "unat (cursorPosition s)"
  have m: "mem (fb_write cs s) = (\<lambda>x. if 0xB8000 + 2 * ?p \<le> unat x \<and> unat x < 0xB8000 + 2 * (?p + length cs)
          then if even (unat x) then cs ! ((unat x - (0xB8000 + 2 * ?p)) div 2) else 2 else mem s x)"
    and cur: "unat (cursorPosition (fb_write cs s)) = ?p + length cs"
    using fb_puts_plain [OF assms] by (simp_all add: fb_write_def Let_def)
  have "shown (mem (fb_write cs s)) ?p (length cs) = map (\<lambda>c. (c, 2)) cs"
  proof (rule nth_equalityI)
    fix i assume "i < length (shown (mem (fb_write cs s)) ?p (length cs))"
    then have i: "i < length cs" by (simp add: shown_def)
    then have u: "unat (of_nat (0xB8000 + 2 * (?p + i)) :: u32) = 0xB8000 + 2 * (?p + i)"
      "unat (of_nat (0xB8000 + 2 * (?p + i) + 1) :: u32) = 0xB8000 + 2 * (?p + i) + 1"
      using assms(2) by (intro unat_of_nat32, simp)+
    have "mem (fb_write cs s) (of_nat (0xB8000 + 2 * (?p + i))) = cs ! i"
      "mem (fb_write cs s) (of_nat (0xB8000 + 2 * (?p + i) + 1)) = 2"
      unfolding m u using i by auto
    then show "shown (mem (fb_write cs s)) ?p (length cs) ! i = map (\<lambda>c. (c, 2)) cs ! i"
      using i by (simp add: shown_def)
  qed (simp add: shown_def)
  then show ?thesis using cur by (simp add: only_in_def m)
qed

theorem fb_write_shows_witness:
  "shown (mem (fb_write (cstr ''Hi'') (power_on (\<lambda>_. 0) (\<lambda>_ _. 0)))) 0 (Suc (Suc 0)) = [(72, 2), (105, 2)]"
  using fb_write_shows [of "cstr ''Hi''" "power_on (\<lambda>_. 0) (\<lambda>_ _. 0)"]
  by (simp add: plain_def cstr_def)

text \<open>
  The framebuffer code keeps its cursor by the row and column arithmetic of an 80
  column screen (newline, backspace at the origin and wrap included), and printing \<open>n\<close>
  characters from position \<open>p\<close> never writes outside the cells below \<open>p + 80 n\<close>.
\<close>

theorem fb_write_cursor:
  assumes "unat (cursorPosition s) + 80 * length cs < 0xFFF00"
  shows "unat (cursorPosition (fb_write cs s)) = fold next_pos cs (unat (cursorPosition s))
    \<and> only_in 0xB8000 (0xB8000 + 2 * (unat (cursorPosition s) + 80 * length cs)) (mem s) (mem (fb_write cs s))"
  using fb_write_frame [OF assms] by simp

theorem fb_write_cursor_witness:
  "unat (cursorPosition (fb_write [72, 10, 105] (power_on (\<lambda>_. 0) (\<lambda>_ _. 0)))) = 81"
  using fb_write_cursor [of "power_on (\<lambda>_. 0) (\<lambda>_ _. 0)" "[72, 10, 105]"]
  by (simp add: next_pos_def)

text \<open>
  After every \<open>fb_write\<close> the hardware cursor is where the software cursor is: the last
  four port writes send the high and then the low byte of \<open>cursorPosition\<close> to the VGA
  index registers 14 and 15.
\<close>

theorem fb_write_hardware_cursor:
  "\<exists>pre hi lo. outs (fb_write cs s) = pre @ [(0x3D4, 14), (0x3D5, hi), (0x3D4, 15), (0x3D5, lo)]
    \<and> push_bit 8 (ucast hi) OR ucast lo = (ucast (cursorPosition (fb_write cs s)) :: u16)"
proof -
  have m: "(0x00FF :: u16) = mask 8" by (simp add: mask_eq_exp_minus_1)
  have b: "push_bit 8 (ucast (ucast (drop_bit 8 p AND 0x00FF) :: u8)) OR ucast (ucast (p AND 0x00FF) :: u8) = p"
    (is "?l = p") for p :: u16
  proof (rule bit_word_eqI)
    fix n assume "n < LENGTH(16)"
    then consider "n < 8" | "8 \<le> n" "n < 16" by fastforce
    then show "bit ?l n = bit p n"
      unfolding m by cases (auto simp: bit_simps)
  qed
  let ?s = "fold fb_put cs s"
  let ?p = "ucast (cursorPosition ?s) :: u16"
  have "outs (fb_write cs s) = outs ?s @ [(0x3D4, 14), (0x3D5, ucast (drop_bit 8 ?p AND 0x00FF)),
      (0x3D4, 15), (0x3D5, ucast (?p AND 0x00FF))]"
    by (simp add: fb_write_def Let_def fb_move_cursor_def FB_COMMAND_PORT_def FB_DATA_PORT_def)
  moreover have "cursorPosition (fb_write cs s) = cursorPosition ?s" by (simp add: fb_write_def Let_def)
  ultimately show ?thesis using b [of ?p] by auto
qed


text \<open>
  The wrap test of the newline admits row 25, the first row below the 25 visible ones: a
  newline on the last row leaves the cursor at cell 2000, and the next character is
  written behind the framebuffer.
\<close>

lemma newline_below_screen:
  "fold next_pos [10] (24 * 80) = 25 * 80"
  by (simp add: next_pos_def)

lemma clear_loop_mem:
  assumes "unat i = 2 * k" and "k + n < 0x100000"
  shows "mem (clear_loop n i s) =
      (\<lambda>x. if 0xB8000 + 2 * k \<le> unat x \<and> unat x < 0xB8000 + 2 * (k + n)
          then if even (unat x) then 32 else 2 else mem s x)"
  using assms
proof (induction n arbitrary: i k s)
  case (Suc n)
  let ?s = "fb_write_cell i 32 FB_BLACK FB_GREEN s"
  have i: "i = 2 * of_nat k" "unat (of_nat k :: u32) = k"
    using Suc.prems unat_of_nat32 [of k] unat_of_nat32 [of "2 * k"]
    by (simp_all add: word_unat_eq_iff)
  have u: "unat (i + 2) = 2 * Suc k" using Suc.prems by (simp add: unat_add_numeral32)
  note IH = Suc.IH [OF u, of ?s]
  have m: "mem ?s = (\<lambda>x. if unat x = 0xB8000 + 2 * k then 32
      else if unat x = 0xB8000 + 2 * k + 1 then 2 else mem s x)"
    using fb_write_cell_mem [of "of_nat k" 32 FB_BLACK FB_GREEN s] Suc.prems i
    by (simp add: fun_eq_iff FB_BLACK_def FB_GREEN_def)
  show ?case using IH Suc.prems by (auto simp: fun_eq_iff m)
qed (auto simp: fun_eq_iff)

lemma clear_loop_frame: "\<exists>m. clear_loop n i s = s\<lparr>mem := m\<rparr>"
proof (induction n arbitrary: i s)
  case (Suc n)
  obtain m where "fb_write_cell i 32 FB_BLACK FB_GREEN s = s\<lparr>mem := m\<rparr>"
    by (simp add: fb_write_cell_def)
  with Suc.IH [of "i + 2" "s\<lparr>mem := m\<rparr>"] show ?case by auto
next
  case 0
  show ?case by (intro exI [of _ "mem s"]) simp
qed

text \<open>
  \<open>clear_screen\<close> sets all 2000 cells of the screen to a blank with attribute 2 and
  changes nothing else, the cursor included.
\<close>

theorem clear_screen_blanks:
  "clear_screen s = s\<lparr>mem := (\<lambda>x. if 0xB8000 \<le> unat x \<and> unat x < 0xB8000 + 2 * 2000
      then if even (unat x) then 32 else 2 else mem s x)\<rparr>"
proof -
  have c: "mem (clear_loop (80 * 25) 0 s) =
      (\<lambda>x. if 0xB8000 + 2 * 0 \<le> unat x \<and> unat x < 0xB8000 + 2 * (0 + 80 * 25)
          then if even (unat x) then 32 else 2 else mem s x)"
    by (rule clear_loop_mem) simp_all
  obtain m where m: "clear_loop (80 * 25) 0 s = s\<lparr>mem := m\<rparr>" using clear_loop_frame by blast
  with c have "m = (\<lambda>x. if 0xB8000 + 2 * 0 \<le> unat x \<and> unat x < 0xB8000 + 2 * (0 + 80 * 25)
          then if even (unat x) then 32 else 2 else mem s x)" by simp
  then show ?thesis unfolding clear_screen_def m by simp
qed

text \<open>
  C32: \<open>printf\<close> with well-typed arguments puts the formatted characters on the screen one
  after the other, as \<open>fb_write\<close> of the whole text would: same cells, same cursor.
\<close>

theorem printf_on_screen:
  assumes "stdout_putf s = Screen_Putc" and "format_out fmt va = Inr out"
  shows "\<exists>s'. tfp_printf fmt va s = Inr ((), s') \<and> mem s' = mem (fb_write out s)
    \<and> cursorPosition s' = cursorPosition (fb_write out s)"
  using tfp_printf_screen [OF assms] fold_putc [of s s out] by (simp add: fb_write_def Let_def)

theorem printf_on_screen_witness:
  "\<exists>s'. tfp_printf (cstr ''%d'') [VInt 7] (init_printf Screen_Putc (power_on (\<lambda>_. 0) (\<lambda>_ _. 0))) = Inr ((), s')"
  using printf_on_screen [OF _ format_out_d, of "init_printf Screen_Putc (power_on (\<lambda>_. 0) (\<lambda>_ _. 0))" 7]
  by (auto simp: init_printf_def)

text \<open>
  Neither panic function prints its message as written: the third \<open>%s\<close> of their
  formats is given the line number, so the conversion dereferences a small integer.
\<close>

theorem panic_misprints:
  assumes "stdout_putf s = Screen_Putc"
  shows "panic message file line s = Inl (Undefined ''va_arg'')
    \<and> panic_assert file line desc s = Inl (Undefined ''va_arg'')"
proof -
  have "tfp_format putc (cstr ''PANIC(%s) at %s: %s '' @ [10]) [VStr a, VStr b, VInt c] s' = Inl (Undefined ''va_arg'')"
    for a b c s' by (simp add: cstr_def parse_spec_def emit_spec_def)
  moreover have "tfp_format putc (cstr ''ASSERTION-FAILED(%s) at %s: %s '' @ [10]) [VStr a, VStr b, VInt c] s'
      = Inl (Undefined ''va_arg'')" for a b c s'
    by (simp add: cstr_def parse_spec_def emit_spec_def)
  ultimately show ?thesis using assms by (simp add: panic_def panic_assert_def tfp_printf_def)
qed

theorem panic_misprints_witness:
  "panic (cstr ''panic'') (cstr ''paging.c'') 187 (init_printf Screen_Putc (power_on (\<lambda>_. 0) (\<lambda>_ _. 0)))
     = Inl (Undefined ''va_arg'')"
  using panic_misprints [of "init_printf Screen_Putc (power_on (\<lambda>_. 0) (\<lambda>_ _. 0))"]
  by (simp add: init_printf_def)

end
