(* ===== verification/Ports.thy ===== *)
theory Ports
  imports Screen
begin

text \<open>
  The drivers that only talk to I/O ports: \<open>serial.c\<close> (COM1), \<open>pic.c\<close> (the two interrupt
  controllers) and the programming of the timer in \<open>timer.c\<close>. What a port delivers is the
  function \<open>dev\<close> of the machine.
\<close>

unbundle bit_operations_syntax

subsection \<open>\<open>serial.c\<close>\<close>

definition SERIAL_COM1_BASE :: u16 where
  "SERIAL_COM1_BASE = 0x3F8"

definition SERIAL_DATA_PORT :: "u16 \<Rightarrow> u16" where
  "SERIAL_DATA_PORT base = base"

definition SERIAL_LINE_COMMAND_PORT :: "u16 \<Rightarrow> u16" where
  "SERIAL_LINE_COMMAND_PORT base = base + 3"

definition SERIAL_LINE_STATUS_PORT :: "u16 \<Rightarrow> u16" where
  "SERIAL_LINE_STATUS_PORT base = base + 5"

definition SERIAL_LINE_ENABLE_DLAB :: u8 where
  "SERIAL_LINE_ENABLE_DLAB = 0x80"

definition serial_configure_baud_rate :: "u16 \<Rightarrow> u16 \<Rightarrow> machine \<Rightarrow> machine" where
  "serial_configure_baud_rate com divisor s =
     outb (SERIAL_DATA_PORT com) (ucast (divisor AND 0x00FF))
       (outb (SERIAL_DATA_PORT com) (ucast (drop_bit 8 divisor AND 0x00FF))
         (outb (SERIAL_LINE_COMMAND_PORT com) SERIAL_LINE_ENABLE_DLAB s))"

text \<open>\<open>inb(...) && 0x20\<close>: the logical and, so any byte but 0 counts.\<close>

definition serial_is_transmit_fifo_empty :: "u16 \<Rightarrow> machine \<Rightarrow> bool \<times> machine" where
  "serial_is_transmit_fifo_empty com s =
     (let (b, s) = inb (SERIAL_LINE_STATUS_PORT com) s in (b \<noteq> 0 \<and> (0x20 :: u8) \<noteq> 0, s))"

definition serial_configure_line :: "u16 \<Rightarrow> machine \<Rightarrow> machine" where
  "serial_configure_line com s = outb (SERIAL_LINE_COMMAND_PORT com) 0x03 s"

text \<open>\<open>while (!serial_is_transmit_fifo_empty(com));\<close>, which may wait forever.\<close>

partial_function (option) serial_wait :: "u16 \<Rightarrow> machine \<Rightarrow> machine option" where
  "serial_wait com s =
     (let (empty, s') = serial_is_transmit_fifo_empty com s in
      if empty then Some s' else serial_wait com s')"

fun serial_write_loop :: "u8 list \<Rightarrow> machine \<Rightarrow> machine option" where
  "serial_write_loop [] s = Some s"
| "serial_write_loop (c # buf) s =
     (case serial_wait SERIAL_COM1_BASE s of
        None \<Rightarrow> None
      | Some s' \<Rightarrow> serial_write_loop buf (outb SERIAL_COM1_BASE c s'))"

definition serial_write :: "u8 list \<Rightarrow> machine \<Rightarrow> machine option" where
  "serial_write buf s =
     serial_write_loop buf
       (serial_configure_line SERIAL_COM1_BASE (serial_configure_baud_rate SERIAL_COM1_BASE 1 s))"

subsection \<open>\<open>pic.c\<close>\<close>

definition PIC1_PORT_A :: u16 where
  "PIC1_PORT_A = 0x20"

definition PIC2_PORT_A :: u16 where
  "PIC2_PORT_A = 0xA0"

definition PIC1_START_INTERRUPT :: u32 where
  "PIC1_START_INTERRUPT = 0x20"

definition PIC2_START_INTERRUPT :: u32 where
  "PIC2_START_INTERRUPT = 0x28"

definition PIC2_END_INTERRUPT :: u32 where
  "PIC2_END_INTERRUPT = PIC2_START_INTERRUPT + 7"

definition PIC_ACK :: u8 where
  "PIC_ACK = 0x20"

text \<open>The ten port writes in order, then \<open>sti\<close>.\<close>

definition pic_init :: "machine \<Rightarrow> machine" where
  "pic_init s =
     (fold (\<lambda>(port, data). outb port data)
       [(0x20, 0x11), (0xA0, 0x11), (0x21, 0x20), (0xA1, 0x28), (0x21, 0x04), (0xA1, 0x02),
        (0x21, 0x05), (0xA1, 0x01), (0x21, 0xF8), (0xA1, 0xFF)] s)\<lparr>iflag := True\<rparr>"

definition pic_acknowledge :: "u32 \<Rightarrow> machine \<Rightarrow> machine" where
  "pic_acknowledge interrupt s =
     (if interrupt < PIC1_START_INTERRUPT \<or> PIC2_END_INTERRUPT < interrupt then s
      else if interrupt < PIC2_START_INTERRUPT then outb PIC1_PORT_A PIC_ACK s
      else outb PIC2_PORT_A PIC_ACK s)"

subsection \<open>\<open>timer_init\<close> of \<open>timer.c\<close>\<close>

definition timer_init :: "u32 \<Rightarrow> (machine, unit) prog" where
  "timer_init frequency s =
     (if frequency = 0 then Inl Div_Zero
      else
        let divisor = 1193180 div frequency;
            s = outb 0x43 0x36 s;
            l = ucast (divisor AND 0xFF);
            h = ucast (drop_bit 8 divisor AND 0xFF);
            s = outb 0x40 l s;
            s = outb 0x40 h s
        in tfp_printf (cstr ''timer initiated '' @ [10]) [] s)"

subsection \<open>Serial output\<close>

text \<open>\<open>wait_reads d n\<close>: how many status reads the wait takes when the device is ready at the \<open>k\<close>-th.\<close>

lemma inb_status:
  "serial_is_transmit_fifo_empty com s =
     (dev s (SERIAL_LINE_STATUS_PORT com) (reads s (SERIAL_LINE_STATUS_PORT com)) \<noteq> 0,
      s\<lparr>reads := (reads s)(SERIAL_LINE_STATUS_PORT com := Suc (reads s (SERIAL_LINE_STATUS_PORT com)))\<rparr>)"
  by (simp add: serial_is_transmit_fifo_empty_def inb_def)

lemma serial_wait_ready:
  assumes "dev s (SERIAL_LINE_STATUS_PORT com) (reads s (SERIAL_LINE_STATUS_PORT com) + k) \<noteq> 0"
  shows "\<exists>r. serial_wait com s = Some (s\<lparr>reads := r\<rparr>)
    \<and> reads s (SERIAL_LINE_STATUS_PORT com) < r (SERIAL_LINE_STATUS_PORT com)
    \<and> r (SERIAL_LINE_STATUS_PORT com) \<le> Suc (reads s (SERIAL_LINE_STATUS_PORT com) + k)"
  using assms
proof (induction k arbitrary: s)
  case 0
  then have "serial_wait com s = Some (s\<lparr>reads := (reads s)(SERIAL_LINE_STATUS_PORT com :=
      Suc (reads s (SERIAL_LINE_STATUS_PORT com)))\<rparr>)"
    by (subst serial_wait.simps) (simp add: inb_status)
  then show ?case by (intro exI conjI) (assumption, simp_all)
next
  case (Suc k)
  let ?p = "SERIAL_LINE_STATUS_PORT com"
  let ?s = "s\<lparr>reads := (reads s)(?p := Suc (reads s ?p))\<rparr>"
  show ?case
  proof (cases "dev s ?p (reads s ?p) = 0")
    case False
    then have "serial_wait com s = Some ?s" by (subst serial_wait.simps) (simp add: inb_status)
    then show ?thesis by (intro exI conjI) (assumption, simp_all)
  next
    case True
    then have "serial_wait com s = serial_wait com ?s"
      by (subst serial_wait.simps) (simp add: inb_status)
    moreover have "\<exists>r. serial_wait com ?s = Some (?s\<lparr>reads := r\<rparr>) \<and> reads ?s ?p < r ?p
        \<and> r ?p \<le> Suc (reads ?s ?p + k)"
      using Suc.prems by (intro Suc.IH) simp
    ultimately show ?thesis by auto
  qed
qed

text \<open>The line status register that is ready again and again, so that no wait is endless.\<close>

definition always_ready_again :: "machine \<Rightarrow> bool" where
  "always_ready_again s \<longleftrightarrow>
     (\<forall>n. \<exists>k. dev s (SERIAL_LINE_STATUS_PORT SERIAL_COM1_BASE) (n + k) \<noteq> 0)"

lemma serial_write_loop_outs:
  assumes "always_ready_again s"
  shows "\<exists>s'. serial_write_loop buf s = Some s'
    \<and> outs s' = outs s @ map (\<lambda>c. (SERIAL_COM1_BASE, c)) buf \<and> mem s' = mem s"
  using assms
proof (induction buf arbitrary: s)
  case (Cons c buf)
  from Cons.prems obtain k where "dev s (SERIAL_LINE_STATUS_PORT SERIAL_COM1_BASE)
      (reads s (SERIAL_LINE_STATUS_PORT SERIAL_COM1_BASE) + k) \<noteq> 0"
    unfolding always_ready_again_def by blast
  from serial_wait_ready [OF this] obtain r
    where w: "serial_wait SERIAL_COM1_BASE s = Some (s\<lparr>reads := r\<rparr>)" by blast
  have "always_ready_again (outb SERIAL_COM1_BASE c (s\<lparr>reads := r\<rparr>))"
    using Cons.prems by (simp add: always_ready_again_def outb_def)
  from Cons.IH [OF this] w show ?case by auto
qed simp

subsection \<open>Properties\<close>

text \<open>
  C39: If the line status register is non-zero again and again, \<open>serial_write\<close> returns, and
  after the four configuration bytes it has sent exactly the buffer, in order, to COM1.
\<close>

theorem serial_write_sends:
  assumes "always_ready_again s"
  shows "\<exists>s'. serial_write buf s = Some s'
    \<and> outs s' = outs s @ [(0x3FB, 0x80), (0x3F8, 0), (0x3F8, 1), (0x3FB, 3)] @ map (\<lambda>c. (0x3F8, c)) buf
    \<and> mem s' = mem s"
proof -
  let ?s = "serial_configure_line SERIAL_COM1_BASE (serial_configure_baud_rate SERIAL_COM1_BASE 1 s)"
  have "always_ready_again ?s"
    using assms by (simp add: always_ready_again_def serial_configure_line_def
        serial_configure_baud_rate_def outb_def)
  from serial_write_loop_outs [OF this, of buf] show ?thesis
    by (auto simp: serial_write_def serial_configure_line_def serial_configure_baud_rate_def
        SERIAL_COM1_BASE_def SERIAL_DATA_PORT_def SERIAL_LINE_COMMAND_PORT_def SERIAL_LINE_ENABLE_DLAB_def)
qed

theorem serial_write_sends_witness:
  "\<exists>s'. serial_write (cstr ''ok'') (power_on (\<lambda>_. 0) (\<lambda>_ _. 0x60)) = Some s'"
  using serial_write_sends [of "power_on (\<lambda>_. 0) (\<lambda>_ _. 0x60)" "cstr ''ok''"]
  by (auto simp: always_ready_again_def)

text \<open>
  The transmit test accepts every non-zero status, not only one with the transmit empty
  bit: with the status 0x01 (data received, transmitter busy) it reports empty.
\<close>

lemma fifo_test_busy:
  "fst (serial_is_transmit_fifo_empty SERIAL_COM1_BASE (power_on (\<lambda>_. 0) (\<lambda>_ _. 0x01)))"
  by (simp add: inb_status)

text \<open>
  An interrupt is acknowledged with one end-of-interrupt byte: at the master controller
  for the vectors 0x20 to 0x27, at the slave for 0x28 to 0x2F, and at none for any other.
\<close>

theorem pic_acknowledge_ports:
  "outs (pic_acknowledge n s) = outs s @
     (if 0x20 \<le> unat n \<and> unat n < 0x28 then [(0x20, 0x20)]
      else if 0x28 \<le> unat n \<and> unat n < 0x30 then [(0xA0, 0x20)] else [])"
  by (auto simp: pic_acknowledge_def PIC1_START_INTERRUPT_def PIC2_START_INTERRUPT_def
      PIC2_END_INTERRUPT_def PIC1_PORT_A_def PIC2_PORT_A_def PIC_ACK_def word_less_nat_alt)

lemma divisor_bytes:
  "push_bit 8 (ucast (ucast (drop_bit 8 d AND 0xFF) :: u8)) OR ucast (ucast (d AND 0xFF) :: u8) = (ucast d :: u16)"
  for d :: u32
proof (rule bit_word_eqI)
  have m: "(0xFF :: u32) = mask 8" by (simp add: mask_eq_exp_minus_1)
  fix n assume "n < LENGTH(16)"
  then consider "n < 8" | "8 \<le> n" "n < 16" by fastforce
  then show "bit (push_bit 8 (ucast (ucast (drop_bit 8 d AND 0xFF) :: u8))
      OR ucast (ucast (d AND 0xFF) :: u8) :: u16) n = bit (ucast d :: u16) n"
    unfolding m by cases (auto simp: bit_simps)
qed


lemma fold_putc_outs: "\<exists>r. outs (fold putc cs s) = outs s @ r"
proof (induction cs arbitrary: s)
  case (Cons c cs)
  have "\<exists>r. outs (putc c s) = outs s @ r"
    by (simp add: putc_def fb_write_def fb_put_def fb_move_cursor_def Let_def)
  with Cons.IH [of "putc c s"] show ?case by auto
qed simp

lemma format_out_text:
  assumes "37 \<notin> set cs" shows "format_out cs va = Inr cs"
proof -
  have "tfp_format (\<lambda>c cs. cs @ [c]) cs va acc = Inr ((), acc @ cs)" for acc
    using assms by (induction cs arbitrary: acc) auto
  then show ?thesis by (simp add: format_out_def)
qed

text \<open>
  \<open>timer_init\<close> traps on frequency 0; otherwise, with the screen set up, it sends the
  mode byte and then the 16 low bits of 1193180 / frequency, low byte first.
\<close>

theorem timer_init_divisor:
  assumes "stdout_putf s = Screen_Putc"
  shows "timer_init 0 s = Inl Div_Zero
    \<and> (frequency \<noteq> 0 \<longrightarrow> (\<exists>s' lo hi rest. timer_init frequency s = Inr ((), s')
        \<and> outs s' = outs s @ [(0x43, 0x36), (0x40, lo), (0x40, hi)] @ rest
        \<and> push_bit 8 (ucast hi) OR ucast lo = (ucast (1193180 div frequency) :: u16)))"
proof -
  let ?d = "1193180 div frequency"
  let ?s = "outb 0x40 (ucast (drop_bit 8 ?d AND 0xFF)) (outb 0x40 (ucast (?d AND 0xFF)) (outb 0x43 0x36 s))"
  let ?text = "cstr ''timer initiated '' @ [10]"
  have "format_out ?text [] = Inr ?text" by (rule format_out_text) (simp add: cstr_def)
  then have run: "timer_init frequency s = Inr ((), fold putc ?text ?s)" if "frequency \<noteq> 0"
    using that assms tfp_printf_screen [of ?s ?text "[]" ?text] by (simp add: timer_init_def Let_def)
  obtain rest where "outs (fold putc ?text ?s) = outs ?s @ rest" using fold_putc_outs by blast
  then have "outs (fold putc ?text ?s) = outs s @ [(0x43, 0x36), (0x40, ucast (?d AND 0xFF)),
      (0x40, ucast (drop_bit 8 ?d AND 0xFF))] @ rest" by simp
  with run divisor_bytes [of ?d] show ?thesis by (auto simp: timer_init_def)
qed

theorem timer_init_divisor_witness:
  "\<exists>s' rest. timer_init 50 (init_printf Screen_Putc (power_on (\<lambda>_. 0) (\<lambda>_ _. 0))) = Inr ((), s')
     \<and> outs s' = [(0x43, 0x36)] @ rest"
  using timer_init_divisor [of "init_printf Screen_Putc (power_on (\<lambda>_. 0) (\<lambda>_ _. 0))" 50]
  by (auto simp: init_printf_def)

end
