(* ===== verification/Paging.thy ===== *)
theory Paging
  imports Ports
begin

text \<open>
  \<open>paging.c\<close>: page table entries, the bitmap of physical frames, page directories and the
  page fault handler. Tables and directories are bytes of the kernel's memory, laid out as
  the structures of \<open>paging.h\<close>. The functions that need a fresh page take the allocator
  \<open>kap\<close> (\<open>kmalloc_ap\<close>, which returns an address and its physical address) as an argument,
  because \<open>kheap.c\<close> in turn calls them; \<open>Kheap\<close> ties the knot.
\<close>

unbundle bit_operations_syntax

subsection \<open>Layout\<close>

text \<open>The bit fields of \<open>page_t\<close> in the order of the declaration, from the lowest bit.\<close>

definition PRESENT :: nat where "PRESENT = 0"
definition RW :: nat where "RW = 1"
definition USER :: nat where "USER = 2"
definition ACCESSED :: nat where "ACCESSED = 3"
definition DIRTY :: nat where "DIRTY = 4"

definition page_frame :: "u32 \<Rightarrow> u32" where
  "page_frame p = drop_bit 12 p"

definition set_page_frame :: "u32 \<Rightarrow> u32 \<Rightarrow> u32" where
  "set_page_frame fr p = (p AND 0xFFF) OR push_bit 12 fr"

definition set_flag :: "nat \<Rightarrow> bool \<Rightarrow> u32 \<Rightarrow> u32" where
  "set_flag n b p = (if b then p OR push_bit n 1 else p AND NOT (push_bit n 1))"

definition sizeof_page_table :: u32 where
  "sizeof_page_table = 4096"

definition sizeof_page_directory :: u32 where
  "sizeof_page_directory = 8196"

text \<open>\<open>&dir->tables[i]\<close>, \<open>&dir->tablesPhysical[i]\<close>, \<open>&dir->physicalAddr\<close> and \<open>&table->pages[i]\<close>.\<close>

definition tables_at :: "u32 \<Rightarrow> u32 \<Rightarrow> u32" where
  "tables_at dir i = dir + 4 * i"

definition tablesPhysical_at :: "u32 \<Rightarrow> u32 \<Rightarrow> u32" where
  "tablesPhysical_at dir i = dir + 4096 + 4 * i"

definition physicalAddr_at :: "u32 \<Rightarrow> u32" where
  "physicalAddr_at dir = dir + 8192"

definition pages_at :: "u32 \<Rightarrow> u32 \<Rightarrow> u32" where
  "pages_at table i = table + 4 * i"

definition rd :: "u32 \<Rightarrow> machine \<Rightarrow> u32" where
  "rd a s = ld32 (mem s) a"

definition wr :: "u32 \<Rightarrow> u32 \<Rightarrow> machine \<Rightarrow> machine" where
  "wr a v s = s\<lparr>mem := st32 (mem s) a v\<rparr>"

definition upd_page :: "u32 \<Rightarrow> (u32 \<Rightarrow> u32) \<Rightarrow> machine \<Rightarrow> machine" where
  "upd_page page f s = wr page (f (rd page s)) s"

subsection \<open>The frame bitmap\<close>

definition INDEX_FROM_BIT :: "u32 \<Rightarrow> u32" where
  "INDEX_FROM_BIT a = a div (8 * 4)"

definition OFFSET_FROM_BIT :: "u32 \<Rightarrow> u32" where
  "OFFSET_FROM_BIT a = a mod (8 * 4)"

definition set_frame :: "u32 \<Rightarrow> machine \<Rightarrow> machine" where
  "set_frame frame_addr s =
     (let frame = frame_addr div 0x1000;
          idx = INDEX_FROM_BIT frame;
          off = OFFSET_FROM_BIT frame;
          a = frames s + 4 * idx
      in wr a (rd a s OR push_bit (unat off) 1) s)"

definition clear_frame :: "u32 \<Rightarrow> machine \<Rightarrow> machine" where
  "clear_frame frame_addr s =
     (let frame = frame_addr div 0x1000;
          idx = INDEX_FROM_BIT frame;
          off = OFFSET_FROM_BIT frame;
          a = frames s + 4 * idx
      in wr a (rd a s AND NOT (push_bit (unat off) 1)) s)"

text \<open>The two loops of \<open>first_frame\<close>; the fuel is the number of rounds left.\<close>

primrec first_bit_loop :: "nat \<Rightarrow> nat \<Rightarrow> u32 \<Rightarrow> nat option" where
  "first_bit_loop 0 j w = None"
| "first_bit_loop (Suc n) j w =
     (if w AND push_bit j 1 = 0 then Some j else first_bit_loop n (Suc j) w)"

primrec first_frame_loop :: "nat \<Rightarrow> u32 \<Rightarrow> machine \<Rightarrow> u32" where
  "first_frame_loop 0 i s = 0"
| "first_frame_loop (Suc n) i s =
     (let w = rd (frames s + 4 * i) s in
      if w \<noteq> 0xFFFFFFFF then
        (case first_bit_loop 32 0 w of
           Some j \<Rightarrow> i * 4 * 8 + of_nat j
         | None \<Rightarrow> first_frame_loop n (i + 1) s)
      else first_frame_loop n (i + 1) s)"

definition first_frame :: "machine \<Rightarrow> u32" where
  "first_frame s = first_frame_loop (unat (INDEX_FROM_BIT (nframes s))) 0 s"

definition alloc_frame :: "u32 \<Rightarrow> s32 \<Rightarrow> s32 \<Rightarrow> (machine, unit) prog" where
  "alloc_frame page is_kernel is_writeable s =
     (if page_frame (rd page s) \<noteq> 0 then Inr ((), s)
      else
        let idx = first_frame s in
        if idx = - 1 then panic (cstr ''No free frames!'') (cstr ''paging.c'') 84 s
        else
          let s = set_frame (idx * 0x1000) s;
              s = upd_page page (set_flag PRESENT True) s;
              s = upd_page page (set_flag RW (is_writeable = 1)) s;
              s = upd_page page (set_flag USER (is_kernel \<noteq> 1)) s;
              s = upd_page page (set_page_frame idx) s
          in Inr ((), s))"

definition free_frame :: "u32 \<Rightarrow> machine \<Rightarrow> machine" where
  "free_frame page s =
     (let frame = page_frame (rd page s) in
      if frame = 0 then s
      else upd_page page (set_page_frame 0) (clear_frame frame s))"

subsection \<open>Directories\<close>

definition switch_page_directory :: "u32 \<Rightarrow> (machine, unit) prog" where
  "switch_page_directory dir s =
     (let s = s\<lparr>current_directory := dir\<rparr>;
          s = s\<lparr>cr3 := rd (physicalAddr_at dir) s\<rparr>;
          s = s\<lparr>cr0 := cr0 s OR 0x80000000\<rparr>
      in tfp_printf (cstr ''page directory switched '' @ [10]) [] s)"

definition get_page ::
  "(u32 \<Rightarrow> (machine, u32 \<times> u32) prog) \<Rightarrow> u32 \<Rightarrow> bool \<Rightarrow> u32 \<Rightarrow> (machine, u32) prog" where
  "get_page kap address mk dir s =
     (let address = address div 0x1000;
          table_idx = address div 1024
      in
        if rd (tables_at dir table_idx) s \<noteq> 0
        then Inr (pages_at (rd (tables_at dir table_idx) s) (address mod 1024), s)
        else if mk then
          (case kap sizeof_page_table s of
             Inl h \<Rightarrow> Inl h
           | Inr ((table, tmp), s) \<Rightarrow>
               let s = wr (tables_at dir table_idx) table s;
                   s = s\<lparr>mem := memset (rd (tables_at dir table_idx) s) 0 0x1000 (mem s)\<rparr>;
                   s = wr (tablesPhysical_at dir table_idx) (tmp OR 0x7) s
               in Inr (pages_at (rd (tables_at dir table_idx) s) (address mod 1024), s))
        else Inr (0, s))"

text \<open>\<open>copy_page_physical\<close> is assembly; a call is recorded.\<close>

definition copy_page_physical :: "u32 \<Rightarrow> u32 \<Rightarrow> machine \<Rightarrow> machine" where
  "copy_page_physical src dest s = s\<lparr>phys_copies := phys_copies s @ [(src, dest)]\<rparr>"

definition clone_flag :: "nat \<Rightarrow> u32 \<Rightarrow> u32 \<Rightarrow> machine \<Rightarrow> machine" where
  "clone_flag n src page s = (if bit (rd src s) n then upd_page page (set_flag n True) s else s)"

primrec clone_table_loop :: "nat \<Rightarrow> u32 \<Rightarrow> u32 \<Rightarrow> u32 \<Rightarrow> (machine, unit) prog" where
  "clone_table_loop 0 i src table s = Inr ((), s)"
| "clone_table_loop (Suc n) i src table s =
     (if page_frame (rd (pages_at src i) s) = 0 then
        (case alloc_frame (pages_at table i) 0 0 s of
           Inl h \<Rightarrow> Inl h
         | Inr (_, s) \<Rightarrow>
             let s = clone_flag PRESENT (pages_at src i) (pages_at table i) s;
                 s = clone_flag RW (pages_at src i) (pages_at table i) s;
                 s = clone_flag USER (pages_at src i) (pages_at table i) s;
                 s = clone_flag ACCESSED (pages_at src i) (pages_at table i) s;
                 s = clone_flag DIRTY (pages_at src i) (pages_at table i) s;
                 s = copy_page_physical (page_frame (rd (pages_at src i) s) * 0x1000)
                       (page_frame (rd (pages_at table i) s) * 0x1000) s
             in clone_table_loop n (i + 1) src table s)
      else clone_table_loop n (i + 1) src table s)"

definition clone_table ::
  "(u32 \<Rightarrow> (machine, u32 \<times> u32) prog) \<Rightarrow> u32 \<Rightarrow> (machine, u32 \<times> u32) prog" where
  "clone_table kap src s =
     (case kap sizeof_page_table s of
        Inl h \<Rightarrow> Inl h
      | Inr ((table, physAddr), s) \<Rightarrow>
          (case clone_table_loop 1024 0 src table
                  (s\<lparr>mem := memset table 0 sizeof_page_directory (mem s)\<rparr>) of
             Inl h \<Rightarrow> Inl h
           | Inr (_, s) \<Rightarrow> Inr ((table, physAddr), s)))"

primrec clone_directory_loop ::
  "nat \<Rightarrow> (u32 \<Rightarrow> (machine, u32 \<times> u32) prog) \<Rightarrow> u32 \<Rightarrow> u32 \<Rightarrow> u32 \<Rightarrow> (machine, unit) prog" where
  "clone_directory_loop 0 kap i src dir s = Inr ((), s)"
| "clone_directory_loop (Suc n) kap i src dir s =
     (if rd (tables_at src i) s = 0 then clone_directory_loop n kap (i + 1) src dir s
      else if rd (tables_at (kernel_directory s) i) s = rd (tables_at src i) s then
        let s = wr (tables_at dir i) (rd (tables_at src i) s) s;
            s = wr (tablesPhysical_at dir i) (rd (tablesPhysical_at src i) s) s
        in clone_directory_loop n kap (i + 1) src dir s
      else
        (case clone_table kap (rd (tables_at src i) s) s of
           Inl h \<Rightarrow> Inl h
         | Inr ((table, phys), s) \<Rightarrow>
             let s = wr (tables_at dir i) table s;
                 s = wr (tablesPhysical_at dir i) (phys OR 0x07) s
             in clone_directory_loop n kap (i + 1) src dir s))"

definition clone_directory ::
  "(u32 \<Rightarrow> (machine, u32 \<times> u32) prog) \<Rightarrow> u32 \<Rightarrow> (machine, u32) prog" where
  "clone_directory kap src s =
     (case kap sizeof_page_directory s of
        Inl h \<Rightarrow> Inl h
      | Inr ((dir, phys), s) \<Rightarrow>
          let s = s\<lparr>mem := memset dir 0 sizeof_page_directory (mem s)\<rparr>;
              offset = tablesPhysical_at dir 0 - dir;
              s = wr (physicalAddr_at dir) (phys + offset) s
          in (case clone_directory_loop 1024 kap 0 src dir s of
                Inl h \<Rightarrow> Inl h
              | Inr (_, s) \<Rightarrow> Inr (dir, s)))"

subsection \<open>The page fault handler\<close>

definition print_if :: "bool \<Rightarrow> string \<Rightarrow> (machine, unit) prog" where
  "print_if b t = (if b then tfp_printf (cstr t) [] else ret ())"

definition page_fault :: "u32 \<Rightarrow> (machine, unit) prog" where
  "page_fault err_code s =
     (let faulting_address = cr2 s;
          present = (err_code AND 0x1 = 0);
          rw = (err_code AND 0x2 \<noteq> 0);
          us = (err_code AND 0x4 \<noteq> 0);
          reserved = (err_code AND 0x8 \<noteq> 0)
      in seq (tfp_printf (cstr ''Page fault! ( '') []) (\<lambda>_.
         seq (print_if present ''present '') (\<lambda>_.
         seq (print_if rw ''read-only '') (\<lambda>_.
         seq (print_if us ''user-mode '') (\<lambda>_.
         seq (print_if reserved ''reserved '') (\<lambda>_.
         seq (tfp_printf (cstr '') at 0x %x '' @ [10]) [VInt faulting_address]) (\<lambda>_.
         panic (cstr ''panic'') (cstr ''paging.c'') 165)))))) s)"

subsection \<open>The bitmap as a set of frame numbers\<close>

text \<open>Frame \<open>n\<close>'s bit, the number of frames the search covers, and the bitmap's place in memory.\<close>

definition frame_bit :: "machine \<Rightarrow> nat \<Rightarrow> bool" where
  "frame_bit s n = bit (rd (frames s + 4 * of_nat (n div 32)) s) (n mod 32)"

definition frame_count :: "machine \<Rightarrow> nat" where
  "frame_count s = 32 * (unat (nframes s) div 32)"

definition used_frames :: "machine \<Rightarrow> nat set" where
  "used_frames s = {n. n < frame_count s \<and> frame_bit s n}"

abbreviation bm_lo :: "machine \<Rightarrow> nat" where
  "bm_lo s \<equiv> unat (frames s)"

abbreviation bm_hi :: "machine \<Rightarrow> nat" where
  "bm_hi s \<equiv> unat (frames s) + 4 * (unat (nframes s) div 32)"

text \<open>The bitmap lies in the address space and frame numbers fit the field of \<open>page_t\<close>.\<close>

definition bitmap_ok :: "machine \<Rightarrow> bool" where
  "bitmap_ok s \<longleftrightarrow> bm_hi s \<le> 4294967296 \<and> unat (nframes s) \<le> 1048576"

lemma first_bit_loop_Some:
  "first_bit_loop n j w = Some k \<Longrightarrow> j \<le> k \<and> k < j + n \<and> \<not> bit w k \<and> (\<forall>i. j \<le> i \<and> i < k \<longrightarrow> bit w i)"
proof (induction n arbitrary: j)
  case (Suc n)
  show ?case
  proof (cases "bit w j")
    case True
    then have "first_bit_loop n (Suc j) w = Some k"
      using Suc.prems by (simp add: bit_iff_and_push_bit_not_eq_0)
    with Suc.IH [of "Suc j"] True show ?thesis
      by (metis Suc_le_lessD add_Suc_right add_Suc_shift less_imp_le less_or_eq_imp_le not_less_eq_eq order_antisym_conv)
  next
    case False
    with Suc.prems show ?thesis by (auto simp: bit_iff_and_push_bit_not_eq_0)
  qed
qed simp

lemma first_bit_loop_None: "first_bit_loop n j w = None \<Longrightarrow> j \<le> k \<Longrightarrow> k < j + n \<Longrightarrow> bit w k"
proof (induction n arbitrary: j)
  case (Suc n)
  then have "bit w j" "first_bit_loop n (Suc j) w = None"
    by (auto simp: bit_iff_and_push_bit_not_eq_0 split: if_splits)
  with Suc show ?case by (cases "k = j") auto
qed simp

lemma word_full_bits: "(w = 0xFFFFFFFF) = (\<forall>j < 32. bit w j)" for w :: u32
proof
  assume "\<forall>j < 32. bit w j"
  then have "w = - 1" by (intro bit_word_eqI) simp
  then show "w = 0xFFFFFFFF" by simp
next
  assume "w = 0xFFFFFFFF"
  then have "w = - 1" by simp
  then show "\<forall>j < 32. bit w j" by simp
qed

lemma first_frame_loop_least:
  assumes "unat i + n < 2 ^ 27"
  shows "(\<exists>k. 32 * unat i \<le> k \<and> k < 32 * (unat i + n) \<and> \<not> frame_bit s k
      \<and> (\<forall>k'. 32 * unat i \<le> k' \<and> k' < k \<longrightarrow> frame_bit s k') \<and> first_frame_loop n i s = of_nat k)
    \<or> (\<forall>k. 32 * unat i \<le> k \<and> k < 32 * (unat i + n) \<longrightarrow> frame_bit s k) \<and> first_frame_loop n i s = 0"
  using assms
proof (induction n arbitrary: i)
  case (Suc n)
  let ?w = "rd (frames s + 4 * i) s"
  have word: "frame_bit s (32 * unat i + j) = bit ?w j" if "j < 32" for j
    using that by (simp add: frame_bit_def)
  have word': "frame_bit s k = bit ?w (k - 32 * unat i)" if "32 * unat i \<le> k" "k < 32 * unat i + 32" for k
    using word [of "k - 32 * unat i"] that by simp
  show ?case
  proof (cases "?w = 0xFFFFFFFF")
    case False
    then obtain j where "j < 32" "\<not> bit ?w j" by (auto simp: word_full_bits)
    then obtain j where j: "first_bit_loop 32 0 ?w = Some j"
      using first_bit_loop_None [of 32 0 ?w j] by (cases "first_bit_loop 32 0 ?w") auto
    then have "first_frame_loop (Suc n) i s = of_nat (32 * unat i + j)" using False by simp
    moreover have "\<not> frame_bit s (32 * unat i + j)" "j < 32"
      "\<forall>k'. 32 * unat i \<le> k' \<and> k' < 32 * unat i + j \<longrightarrow> frame_bit s k'"
      using first_bit_loop_Some [OF j] word by (auto simp: word')
    ultimately show ?thesis by (intro disjI1 exI [of _ "32 * unat i + j"]) simp
  next
    case True
    have u: "unat (i + 1) = Suc (unat i)" using Suc.prems by (intro unat_add32 [of i 1, simplified]) simp
    have full: "frame_bit s k" if "32 * unat i \<le> k" "k < 32 * unat i + 32" for k
      using True that word' [OF that] by (auto simp: word_full_bits)
    have below: "frame_bit s k'" if "\<forall>k'. 32 * Suc (unat i) \<le> k' \<and> k' < k \<longrightarrow> frame_bit s k'"
      "32 * unat i \<le> k'" "k' < k" for k k'
      using that full [of k'] by (cases "k' < 32 * unat i + 32") auto
    have step: "first_frame_loop (Suc n) i s = first_frame_loop n (i + 1) s" using True by simp
    from Suc.IH [of "i + 1"] Suc.prems
    have "(\<exists>k. 32 * Suc (unat i) \<le> k \<and> k < 32 * (Suc (unat i) + n) \<and> \<not> frame_bit s k
        \<and> (\<forall>k'. 32 * Suc (unat i) \<le> k' \<and> k' < k \<longrightarrow> frame_bit s k') \<and> first_frame_loop n (i + 1) s = of_nat k)
      \<or> (\<forall>k. 32 * Suc (unat i) \<le> k \<and> k < 32 * (Suc (unat i) + n) \<longrightarrow> frame_bit s k)
        \<and> first_frame_loop n (i + 1) s = 0"
      unfolding u by simp
    then show ?thesis
    proof (elim disjE exE conjE)
      fix k assume k: "32 * Suc (unat i) \<le> k" "k < 32 * (Suc (unat i) + n)" "\<not> frame_bit s k"
        "\<forall>k'. 32 * Suc (unat i) \<le> k' \<and> k' < k \<longrightarrow> frame_bit s k'" "first_frame_loop n (i + 1) s = of_nat k"
      then show ?thesis using below [OF k(4)] unfolding step
        by (intro disjI1 exI [of _ k] conjI) simp_all
    next
      assume all: "\<forall>k. 32 * Suc (unat i) \<le> k \<and> k < 32 * (Suc (unat i) + n) \<longrightarrow> frame_bit s k"
        and z: "first_frame_loop n (i + 1) s = 0"
      have "\<forall>k. 32 * unat i \<le> k \<and> k < 32 * (unat i + Suc n) \<longrightarrow> frame_bit s k"
        using below [of "32 * (unat i + Suc n)"] all by simp
      with z show ?thesis unfolding step by blast
    qed
  qed
qed auto

lemma first_frame_least:
  assumes "bitmap_ok s"
  shows "if used_frames s = {..<frame_count s} then first_frame s = 0
    else \<exists>k. k < frame_count s \<and> k \<notin> used_frames s \<and> (\<forall>j < k. j \<in> used_frames s) \<and> first_frame s = of_nat k"
proof -
  have n: "unat (INDEX_FROM_BIT (nframes s)) = unat (nframes s) div 32"
    by (simp add: INDEX_FROM_BIT_def unat_div)
  have "unat (nframes s) div 32 < 2 ^ 27"
    using assms by (simp add: bitmap_ok_def less_mult_imp_div_less)
  with first_frame_loop_least [of 0 "unat (nframes s) div 32" s] show ?thesis
    by (auto simp: first_frame_def n used_frames_def frame_count_def)
qed


text \<open>The address of a frame's word in the bitmap.\<close>

lemma unat_frame_word:
  assumes "bitmap_ok s" and "n < frame_count s"
  shows "unat (frames s + 4 * of_nat (n div 32)) = bm_lo s + 4 * (n div 32)"
    and "bm_lo s + 4 * (n div 32) + 4 \<le> bm_hi s"
proof -
  have w: "n div 32 < unat (nframes s) div 32"
    using assms(2) by (simp add: frame_count_def less_mult_imp_div_less mult.commute)
  then show hi: "bm_lo s + 4 * (n div 32) + 4 \<le> bm_hi s" by simp
  then have b: "bm_lo s + 4 * (n div 32) < 4294967296" using assms(1) by (simp add: bitmap_ok_def)
  then have "unat (4 * of_nat (n div 32) :: u32) = 4 * (n div 32)"
    using unat_of_nat32 [of "4 * (n div 32)"] by simp
  with b show "unat (frames s + 4 * of_nat (n div 32)) = bm_lo s + 4 * (n div 32)"
    by (simp add: unat_add32)
qed

lemma frame_count_bound: "bitmap_ok s \<Longrightarrow> n < frame_count s \<Longrightarrow> n < 1048576"
  using times_div_less_eq_dividend [of 32 "unat (nframes s)"]
  unfolding bitmap_ok_def frame_count_def by linarith

text \<open>The index arithmetic of \<open>set_frame\<close> and \<open>clear_frame\<close> on a frame address.\<close>

lemma frame_address_parts:
  assumes "n < 1048576"
  shows "(of_nat n * 0x1000 :: u32) div 0x1000 = of_nat n"
    and "INDEX_FROM_BIT (of_nat n) = of_nat (n div 32)" and "unat (OFFSET_FROM_BIT (of_nat n)) = n mod 32"
proof -
  have u: "unat (of_nat n :: u32) = n" using assms by (intro unat_of_nat32) simp
  have "unat (of_nat (n * 4096) :: u32) = n * 4096" using assms by (intro unat_of_nat32) simp
  then have "unat ((of_nat n * 0x1000 :: u32) div 0x1000) = n" by (simp add: unat_div)
  with u show "(of_nat n * 0x1000 :: u32) div 0x1000 = of_nat n" by (intro unat_eqI32) simp
  have "unat (of_nat (n div 32) :: u32) = n div 32" using assms by (intro unat_of_nat32) simp
  with u show "INDEX_FROM_BIT (of_nat n) = of_nat (n div 32)"
    by (intro unat_eqI32) (simp add: INDEX_FROM_BIT_def unat_div)
  from u show "unat (OFFSET_FROM_BIT (of_nat n)) = n mod 32"
    by (simp add: OFFSET_FROM_BIT_def unat_mod)
qed

lemma frame_bit_wr:
  assumes "bitmap_ok s" and "n < frame_count s" and "k < frame_count s"
  shows "frame_bit (wr (frames s + 4 * of_nat (n div 32)) v s) k =
    (if k div 32 = n div 32 then bit v (k mod 32) else frame_bit s k)"
proof (cases "k div 32 = n div 32")
  case True
  then show ?thesis by (simp add: frame_bit_def wr_def rd_def)
next
  case False
  note a = unat_frame_word [OF assms(1,2)] unat_frame_word [OF assms(1,3)]
  from False have "4 * (n div 32) + 4 \<le> 4 * (k div 32) \<or> 4 * (k div 32) + 4 \<le> 4 * (n div 32)" by linarith
  with a assms(1) show ?thesis using False unfolding frame_bit_def wr_def rd_def
    by (simp, subst ld32_st32_far) (auto simp: bitmap_ok_def)
qed

lemma bit_set_clear:
  assumes "j < 32"
  shows "bit (w OR 2 ^ i :: u32) j = (bit w j \<or> j = i)"
    and "bit (w AND NOT (2 ^ i) :: u32) j = (bit w j \<and> j \<noteq> i)"
  using assms by (auto simp: bit_simps)

lemma div_mod_32_eq: "(k = n) = (k div 32 = n div 32 \<and> k mod 32 = n mod 32)" for k n :: nat
  by (metis div_mult_mod_eq)

lemma set_frame_bits:
  assumes "bitmap_ok s" and "n < frame_count s"
  shows "set_frame (of_nat n * 0x1000) s = wr (frames s + 4 * of_nat (n div 32))
      (rd (frames s + 4 * of_nat (n div 32)) s OR push_bit (n mod 32) 1) s"
    and "k < frame_count s \<Longrightarrow> frame_bit (set_frame (of_nat n * 0x1000) s) k = (k = n \<or> frame_bit s k)"
proof -
  note p = frame_address_parts [OF frame_count_bound [OF assms]]
  show e: "set_frame (of_nat n * 0x1000) s = wr (frames s + 4 * of_nat (n div 32))
      (rd (frames s + 4 * of_nat (n div 32)) s OR push_bit (n mod 32) 1) s"
    unfolding set_frame_def Let_def p ..
  assume "k < frame_count s"
  then show "frame_bit (set_frame (of_nat n * 0x1000) s) k = (k = n \<or> frame_bit s k)"
    unfolding e frame_bit_wr [OF assms \<open>k < frame_count s\<close>]
    using div_mod_32_eq [of k n] by (auto simp: bit_set_clear frame_bit_def)
qed

lemma clear_frame_bits:
  assumes "bitmap_ok s" and "n < frame_count s" and "a div 0x1000 = of_nat n"
  shows "clear_frame a s = wr (frames s + 4 * of_nat (n div 32))
      (rd (frames s + 4 * of_nat (n div 32)) s AND NOT (push_bit (n mod 32) 1)) s"
    and "k < frame_count s \<Longrightarrow> frame_bit (clear_frame a s) k = (k \<noteq> n \<and> frame_bit s k)"
proof -
  note p = frame_address_parts [OF frame_count_bound [OF assms(1,2)]]
  show e: "clear_frame a s = wr (frames s + 4 * of_nat (n div 32))
      (rd (frames s + 4 * of_nat (n div 32)) s AND NOT (push_bit (n mod 32) 1)) s"
    unfolding clear_frame_def Let_def assms(3) p ..
  assume "k < frame_count s"
  then show "frame_bit (clear_frame a s) k = (k \<noteq> n \<and> frame_bit s k)"
    unfolding e frame_bit_wr [OF assms(1,2) \<open>k < frame_count s\<close>]
    using div_mod_32_eq [of k n] by (auto simp: bit_set_clear frame_bit_def)
qed

subsection \<open>Page entries\<close>

lemma st32_st32_same [simp]: "st32 (st32 m a v) a w = st32 m a w"
  by (simp add: st32_def fun_eq_iff)

lemma rd_wr_same [simp]: "rd a (wr a v s) = v"
  by (simp add: rd_def wr_def)

lemma wr_wr_same [simp]: "wr a w (wr a v s) = wr a w s"
  by (simp add: wr_def)

lemma mem_wr [simp]: "mem (wr a v s) = st32 (mem s) a v"
  by (simp add: wr_def)

lemma rd_mem_cong: "mem s' = mem s \<Longrightarrow> rd a s' = rd a s"
  by (simp add: rd_def)

lemma upd_page_twice [simp]: "upd_page p f (upd_page p g s) = upd_page p (\<lambda>e. f (g e)) s"
  by (simp add: upd_page_def)

text \<open>What \<open>alloc_frame\<close> makes of an entry.\<close>

definition new_entry :: "u32 \<Rightarrow> s32 \<Rightarrow> s32 \<Rightarrow> u32 \<Rightarrow> u32" where
  "new_entry idx is_kernel is_writeable e =
     set_page_frame idx (set_flag USER (is_kernel \<noteq> 1) (set_flag RW (is_writeable = 1) (set_flag PRESENT True e)))"

lemma alloc_frame_eq:
  assumes "page_frame (rd page s) = 0" and "first_frame s \<noteq> - 1"
  shows "alloc_frame page ik iw s =
    Inr ((), upd_page page (new_entry (first_frame s) ik iw) (set_frame (first_frame s * 0x1000) s))"
proof -
  have "new_entry k ik iw = (\<lambda>e. set_page_frame k (set_flag USER (ik \<noteq> 1)
      (set_flag RW (iw = 1) (set_flag PRESENT True e))))" for k
    by (simp add: fun_eq_iff new_entry_def)
  then show ?thesis using assms by (simp add: alloc_frame_def Let_def)
qed

lemma new_entry_bits:
  shows "bit (new_entry idx ik iw e) PRESENT" and "bit (new_entry idx ik iw e) RW = (iw = 1)"
    and "bit (new_entry idx ik iw e) USER = (ik \<noteq> 1)"
    and "bit (new_entry idx ik iw e) ACCESSED = bit e ACCESSED"
    and "bit (new_entry idx ik iw e) DIRTY = bit e DIRTY"
  by (auto simp: new_entry_def set_page_frame_def set_flag_def PRESENT_def RW_def USER_def
      ACCESSED_def DIRTY_def bit_simps)

lemma page_frame_set [simp]: "page_frame (set_page_frame k e) = k" if "unat k < 1048576"
proof -
  have high: "\<not> bit k n" if "20 \<le> n" "n < 32" for n
  proof -
    have "(2 :: nat) ^ 20 \<le> 2 ^ n" using that by (intro power_increasing) simp_all
    with \<open>unat k < 1048576\<close> have "drop_bit n (unat k) = 0" by (simp add: drop_bit_eq_div)
    then have "\<not> bit (unat k) n" by (simp add: bit_iff_odd_drop_bit)
    with that show ?thesis by (simp add: bit_unsigned_iff)
  qed
  show ?thesis
  proof (rule bit_word_eqI)
    fix n assume "n < LENGTH(32)"
    then show "bit (page_frame (set_page_frame k e)) n = bit k n"
      using high [of n]
      by (cases "20 \<le> n") (auto simp: page_frame_def set_page_frame_def bit_simps)
  qed
qed

lemma page_frame_new_entry [simp]: "unat idx < 1048576 \<Longrightarrow> page_frame (new_entry idx ik iw e) = idx"
  by (simp add: new_entry_def)


text \<open>An entry that lies apart from the bitmap.\<close>

definition entry_apart :: "u32 \<Rightarrow> machine \<Rightarrow> bool" where
  "entry_apart page s \<longleftrightarrow> unat page + 4 \<le> 4294967296 \<and> (unat page + 4 \<le> bm_lo s \<or> bm_hi s \<le> unat page)"

lemma rd_wr_frame_word:
  assumes "bitmap_ok s" and "n < frame_count s" and "entry_apart page s"
  shows "rd page (wr (frames s + 4 * of_nat (n div 32)) v s) = rd page s"
  using unat_frame_word [OF assms(1,2)] assms(1,3)
  unfolding rd_def mem_wr by (intro ld32_st32_far) (auto simp: bitmap_ok_def entry_apart_def)

lemma bitmap_fields_wr [simp]:
  "frames (wr a v s) = frames s" "nframes (wr a v s) = nframes s"
  "frame_count (wr a v s) = frame_count s" "bitmap_ok (wr a v s) = bitmap_ok s"
  "entry_apart p (wr a v s) = entry_apart p s"
  by (simp_all add: wr_def frame_count_def bitmap_ok_def entry_apart_def)

lemma frame_bit_wr_apart:
  assumes "bitmap_ok s" and "n < frame_count s" and "entry_apart page s"
  shows "frame_bit (wr page v s) n = frame_bit s n"
proof -
  have "ld32 (st32 (mem s) page v) (frames s + 4 * of_nat (n div 32)) = ld32 (mem s) (frames s + 4 * of_nat (n div 32))"
    using unat_frame_word [OF assms(1,2)] assms(1,3)
    by (intro ld32_st32_far) (auto simp: bitmap_ok_def entry_apart_def)
  then show ?thesis by (simp add: frame_bit_def rd_def)
qed

lemma used_frames_wr_apart:
  "bitmap_ok s \<Longrightarrow> entry_apart page s \<Longrightarrow> used_frames (wr page v s) = used_frames s"
  by (auto simp: used_frames_def frame_bit_wr_apart)

lemma used_frames_set:
  "bitmap_ok s \<Longrightarrow> n < frame_count s \<Longrightarrow> used_frames (set_frame (of_nat n * 0x1000) s) = insert n (used_frames s)"
  using set_frame_bits(2) [of s n] by (auto simp: used_frames_def set_frame_bits(1))

lemma frame_number_not_minus_one: "n < 1048576 \<Longrightarrow> (of_nat n :: u32) \<noteq> - 1"
proof
  assume n: "n < 1048576" and "(of_nat n :: u32) = - 1"
  then have "unat (of_nat n :: u32) = unat (- 1 :: u32)" by simp
  also have "\<dots> = 4294967295" by (simp add: unsigned_minus_1_eq_mask mask_eq_exp_minus_1)
  finally show False using n unat_of_nat32 [of n] by simp
qed

text \<open>
  \<open>alloc_frame\<close> on an entry without a frame: the least free frame becomes used and is stored
  in the entry with the flags; two words of memory change.
\<close>

lemma alloc_frame_takes:
  assumes ok: "bitmap_ok s" and apart: "entry_apart page s" and empty: "page_frame (rd page s) = 0"
    and free: "used_frames s \<noteq> {..<frame_count s}"
  obtains k s' where "k < frame_count s" and "k \<notin> used_frames s" and "\<forall>j < k. j \<in> used_frames s"
    and "first_frame s = of_nat k"
    and "alloc_frame page ik iw s = Inr ((), s')" and "used_frames s' = insert k (used_frames s)"
    and "rd page s' = new_entry (of_nat k) ik iw (rd page s)"
    and "s' = wr page (new_entry (of_nat k) ik iw (rd page s)) (set_frame (of_nat k * 0x1000) s)"
proof -
  from first_frame_least [OF ok] free obtain k where
    k: "k < frame_count s" "k \<notin> used_frames s" "\<forall>j < k. j \<in> used_frames s" "first_frame s = of_nat k"
    by auto
  let ?s = "set_frame (of_nat k * 0x1000) s"
  let ?s' = "wr page (new_entry (of_nat k) ik iw (rd page s)) ?s"
  note b = frame_count_bound [OF ok k(1)]
  have "rd page ?s = rd page s"
    unfolding set_frame_bits(1) [OF ok k(1)] by (rule rd_wr_frame_word [OF ok k(1) apart])
  then have run: "alloc_frame page ik iw s = Inr ((), ?s')"
    using alloc_frame_eq [OF empty, of ik iw] frame_number_not_minus_one [OF b] k(4)
    by (simp add: upd_page_def)
  have "used_frames ?s' = used_frames ?s"
    using ok apart by (intro used_frames_wr_apart) (simp_all add: set_frame_bits(1) [OF ok k(1)])
  also have "\<dots> = insert k (used_frames s)" by (rule used_frames_set [OF ok k(1)])
  finally show ?thesis using that [OF k run] by simp
qed

subsection \<open>Giving frames to many entries\<close>

text \<open>
  The interface between the frame bitmap and the code that maps pages: \<open>give p\<close> gives the
  entry \<open>p\<close> a frame. The lemma below is proved from the laws alone: entries that are served
  one after the other get different frames, none of them in use before.
\<close>

locale frame_mapper =
  fixes used :: "'s \<Rightarrow> nat set" and total :: "'s \<Rightarrow> nat" and good :: "'s \<Rightarrow> bool"
    and frame_of :: "'p \<Rightarrow> 's \<Rightarrow> nat" and give :: "'p \<Rightarrow> 's \<Rightarrow> 's" and pages :: "'p set"
  assumes bounded: "used s \<subseteq> {..<total s}"
    and give: "good s \<Longrightarrow> p \<in> pages \<Longrightarrow> frame_of p s = 0 \<Longrightarrow> used s \<noteq> {..<total s} \<Longrightarrow>
      frame_of p (give p s) \<notin> used s \<and> used (give p s) = insert (frame_of p (give p s)) (used s)
      \<and> good (give p s) \<and> total (give p s) = total s"
    and others: "good s \<Longrightarrow> p \<in> pages \<Longrightarrow> q \<in> pages \<Longrightarrow> q \<noteq> p \<Longrightarrow> frame_of p s = 0 \<Longrightarrow>
      used s \<noteq> {..<total s} \<Longrightarrow> frame_of q (give p s) = frame_of q s"
begin

lemma give_all:
  assumes "good s" and "distinct ps" and "set ps \<subseteq> pages" and "\<forall>p \<in> set ps. frame_of p s = 0"
    and "card (used s) + length ps \<le> total s"
  shows "good (fold give ps s) \<and> total (fold give ps s) = total s
    \<and> distinct (map (\<lambda>p. frame_of p (fold give ps s)) ps)
    \<and> (\<lambda>p. frame_of p (fold give ps s)) ` set ps \<inter> used s = {}
    \<and> used (fold give ps s) = used s \<union> (\<lambda>p. frame_of p (fold give ps s)) ` set ps
    \<and> (\<forall>q \<in> pages - set ps. frame_of q (fold give ps s) = frame_of q s)"
  using assms
proof (induction ps arbitrary: s)
  case (Cons p ps)
  define t where "t = give p s"
  define f where "f = fold give ps t"
  have f: "fold give (p # ps) s = f" by (simp add: f_def t_def)
  have "card (used s) < card {..<total s}" using Cons.prems(5) by simp
  then have free: "used s \<noteq> {..<total s}" by (metis less_irrefl)
  have p: "p \<in> pages" "frame_of p s = 0" "p \<notin> set ps" "set ps \<subseteq> pages" "distinct ps"
    using Cons.prems(2-4) by simp_all
  have g: "frame_of p t \<notin> used s" "used t = insert (frame_of p t) (used s)" "good t" "total t = total s"
    using give [OF Cons.prems(1) p(1,2) free] by (simp_all add: t_def)
  have rest: "frame_of q t = frame_of q s" if "q \<in> pages" "q \<noteq> p" for q
    unfolding t_def using others [OF Cons.prems(1) p(1) that p(2) free] .
  have "finite (used s)" using bounded finite_subset by blast
  then have room: "card (used t) + length ps \<le> total t" using g Cons.prems(5) by simp
  have zero: "\<forall>q \<in> set ps. frame_of q t = 0"
  proof
    fix q assume "q \<in> set ps"
    then have "q \<in> pages" "q \<noteq> p" "frame_of q s = 0" using Cons.prems(4) p(3,4) by auto
    then show "frame_of q t = 0" by (simp add: rest)
  qed
  have IH: "good f" "total f = total t" "distinct (map (\<lambda>p. frame_of p f) ps)"
    "(\<lambda>p. frame_of p f) ` set ps \<inter> used t = {}" "used f = used t \<union> (\<lambda>p. frame_of p f) ` set ps"
    "\<forall>q \<in> pages - set ps. frame_of q f = frame_of q t"
    using Cons.IH [OF g(3) p(5,4) zero room, folded f_def] by - (elim conjE, assumption)+
  have head: "frame_of p f = frame_of p t" using IH(6) p(1,3) by simp
  have "frame_of p t \<notin> (\<lambda>p. frame_of p f) ` set ps" using IH(4) g(2) by blast
  then have "distinct (map (\<lambda>p. frame_of p f) (p # ps))" using IH(3) head by simp
  moreover have "(\<lambda>p. frame_of p f) ` set (p # ps) \<inter> used s = {}"
    using IH(4) g(1,2) unfolding head list.set image_insert by blast
  moreover have "used f = used s \<union> (\<lambda>p. frame_of p f) ` set (p # ps)"
    using IH(5) g(2) head by simp
  moreover have "\<forall>q \<in> pages - set (p # ps). frame_of q f = frame_of q s"
    using IH(6) rest by simp
  ultimately show ?case unfolding f using IH(1,2) g(4) by simp
qed simp

end

definition table_apart :: "u32 \<Rightarrow> machine \<Rightarrow> bool" where
  "table_apart t s \<longleftrightarrow> unat t + 4096 \<le> 4294967296 \<and> (unat t + 4096 \<le> bm_lo s \<or> bm_hi s \<le> unat t)"

lemma unat_pages_at:
  assumes "unat t + 4096 \<le> 4294967296" and "i < 1024"
  shows "unat (pages_at t (of_nat i)) = unat t + 4 * i"
proof -
  have "unat (4 * of_nat i :: u32) = 4 * i" using unat_of_nat32 [of "4 * i"] assms(2) by simp
  with assms show ?thesis by (simp add: pages_at_def unat_add32)
qed

lemma table_entry_apart: "table_apart t s \<Longrightarrow> i < 1024 \<Longrightarrow> entry_apart (pages_at t (of_nat i)) s"
  using unat_pages_at [of t i] by (auto simp: table_apart_def entry_apart_def)

lemma table_apart_wr [simp]: "table_apart t (wr a v s) = table_apart t s"
  by (simp add: table_apart_def)

definition give_frame :: "u32 \<Rightarrow> s32 \<Rightarrow> s32 \<Rightarrow> nat \<Rightarrow> machine \<Rightarrow> machine" where
  "give_frame t ik iw i s =
     (case alloc_frame (pages_at t (of_nat i)) ik iw s of Inl h \<Rightarrow> s | Inr (_, s') \<Rightarrow> s')"

interpretation table_frames: frame_mapper used_frames frame_count
    "\<lambda>s. bitmap_ok s \<and> table_apart t s"
    "\<lambda>i s. unat (page_frame (rd (pages_at t (of_nat i)) s))" "give_frame t ik iw" "{..<1024}"
  for t ik iw
proof
  show "used_frames s \<subseteq> {..<frame_count s}" for s by (auto simp: used_frames_def)
next
  fix s i
  assume a: "bitmap_ok s \<and> table_apart t s" "i \<in> {..<1024 :: nat}"
    "unat (page_frame (rd (pages_at t (of_nat i)) s)) = 0" "used_frames s \<noteq> {..<frame_count s}"
  then have e: "page_frame (rd (pages_at t (of_nat i)) s) = 0" by (simp add: unat_eq_0)
  from a have ok: "bitmap_ok s" "table_apart t s" "i < 1024" by simp_all
  obtain k s' where k: "k < frame_count s" "k \<notin> used_frames s" "\<forall>j < k. j \<in> used_frames s"
    "first_frame s = of_nat k" "alloc_frame (pages_at t (of_nat i)) ik iw s = Inr ((), s')"
    "used_frames s' = insert k (used_frames s)"
    "rd (pages_at t (of_nat i)) s' = new_entry (of_nat k) ik iw (rd (pages_at t (of_nat i)) s)"
    "s' = wr (pages_at t (of_nat i)) (new_entry (of_nat k) ik iw (rd (pages_at t (of_nat i)) s))
            (set_frame (of_nat k * 0x1000) s)"
    by (rule alloc_frame_takes [OF ok(1) table_entry_apart [OF ok(2,3)] e a(4)])
  have u: "unat (of_nat k :: u32) = k" "k < 1048576" using frame_count_bound [of s k] a k(1)
    by (simp_all add: unat_of_nat32)
  have g: "give_frame t ik iw i s = s'" using k(5) by (simp add: give_frame_def)
  have "frame_count s' = frame_count s" "bitmap_ok s'" "table_apart t s'"
    using ok k(1) unfolding k(8) by (simp_all add: set_frame_bits(1))
  then show "unat (page_frame (rd (pages_at t (of_nat i)) (give_frame t ik iw i s))) \<notin> used_frames s
    \<and> used_frames (give_frame t ik iw i s) =
        insert (unat (page_frame (rd (pages_at t (of_nat i)) (give_frame t ik iw i s)))) (used_frames s)
    \<and> (bitmap_ok (give_frame t ik iw i s) \<and> table_apart t (give_frame t ik iw i s))
    \<and> frame_count (give_frame t ik iw i s) = frame_count s"
    unfolding g using k u by simp
next
  fix s and i j :: nat
  assume a: "bitmap_ok s \<and> table_apart t s" "i \<in> {..<1024 :: nat}" "j \<in> {..<1024}" "j \<noteq> i"
    "unat (page_frame (rd (pages_at t (of_nat i)) s)) = 0" "used_frames s \<noteq> {..<frame_count s}"
  then have e: "page_frame (rd (pages_at t (of_nat i)) s) = 0" by (simp add: unat_eq_0)
  from a have ok: "bitmap_ok s" "table_apart t s" "i < 1024" by simp_all
  obtain k s' where k: "k < frame_count s" "k \<notin> used_frames s" "\<forall>j < k. j \<in> used_frames s"
    "first_frame s = of_nat k" "alloc_frame (pages_at t (of_nat i)) ik iw s = Inr ((), s')"
    "used_frames s' = insert k (used_frames s)"
    "rd (pages_at t (of_nat i)) s' = new_entry (of_nat k) ik iw (rd (pages_at t (of_nat i)) s)"
    "s' = wr (pages_at t (of_nat i)) (new_entry (of_nat k) ik iw (rd (pages_at t (of_nat i)) s))
            (set_frame (of_nat k * 0x1000) s)"
    by (rule alloc_frame_takes [OF ok(1) table_entry_apart [OF ok(2,3)] e a(6)])
  have "rd (pages_at t (of_nat j)) (wr (pages_at t (of_nat i)) v s'') = rd (pages_at t (of_nat j)) s''" for v s''
    using a unat_pages_at [of t i] unat_pages_at [of t j] unfolding rd_def mem_wr
    by (intro ld32_st32_far) (auto simp: table_apart_def)
  moreover have "rd (pages_at t (of_nat j)) (set_frame (of_nat k * 0x1000) s) = rd (pages_at t (of_nat j)) s"
    using a rd_wr_frame_word [OF ok(1) k(1) table_entry_apart [OF ok(2)], of j]
    by (simp add: set_frame_bits(1) [OF ok(1) k(1)])
  ultimately show "unat (page_frame (rd (pages_at t (of_nat j)) (give_frame t ik iw i s))) =
      unat (page_frame (rd (pages_at t (of_nat j)) s))"
    by (simp add: give_frame_def k(5,8))
qed

subsection \<open>Looking up and making page tables\<close>

definition table_index :: "u32 \<Rightarrow> u32" where
  "table_index a = a div 0x1000 div 1024"

definition page_index :: "u32 \<Rightarrow> u32" where
  "page_index a = a div 0x1000 mod 1024"

lemma table_index_bound: "unat (table_index a) < 1024"
  using unat_bound32 [of a] by (simp add: table_index_def unat_div)

lemma page_index_bound: "unat (page_index a) < 1024"
  by (simp add: page_index_def unat_mod)

definition dir_ok :: "u32 \<Rightarrow> bool" where
  "dir_ok dir \<longleftrightarrow> unat dir + 8196 \<le> 4294967296"

lemma unat_times4: "unat i < 1024 \<Longrightarrow> unat (4 * i) = 4 * unat i" for i :: u32
  using unat_of_nat32 [of "4 * unat i"] by simp

lemma unat_dir_fields:
  assumes "dir_ok dir" and "unat i < 1024"
  shows "unat (tables_at dir i) = unat dir + 4 * unat i"
    and "unat (tablesPhysical_at dir i) = unat dir + 4096 + 4 * unat i"
    and "unat (physicalAddr_at dir) = unat dir + 8192"
proof -
  note f = assms(1) [unfolded dir_ok_def] unat_times4 [OF assms(2)]
  show "unat (tables_at dir i) = unat dir + 4 * unat i"
    using f assms(2) by (simp add: tables_at_def unat_add32)
  have "unat (dir + 4096) = unat dir + 4096" using f by (simp add: unat_add_numeral32)
  then show "unat (tablesPhysical_at dir i) = unat dir + 4096 + 4 * unat i"
    using f assms(2) by (simp add: tablesPhysical_at_def unat_add32)
  show "unat (physicalAddr_at dir) = unat dir + 8192"
    using f by (simp add: physicalAddr_at_def unat_add_numeral32)
qed

lemma get_page_present:
  "rd (tables_at dir (table_index a)) s \<noteq> 0 \<Longrightarrow>
    get_page kap a mk dir s = Inr (pages_at (rd (tables_at dir (table_index a)) s) (page_index a), s)"
  by (simp add: get_page_def Let_def table_index_def page_index_def)

lemma get_page_absent:
  "rd (tables_at dir (table_index a)) s = 0 \<Longrightarrow> get_page kap a False dir s = Inr (0, s)"
  by (simp add: get_page_def Let_def table_index_def)

lemma ld32_zero: "(\<forall>i < 4. m (a + of_nat i) = 0) \<Longrightarrow> ld32 m a = 0"
proof -
  assume z: "\<forall>i < 4. m (a + of_nat i) = 0"
  from z [rule_format, of 0] z [rule_format, of 1] z [rule_format, of 2] z [rule_format, of 3]
  show ?thesis by (simp add: ld32_def)
qed

lemma ld32_memset_zero:
  assumes "unat p + unat n \<le> 4294967296" and "unat p \<le> unat a" and "unat a + 4 \<le> unat p + unat n"
  shows "ld32 (memset p 0 n m) a = 0"
proof (rule ld32_zero, intro allI impI)
  fix i :: nat assume i: "i < 4"
  then have u: "unat (a + of_nat i) = unat a + i"
    using assms by (simp add: unat_add32 unat_of_nat32)
  then have "unat (a + of_nat i - p) = unat a + i - unat p"
    using assms(2) by (simp add: unat_sub32)
  moreover have "unat a + i - unat p < unat n" using i assms by linarith
  ultimately show "memset p 0 n m (a + of_nat i) = 0" by (simp add: memset_apply)
qed

text \<open>A table and a directory that do not overlap.\<close>

definition table_clear_of :: "u32 \<Rightarrow> u32 \<Rightarrow> bool" where
  "table_clear_of t dir \<longleftrightarrow> dir_ok dir \<and> unat t + 4096 \<le> 4294967296
     \<and> (unat t + 4096 \<le> unat dir \<or> unat dir + 8196 \<le> unat t)"

lemma get_page_makes:
  assumes absent: "rd (tables_at dir (table_index a)) s = 0"
    and kap: "kap sizeof_page_table s = Inr ((t, ph), s1)" and clear: "table_clear_of t dir"
  obtains s2 where "get_page kap a True dir s = Inr (pages_at t (page_index a), s2)"
    and "s2 = s1\<lparr>mem := mem s2\<rparr>"
    and "rd (tables_at dir (table_index a)) s2 = t"
    and "rd (tablesPhysical_at dir (table_index a)) s2 = ph OR 7"
    and "\<forall>j < 1024. rd (pages_at t (of_nat j)) s2 = 0"
    and "\<forall>x. (unat x < unat t \<or> unat t + 4096 \<le> unat x) \<longrightarrow>
        (unat x < unat (tables_at dir (table_index a)) \<or> unat (tables_at dir (table_index a)) + 4 \<le> unat x) \<longrightarrow>
        (unat x < unat (tablesPhysical_at dir (table_index a)) \<or> unat (tablesPhysical_at dir (table_index a)) + 4 \<le> unat x) \<longrightarrow>
        mem s2 x = mem s1 x"
proof -
  let ?t = "tables_at dir (table_index a)" and ?p = "tablesPhysical_at dir (table_index a)"
  note b = table_index_bound [of a]
  have d: "dir_ok dir" "unat t + 4096 \<le> 4294967296" "unat t + 4096 \<le> unat dir \<or> unat dir + 8196 \<le> unat t"
    using clear by (auto simp: table_clear_of_def)
  note u = unat_dir_fields [OF d(1) b]
  define m1 where "m1 = st32 (mem s1) ?t t"
  define m2 where "m2 = memset t 0 0x1000 m1"
  define m3 where "m3 = st32 m2 ?p (ph OR 7)"
  have o1: "only_in (unat ?t) (unat ?t + 4) (mem s1) m1"
    unfolding m1_def using u d(1) b by (intro only_in_st32) (auto simp: dir_ok_def)
  have o2: "only_in (unat t) (unat t + 4096) m1 m2"
    unfolding m2_def using memset_only_in [of t "0x1000" m1 0] d(2) by (simp add: unat_numeral32)
  have o3: "only_in (unat ?p) (unat ?p + 4) m2 m3"
    unfolding m3_def using u d(1) b by (intro only_in_st32) (auto simp: dir_ok_def)
  have t1: "ld32 m1 ?t = t" by (simp add: m1_def)
  have t2: "ld32 m2 ?t = t"
    using ld32_only_in [OF o2, of ?t] u d b t1 by (auto simp: dir_ok_def)
  have t3: "ld32 m3 ?t = t"
    using ld32_only_in [OF o3, of ?t] u d b t2 by (auto simp: dir_ok_def)
  have p3: "ld32 m3 ?p = ph OR 7" by (simp add: m3_def)
  have z: "ld32 m3 (pages_at t (of_nat j)) = 0" if "j < 1024" for j
  proof -
    have pj: "unat (pages_at t (of_nat j)) = unat t + 4 * j" by (rule unat_pages_at [OF d(2) that])
    have "ld32 m2 (pages_at t (of_nat j)) = 0" unfolding m2_def
      using pj d(2) that by (intro ld32_memset_zero) (simp_all add: unat_numeral32)
    moreover have "ld32 m3 (pages_at t (of_nat j)) = ld32 m2 (pages_at t (of_nat j))"
      using pj d u b that by (intro ld32_only_in [OF o3]) (auto simp: dir_ok_def)
    ultimately show ?thesis by simp
  qed
  have run: "get_page kap a True dir s = Inr (pages_at t (page_index a), s1\<lparr>mem := m3\<rparr>)"
    using absent kap t1 t2 t3
    by (simp add: get_page_def Let_def table_index_def [symmetric] page_index_def [symmetric]
        wr_def rd_def m1_def m2_def m3_def)
  show ?thesis
  proof (rule that [OF run])
    show "rd ?t (s1\<lparr>mem := m3\<rparr>) = t" "rd ?p (s1\<lparr>mem := m3\<rparr>) = ph OR 7"
      "\<forall>j < 1024. rd (pages_at t (of_nat j)) (s1\<lparr>mem := m3\<rparr>) = 0"
      using t3 p3 z by (simp_all add: rd_def)
    show "\<forall>x. (unat x < unat t \<or> unat t + 4096 \<le> unat x) \<longrightarrow>
        (unat x < unat ?t \<or> unat ?t + 4 \<le> unat x) \<longrightarrow>
        (unat x < unat ?p \<or> unat ?p + 4 \<le> unat x) \<longrightarrow> mem (s1\<lparr>mem := m3\<rparr>) x = mem s1 x"
      using o1 o2 o3 by (simp add: only_in_def)
  qed simp
qed


subsection \<open>Cloning a directory whose tables are the kernel's\<close>

definition dirs_apart :: "u32 \<Rightarrow> u32 \<Rightarrow> bool" where
  "dirs_apart a b \<longleftrightarrow> dir_ok a \<and> dir_ok b \<and> (unat a + 8196 \<le> unat b \<or> unat b + 8196 \<le> unat a)"

text \<open>Every table of \<open>src\<close> is the kernel directory's at the same index.\<close>

definition kernel_tables :: "u32 \<Rightarrow> machine \<Rightarrow> bool" where
  "kernel_tables src s \<longleftrightarrow> (\<forall>i. unat i < 1024 \<longrightarrow> rd (tables_at src i) s = 0
     \<or> rd (tables_at (kernel_directory s) i) s = rd (tables_at src i) s)"

lemma rd_only_in_dir:
  assumes "dirs_apart dir d" and "only_in (unat dir) (unat dir + 8196) (mem s) (mem s')" and "unat i < 1024"
  shows "rd (tables_at d i) s' = rd (tables_at d i) s"
    and "rd (tablesPhysical_at d i) s' = rd (tablesPhysical_at d i) s"
proof -
  have ok: "dir_ok d" using assms(1) by (simp add: dirs_apart_def)
  note u = unat_dir_fields [OF ok assms(3)]
  show "rd (tables_at d i) s' = rd (tables_at d i) s"
    unfolding rd_def using u assms by (intro ld32_only_in [OF assms(2)]) (auto simp: dirs_apart_def dir_ok_def)
  show "rd (tablesPhysical_at d i) s' = rd (tablesPhysical_at d i) s"
    unfolding rd_def using u assms by (intro ld32_only_in [OF assms(2)]) (auto simp: dirs_apart_def dir_ok_def)
qed

text \<open>One shared entry: two words of the new directory.\<close>

definition share_entry :: "u32 \<Rightarrow> u32 \<Rightarrow> u32 \<Rightarrow> machine \<Rightarrow> machine" where
  "share_entry src dir i s =
     (let s = wr (tables_at dir i) (rd (tables_at src i) s) s
      in wr (tablesPhysical_at dir i) (rd (tablesPhysical_at src i) s) s)"

lemma share_entry:
  assumes apart: "dirs_apart dir src" and i: "unat i < 1024"
  shows "only_in (unat dir) (unat dir + 8196) (mem s) (mem (share_entry src dir i s))"
    and "rd (tables_at dir i) (share_entry src dir i s) = rd (tables_at src i) s"
    and "rd (tablesPhysical_at dir i) (share_entry src dir i s) = rd (tablesPhysical_at src i) s"
    and "unat j < 1024 \<Longrightarrow> j \<noteq> i \<Longrightarrow> rd (tables_at dir j) (share_entry src dir i s) = rd (tables_at dir j) s"
    and "unat j < 1024 \<Longrightarrow> j \<noteq> i \<Longrightarrow>
      rd (tablesPhysical_at dir j) (share_entry src dir i s) = rd (tablesPhysical_at dir j) s"
    and "rd (physicalAddr_at dir) (share_entry src dir i s) = rd (physicalAddr_at dir) s"
proof -
  have ok: "dir_ok dir" "dir_ok src" using apart by (simp_all add: dirs_apart_def)
  note b = ok(1) [unfolded dir_ok_def]
  note u = unat_dir_fields [OF ok(1) i]
  let ?s = "wr (tables_at dir i) (rd (tables_at src i) s) s"
  have 1: "only_in (unat dir) (unat dir + 8196) (mem s) (mem ?s)"
    unfolding mem_wr using u b i by (intro only_in_st32) auto
  have src: "rd (tablesPhysical_at src i) ?s = rd (tablesPhysical_at src i) s"
    by (rule rd_only_in_dir [OF apart 1 i])
  have e: "share_entry src dir i s = wr (tablesPhysical_at dir i) (rd (tablesPhysical_at src i) s) ?s"
    by (simp add: share_entry_def Let_def src)
  show "only_in (unat dir) (unat dir + 8196) (mem s) (mem (share_entry src dir i s))"
    unfolding e mem_wr [of "tablesPhysical_at dir i"] using u b i by (intro only_in_st32_step [OF 1]) auto
  show "rd (tablesPhysical_at dir i) (share_entry src dir i s) = rd (tablesPhysical_at src i) s"
    by (simp add: e)
  have far: "rd a (share_entry src dir i s) = rd a s"
    if "unat a + 4 \<le> unat dir + 4 * unat i \<or> unat dir + 4 * unat i + 4 \<le> unat a"
      "unat a + 4 \<le> unat dir + 4096 + 4 * unat i \<or> unat dir + 4096 + 4 * unat i + 4 \<le> unat a"
      "unat a + 4 \<le> 4294967296" for a
  proof -
    have "ld32 (st32 (st32 m (tables_at dir i) v) (tablesPhysical_at dir i) w) a = ld32 (st32 m (tables_at dir i) v) a"
      for m v w by (rule ld32_st32_far) (use that u b i in auto)
    also have "ld32 (st32 m (tables_at dir i) v) a = ld32 m a" for m v
      by (rule ld32_st32_far) (use that u b i in auto)
    finally show ?thesis by (simp add: e rd_def)
  qed
  show "rd (tables_at dir i) (share_entry src dir i s) = rd (tables_at src i) s"
    using u b i by (simp add: e rd_def ld32_st32_far)
  show "rd (physicalAddr_at dir) (share_entry src dir i s) = rd (physicalAddr_at dir) s"
    using u b i by (intro far) auto
  assume j: "unat j < 1024" "j \<noteq> i"
  then have ne: "unat j \<noteq> unat i" using unat_eqI32 by blast
  note uj = unat_dir_fields [OF ok(1) j(1)]
  show "rd (tables_at dir j) (share_entry src dir i s) = rd (tables_at dir j) s"
    using u uj b i j ne by (intro far) auto
  show "rd (tablesPhysical_at dir j) (share_entry src dir i s) = rd (tablesPhysical_at dir j) s"
    using u uj b i j ne by (intro far) auto
qed

lemma share_entry_frame: "\<exists>m. share_entry src dir i s = s\<lparr>mem := m\<rparr>"
  by (simp add: share_entry_def wr_def Let_def) blast

text \<open>The entries from \<open>i\<close> on, \<open>k\<close> of them, that have no table of their own are passed.\<close>

definition shared_range :: "u32 \<Rightarrow> u32 \<Rightarrow> nat \<Rightarrow> machine \<Rightarrow> bool" where
  "shared_range src i k s \<longleftrightarrow> (\<forall>j. unat i \<le> unat j \<longrightarrow> unat j < unat i + k \<longrightarrow> rd (tables_at src j) s = 0
     \<or> rd (tables_at (kernel_directory s) j) s = rd (tables_at src j) s)"

lemma shared_range_only_in:
  assumes "dirs_apart dir src" and "dirs_apart dir (kernel_directory s)" and "kernel_directory s' = kernel_directory s"
    and "only_in (unat dir) (unat dir + 8196) (mem s) (mem s')" and "unat i + k \<le> 1024" and "shared_range src i k s"
  shows "shared_range src i k s'"
  using assms(3,5,6) rd_only_in_dir(1) [OF assms(1,4)] rd_only_in_dir(1) [OF assms(2,4)]
  by (simp add: shared_range_def)

lemma clone_directory_loop_part:
  assumes "dirs_apart dir src" and "dirs_apart dir (kernel_directory s)" and "shared_range src i k s"
    and "unat i + k \<le> 1024"
  shows "\<exists>s'. clone_directory_loop (k + n) kap i src dir s = clone_directory_loop n kap (i + of_nat k) src dir s'
    \<and> (\<exists>m. s' = s\<lparr>mem := m\<rparr>) \<and> only_in (unat dir) (unat dir + 8196) (mem s) (mem s')
    \<and> rd (physicalAddr_at dir) s' = rd (physicalAddr_at dir) s
    \<and> (\<forall>j. unat j < 1024 \<longrightarrow>
        (if unat i \<le> unat j \<and> unat j < unat i + k \<and> rd (tables_at src j) s \<noteq> 0
         then rd (tables_at dir j) s' = rd (tables_at src j) s
           \<and> rd (tablesPhysical_at dir j) s' = rd (tablesPhysical_at src j) s
         else rd (tables_at dir j) s' = rd (tables_at dir j) s
           \<and> rd (tablesPhysical_at dir j) s' = rd (tablesPhysical_at dir j) s))"
  using assms
proof (induction k arbitrary: i s)
  case 0
  then show ?case by (auto intro!: exI [of _ s] exI [of _ "mem s"])
next
  case (Suc k)
  have i: "unat i < 1024" using Suc.prems(4) by simp
  have si: "unat (i + 1) = Suc (unat i)" using i by (simp add: unat_add32)
  define t where "t = (if rd (tables_at src i) s = 0 then s else share_entry src dir i s)"
  have "\<exists>m. t = s\<lparr>mem := m\<rparr>"
    using share_entry_frame [of src dir i s] by (cases "rd (tables_at src i) s = 0") (auto simp: t_def intro!: exI [of _ "mem s"])
  then obtain mt where tm: "t = s\<lparr>mem := mt\<rparr>" ..
  have kd: "kernel_directory t = kernel_directory s" by (simp add: tm)
  have only: "only_in (unat dir) (unat dir + 8196) (mem s) (mem t)"
    using share_entry(1) [OF Suc.prems(1) i, of s] by (simp add: t_def)
  have step: "clone_directory_loop (Suc k + n) kap i src dir s = clone_directory_loop (k + n) kap (i + 1) src dir t"
    using Suc.prems(3) [unfolded shared_range_def, rule_format, of i] by (auto simp: t_def share_entry_def Let_def)
  have rest: "shared_range src (i + 1) k s" using Suc.prems(3) si by (simp add: shared_range_def)
  have kdt: "dirs_apart dir (kernel_directory t)" using Suc.prems(2) kd by simp
  have pt: "shared_range src (i + 1) k t"
    by (rule shared_range_only_in [OF Suc.prems(1,2) kd only _ rest]) (use Suc.prems(4) si in simp)
  have lim: "unat (i + 1) + k \<le> 1024" using Suc.prems(4) si by simp
  from Suc.IH [OF Suc.prems(1) kdt pt lim] obtain s' ms where s':
    "clone_directory_loop (k + n) kap (i + 1) src dir t = clone_directory_loop n kap (i + 1 + of_nat k) src dir s'" "s' = t\<lparr>mem := ms\<rparr>"
    "only_in (unat dir) (unat dir + 8196) (mem t) (mem s')" "rd (physicalAddr_at dir) s' = rd (physicalAddr_at dir) t"
    "\<And>j. unat j < 1024 \<Longrightarrow>
        (if unat (i + 1) \<le> unat j \<and> unat j < unat (i + 1) + k \<and> rd (tables_at src j) t \<noteq> 0
         then rd (tables_at dir j) s' = rd (tables_at src j) t
           \<and> rd (tablesPhysical_at dir j) s' = rd (tablesPhysical_at src j) t
         else rd (tables_at dir j) s' = rd (tables_at dir j) t
           \<and> rd (tablesPhysical_at dir j) s' = rd (tablesPhysical_at dir j) t)" by blast
  have srcs: "rd (tables_at src j) t = rd (tables_at src j) s"
    "rd (tablesPhysical_at src j) t = rd (tablesPhysical_at src j) s" if "unat j < 1024" for j
    using rd_only_in_dir [OF Suc.prems(1) only that] by simp_all
  have "if unat i \<le> unat j \<and> unat j < unat i + Suc k \<and> rd (tables_at src j) s \<noteq> 0
         then rd (tables_at dir j) s' = rd (tables_at src j) s
           \<and> rd (tablesPhysical_at dir j) s' = rd (tablesPhysical_at src j) s
         else rd (tables_at dir j) s' = rd (tables_at dir j) s
           \<and> rd (tablesPhysical_at dir j) s' = rd (tablesPhysical_at dir j) s" if "unat j < 1024" for j
  proof (cases "j = i")
    case True
    then show ?thesis using s'(5) [OF that] srcs [OF that] share_entry(2,3) [OF Suc.prems(1) i, of s] si
      by (auto simp: t_def split: if_splits)
  next
    case False
    then have "unat j \<noteq> unat i" using unat_eqI32 by blast
    then have le: "(unat i \<le> unat j) = (Suc (unat i) \<le> unat j)" by auto
    show ?thesis using s'(5) [OF that] srcs [OF that] share_entry(4,5) [OF Suc.prems(1) i that False, of s] si
      unfolding le by (auto simp: t_def split: if_splits)
  qed
  moreover have "s' = s\<lparr>mem := ms\<rparr>" using s'(2) by (simp add: tm)
  moreover have "rd (physicalAddr_at dir) t = rd (physicalAddr_at dir) s"
    using share_entry(6) [OF Suc.prems(1) i, of s] by (simp add: t_def)
  moreover have "only_in (unat dir) (unat dir + 8196) (mem s) (mem s')" by (rule only_in_trans [OF only s'(3)])
  ultimately show ?case unfolding step s'(1) using s'(4) by (intro exI [of _ s'] conjI) (auto simp: add.assoc)
qed

text \<open>The new directory before the loop.\<close>

definition blank_directory :: "u32 \<Rightarrow> u32 \<Rightarrow> machine \<Rightarrow> machine" where
  "blank_directory dir phys s = wr (physicalAddr_at dir) (phys + 4096) (s\<lparr>mem := memset dir 0 sizeof_page_directory (mem s)\<rparr>)"

lemma blank_directory:
  assumes ok: "dir_ok dir"
  shows "blank_directory dir phys s = s\<lparr>mem := mem (blank_directory dir phys s)\<rparr>"
    and "only_in (unat dir) (unat dir + 8196) (mem s) (mem (blank_directory dir phys s))"
    and "rd (physicalAddr_at dir) (blank_directory dir phys s) = phys + 4096"
    and "unat i < 1024 \<Longrightarrow> rd (tables_at dir i) (blank_directory dir phys s) = 0"
    and "unat i < 1024 \<Longrightarrow> rd (tablesPhysical_at dir i) (blank_directory dir phys s) = 0"
proof -
  note b = ok [unfolded dir_ok_def]
  let ?m = "memset dir 0 sizeof_page_directory (mem s)"
  have n: "unat sizeof_page_directory = 8196" by (simp add: sizeof_page_directory_def unat_numeral32)
  have o: "only_in (unat dir) (unat dir + 8196) (mem s) ?m"
    using memset_only_in [of dir sizeof_page_directory "mem s" 0] b n by simp
  show "blank_directory dir phys s = s\<lparr>mem := mem (blank_directory dir phys s)\<rparr>"
    by (simp add: blank_directory_def wr_def)
  show "only_in (unat dir) (unat dir + 8196) (mem s) (mem (blank_directory dir phys s))"
    unfolding blank_directory_def mem_wr using unat_dir_fields(3) [OF ok, of 0] b
    by (intro only_in_st32_step) (auto intro: o)
  show "rd (physicalAddr_at dir) (blank_directory dir phys s) = phys + 4096" by (simp add: blank_directory_def)
  assume i: "unat i < 1024"
  note u = unat_dir_fields [OF ok i]
  have "ld32 ?m (tables_at dir i) = 0" "ld32 ?m (tablesPhysical_at dir i) = 0"
    using u b i n by (intro ld32_memset_zero; simp)+
  then show "rd (tables_at dir i) (blank_directory dir phys s) = 0"
    and "rd (tablesPhysical_at dir i) (blank_directory dir phys s) = 0"
    using u b i by (simp_all add: blank_directory_def rd_def ld32_st32_far)
qed

lemma clone_directory_start:
  assumes "kap sizeof_page_directory s = Inr ((dir, phys), s1)"
    and "clone_directory_loop 1024 kap 0 src dir (blank_directory dir phys s1) = Inr ((), s2)"
  shows "clone_directory kap src s = Inr (dir, s2)"
proof -
  have "tablesPhysical_at dir 0 - dir = 4096" by (simp add: tablesPhysical_at_def)
  then show ?thesis using assms by (simp add: clone_directory_def blank_directory_def Let_def)
qed

lemma clone_directory_runs:
  assumes "kap sizeof_page_directory s = Inr ((dir, phys), s1)"
    and "dirs_apart dir src" and "dirs_apart dir (kernel_directory s1)" and "kernel_tables src s1"
  shows "\<exists>s'. clone_directory kap src s = Inr (dir, s')
    \<and> rd (physicalAddr_at dir) s' = phys + 4096
    \<and> (\<forall>i. unat i < 1024 \<longrightarrow> rd (tables_at dir i) s' = rd (tables_at src i) s1
        \<and> rd (tablesPhysical_at dir i) s' =
            (if rd (tables_at src i) s1 = 0 then 0 else rd (tablesPhysical_at src i) s1))
    \<and> only_in (unat dir) (unat dir + 8196) (mem s1) (mem s') \<and> s' = s1\<lparr>mem := mem s'\<rparr>"
proof -
  have ok: "dir_ok dir" using assms(2) by (simp add: dirs_apart_def)
  let ?t = "blank_directory dir phys s1"
  note B = blank_directory [OF ok, where phys = phys and s = s1]
  have kd: "kernel_directory ?t = kernel_directory s1" by (subst B(1)) simp
  have "shared_range src 0 1024 s1" using assms(4) by (simp add: shared_range_def kernel_tables_def)
  then have kt: "shared_range src 0 1024 ?t" by (intro shared_range_only_in [OF assms(2,3) kd B(2)]) simp_all
  have ka: "dirs_apart dir (kernel_directory ?t)" using assms(3) kd by simp
  from clone_directory_loop_part [OF assms(2) ka kt, of 0 kap]
  obtain s' m where s': "clone_directory_loop 1024 kap 0 src dir ?t = Inr ((), s')" "s' = ?t\<lparr>mem := m\<rparr>"
    "only_in (unat dir) (unat dir + 8196) (mem ?t) (mem s')" "rd (physicalAddr_at dir) s' = rd (physicalAddr_at dir) ?t"
    "\<And>j. unat j < 1024 \<Longrightarrow>
        (if rd (tables_at src j) ?t \<noteq> 0
         then rd (tables_at dir j) s' = rd (tables_at src j) ?t
           \<and> rd (tablesPhysical_at dir j) s' = rd (tablesPhysical_at src j) ?t
         else rd (tables_at dir j) s' = rd (tables_at dir j) ?t
           \<and> rd (tablesPhysical_at dir j) s' = rd (tablesPhysical_at dir j) ?t)"
    by auto
  have "clone_directory kap src s = Inr (dir, s')" by (rule clone_directory_start [OF assms(1) s'(1)])
  moreover have "rd (physicalAddr_at dir) s' = phys + 4096" using s'(4) B(3) by simp
  moreover have "rd (tables_at dir i) s' = rd (tables_at src i) s1
        \<and> rd (tablesPhysical_at dir i) s' =
            (if rd (tables_at src i) s1 = 0 then 0 else rd (tablesPhysical_at src i) s1)"
    if "unat i < 1024" for i
    using s'(5) [OF that] B(4,5) [OF that] rd_only_in_dir [OF assms(2) B(2) that] by (auto split: if_splits)
  moreover have "only_in (unat dir) (unat dir + 8196) (mem s1) (mem s')" by (rule only_in_trans [OF B(2) s'(3)])
  moreover have "s' = s1\<lparr>mem := mem s'\<rparr>" unfolding s'(2) by (subst B(1)) simp
  ultimately show ?thesis by blast
qed

subsection \<open>Properties\<close>

text \<open>
  C17: A page without a frame is given the least free frame: that frame and no other becomes
  used, the entry is present, holds the frame and the requested rights, and nothing changes
  but the entry and the bitmap.
\<close>

theorem alloc_frame_least:
  assumes "bitmap_ok s" and "entry_apart page s" and "page_frame (rd page s) = 0"
    and "used_frames s \<noteq> {..<frame_count s}"
  shows "\<exists>k s'. alloc_frame page is_kernel is_writeable s = Inr ((), s')
    \<and> k < frame_count s \<and> k \<notin> used_frames s \<and> (\<forall>j < k. j \<in> used_frames s)
    \<and> used_frames s' = insert k (used_frames s) \<and> page_frame (rd page s') = of_nat k
    \<and> bit (rd page s') PRESENT \<and> bit (rd page s') RW = (is_writeable = 1) \<and> bit (rd page s') USER = (is_kernel \<noteq> 1)
    \<and> s' = s\<lparr>mem := mem s'\<rparr>
    \<and> (\<forall>x. (unat x < bm_lo s \<or> bm_hi s \<le> unat x) \<longrightarrow> (unat x < unat page \<or> unat page + 4 \<le> unat x) \<longrightarrow>
        mem s' x = mem s x)"
proof -
  obtain k s' where k: "k < frame_count s" "k \<notin> used_frames s" "\<forall>j < k. j \<in> used_frames s"
    "first_frame s = of_nat k" "alloc_frame page is_kernel is_writeable s = Inr ((), s')"
    "used_frames s' = insert k (used_frames s)"
    "rd page s' = new_entry (of_nat k) is_kernel is_writeable (rd page s)"
    "s' = wr page (new_entry (of_nat k) is_kernel is_writeable (rd page s)) (set_frame (of_nat k * 0x1000) s)"
    by (rule alloc_frame_takes [OF assms])
  have u: "unat (of_nat k :: u32) < 1048576"
    using frame_count_bound [OF assms(1) k(1)] by (simp add: unat_of_nat32)
  note w = unat_frame_word [OF assms(1) k(1)]
  have o1: "only_in (bm_lo s) (bm_hi s) (mem s) (mem (set_frame (of_nat k * 0x1000) s))"
    using w assms(1) unfolding set_frame_bits(1) [OF assms(1) k(1)] mem_wr
    by (intro only_in_st32) (auto simp: bitmap_ok_def)
  have o2: "only_in (unat page) (unat page + 4) (mem (set_frame (of_nat k * 0x1000) s)) (mem s')"
    unfolding k(8) mem_wr using assms(2) by (intro only_in_st32) (auto simp: entry_apart_def)
  have "mem s' x = mem s x"
    if "unat x < bm_lo s \<or> bm_hi s \<le> unat x" "unat x < unat page \<or> unat page + 4 \<le> unat x" for x
    using o1 o2 that by (auto simp: only_in_def)
  moreover have "s' = s\<lparr>mem := mem s'\<rparr>"
    unfolding k(8) by (simp add: wr_def set_frame_bits(1) [OF assms(1) k(1)])
  moreover note page_frame_new_entry [OF u] new_entry_bits
  ultimately show ?thesis using k(1-3,5-7) by auto
qed

text \<open>An example: 64 frames, frame 0 used, and an empty entry behind the bitmap.\<close>

definition example_frames :: machine where
  "example_frames = (power_on (st32 (\<lambda>_. 0) 0x1000 1) (\<lambda>_ _. 0))\<lparr>frames := 0x1000, nframes := 64\<rparr>"

lemma example_frames_simps [simp]:
  "frames example_frames = 0x1000" "nframes example_frames = 64" "mem example_frames = st32 (\<lambda>_. 0) 0x1000 1"
  by (simp_all add: example_frames_def)

lemma example_frames_ok:
  "bitmap_ok example_frames" "entry_apart 0x2000 example_frames" "rd 0x2000 example_frames = 0"
  "frame_count example_frames = 64" "0 \<in> used_frames example_frames" "1 \<notin> used_frames example_frames"
  by (simp_all add: bitmap_ok_def entry_apart_def frame_count_def used_frames_def frame_bit_def rd_def
      ld32_st32_apart ld32_def [of "\<lambda>_. 0"] unat_numeral32)

theorem alloc_frame_least_witness:
  "\<exists>s'. alloc_frame 0x2000 0 1 example_frames = Inr ((), s') \<and> page_frame (rd 0x2000 s') = 1
    \<and> used_frames s' = insert 1 (used_frames example_frames)"
proof -
  note e = example_frames_ok
  have empty: "page_frame (rd 0x2000 example_frames) = 0" by (simp add: e(3) page_frame_def)
  have "1 \<in> {..<frame_count example_frames}" unfolding e(4) by simp
  then have "used_frames example_frames \<noteq> {..<frame_count example_frames}" using e(6) by metis
  from alloc_frame_least [OF e(1,2) empty this, of 0 1] show ?thesis
  proof (elim exE conjE)
    fix k s'
    assume k: "alloc_frame 0x2000 0 1 example_frames = Inr ((), s')"
      "k \<notin> used_frames example_frames" "\<forall>j < k. j \<in> used_frames example_frames"
      "used_frames s' = insert k (used_frames example_frames)" "page_frame (rd 0x2000 s') = of_nat k"
    have "k = 1" using k(2,3) e(5,6) by (metis less_one linorder_neqE_nat)
    with k show ?thesis by auto
  qed
qed

lemma bitmap_fields_set_frame [simp]:
  "bitmap_ok (set_frame a s) = bitmap_ok s" "entry_apart p (set_frame a s) = entry_apart p s"
  "frame_count (set_frame a s) = frame_count s"
  by (simp_all add: set_frame_def Let_def)

text \<open>
  C40: With every frame in use \<open>alloc_frame\<close> does not panic: the search returns 0, so the
  entry becomes present with frame 0, which then also looks like an entry without a frame.
\<close>

theorem alloc_frame_full:
  assumes "bitmap_ok s" and "entry_apart page s" and "page_frame (rd page s) = 0"
    and "used_frames s = {..<frame_count s}" and "0 < frame_count s"
  shows "\<exists>s'. alloc_frame page is_kernel is_writeable s = Inr ((), s')
    \<and> bit (rd page s') PRESENT \<and> page_frame (rd page s') = 0 \<and> used_frames s' = used_frames s"
proof -
  have f: "first_frame s = 0" using first_frame_least [OF assms(1)] assms(4) by simp
  let ?t = "set_frame (of_nat 0 * 0x1000) s"
  let ?s = "wr page (new_entry 0 is_kernel is_writeable (rd page ?t)) ?t"
  have run: "alloc_frame page is_kernel is_writeable s = Inr ((), ?s)"
    using alloc_frame_eq [OF assms(3)] f by (simp add: upd_page_def)
  have e: "rd page ?s = new_entry 0 is_kernel is_writeable (rd page ?t)" by simp
  have "used_frames ?s = used_frames ?t"
    using assms(1,2) by (intro used_frames_wr_apart) (simp_all add: set_frame_bits(1) [OF assms(1,5)])
  also have "\<dots> = used_frames s"
    using used_frames_set [OF assms(1,5)] assms(4,5) by auto
  finally show ?thesis using run by (intro exI [of _ ?s] conjI) (simp_all add: e new_entry_bits)
qed

definition full_frames :: machine where
  "full_frames = (power_on (st32 (\<lambda>_. 0) 0x1000 0xFFFFFFFF) (\<lambda>_ _. 0))\<lparr>frames := 0x1000, nframes := 32\<rparr>"

theorem alloc_frame_full_witness:
  "\<exists>s'. alloc_frame 0x2000 0 1 full_frames = Inr ((), s') \<and> page_frame (rd 0x2000 s') = 0"
proof -
  have fc: "frame_count full_frames = 32" by (simp add: full_frames_def frame_count_def)
  have "bit (0xFFFFFFFF :: u32) n" if "n < 32" for n using that word_full_bits [of "0xFFFFFFFF"] by blast
  then have "used_frames full_frames = {..<frame_count full_frames}"
    unfolding used_frames_def fc by (auto simp: frame_bit_def rd_def full_frames_def)
  moreover have "page_frame (rd 0x2000 full_frames) = 0"
    by (simp add: full_frames_def rd_def page_frame_def ld32_st32_apart ld32_def [of "\<lambda>_. 0"])
  ultimately show ?thesis using alloc_frame_full [of full_frames "0x2000" 0 1] fc
    by (auto simp: bitmap_ok_def entry_apart_def full_frames_def unat_numeral32)
qed

text \<open>
  \<open>free_frame\<close> takes the frame out of the entry but passes the frame number where
  \<open>clear_frame\<close> wants an address: the bit it clears is that of frame \<open>n div 4096\<close>, so the
  freed frame stays in use for good, and frame 0 is marked free for every \<open>n\<close> below 4096.
\<close>

theorem free_frame_leaks:
  assumes "bitmap_ok s" and "entry_apart page s" and "page_frame (rd page s) = of_nat n"
    and "n \<noteq> 0" and "n \<in> used_frames s"
  shows "used_frames (free_frame page s) = used_frames s - {n div 4096}
    \<and> n \<in> used_frames (free_frame page s) \<and> page_frame (rd page (free_frame page s)) = 0"
proof -
  have n: "n < frame_count s" "n < 1048576"
    using assms(5) frame_count_bound [OF assms(1)] by (auto simp: used_frames_def)
  let ?k = "n div 4096"
  have k: "?k < frame_count s" using n(1) by (meson div_le_dividend le_less_trans)
  have u: "unat (of_nat n :: u32) = n" using n(2) by (intro unat_of_nat32) simp
  have ku: "unat (of_nat ?k :: u32) = ?k" using n(2) by (intro unat_of_nat32) simp
  have d: "(of_nat n :: u32) div 0x1000 = of_nat ?k"
    by (rule unat_eqI32) (simp add: unat_div u ku)
  have nz: "(of_nat n :: u32) \<noteq> 0" using u assms(4) by (metis unat_0)
  define t where "t = clear_frame (of_nat n) s"
  have free: "free_frame page s = wr page (set_page_frame 0 (rd page t)) t"
    using nz by (simp add: free_frame_def Let_def assms(3) upd_page_def t_def)
  have bits: "frame_bit t j = (j \<noteq> ?k \<and> frame_bit s j)" if "j < frame_count s" for j
    using clear_frame_bits(2) [OF assms(1) k d that] by (simp add: t_def)
  have fields: "bitmap_ok t" "entry_apart page t" "frame_count t = frame_count s"
    using assms(1,2) by (simp_all add: t_def clear_frame_bits(1) [OF assms(1) k d])
  have "used_frames (free_frame page s) = used_frames t"
    unfolding free using fields by (intro used_frames_wr_apart)
  also have "\<dots> = used_frames s - {?k}" using bits fields(3) by (auto simp: used_frames_def)
  finally have eq: "used_frames (free_frame page s) = used_frames s - {?k}" .
  have "n \<noteq> ?k" using assms(4) by (simp add: div_eq_dividend_iff)
  then show ?thesis using eq assms(5) by (simp add: free)
qed

theorem free_frame_leaks_witness:
  "used_frames (free_frame 0x2000 (wr 0x2000 0x5001 (set_frame 0x5000 example_frames)))
     = used_frames (wr 0x2000 0x5001 (set_frame 0x5000 example_frames)) - {0}
   \<and> 5 \<in> used_frames (free_frame 0x2000 (wr 0x2000 0x5001 (set_frame 0x5000 example_frames)))"
proof -
  let ?s = "wr 0x2000 0x5001 (set_frame 0x5000 example_frames)"
  note e = example_frames_ok
  have five: "(5 :: nat) < frame_count example_frames" by (simp add: e(4))
  have sf: "set_frame 0x5000 example_frames = set_frame (of_nat 5 * 0x1000) example_frames" by simp
  note b = set_frame_bits(1) [OF e(1) five]
  have used: "used_frames ?s = insert 5 (used_frames example_frames)"
    unfolding sf using used_frames_set [OF e(1) five] e(1,2)
    by (subst used_frames_wr_apart) (simp_all add: b)
  have "page_frame (rd 0x2000 ?s) = of_nat 5" by (simp add: page_frame_def)
  moreover have "bitmap_ok ?s" "entry_apart 0x2000 ?s" using e(1,2) unfolding sf by (simp_all add: b)
  ultimately show ?thesis using free_frame_leaks [of ?s "0x2000" 5] used by simp
qed

text \<open>
  C18: Asking for a page whose table is missing makes one: the table the allocator returned is
  entered in the directory with its physical address and flags, all its entries are empty,
  and from then on every address of the same 4 MB finds its entry there at once.
\<close>

theorem get_page_maps:
  assumes "rd (tables_at dir (table_index a)) s = 0"
    and "kap sizeof_page_table s = Inr ((t, ph), s1)" and "t \<noteq> 0" and "table_clear_of t dir"
  shows "\<exists>s2. get_page kap a True dir s = Inr (pages_at t (page_index a), s2)
    \<and> rd (tablesPhysical_at dir (table_index a)) s2 = ph OR 7
    \<and> (\<forall>j < 1024. rd (pages_at t (of_nat j)) s2 = 0)
    \<and> (\<forall>b mk kap'. table_index b = table_index a \<longrightarrow>
          get_page kap' b mk dir s2 = Inr (pages_at t (page_index b), s2))"
proof -
  obtain s2 where s2: "get_page kap a True dir s = Inr (pages_at t (page_index a), s2)"
    "rd (tables_at dir (table_index a)) s2 = t" "rd (tablesPhysical_at dir (table_index a)) s2 = ph OR 7"
    "\<forall>j < 1024. rd (pages_at t (of_nat j)) s2 = 0"
    by (rule get_page_makes [where kap = kap, OF assms(1,2,4)]) blast
  moreover have "get_page kap' b mk dir s2 = Inr (pages_at t (page_index b), s2)"
    if "table_index b = table_index a" for b mk kap'
    using get_page_present [of dir b s2 kap' mk] s2(2) assms(3) that by simp
  ultimately show ?thesis by blast
qed

theorem get_page_maps_witness:
  "\<exists>s2. get_page (\<lambda>_. ret (0x10000, 0x10000)) 0xC0000000 True 0x20000 (power_on (\<lambda>_. 0) (\<lambda>_ _. 0))
      = Inr (0x10000, s2)
    \<and> get_page (\<lambda>_. stop No_Fuel) 0xC0001000 False 0x20000 s2 = Inr (0x10004, s2)"
proof -
  have "rd (tables_at 0x20000 (table_index 0xC0000000)) (power_on (\<lambda>_. 0) (\<lambda>_ _. 0)) = 0"
    by (simp add: rd_def ld32_def)
  from get_page_maps [OF this, of "\<lambda>_. ret (0x10000, 0x10000)" "0x10000" "0x10000" "power_on (\<lambda>_. 0) (\<lambda>_ _. 0)"]
  obtain s2 where s2: "get_page (\<lambda>_. ret (0x10000, 0x10000)) 0xC0000000 True 0x20000 (power_on (\<lambda>_. 0) (\<lambda>_ _. 0))
      = Inr (pages_at 0x10000 (page_index 0xC0000000), s2)"
    "\<And>b mk kap'. table_index b = table_index 0xC0000000 \<Longrightarrow>
          get_page kap' b mk 0x20000 s2 = Inr (pages_at 0x10000 (page_index b), s2)"
    by (auto simp: ret_def table_clear_of_def dir_ok_def unat_numeral32)
  have "table_index 0xC0001000 = table_index 0xC0000000" by (simp add: table_index_def)
  from s2(2) [OF this, of "\<lambda>_. stop No_Fuel" False] s2(1) show ?thesis
    by (simp add: page_index_def pages_at_def)
qed

text \<open>
  C19: Cloning a directory all of whose tables are the kernel's gives a directory with the
  same tables and the same physical addresses in every present slot and nothing in the
  others; its own physical address is that of its second array, and no byte outside the new
  directory is written.
\<close>

theorem clone_directory_shares:
  assumes "kap sizeof_page_directory s = Inr ((dir, phys), s1)"
    and "dirs_apart dir src" and "dirs_apart dir (kernel_directory s1)" and "kernel_tables src s1"
  shows "\<exists>s'. clone_directory kap src s = Inr (dir, s')
    \<and> rd (physicalAddr_at dir) s' = phys + 4096
    \<and> (\<forall>i. unat i < 1024 \<longrightarrow> rd (tables_at dir i) s' = rd (tables_at src i) s1
        \<and> rd (tablesPhysical_at dir i) s' =
            (if rd (tables_at src i) s1 = 0 then 0 else rd (tablesPhysical_at src i) s1))
    \<and> only_in (unat dir) (unat dir + 8196) (mem s1) (mem s') \<and> s' = s1\<lparr>mem := mem s'\<rparr>"
  using assms by (rule clone_directory_runs)

theorem clone_directory_shares_witness:
  "\<exists>s'. clone_directory (\<lambda>_. ret (0x20000, 0x20000)) 0x10000
      ((power_on (\<lambda>_. 0) (\<lambda>_ _. 0))\<lparr>kernel_directory := 0x10000\<rparr>) = Inr (0x20000, s')
    \<and> rd 0x22000 s' = 0x21000"
  using clone_directory_shares [of "\<lambda>_. ret (0x20000, 0x20000)"
      "(power_on (\<lambda>_. 0) (\<lambda>_ _. 0))\<lparr>kernel_directory := 0x10000\<rparr>" "0x20000" "0x20000"
      "(power_on (\<lambda>_. 0) (\<lambda>_ _. 0))\<lparr>kernel_directory := 0x10000\<rparr>" "0x10000"]
  by (auto simp: ret_def dirs_apart_def dir_ok_def kernel_tables_def unat_numeral32 physicalAddr_at_def)

end
