(* ===== verification/Interrupts.thy ===== *)
theory Interrupts
  imports Paging
begin

text \<open>
  The C side of interrupt handling: the timer tick of \<open>timer.c\<close>, the keyboard echo of
  \<open>keyboard.c\<close> and the dispatcher of \<open>gdt_idt.c\<close>; and what any sequence of interrupts does
  to the tick counter and the keyboard state.
\<close>

unbundle bit_operations_syntax


subsection \<open>Operations\<close>

text \<open>\<open>timer_callback\<close> of \<open>timer.c\<close>; \<open>timer\<close> is the address of its local buffer.\<close>

definition timer_callback :: "u32 \<Rightarrow> (machine, unit) prog" where
  "timer_callback timer s =
     (case in_mem (tfp_sprintf timer (cstr ''%d'') [VInt (ticks s)]) s of
        Inl h \<Rightarrow> Inl h
      | Inr (_, s) \<Rightarrow>
          (case strlen timer (mem s) of
             None \<Rightarrow> Inl Diverges
           | Some len \<Rightarrow>
               let s = fb_clock_write (ld_bytes (mem s) timer (unat len)) s
               in Inr ((), s\<lparr>ticks := ticks s + 1\<rparr>)))"

definition KBD_DATA_PORT :: u16 where
  "KBD_DATA_PORT = 0x60"

definition read_scan_code :: "machine \<Rightarrow> u8 \<times> machine" where
  "read_scan_code s = inb KBD_DATA_PORT s"

definition echo_keyboard :: "machine \<Rightarrow> machine" where
  "echo_keyboard s =
     (let (code, s) = read_scan_code s;
          (temp, k) = convertToAscii code (kbd s);
          s = s\<lparr>kbd := k\<rparr>
      in if temp = 0 then s else fb_write [temp] s)"

text \<open>
  \<open>interrupt_handler\<close> of \<open>gdt_idt.c\<close>. The saved registers are not used; \<open>timer\<close> is where the
  buffer of \<open>timer_callback\<close> lies on the stack.
\<close>

definition interrupt_handler :: "u32 \<Rightarrow> u32 \<Rightarrow> u32 \<Rightarrow> (machine, unit) prog" where
  "interrupt_handler timer interrupt error_code s =
     (if interrupt = 32 then
        (case timer_callback timer s of
           Inl h \<Rightarrow> Inl h
         | Inr (_, s) \<Rightarrow> Inr ((), pic_acknowledge interrupt s))
      else if interrupt = 14 then
        (case page_fault error_code s of
           Inl h \<Rightarrow> Inl h
         | Inr (_, s) \<Rightarrow> Inr ((), pic_acknowledge interrupt s))
      else if interrupt = 33 then
        Inr ((), pic_acknowledge interrupt (echo_keyboard s))
      else Inr ((), pic_acknowledge interrupt s))"

subsection \<open>What printing leaves alone\<close>

text \<open>Only memory, port output and the cursor change.\<close>

definition screen_step :: "machine \<Rightarrow> machine \<Rightarrow> bool" where
  "screen_step s s' \<longleftrightarrow> (\<exists>m os p. s' = s\<lparr>mem := m, outs := outs s @ os, cursorPosition := p\<rparr>)"

named_theorems screen_steps \<open>operations that only touch memory, port output and the cursor\<close>

lemma screen_step_refl [screen_steps]: "screen_step s s"
  unfolding screen_step_def by (intro exI [of _ "mem s"] exI [of _ "[]"] exI [of _ "cursorPosition s"]) simp

lemma screen_step_trans: "screen_step s t \<Longrightarrow> screen_step t u \<Longrightarrow> screen_step s u"
proof -
  assume "screen_step s t" and "screen_step t u"
  then obtain m os p m' os' p' where "t = s\<lparr>mem := m, outs := outs s @ os, cursorPosition := p\<rparr>"
    "u = t\<lparr>mem := m', outs := outs t @ os', cursorPosition := p'\<rparr>" by (auto simp: screen_step_def)
  then show ?thesis unfolding screen_step_def
    by (intro exI [of _ m'] exI [of _ "os @ os'"] exI [of _ p']) simp
qed

lemma screen_step_mem [screen_steps]: "screen_step s (s\<lparr>mem := m\<rparr>)"
  unfolding screen_step_def by (intro exI [of _ m] exI [of _ "[]"] exI [of _ "cursorPosition s"]) simp

lemma screen_step_outb [screen_steps]: "screen_step s (outb p d s)"
  unfolding screen_step_def outb_def
  by (intro exI [of _ "mem s"] exI [of _ "[(p, d)]"] exI [of _ "cursorPosition s"]) simp

lemma screen_step_cursor [screen_steps]: "screen_step s (s\<lparr>cursorPosition := p\<rparr>)"
  unfolding screen_step_def by (intro exI [of _ "mem s"] exI [of _ "[]"] exI [of _ p]) simp

lemma screen_step_cell [screen_steps]: "screen_step s (fb_write_cell i c fg bg s)"
  unfolding fb_write_cell_def by (rule screen_step_mem)

lemma screen_step_move [screen_steps]: "screen_step s (fb_move_cursor p s)"
  unfolding fb_move_cursor_def by (intro screen_step_trans [OF _ screen_step_outb] screen_steps)

lemma screen_step_put [screen_steps]: "screen_step s (fb_put c s)"
  unfolding fb_put_def Let_def
  by (auto intro!: screen_step_trans [OF _ screen_step_move] screen_step_trans [OF _ screen_step_cell]
      screen_step_trans [OF _ screen_step_cursor] screen_steps)

lemma screen_step_fold:
  assumes "\<And>c s. screen_step s (f c s)"
  shows "screen_step s (fold f cs s)"
  by (induction cs arbitrary: s) (auto intro: screen_step_refl screen_step_trans [OF assms])

lemma screen_step_write [screen_steps]: "screen_step s (fb_write cs s)"
  unfolding fb_write_def Let_def
  by (intro screen_step_trans [OF _ screen_step_move] screen_step_fold screen_step_put)

lemma screen_step_clock [screen_steps]: "screen_step s (fb_clock_loop cs i len s)"
  by (induction cs arbitrary: i s) (auto intro: screen_step_refl screen_step_trans [OF screen_step_cell])

lemma screen_step_ack [screen_steps]: "screen_step s (pic_acknowledge i s)"
  by (simp add: pic_acknowledge_def screen_steps)

lemma screen_step_ticks:
  assumes "screen_step s t"
  shows "screen_step (s\<lparr>ticks := n\<rparr>) (t\<lparr>ticks := n\<rparr>)"
proof -
  from assms obtain m os p where "t = s\<lparr>mem := m, outs := outs s @ os, cursorPosition := p\<rparr>"
    by (auto simp: screen_step_def)
  then show ?thesis unfolding screen_step_def
    by (intro exI [of _ m] exI [of _ os] exI [of _ p] machine.equality) simp_all
qed

lemma tfp_printf_step:
  assumes "tfp_printf fmt va s = Inr (x, s')"
  shows "screen_step s s'"
proof (cases "stdout_putf s")
  case Null_Putf
  then show ?thesis using assms by (simp add: tfp_printf_def screen_steps split: if_splits)
next
  case Screen_Putc
  then have "tfp_format putc fmt va s = Inr (x, s')" using assms by (simp add: tfp_printf_def)
  then show ?thesis
    using screen_step_fold [of putc s] by (auto simp: tfp_format_out putc_def screen_steps split: sum.splits)
qed

lemma screen_step_simps:
  assumes "screen_step s s'"
  shows "ticks s' = ticks s" "kbd s' = kbd s" "reads s' = reads s" "dev s' = dev s" "tabs s' = tabs s"
    "stdout_putf s' = stdout_putf s" "current_task s' = current_task s" "ready_queue s' = ready_queue s"
    "next_pid s' = next_pid s" "kheap s' = kheap s" "heap_at s' = heap_at s" "placement_address s' = placement_address s"
    "kernel_directory s' = kernel_directory s" "current_directory s' = current_directory s" "iflag s' = iflag s"
    "frames s' = frames s" "nframes s' = nframes s" "esp s' = esp s" "ebp s' = ebp s" "eip s' = eip s"
  using assms by (auto simp: screen_step_def)


subsection \<open>Printing a line\<close>

text \<open>Printing goes to the screen, and the cursor is on it.\<close>

definition console_ok :: "machine \<Rightarrow> bool" where
  "console_ok s \<longleftrightarrow> stdout_putf s = Screen_Putc \<and> unat (cursorPosition s) \<le> 2080"

lemma fold_next_pos_newline: "fold next_pos (cs @ [10]) p \<le> 2000"
proof -
  have "next_pos 10 k \<le> 2000" for k by (auto simp: next_pos_def not_le)
  then show ?thesis by simp
qed

lemma console_line:
  assumes "console_ok s" and "format_out fmt va = Inr (cs @ [10])" and "length cs \<le> 24"
  obtains s' where "tfp_printf fmt va s = Inr ((), s')" and "screen_step s s'" and "console_ok s'"
    and "only_in 0xB8000 0xBA000 (mem s) (mem s')"
proof -
  have sc: "stdout_putf s = Screen_Putc" and cur: "unat (cursorPosition s) \<le> 2080"
    using assms(1) by (simp_all add: console_ok_def)
  let ?t = "fold putc (cs @ [10]) s"
  have run: "tfp_printf fmt va s = Inr ((), ?t)" by (rule tfp_printf_screen [OF sc assms(2)])
  have step: "screen_step s ?t" by (rule tfp_printf_step [OF run])
  have eq: "mem ?t = mem (fold fb_put (cs @ [10]) s)" "cursorPosition ?t = cursorPosition (fold fb_put (cs @ [10]) s)"
    using fold_putc [of s s "cs @ [10]"] by simp_all
  have b: "unat (cursorPosition s) + 80 * length (cs @ [10]) < 0xFFF00" using cur assms(3) by simp
  note f = fb_puts [OF b]
  have "console_ok ?t"
    unfolding console_ok_def eq(2) using f fold_next_pos_newline [of cs "unat (cursorPosition s)"] screen_step_simps(6) [OF step] sc by simp
  moreover have "only_in 0xB8000 0xBA000 (mem s) (mem ?t)"
    unfolding eq(1) by (rule only_in_mono [OF conjunct2 [OF f]]) (use cur assms(3) in simp_all)
  ultimately show ?thesis by (rule that [OF run step])
qed

subsection \<open>The clock\<close>

lemma fb_clock_loop_mem:
  assumes "len - i = of_nat (length cs)" and "length cs \<le> 80"
  shows "mem (fb_clock_loop cs i len s) =
    (\<lambda>x. if 0xB8000 + 2 * (80 - length cs) \<le> unat x \<and> unat x < 0xB8000 + 2 * 80
      then if even (unat x) then cs ! ((unat x - (0xB8000 + 2 * (80 - length cs))) div 2) else 2
      else mem s x)"
  using assms
proof (induction cs arbitrary: i s)
  case (Cons c cs)
  obtain k where k: "80 - Suc (length cs) = k" "80 - length cs = Suc k" "k < 80" using Cons.prems(2) by simp
  have cell: "2 * 80 - 2 * (len - i) = 2 * (of_nat k :: u32)"
    using Cons.prems by (simp flip: k(1))
  have u: "unat (of_nat k :: u32) = k" using k(3) by (intro unat_of_nat32) simp
  have IH: "mem (fb_clock_loop cs (i + 1) len s) =
    (\<lambda>x. if 0xB8000 + 2 * (80 - length cs) \<le> unat x \<and> unat x < 0xB8000 + 2 * 80
      then if even (unat x) then cs ! ((unat x - (0xB8000 + 2 * (80 - length cs))) div 2) else 2
      else mem s x)" for s
    using Cons.prems by (intro Cons.IH) (simp_all add: diff_diff_eq [symmetric])
  have c: "mem (fb_write_cell (2 * of_nat k) c FB_BLACK FB_GREEN s) x =
      (if unat x = 0xB8000 + 2 * k then c else if unat x = 0xB8000 + 2 * k + 1 then 2 else mem s x)" for x
    using fb_write_cell_mem [of "of_nat k"] u k(3) by (simp add: FB_BLACK_def FB_GREEN_def)
  have nth: "cs ! ((y - (0xB8000 + 2 * Suc k)) div 2) = (c # cs) ! ((y - (0xB8000 + 2 * k)) div 2)"
    if "0xB8000 + 2 * Suc k \<le> y" for y
  proof -
    have "(y - (0xB8000 + 2 * k)) div 2 = Suc ((y - (0xB8000 + 2 * Suc k)) div 2)" using that by presburger
    then show ?thesis by simp
  qed
  show ?case
    unfolding fb_clock_loop.simps cell IH k(2) list.size add_Suc_right add_0_right k(1)
  proof (rule ext)
    fix x :: u32
    consider "unat x < 0xB8000 + 2 * k" | "unat x = 0xB8000 + 2 * k" | "unat x = 0xB8000 + 2 * k + 1"
      | "0xB8000 + 2 * Suc k \<le> unat x" by fastforce
    then show "(if 0xB8000 + 2 * Suc k \<le> unat x \<and> unat x < 0xB8000 + 2 * 80
        then if even (unat x) then cs ! ((unat x - (0xB8000 + 2 * Suc k)) div 2) else 2
        else mem (fb_write_cell (2 * of_nat k) c FB_BLACK FB_GREEN s) x) =
      (if 0xB8000 + 2 * k \<le> unat x \<and> unat x < 0xB8000 + 2 * 80
        then if even (unat x) then (c # cs) ! ((unat x - (0xB8000 + 2 * k)) div 2) else 2 else mem s x)"
      using k(3) nth [of "unat x"] by cases (auto simp: c)
  qed
qed (auto simp: fun_eq_iff)

lemma i2a_no_nul: "0 \<notin> set (i2a n)"
proof -
  have "0 \<notin> set (ui2a n 10 False)" for n
  proof (rule ui2a_shape [of 10 n False])
    fix vs
    assume vs: "ui2a n 10 False = map (\<lambda>v. digit_char False (of_nat v)) vs"
      "\<forall>d \<in> set vs. d < unat (10 :: u32)"
    have "digit_char False (of_nat v) \<noteq> 0" if "v < 10" for v
    proof -
      from that have "v \<in> {0, 1, 2, 3, 4, 5, 6, 7, 8, 9}" by auto
      then show ?thesis by (auto simp: digit_char_def word_sless_alt)
    qed
    then show "0 \<notin> set (ui2a n 10 False)" using vs by (auto simp: unat_numeral32)
  qed simp_all
  then show ?thesis by (simp add: i2a_def)
qed


text \<open>The buffer of \<open>timer_callback\<close>, of which at most twelve bytes are used, is not on the screen.\<close>

definition timer_apart :: "u32 \<Rightarrow> bool" where
  "timer_apart timer \<longleftrightarrow> unat timer + 12 \<le> 4294967296 \<and> (unat timer + 12 \<le> 0xB8000 \<or> 0xB80A0 \<le> unat timer)"

lemma i2a_length: "length (i2a n) \<le> 11"
proof -
  have d: "length (ui2a n 10 False) \<le> 10" for n by (rule ui2a_shape [of 10 n False]) simp_all
  show ?thesis using d [of n] d [of "- n"] by (simp add: i2a_def)
qed

lemma timer_callback_runs:
  assumes "timer_apart timer"
  obtains s' where "timer_callback timer s = Inr ((), s')" and "screen_step (s\<lparr>ticks := ticks s + 1\<rparr>) s'"
    and "mem s' = mem (fb_clock_write (i2a (ticks s)) (s\<lparr>mem := st_bytes (mem s) timer (i2a (ticks s) @ [0])\<rparr>))"
proof -
  let ?d = "i2a (ticks s)"
  let ?s = "s\<lparr>mem := st_bytes (mem s) timer (?d @ [0])\<rparr>"
  have len: "length ?d < 12" using i2a_length [of "ticks s"] by simp
  have p: "in_mem (tfp_sprintf timer (cstr ''%d'') [VInt (ticks s)]) s = Inr ((), ?s)"
    using format_out_d [of "ticks s"] buffer.got_format [of timer "mem s" "(timer, mem s)" "cstr ''%d''"]
    by (auto simp: in_mem_def tfp_sprintf_def buffer_got_def putcp_def st_bytes_snoc)
  have "c_string (mem ?s) timer ?d"
    using len assms ld_st_bytes [of timer "?d @ [0]" "mem s"] by (simp add: c_string_def i2a_no_nul timer_apart_def)
  then have l: "strlen timer (mem ?s) = Some (of_nat (length ?d))"
    by (simp add: strlen_def strlen_loop_length)
  have b: "ld_bytes (mem ?s) timer (length ?d) = ?d"
    using len assms ld_st_bytes [of timer "?d @ [0]" "mem s"] by (simp add: ld_bytes_def timer_apart_def)
  have u: "unat (of_nat (length ?d) :: u32) = length ?d" using len by (intro unat_of_nat32) simp
  let ?w = "fb_clock_write ?d ?s"
  have st: "screen_step s ?w"
    unfolding fb_clock_write_def by (rule screen_step_trans [OF screen_step_mem screen_step_clock])
  then have "screen_step (s\<lparr>ticks := ticks s + 1\<rparr>) (?w\<lparr>ticks := ticks ?w + 1\<rparr>)"
    by (simp add: screen_step_ticks screen_step_simps [OF st])
  moreover have "timer_callback timer s = Inr ((), ?w\<lparr>ticks := ticks ?w + 1\<rparr>)"
    unfolding timer_callback_def p using l b u by (simp add: Let_def)
  ultimately show ?thesis using that [of "?w\<lparr>ticks := ticks ?w + 1\<rparr>"] by simp
qed

subsection \<open>Runs of the handler\<close>

inductive handled :: "u32 \<Rightarrow> machine \<Rightarrow> (u32 \<times> u32) list \<Rightarrow> machine \<Rightarrow> bool" for timer where
  none: "handled timer s [] s"
| next_int: "interrupt_handler timer i err s = Inr ((), t) \<Longrightarrow> handled timer t is u \<Longrightarrow> handled timer s ((i, err) # is) u"

inductive_simps handled_simps [simp]: "handled timer s [] t" "handled timer s (i # is) t"

lemma page_fault_stops: "\<exists>h. page_fault err s = Inl h"
proof -
  have p: "\<exists>h. panic m f l s = Inl h" for m f l s by (auto simp: panic_def split: sum.split)
  have q: "\<exists>h. seq g f s = Inl h" if "\<And>x s. \<exists>h. f x s = Inl h" for g :: "(machine, unit) prog" and f :: "unit \<Rightarrow> (machine, unit) prog" and s
    using that by (auto simp: seq_def split: sum.split)
  show ?thesis unfolding page_fault_def Let_def by (intro q p)
qed

lemma keyboard_step:
  "kbd (echo_keyboard s) = snd (convertToAscii (dev s 0x60 (reads s 0x60)) (kbd s))"
  "reads (echo_keyboard s) = (reads s)(0x60 := Suc (reads s 0x60))"
  "dev (echo_keyboard s) = dev s" "ticks (echo_keyboard s) = ticks s"
  by (auto simp: echo_keyboard_def read_scan_code_def inb_def KBD_DATA_PORT_def Let_def
      screen_step_simps [OF screen_step_write] split: prod.split)


text \<open>The scan codes the keyboard delivers in the next \<open>n\<close> reads.\<close>

definition scan_codes_from :: "machine \<Rightarrow> nat \<Rightarrow> u8 list" where
  "scan_codes_from s n = map (dev s 0x60) [reads s 0x60..<reads s 0x60 + n]"

lemma scan_codes_from_Suc:
  "scan_codes_from s (Suc n) = dev s 0x60 (reads s 0x60) # map (dev s 0x60) [Suc (reads s 0x60)..<Suc (reads s 0x60) + n]"
  by (simp add: scan_codes_from_def upt_conv_Cons del: upt.simps)

definition int_effect :: "u32 \<Rightarrow> machine \<Rightarrow> machine \<Rightarrow> bool" where
  "int_effect i s t \<longleftrightarrow> dev t = dev s
     \<and> ticks t = ticks s + (if i = 32 then 1 else 0)
     \<and> reads t 0x60 = reads s 0x60 + (if i = 33 then 1 else 0)
     \<and> kbd t = (if i = 33 then snd (convertToAscii (dev s 0x60 (reads s 0x60)) (kbd s)) else kbd s)"

lemma interrupt_runs:
  assumes "timer_apart timer" and "i \<noteq> 14"
  shows "\<exists>t. interrupt_handler timer i err s = Inr ((), t) \<and> int_effect i s t"
proof -
  note ack = screen_step_simps [OF screen_step_ack]
  obtain u where u: "timer_callback timer s = Inr ((), u)" "screen_step (s\<lparr>ticks := ticks s + 1\<rparr>) u"
    by (rule timer_callback_runs [OF assms(1), of s]) blast
  note k = keyboard_step [of s] and us = screen_step_simps [OF u(2)]
  consider "i = 32" | "i = 33" | "i \<noteq> 32" "i \<noteq> 33" by blast
  then show ?thesis using assms(2)
    by cases (simp_all add: interrupt_handler_def u(1) us k ack int_effect_def)
qed


subsection \<open>Properties\<close>

text \<open>
  A timer interrupt shows the number of ticks so far at the right end of the first screen
  row, adds one to it, acknowledges at the first controller, and changes nothing else in memory
  but the twelve bytes of its stack buffer.
\<close>

theorem timer_shows_ticks:
  assumes "timer_apart timer" and "d = i2a (ticks s)"
  shows "\<exists>s'. interrupt_handler timer 32 err s = Inr ((), s') \<and> ticks s' = ticks s + 1
    \<and> shown (mem s') (80 - length d) (length d) = map (\<lambda>c. (c, 2)) d
    \<and> (\<forall>x. \<not> (unat timer \<le> unat x \<and> unat x < unat timer + 12)
          \<longrightarrow> \<not> (0xB8000 + 2 * (80 - length d) \<le> unat x \<and> unat x < 0xB80A0) \<longrightarrow> mem s' x = mem s x)
    \<and> (\<exists>pre. outs s' = pre @ [(0x20, 0x20)])"
proof -
  obtain u where u: "timer_callback timer s = Inr ((), u)" "screen_step (s\<lparr>ticks := ticks s + 1\<rparr>) u"
    "mem u = mem (fb_clock_write d (s\<lparr>mem := st_bytes (mem s) timer (d @ [0])\<rparr>))"
    unfolding assms(2) by (rule timer_callback_runs [OF assms(1), of s]) blast
  have n: "length d \<le> 11" unfolding assms(2) by (rule i2a_length)
  have m: "mem u = (\<lambda>x. if 0xB8000 + 2 * (80 - length d) \<le> unat x \<and> unat x < 0xB8000 + 2 * 80
      then if even (unat x) then d ! ((unat x - (0xB8000 + 2 * (80 - length d))) div 2) else 2
      else st_bytes (mem s) timer (d @ [0]) x)"
    unfolding u(3) fb_clock_write_def using n by (subst fb_clock_loop_mem) (simp_all add: fun_eq_iff)
  have cell: "mem u w = (if even (unat w) then d ! ((unat w - (0xB8000 + 2 * (80 - length d))) div 2) else 2)"
    if "0xB8000 + 2 * (80 - length d) \<le> unat w" "unat w < 0xB80A0" for w
    using that by (simp add: m)
  have "mem u (of_nat (0xB8000 + 2 * (80 - length d + i))) = d ! i"
    "mem u (of_nat (0xB8000 + 2 * (80 - length d + i) + 1)) = 2" if "i < length d" for i
  proof -
    obtain k where k: "80 - length d = k" "k + i < 80" using \<open>i < length d\<close> n by simp
    have "unat (of_nat (0xB8000 + 2 * (k + i)) :: u32) = 0xB8000 + 2 * (k + i)"
      "unat (of_nat (0xB8000 + 2 * (k + i) + 1) :: u32) = 0xB8000 + 2 * (k + i) + 1"
      using k(2) by (intro unat_of_nat32; simp)+
    then show "mem u (of_nat (0xB8000 + 2 * (80 - length d + i))) = d ! i"
      "mem u (of_nat (0xB8000 + 2 * (80 - length d + i) + 1)) = 2"
      using k cell [of "of_nat (0xB8000 + 2 * (k + i))"] cell [of "of_nat (0xB8000 + 2 * (k + i) + 1)"]
      by (simp_all del: of_nat_add of_nat_mult of_nat_Suc)
  qed
  then have sh: "shown (mem u) (80 - length d) (length d) = map (\<lambda>c. (c, 2)) d"
    unfolding shown_def by (intro nth_equalityI) simp_all
  have "only_in (unat timer) (unat timer + length (d @ [0])) (mem s) (st_bytes (mem s) timer (d @ [0]))"
    using n assms(1) by (intro st_bytes_only_in) (simp add: timer_apart_def)
  then have o: "only_in (unat timer) (unat timer + 12) (mem s) (st_bytes (mem s) timer (d @ [0]))"
    by (rule only_in_mono) (use n in simp_all)
  have ack: "pic_acknowledge 32 u = outb 0x20 0x20 u"
    by (simp add: pic_acknowledge_def PIC1_START_INTERRUPT_def PIC2_START_INTERRUPT_def PIC2_END_INTERRUPT_def
        PIC1_PORT_A_def PIC_ACK_def)
  have "interrupt_handler timer 32 err s = Inr ((), outb 0x20 0x20 u)"
    by (simp add: interrupt_handler_def u(1) ack)
  moreover have "mem u x = mem s x" if "\<not> (unat timer \<le> unat x \<and> unat x < unat timer + 12)"
    "\<not> (0xB8000 + 2 * (80 - length d) \<le> unat x \<and> unat x < 0xB80A0)" for x
    using o that by (auto simp: m only_in_def)
  moreover have "ticks (outb 0x20 0x20 u) = ticks s + 1" using screen_step_simps(1) [OF u(2)] by (simp add: outb_def)
  ultimately show ?thesis using sh by (intro exI [of _ "outb 0x20 0x20 u"]) simp
qed

theorem timer_shows_ticks_witness:
  "\<exists>s'. interrupt_handler 0x7000 32 0 ((power_on (\<lambda>_. 0) (\<lambda>_ _. 0))\<lparr>ticks := 7\<rparr>) = Inr ((), s') \<and> ticks s' = 8"
proof -
  have "timer_apart 0x7000" by (simp add: timer_apart_def unat_numeral32)
  from timer_shows_ticks [OF this refl, where s = "(power_on (\<lambda>_. 0) (\<lambda>_ _. 0))\<lparr>ticks := 7\<rparr>" and err = 0] show ?thesis by auto
qed

text \<open>
  C21: Any sequence of interrupts without a page fault is handled to the end. Then the tick
  counter has advanced by the number of timer interrupts (modulo 32 bits), one scan code was
  read for each keyboard interrupt, and the modifier state is that of the scan codes delivered,
  in their order.
\<close>

theorem interrupts_all_handled:
  assumes "timer_apart timer" and "14 \<notin> fst ` set is"
  shows "\<exists>t. handled timer s is t \<and> ticks t = ticks s + of_nat (count_list (map fst is) 32)
    \<and> reads t 0x60 = reads s 0x60 + count_list (map fst is) 33
    \<and> kbd t = snd (convert_all (scan_codes_from s (count_list (map fst is) 33)) (kbd s))"
  using assms(2)
proof (induction "is" arbitrary: s)
  case Nil
  show ?case by (simp add: scan_codes_from_def)
next
  case (Cons a "is")
  obtain i err where a: "a = (i, err)" by fastforce
  obtain u where u: "interrupt_handler timer i err s = Inr ((), u)" "int_effect i s u"
    using interrupt_runs [OF assms(1), of i err s] Cons.prems a by auto
  obtain t where t: "handled timer u is t" "ticks t = ticks u + of_nat (count_list (map fst is) 32)"
    "reads t 0x60 = reads u 0x60 + count_list (map fst is) 33"
    "kbd t = snd (convert_all (scan_codes_from u (count_list (map fst is) 33)) (kbd u))"
    using Cons.IH [of u] Cons.prems by auto
  have "handled timer s (a # is) t" using u(1) t(1) a by auto
  moreover have "ticks t = ticks s + of_nat (count_list (map fst (a # is)) 32)"
    using t(2) u(2) by (simp add: int_effect_def a)
  moreover have "reads t 0x60 = reads s 0x60 + count_list (map fst (a # is)) 33"
    using t(3) u(2) by (simp add: int_effect_def a)
  moreover have "kbd t = snd (convert_all (scan_codes_from s (count_list (map fst (a # is)) 33)) (kbd s))"
  proof (cases "i = 33")
    case True
    then have "count_list (map fst (a # is)) 33 = Suc (count_list (map fst is) 33)" using a by simp
    then show ?thesis using t(4) u(2) True
      by (simp add: int_effect_def scan_codes_from_Suc convert_all_state scan_codes_from_def [of u]
          del: convert_all.simps upt.simps count_list.simps)
  next
    case False
    then show ?thesis using t(4) u(2) a by (simp add: int_effect_def scan_codes_from_def)
  qed
  ultimately show ?case by blast
qed

theorem interrupts_all_handled_witness:
  "\<exists>t. handled 0x7000 (power_on (\<lambda>_. 0) (\<lambda>_ n. of_nat n)) [(32, 0), (33, 0), (7, 0), (32, 0)] t \<and> ticks t = 2 \<and> reads t 0x60 = 1"
proof -
  have "timer_apart 0x7000" by (simp add: timer_apart_def unat_numeral32)
  from interrupts_all_handled [OF this, of "[(32, 0), (33, 0), (7, 0), (32, 0)]" "power_on (\<lambda>_. 0) (\<lambda>_ n. of_nat n)"]
  show ?thesis by (auto simp: power_on_def)
qed

text \<open>
  A page fault never returns to the interrupted code: the handler ends in \<open>PANIC\<close>, so the
  acknowledgement written behind the call of \<open>page_fault\<close> is never reached.
\<close>

theorem page_fault_never_returns:
  "interrupt_handler timer 14 err s \<noteq> Inr r"
  using page_fault_stops [of err s] by (auto simp: interrupt_handler_def)

end
