(* ===== verification/Kheap.thy ===== *)
theory Kheap
  imports Paging
begin

text \<open>
  \<open>kheap.c\<close>: the placement allocator used before the heap exists, and the heap itself with
  its index of holes. \<open>alloc\<close> may expand the heap, which may need page tables, which are
  themselves allocated; the recursion is bounded by a fuel argument whose exhaustion is the
  value \<open>No_Fuel\<close>.
\<close>

unbundle bit_operations_syntax

subsection \<open>Layout of headers and footers\<close>

definition KHEAP_START :: u32 where "KHEAP_START = 0xC0000000"
definition KHEAP_INITIAL_SIZE :: u32 where "KHEAP_INITIAL_SIZE = 0x100000"
definition HEAP_INDEX_SIZE :: u32 where "HEAP_INDEX_SIZE = 0x20000"
definition HEAP_MAGIC :: u32 where "HEAP_MAGIC = 0x123890AB"
definition HEAP_MIN_SIZE :: u32 where "HEAP_MIN_SIZE = 0x70000"

definition sizeof_header :: u32 where "sizeof_header = 12"
definition sizeof_footer :: u32 where "sizeof_footer = 8"
definition sizeof_heap :: u32 where "sizeof_heap = 36"

text \<open>\<open>header_t\<close>: \<open>magic\<close> at 0, \<open>is_hole\<close> (a byte) at 4, \<open>size\<close> at 8; \<open>footer_t\<close>: \<open>magic\<close> at 0, \<open>header\<close> at 4.\<close>

definition h_is_hole :: "u32 \<Rightarrow> machine \<Rightarrow> u8" where
  "h_is_hole a s = ld8 (mem s) (a + 4)"

definition set_is_hole :: "u32 \<Rightarrow> u8 \<Rightarrow> machine \<Rightarrow> machine" where
  "set_is_hole a v s = s\<lparr>mem := st8 (mem s) (a + 4) v\<rparr>"

abbreviation h_magic :: "u32 \<Rightarrow> machine \<Rightarrow> u32" where "h_magic a \<equiv> rd a"
abbreviation h_size :: "u32 \<Rightarrow> machine \<Rightarrow> u32" where "h_size a \<equiv> rd (a + 8)"
abbreviation f_magic :: "u32 \<Rightarrow> machine \<Rightarrow> u32" where "f_magic a \<equiv> rd a"
abbreviation f_header :: "u32 \<Rightarrow> machine \<Rightarrow> u32" where "f_header a \<equiv> rd (a + 4)"

definition set_footer :: "u32 \<Rightarrow> u32 \<Rightarrow> machine \<Rightarrow> machine" where
  "set_footer a header s = wr (a + 4) header (wr a HEAP_MAGIC s)"

subsection \<open>The index of a heap\<close>

definition upd_heap :: "u32 \<Rightarrow> (heap_t \<Rightarrow> heap_t) \<Rightarrow> machine \<Rightarrow> machine" where
  "upd_heap h f s = s\<lparr>heap_at := (heap_at s)(h := f (heap_at s h))\<rparr>"

definition heap_insert :: "u32 \<Rightarrow> u32 \<Rightarrow> (machine, unit) prog" where
  "heap_insert item h s =
     (case insert_ordered_array item (index (heap_at s h)) (mem s) of
        Inl e \<Rightarrow> Inl e
      | Inr (oa, m) \<Rightarrow> Inr ((), upd_heap h (\<lambda>hp. hp\<lparr>index := oa\<rparr>) (s\<lparr>mem := m\<rparr>)))"

definition heap_remove :: "u32 \<Rightarrow> u32 \<Rightarrow> machine \<Rightarrow> machine" where
  "heap_remove i h s =
     (case remove_ordered_array i (index (heap_at s h)) (mem s) of
        (oa, m) \<Rightarrow> upd_heap h (\<lambda>hp. hp\<lparr>index := oa\<rparr>) (s\<lparr>mem := m\<rparr>))"

definition heap_lookup :: "u32 \<Rightarrow> u32 \<Rightarrow> (machine, u32) prog" where
  "heap_lookup i h s = in_mem (lookup_ordered_array i (index (heap_at s h))) s"

subsection \<open>\<open>find_smallest_hole\<close>\<close>

definition hole_fits :: "u32 \<Rightarrow> u8 \<Rightarrow> u32 \<Rightarrow> machine \<Rightarrow> bool" where
  "hole_fits sz page_align header s =
     (if page_align > 0 then
        let location = header;
            offset = (if (location + sizeof_header) AND 0xFFFFF000 \<noteq> 0
                      then 0x1000 - (location + sizeof_header) mod 0x1000 else 0);
            hole_size = h_size header s - offset
        in sint sz \<le> sint hole_size
      else sz \<le> h_size header s)"

function find_hole_loop :: "u32 \<Rightarrow> u8 \<Rightarrow> u32 \<Rightarrow> u32 \<Rightarrow> machine \<Rightarrow> halt + u32" where
  "find_hole_loop sz page_align h iterator s =
     (if iterator < oa_size (index (heap_at s h)) then
        (case heap_lookup iterator h s of
           Inl e \<Rightarrow> Inl e
         | Inr (header, _) \<Rightarrow>
             if hole_fits sz page_align header s then Inr iterator
             else find_hole_loop sz page_align h (iterator + 1) s)
      else Inr iterator)"
  by pat_completeness auto
termination
  by (relation "measure (\<lambda>(sz, align, h, i, s). unat (oa_size (index (heap_at s h))) - unat i)")
    (auto intro: up_measure)

declare find_hole_loop.simps [simp del]

definition find_smallest_hole :: "u32 \<Rightarrow> u8 \<Rightarrow> u32 \<Rightarrow> (machine, s32) prog" where
  "find_smallest_hole sz page_align h s =
     (case find_hole_loop sz page_align h 0 s of
        Inl e \<Rightarrow> Inl e
      | Inr iterator \<Rightarrow> Inr (if iterator = oa_size (index (heap_at s h)) then - 1 else iterator, s))"

subsection \<open>\<open>expand\<close> and \<open>contract\<close>\<close>

definition expand :: "(u32 \<Rightarrow> (machine, u32 \<times> u32) prog) \<Rightarrow> u32 \<Rightarrow> u32 \<Rightarrow> (machine, unit) prog" where
  "expand kap new_size h s =
     (if \<not> new_size > end_address (heap_at s h) - start_address (heap_at s h)
      then Inl (Assert_Failed ''new_size > heap->end_address - heap->start_address'')
      else
        let new_size = (if new_size AND 0xFFFFF000 \<noteq> 0 then (new_size AND 0xFFFFF000) + 0x1000 else new_size)
        in
        if \<not> start_address (heap_at s h) + new_size \<le> max_address (heap_at s h)
        then Inl (Assert_Failed ''heap->start_address+new_size <= heap->max_address'')
        else
          let old_size = end_address (heap_at s h) - start_address (heap_at s h)
          in (case page_for (\<lambda>_. new_size)
                    (\<lambda>i s. seq (get_page kap (start_address (heap_at s h) + i) True (kernel_directory s))
                        (\<lambda>page s. alloc_frame page
                           (if supervisor (heap_at s h) \<noteq> 0 then 1 else 0)
                           (if readonly (heap_at s h) \<noteq> 0 then 0 else 1) s) s)
                    old_size s of
                Inl e \<Rightarrow> Inl e
              | Inr (_, s) \<Rightarrow>
                  Inr ((), upd_heap h (\<lambda>hp. hp\<lparr>end_address := start_address hp + new_size\<rparr>) s)))"

text \<open>
  \<open>free_frame(get_page(..., 0, ...))\<close>: the page may be null, which \<open>free_frame\<close> dereferences.
  \<open>contract\<close> calls the loop with a \<open>new_size\<close> of at least \<open>HEAP_MIN_SIZE\<close>, so the counter
  stays above it and does not wrap.
\<close>

definition free_page :: "u32 \<Rightarrow> (machine, unit) prog" where
  "free_page a s =
     (case get_page (\<lambda>_. stop No_Fuel) a False (kernel_directory s) s of
        Inl e \<Rightarrow> Inl e
      | Inr (page, s) \<Rightarrow>
          if page = 0 then Inl (Undefined ''free_frame(0)'') else Inr ((), free_frame page s))"

function contract_loop :: "u32 \<Rightarrow> u32 \<Rightarrow> u32 \<Rightarrow> (machine, unit) prog" where
  "contract_loop new_size h i s =
     (if new_size < i then
        (case free_page (start_address (heap_at s h) + i) s of
           Inl e \<Rightarrow> Inl e
         | Inr (_, s) \<Rightarrow> if i < 0x1000 then Inl Diverges else contract_loop new_size h (i - 0x1000) s)
      else Inr ((), s))"
  by pat_completeness auto

lemma contract_measure: "\<not> i < 0x1000 \<Longrightarrow> unat (i - 0x1000) < unat i" for i :: u32
  by (simp add: unat_sub32 word_less_nat_alt unat_numeral32)

termination contract_loop
  by (relation "measure (\<lambda>(new_size, h, i, s). unat i)") (auto intro: contract_measure)

declare contract_loop.simps [simp del]

definition contract :: "u32 \<Rightarrow> u32 \<Rightarrow> (machine, u32) prog" where
  "contract new_size h s =
     (if \<not> new_size < end_address (heap_at s h) - start_address (heap_at s h)
      then Inl (Assert_Failed ''new_size < heap->end_address-heap->start_address'')
      else
        let new_size = (if new_size AND 0x1000 \<noteq> 0 then (new_size AND 0x1000) + 0x1000 else new_size);
            new_size = (if new_size < HEAP_MIN_SIZE then HEAP_MIN_SIZE else new_size);
            old_size = end_address (heap_at s h) - start_address (heap_at s h)
        in (case contract_loop new_size h (old_size - 0x1000) s of
              Inl e \<Rightarrow> Inl e
            | Inr (_, s) \<Rightarrow>
                Inr (new_size, upd_heap h (\<lambda>hp. hp\<lparr>end_address := start_address hp + new_size\<rparr>) s)))"

subsection \<open>\<open>alloc\<close>\<close>

text \<open>The search for the header at the highest address, from \<open>iterator\<close> on.\<close>

function endmost_loop :: "u32 \<Rightarrow> u32 \<Rightarrow> u32 \<Rightarrow> u32 \<Rightarrow> machine \<Rightarrow> halt + u32" where
  "endmost_loop h iterator idx value s =
     (if iterator < oa_size (index (heap_at s h)) then
        (case heap_lookup iterator h s of
           Inl e \<Rightarrow> Inl e
         | Inr (tmp, _) \<Rightarrow>
             if tmp > value then endmost_loop h (iterator + 1) iterator tmp s
             else endmost_loop h (iterator + 1) idx value s)
      else Inr idx)"
  by pat_completeness auto
termination
  by (relation "measure (\<lambda>(h, i, idx, v, s). unat (oa_size (index (heap_at s h))) - unat i)")
    (auto intro: up_measure)

declare endmost_loop.simps [simp del]

text \<open>The heap has no hole that fits: expand it, then give the new space to the last hole.\<close>

definition alloc_expand :: "(u32 \<Rightarrow> (machine, u32 \<times> u32) prog) \<Rightarrow> u32 \<Rightarrow> u32 \<Rightarrow> (machine, unit) prog" where
  "alloc_expand kap new_size h s =
     (let old_length = end_address (heap_at s h) - start_address (heap_at s h);
          old_end_address = end_address (heap_at s h)
      in (case expand kap (old_length + new_size) h s of
            Inl e \<Rightarrow> Inl e
          | Inr (_, s) \<Rightarrow>
              let new_length = end_address (heap_at s h) - start_address (heap_at s h)
              in (case endmost_loop h 0 0xFFFF 0 s of
                    Inl e \<Rightarrow> Inl e
                  | Inr idx \<Rightarrow>
                      if idx = 0xFFFF then
                        let header = old_end_address;
                            s = wr header HEAP_MAGIC s;
                            s = wr (header + 8) (new_length - old_length) s;
                            s = set_is_hole header 1 s;
                            footer = old_end_address + h_size header s - sizeof_footer;
                            s = set_footer footer header s
                        in heap_insert header h s
                      else
                        (case heap_lookup idx h s of
                           Inl e \<Rightarrow> Inl e
                         | Inr (header, s) \<Rightarrow>
                             let s = wr (header + 8) (h_size header s + (new_length - old_length)) s;
                                 footer = header + h_size header s - sizeof_footer;
                                 s = wr (footer + 4) header s;
                                 s = wr footer HEAP_MAGIC s
                             in Inr ((), s)))))"

text \<open>
  The last part of \<open>alloc\<close>: write the block at the start of a hole of \<open>orig_hole_size\<close> bytes,
  and the hole that remains behind it.
\<close>

definition place_block :: "u32 \<Rightarrow> u32 \<Rightarrow> u32 \<Rightarrow> u32 \<Rightarrow> u32 \<Rightarrow> (machine, u32) prog" where
  "place_block orig_hole_pos orig_hole_size sz new_size h s =
     (let block_header = orig_hole_pos;
          s = wr block_header HEAP_MAGIC s;
          s = set_is_hole block_header 0 s;
          s = wr (block_header + 8) new_size s;
          s = set_footer (orig_hole_pos + sizeof_header + sz) block_header s
      in
      if orig_hole_size - new_size > 0 then
        let hole_header = orig_hole_pos + sizeof_header + sz + sizeof_footer;
            s = wr hole_header HEAP_MAGIC s;
            s = set_is_hole hole_header 1 s;
            s = wr (hole_header + 8) (orig_hole_size - new_size) s;
            hole_footer = hole_header + orig_hole_size - new_size - sizeof_footer;
            s = (if hole_footer < end_address (heap_at s h) then set_footer hole_footer hole_header s else s)
        in (case heap_insert hole_header h s of
              Inl e \<Rightarrow> Inl e
            | Inr (_, s) \<Rightarrow> Inr (block_header + sizeof_header, s))
      else Inr (block_header + sizeof_header, s))"

text \<open>A hole that fits was found at \<open>iterator\<close> of the index: cut the block out of it.\<close>

definition alloc_take :: "u32 \<Rightarrow> u32 \<Rightarrow> u8 \<Rightarrow> u32 \<Rightarrow> u32 \<Rightarrow> (machine, u32) prog" where
  "alloc_take iterator sz page_align new_size h s =
     (case heap_lookup iterator h s of
        Inl e \<Rightarrow> Inl e
      | Inr (orig_hole_pos, s) \<Rightarrow>
          let orig_hole_size = h_size orig_hole_pos s;
              (sz, new_size) =
                (if orig_hole_size - new_size < sizeof_header + sizeof_footer
                 then (sz + (orig_hole_size - new_size), orig_hole_size) else (sz, new_size))
          in
          if page_align \<noteq> 0 \<and> orig_hole_pos AND 0xFFFFF000 \<noteq> 0 then
            let new_location = orig_hole_pos + 0x1000 - (orig_hole_pos AND 0xFFF) - sizeof_header;
                hole_header = orig_hole_pos;
                s = wr (hole_header + 8) (0x1000 - (orig_hole_pos AND 0xFFF) - sizeof_header) s;
                s = wr hole_header HEAP_MAGIC s;
                s = set_is_hole hole_header 1 s;
                s = set_footer (new_location - sizeof_footer) hole_header s
            in place_block new_location (orig_hole_size - h_size hole_header s) sz new_size h s
          else place_block orig_hole_pos orig_hole_size sz new_size h (heap_remove iterator h s))"

text \<open>One activation of \<open>alloc\<close>; \<open>again\<close> is the recursive call, \<open>kap\<close> is \<open>kmalloc_ap\<close>.\<close>

definition alloc_body ::
  "(u32 \<Rightarrow> u8 \<Rightarrow> u32 \<Rightarrow> (machine, u32) prog) \<Rightarrow> (u32 \<Rightarrow> (machine, u32 \<times> u32) prog)
     \<Rightarrow> u32 \<Rightarrow> u8 \<Rightarrow> u32 \<Rightarrow> (machine, u32) prog" where
  "alloc_body again kap sz page_align h s =
     (let new_size = sz + sizeof_header + sizeof_footer
      in (case find_smallest_hole new_size page_align h s of
            Inl e \<Rightarrow> Inl e
          | Inr (iterator, s) \<Rightarrow>
              if iterator = - 1 then
                (case alloc_expand kap new_size h s of
                   Inl e \<Rightarrow> Inl e
                 | Inr (_, s) \<Rightarrow> again sz page_align h s)
              else alloc_take iterator sz page_align new_size h s))"

subsection \<open>\<open>kmalloc\<close> and its variants\<close>

text \<open>
  \<open>kmalloc_int\<close> over a given \<open>alloc\<close>. It returns the address and what it stores through
  \<open>phys\<close>; \<open>want_phys\<close> tells whether that pointer is non-null.
\<close>

definition kmalloc_with ::
  "(u32 \<Rightarrow> u8 \<Rightarrow> u32 \<Rightarrow> (machine, u32) prog) \<Rightarrow> u32 \<Rightarrow> s32 \<Rightarrow> bool \<Rightarrow> (machine, u32 \<times> u32) prog" where
  "kmalloc_with alc sz align want_phys s =
     (if kheap s \<noteq> 0 then
        (case alc sz (ucast align) (kheap s) s of
           Inl e \<Rightarrow> Inl e
         | Inr (addr, s) \<Rightarrow>
             if want_phys then
               (case get_page (\<lambda>_. stop No_Fuel) addr False (kernel_directory s) s of
                  Inl e \<Rightarrow> Inl e
                | Inr (page, s) \<Rightarrow>
                    if page = 0 then Inl (Undefined ''page->frame'')
                    else Inr ((addr, page_frame (rd page s) * 0x1000 + (addr AND 0xFFF)), s))
             else Inr ((addr, 0), s))
      else
        let s = (if align = 1 \<and> placement_address s AND 0xFFFFF000 \<noteq> 0
                 then s\<lparr>placement_address := (placement_address s AND 0xFFFFF000) + 0x1000\<rparr> else s);
            phys = (if want_phys then placement_address s else 0);
            tmp = placement_address s
        in Inr ((tmp, phys), s\<lparr>placement_address := placement_address s + sz\<rparr>))"

primrec alloc :: "nat \<Rightarrow> u32 \<Rightarrow> u8 \<Rightarrow> u32 \<Rightarrow> (machine, u32) prog" where
  "alloc 0 = (\<lambda>size page_align h. stop No_Fuel)"
| "alloc (Suc n) = alloc_body (alloc n) (\<lambda>sz. kmalloc_with (alloc n) sz 1 True)"

definition kmalloc_int :: "nat \<Rightarrow> u32 \<Rightarrow> s32 \<Rightarrow> bool \<Rightarrow> (machine, u32 \<times> u32) prog" where
  "kmalloc_int n = kmalloc_with (alloc n)"

definition kmalloc_a :: "nat \<Rightarrow> u32 \<Rightarrow> (machine, u32) prog" where
  "kmalloc_a n sz = seq (kmalloc_int n sz 1 False) (\<lambda>(a, _). ret a)"

definition kmalloc_p :: "nat \<Rightarrow> u32 \<Rightarrow> (machine, u32 \<times> u32) prog" where
  "kmalloc_p n sz = kmalloc_int n sz 0 True"

definition kmalloc_ap :: "nat \<Rightarrow> u32 \<Rightarrow> (machine, u32 \<times> u32) prog" where
  "kmalloc_ap n sz = kmalloc_int n sz 1 True"

definition kmalloc :: "nat \<Rightarrow> u32 \<Rightarrow> (machine, u32) prog" where
  "kmalloc n sz = seq (kmalloc_int n sz 0 False) (\<lambda>(a, _). ret a)"

subsection \<open>\<open>free\<close>\<close>

text \<open>The search for a header in the index; the result is the size when it is not there.\<close>

function index_loop :: "u32 \<Rightarrow> u32 \<Rightarrow> u32 \<Rightarrow> machine \<Rightarrow> halt + u32" where
  "index_loop h test_header iterator s =
     (if iterator < oa_size (index (heap_at s h)) then
        (case heap_lookup iterator h s of
           Inl e \<Rightarrow> Inl e
         | Inr (x, _) \<Rightarrow> if x \<noteq> test_header then index_loop h test_header (iterator + 1) s else Inr iterator)
      else Inr iterator)"
  by pat_completeness auto
termination
  by (relation "measure (\<lambda>(h, x, i, s). unat (oa_size (index (heap_at s h))) - unat i)")
    (auto intro: up_measure)

declare index_loop.simps [simp del]

text \<open>The three steps of \<open>free\<close>: each returns the header and footer it leaves behind.\<close>

definition unify_left :: "u32 \<Rightarrow> u32 \<Rightarrow> machine \<Rightarrow> u32 \<times> bool \<times> machine" where
  "unify_left header footer s =
     (let test_footer = header - sizeof_footer in
      if f_magic test_footer s = HEAP_MAGIC \<and> h_is_hole (f_header test_footer s) s = 1 then
        let cache_size = h_size header s;
            header = f_header test_footer s;
            s = wr (footer + 4) header s;
            s = wr (header + 8) (h_size header s + cache_size) s
        in (header, False, s)
      else (header, True, s))"

definition unify_right :: "u32 \<Rightarrow> u32 \<Rightarrow> u32 \<Rightarrow> (machine, u32) prog" where
  "unify_right header footer h s =
     (let test_header = footer + sizeof_footer in
      if h_magic test_header s = HEAP_MAGIC \<and> h_is_hole test_header s \<noteq> 0 then
        let s = wr (header + 8) (h_size header s + h_size test_header s) s;
            test_footer = test_header + h_size test_header s - sizeof_footer
        in (case index_loop h test_header 0 s of
              Inl e \<Rightarrow> Inl e
            | Inr iterator \<Rightarrow>
                if iterator < oa_size (index (heap_at s h))
                then Inr (test_footer, heap_remove iterator h s)
                else Inl (Assert_Failed ''iterator < heap->index.size''))
      else Inr (footer, s))"

definition free_contract :: "u32 \<Rightarrow> u32 \<Rightarrow> u32 \<Rightarrow> u32 \<Rightarrow> (machine, unit) prog" where
  "free_contract header footer test_header h s =
     (if footer + sizeof_footer = end_address (heap_at s h) then
        let old_length = end_address (heap_at s h) - start_address (heap_at s h)
        in (case contract (header - start_address (heap_at s h)) h s of
              Inl e \<Rightarrow> Inl e
            | Inr (new_length, s) \<Rightarrow>
                if h_size header s - (old_length - new_length) > 0 then
                  let s = wr (header + 8) (h_size header s - (old_length - new_length)) s;
                      footer = header + h_size header s - sizeof_footer
                  in Inr ((), set_footer footer header s)
                else
                  (case index_loop h test_header 0 s of
                     Inl e \<Rightarrow> Inl e
                   | Inr iterator \<Rightarrow>
                       Inr ((), if iterator < oa_size (index (heap_at s h)) then heap_remove iterator h s else s)))
      else Inr ((), s))"

definition free :: "u32 \<Rightarrow> u32 \<Rightarrow> (machine, unit) prog" where
  "free p h s =
     (if p = 0 then Inr ((), s)
      else
        let header = p - sizeof_header;
            footer = header + h_size header s - sizeof_footer
        in
        if h_magic header s \<noteq> HEAP_MAGIC then Inl (Assert_Failed ''header->magic == HEAP_MAGIC'')
        else if f_magic footer s \<noteq> HEAP_MAGIC then Inl (Assert_Failed ''footer->magic == HEAP_MAGIC'')
        else
          let s = set_is_hole header 1 s;
              (header, do_add, s) = unify_left header footer s;
              test_header = footer + sizeof_footer
          in (case unify_right header footer h s of
                Inl e \<Rightarrow> Inl e
              | Inr (footer, s) \<Rightarrow>
                  (case free_contract header footer test_header h s of
                     Inl e \<Rightarrow> Inl e
                   | Inr (_, s) \<Rightarrow> if do_add then heap_insert header h s else Inr ((), s))))"

definition kfree :: "u32 \<Rightarrow> (machine, unit) prog" where
  "kfree p s = free p (kheap s) s"

subsection \<open>Creating heaps and arrays\<close>

definition create_heap :: "nat \<Rightarrow> u32 \<Rightarrow> u32 \<Rightarrow> u32 \<Rightarrow> u8 \<Rightarrow> u8 \<Rightarrow> (machine, u32) prog" where
  "create_heap n start end_addr maxa superv readon s =
     (case kmalloc n sizeof_heap s of
        Inl e \<Rightarrow> Inl e
      | Inr (heap, s) \<Rightarrow>
          if start mod 0x1000 \<noteq> 0 then Inl (Assert_Failed ''start%0x1000 == 0'')
          else if end_addr mod 0x1000 \<noteq> 0 then Inl (Assert_Failed ''end_addr%0x1000 == 0'')
          else
            (case tfp_printf (cstr ''asserts done '' @ [10]) [] s of
               Inl e \<Rightarrow> Inl e
             | Inr (_, s) \<Rightarrow>
                 let (oa, m) = place_ordered_array start HEAP_INDEX_SIZE Header_T_Less_Than (mem s);
                     s = upd_heap heap (\<lambda>hp. hp\<lparr>index := oa\<rparr>) (s\<lparr>mem := m\<rparr>)
                 in (case tfp_printf (cstr ''ordered array placed '' @ [10]) [] s of
                       Inl e \<Rightarrow> Inl e
                     | Inr (_, s) \<Rightarrow>
                         let start = start + 4 * HEAP_INDEX_SIZE
                         in (case tfp_printf (cstr ''start address grabbed '' @ [10]) [] s of
                               Inl e \<Rightarrow> Inl e
                             | Inr (_, s) \<Rightarrow>
                                 let start = (if start AND 0xFFFFF000 \<noteq> 0
                                              then (start AND 0xFFFFF000) + 0x1000 else start);
                                     s = upd_heap heap (\<lambda>hp. hp\<lparr>start_address := start,
                                           end_address := end_addr, max_address := maxa,
                                           supervisor := ucast superv, readonly := ucast readon\<rparr>) s;
                                     hole = start;
                                     s = wr (hole + 8) (end_addr - start) s;
                                     s = wr hole HEAP_MAGIC s;
                                     s = set_is_hole hole 1 s
                                 in (case heap_insert hole heap s of
                                       Inl e \<Rightarrow> Inl e
                                     | Inr (_, s) \<Rightarrow> Inr (heap, s))))))"

definition create_ordered_array :: "nat \<Rightarrow> u32 \<Rightarrow> lessthan_predicate_t \<Rightarrow> (machine, ordered_array_t) prog" where
  "create_ordered_array n maxs lt s =
     (case kmalloc n (maxs * 4) s of
        Inl e \<Rightarrow> Inl e
      | Inr (a, s) \<Rightarrow>
          Inr (\<lparr>array = a, oa_size = 0, max_size = maxs, less_than = lt\<rparr>,
               s\<lparr>mem := memset a 0 (maxs * 4) (mem s)\<rparr>))"

end
