(* ===== verification/Heap_Blocks.thy ===== *)
theory Heap_Blocks
  imports Kheap
begin

text \<open>
  The abstract view of the heap: a list of blocks, each a hole or allocated and with its
  size, laid out end to end from the start address to the end address. \<open>chain\<close> says that
  memory holds the headers and footers of such a list, \<open>heap_ok\<close> that the index holds
  exactly the addresses of its holes.
\<close>

unbundle bit_operations_syntax

subsection \<open>Block headers and footers in memory\<close>

type_synonym block = "bool \<times> nat" \<comment> \<open>is it a hole, and its size in bytes\<close>

definition hole_byte :: "bool \<Rightarrow> u8" where
  "hole_byte b = (if b then 1 else 0)"

definition hdr :: "memory \<Rightarrow> nat \<Rightarrow> bool \<Rightarrow> nat \<Rightarrow> bool" where
  "hdr m a hole n \<longleftrightarrow> ld32 m (of_nat a) = HEAP_MAGIC \<and> ld8 m (of_nat a + 4) = hole_byte hole
     \<and> ld32 m (of_nat a + 8) = of_nat n"

definition ftr :: "memory \<Rightarrow> nat \<Rightarrow> nat \<Rightarrow> bool" where
  "ftr m a n \<longleftrightarrow> ld32 m (of_nat (a + n - 8)) = HEAP_MAGIC \<and> ld32 m (of_nat (a + n - 8) + 4) = of_nat a"

definition put_header :: "u32 \<Rightarrow> u8 \<Rightarrow> u32 \<Rightarrow> memory \<Rightarrow> memory" where
  "put_header a hole n m = st32 (st8 (st32 m a HEAP_MAGIC) (a + 4) hole) (a + 8) n"

definition put_footer :: "u32 \<Rightarrow> u32 \<Rightarrow> memory \<Rightarrow> memory" where
  "put_footer a header m = st32 (st32 m a HEAP_MAGIC) (a + 4) header"

lemma unat_nat_addr: "a < 4294967296 \<Longrightarrow> unat (of_nat a :: u32) = a"
  by (rule unat_of_nat32)

lemma unat_nat_offset:
  "a + k < 4294967296 \<Longrightarrow> unat (of_nat a + of_nat k :: u32) = a + k"
  by (simp add: unat_add32 unat_of_nat32)

lemma unat_nat_4: "a + 4 < 4294967296 \<Longrightarrow> unat (of_nat a + 4 :: u32) = a + 4"
  and unat_nat_8: "a + 8 < 4294967296 \<Longrightarrow> unat (of_nat a + 8 :: u32) = a + 8"
  by (simp_all add: unat_add_numeral32 unat_of_nat32)

lemmas unat_heap = unat_nat_addr unat_nat_4 unat_nat_8

lemma hdr_same_on:
  assumes "same_on lo hi m m'" and "lo \<le> a" and "a + 12 \<le> hi" and "hi \<le> 4294967296"
  shows "hdr m' a h n = hdr m a h n"
proof -
  have "ld32 m' (of_nat a) = ld32 m (of_nat a)"
    using assms by (intro ld32_same_on [OF assms(1)]) (simp_all add: unat_heap)
  moreover have "ld32 m' (of_nat a + 8) = ld32 m (of_nat a + 8)"
    using assms by (intro ld32_same_on [OF assms(1)]) (simp_all add: unat_heap)
  moreover have "ld8 m' (of_nat a + 4) = ld8 m (of_nat a + 4)"
    using assms by (intro ld8_same_on [OF assms(1)]) (simp_all add: unat_heap)
  ultimately show ?thesis by (simp add: hdr_def)
qed

lemma ftr_same_on:
  assumes "same_on lo hi m m'" and "lo + 8 \<le> a + n" and "a + n \<le> hi" and "hi \<le> 4294967296"
  shows "ftr m' a n = ftr m a n"
proof -
  have "unat (of_nat (a + n - 8) :: u32) = a + n - 8" "unat (of_nat (a + n - 8) + 4 :: u32) = a + n - 8 + 4"
    using assms by (simp_all only: unat_heap)
  then show ?thesis using assms unfolding ftr_def
    by (subst ld32_same_on [OF assms(1)], simp, simp, simp, subst ld32_same_on [OF assms(1)]) simp_all
qed

lemma put_header_only_in:
  assumes "a + 12 \<le> 4294967296"
  shows "only_in a (a + 12) m (put_header (of_nat a) h n m)"
  unfolding put_header_def using assms
  by (intro only_in_st32_step only_in_st8_step only_in_refl) (simp_all add: unat_heap)

lemma put_footer_only_in:
  assumes "a + 8 \<le> 4294967296"
  shows "only_in a (a + 8) m (put_footer (of_nat a) h m)"
  unfolding put_footer_def using assms
  by (intro only_in_st32_step only_in_refl) (simp_all add: unat_heap)

lemma hdr_put_header:
  assumes "a + 12 \<le> 4294967296"
  shows "hdr (put_header (of_nat a) (hole_byte h) (of_nat n) m) a h n"
  using assms by (simp add: hdr_def put_header_def far_simps unat_heap)

lemma ftr_put_footer:
  assumes "a + n \<le> 4294967296" and "8 \<le> n"
  shows "ftr (put_footer (of_nat (a + n - 8)) (of_nat a) m) a n"
proof -
  define p where "p = a + n - 8"
  have "p + 8 \<le> 4294967296" using assms by (simp add: p_def)
  then show ?thesis unfolding ftr_def put_footer_def p_def [symmetric]
    by (simp add: far_simps unat_heap)
qed

definition put_block :: "nat \<Rightarrow> bool \<Rightarrow> nat \<Rightarrow> memory \<Rightarrow> memory" where
  "put_block a h n m = put_footer (of_nat (a + n - 8)) (of_nat a) (put_header (of_nat a) (hole_byte h) (of_nat n) m)"

lemma put_block:
  assumes "a + n \<le> 4294967296" and "20 \<le> n"
  shows "only_in a (a + n) m (put_block a h n m)" and "hdr (put_block a h n m) a h n" and "ftr (put_block a h n m) a n"
proof -
  have 1: "only_in a (a + 12) m (put_header (of_nat a) (hole_byte h) (of_nat n) m)"
    using assms by (intro put_header_only_in) simp
  have 2: "only_in (a + n - 8) (a + n) m (put_footer (of_nat (a + n - 8)) (of_nat a) m)" for m
    using put_footer_only_in [of "a + n - 8" m "of_nat a"] assms by simp
  show "only_in a (a + n) m (put_block a h n m)"
    unfolding put_block_def using assms
    by (intro only_in_trans [OF only_in_mono [OF 1] only_in_mono [OF 2]]) simp_all
  show "hdr (put_block a h n m) a h n"
    unfolding put_block_def using assms hdr_put_header
    by (subst hdr_same_on [OF only_in_same_on [OF 2, of "a + 12" a]]) simp_all
  show "ftr (put_block a h n m) a n"
    unfolding put_block_def using assms by (intro ftr_put_footer) simp_all
qed

subsection \<open>Chains of blocks\<close>

fun chain :: "memory \<Rightarrow> nat \<Rightarrow> block list \<Rightarrow> bool" where
  "chain m a [] = True"
| "chain m a ((h, n) # bs) = (20 \<le> n \<and> hdr m a h n \<and> (\<not> h \<longrightarrow> ftr m a n) \<and> chain m (a + n) bs)"

definition bsum :: "block list \<Rightarrow> nat" where
  "bsum bs = sum_list (map snd bs)"

lemma bsum_simps [simp]: "bsum [] = 0" "bsum (b # bs) = snd b + bsum bs" "bsum (bs @ cs) = bsum bs + bsum cs"
  by (simp_all add: bsum_def)

lemma chain_append [simp]: "chain m a (bs @ cs) = (chain m a bs \<and> chain m (a + bsum bs) cs)"
  by (induction m a bs rule: chain.induct) (auto simp: add.assoc)

lemma chain_same_on:
  "same_on lo hi m m' \<Longrightarrow> lo \<le> a \<Longrightarrow> a + bsum bs \<le> hi \<Longrightarrow> hi \<le> 4294967296 \<Longrightarrow> chain m a bs \<Longrightarrow> chain m' a bs"
proof (induction m a bs rule: chain.induct)
  case (2 m a h n bs)
  then have "20 \<le> n" "hdr m a h n" "\<not> h \<longrightarrow> ftr m a n" by simp_all
  moreover have "hdr m' a h n = hdr m a h n"
    using 2 by (intro hdr_same_on [OF 2(2)]) auto
  moreover have "ftr m' a n = ftr m a n"
    using 2 by (intro ftr_same_on [OF 2(2)]) auto
  ultimately show ?case using 2 by auto
qed simp

text \<open>The addresses of the holes, and of the block that starts at each.\<close>

fun hole_addrs :: "nat \<Rightarrow> block list \<Rightarrow> nat list" where
  "hole_addrs a [] = []"
| "hole_addrs a ((h, n) # bs) = (if h then [a] else []) @ hole_addrs (a + n) bs"

lemma hole_addrs_append [simp]: "hole_addrs a (bs @ cs) = hole_addrs a bs @ hole_addrs (a + bsum bs) cs"
  by (induction a bs rule: hole_addrs.induct) (auto simp: add.assoc)

lemma hole_addrs_split:
  "x \<in> set (hole_addrs a bs) \<Longrightarrow> \<exists>bs1 n bs2. bs = bs1 @ (True, n) # bs2 \<and> x = a + bsum bs1"
proof (induction a bs rule: hole_addrs.induct)
  case (2 a h n bs)
  show ?case
  proof (cases "h \<and> x = a")
    case True
    then show ?thesis by (intro exI [of _ "[]"] exI [of _ n] exI [of _ bs]) simp
  next
    case False
    with 2(2) have "x \<in> set (hole_addrs (a + n) bs)" by (auto split: if_splits)
    with 2(1) obtain bs1 k bs2 where "bs = bs1 @ (True, k) # bs2" "x = a + n + bsum bs1" by blast
    then show ?thesis by (intro exI [of _ "(h, n) # bs1"] exI [of _ k] exI [of _ bs2]) simp
  qed
qed simp

lemma hole_addrs_range: "x \<in> set (hole_addrs a bs) \<Longrightarrow> a \<le> x \<and> x \<le> a + bsum bs"
  using hole_addrs_split [of x a bs] by auto

lemma hole_size_same_on:
  assumes "same_on lo hi m m'" and "lo \<le> a" and "a + bsum bs \<le> hi" and "hi \<le> 4294967296"
    and "chain m a bs" and "x \<in> set (hole_addrs a bs)"
  shows "ld32 m' (of_nat x + 8) = ld32 m (of_nat x + 8)"
proof -
  from hole_addrs_split [OF assms(6)] obtain bs1 n bs2
    where bs: "bs = bs1 @ (True, n) # bs2" "x = a + bsum bs1" by blast
  with assms(5) have "20 \<le> n" by simp
  with bs assms(2-4) have "lo \<le> x" "x + 12 \<le> hi" "x + 12 \<le> 4294967296" by simp_all
  with assms(4) show ?thesis by (intro ld32_same_on [OF assms(1)]) (simp_all add: unat_heap)
qed

lemma chain_split:
  assumes "chain m a (bs1 @ (h, n) # bs2)"
  shows "chain m a bs1" and "20 \<le> n" and "hdr m (a + bsum bs1) h n" and "chain m (a + bsum bs1 + n) bs2"
    and "\<not> h \<Longrightarrow> ftr m (a + bsum bs1) n"
  using assms by auto

text \<open>
  Every hole has a footer that names its header. Neither the hole \<open>create_heap\<close> starts with nor
  one that has absorbed the hole on its right has.
\<close>

fun footed :: "memory \<Rightarrow> nat \<Rightarrow> block list \<Rightarrow> bool" where
  "footed m a [] = True"
| "footed m a ((h, n) # bs) = ((h \<longrightarrow> ftr m a n) \<and> footed m (a + n) bs)"

lemma footed_append [simp]: "footed m a (bs @ cs) = (footed m a bs \<and> footed m (a + bsum bs) cs)"
  by (induction m a bs rule: footed.induct) (auto simp: add.assoc)

lemma footed_same_on:
  "same_on lo hi m m' \<Longrightarrow> lo \<le> a \<Longrightarrow> a + bsum bs \<le> hi \<Longrightarrow> hi \<le> 4294967296 \<Longrightarrow> \<forall>b \<in> set bs. 20 \<le> snd b \<Longrightarrow>
    footed m a bs \<Longrightarrow> footed m' a bs"
proof (induction m a bs rule: footed.induct)
  case (2 m a h n bs)
  have "ftr m' a n = ftr m a n" using 2 by (intro ftr_same_on [OF 2(2)]) auto
  then show ?case using 2 by auto
qed simp

lemma chain_sizes: "chain m a bs \<Longrightarrow> \<forall>b \<in> set bs. 20 \<le> snd b"
  by (induction m a bs rule: chain.induct) auto

subsection \<open>The invariant of a heap\<close>

abbreviation heap_start :: "u32 \<Rightarrow> machine \<Rightarrow> nat" where
  "heap_start h s \<equiv> unat (start_address (heap_at s h))"

abbreviation heap_end :: "u32 \<Rightarrow> machine \<Rightarrow> nat" where
  "heap_end h s \<equiv> unat (end_address (heap_at s h))"

definition heap_ok :: "u32 \<Rightarrow> machine \<Rightarrow> block list \<Rightarrow> bool" where
  "heap_ok h s bs \<longleftrightarrow>
     oa_ok (index (heap_at s h)) \<and> less_than (index (heap_at s h)) = Header_T_Less_Than
     \<and> oa_hi (index (heap_at s h)) \<le> heap_start h s
     \<and> heap_start h s + bsum bs = heap_end h s \<and> chain (mem s) (heap_start h s) bs
     \<and> mset (map unat (elems (mem s) (index (heap_at s h)))) = mset (hole_addrs (heap_start h s) bs)"

text \<open>The index is in order of hole size.\<close>

definition index_sorted :: "u32 \<Rightarrow> machine \<Rightarrow> bool" where
  "index_sorted h s \<longleftrightarrow> sorted_by (header_t_less_than (mem s)) (elems (mem s) (index (heap_at s h)))"

text \<open>There is a free slot in the index.\<close>

definition index_room :: "u32 \<Rightarrow> machine \<Rightarrow> bool" where
  "index_room h s \<longleftrightarrow> oa_size (index (heap_at s h)) < max_size (index (heap_at s h))"

lemma heap_okD:
  assumes "heap_ok h s bs"
  shows "oa_ok (index (heap_at s h))" and "less_than (index (heap_at s h)) = Header_T_Less_Than"
    and "oa_hi (index (heap_at s h)) \<le> heap_start h s"
    and "heap_start h s + bsum bs = heap_end h s" and "chain (mem s) (heap_start h s) bs"
    and "mset (map unat (elems (mem s) (index (heap_at s h)))) = mset (hole_addrs (heap_start h s) bs)"
    and "heap_start h s + bsum bs < 4294967296"
  using assms unat_bound32 [of "end_address (heap_at s h)"] by (simp_all add: heap_ok_def)

lemma index_hole:
  assumes "heap_ok h s bs" and "x \<in> set (elems (mem s) (index (heap_at s h)))"
  obtains bs1 n bs2 where "bs = bs1 @ (True, n) # bs2" and "unat x = heap_start h s + bsum bs1"
proof -
  have "set_mset (mset (map unat (elems (mem s) (index (heap_at s h))))) = set (hole_addrs (heap_start h s) bs)"
    unfolding heap_okD(6) [OF assms(1)] by simp
  then have "unat x \<in> set (hole_addrs (heap_start h s) bs)" using assms(2) by auto
  then show ?thesis using hole_addrs_split that by blast
qed

lemma hole_indexed:
  assumes "heap_ok h s (bs1 @ (True, n) # bs2)"
  shows "\<exists>i < unat (oa_size (index (heap_at s h))).
    unat (elems (mem s) (index (heap_at s h)) ! i) = heap_start h s + bsum bs1"
proof -
  let ?xs = "elems (mem s) (index (heap_at s h))"
  have "heap_start h s + bsum bs1 \<in> set_mset (mset (map unat ?xs))"
    unfolding heap_okD(6) [OF assms] by simp
  then obtain x where "x \<in> set ?xs" "unat x = heap_start h s + bsum bs1" by auto
  then show ?thesis by (metis in_set_conv_nth length_elems)
qed

subsection \<open>Reading the index\<close>

lemma heap_lookup_elems:
  "i < oa_size (index (heap_at s h)) \<Longrightarrow>
    heap_lookup i h s = Inr (elems (mem s) (index (heap_at s h)) ! unat i, s)"
  by (simp add: heap_lookup_def in_mem_def lookup_ordered_array_def cell_def word_less_nat_alt)

text \<open>The three scans of the index have one shape.\<close>

lemma scan_spec:
  assumes "\<And>i. f i = (if i < n then if P (xs ! unat i) then Inr i else f (i + 1) else Inr i)"
    and "length xs = unat (n :: u32)" and "unat i \<le> length xs"
  shows "f i = Inr (of_nat (unat i + length (takeWhile (\<lambda>x. \<not> P x) (drop (unat i) xs))))"
  using assms(3)
proof (induction "length xs - unat i" arbitrary: i)
  case 0
  then have "unat i = unat n" using assms(2) by simp
  then have "i = n" by (rule unat_eqI32)
  then show ?case using assms(1) [of i] assms(2) by simp
next
  case (Suc k)
  then have l: "unat i < length xs" and lt: "i < n" using assms(2) by (simp_all add: word_less_nat_alt)
  have si: "unat (i + 1) = Suc (unat i)" using lt by (rule unat_Suc32)
  have d: "drop (unat i) xs = xs ! unat i # drop (Suc (unat i)) xs" using l by (simp add: Cons_nth_drop_Suc)
  show ?case
  proof (cases "P (xs ! unat i)")
    case True
    then show ?thesis using assms(1) [of i] lt d by simp
  next
    case False
    have "f (i + 1) = Inr (of_nat (unat (i + 1) + length (takeWhile (\<lambda>x. \<not> P x) (drop (unat (i + 1)) xs))))"
      using Suc(1) [of "i + 1"] Suc(2) si l by simp
    then show ?thesis using assms(1) [of i] lt False d si by (simp add: ac_simps)
  qed
qed

lemma find_hole_loop_spec:
  "find_hole_loop sz al h 0 s = Inr (of_nat (length (takeWhile (\<lambda>x. \<not> hole_fits sz al x s)
      (elems (mem s) (index (heap_at s h))))))"
proof -
  have "find_hole_loop sz al h i s = (if i < oa_size (index (heap_at s h))
      then if hole_fits sz al (elems (mem s) (index (heap_at s h)) ! unat i) s then Inr i
        else find_hole_loop sz al h (i + 1) s else Inr i)" for i
    by (subst find_hole_loop.simps) (simp add: heap_lookup_elems)
  from scan_spec [of "\<lambda>i. find_hole_loop sz al h i s", OF this, of 0] show ?thesis by simp
qed

lemma index_loop_spec:
  "index_loop h y 0 s = Inr (of_nat (length (takeWhile (\<lambda>x. x \<noteq> y)
      (elems (mem s) (index (heap_at s h))))))"
proof -
  have "index_loop h y i s = (if i < oa_size (index (heap_at s h))
      then if elems (mem s) (index (heap_at s h)) ! unat i = y then Inr i
        else index_loop h y (i + 1) s else Inr i)" for i
    by (subst index_loop.simps) (simp add: heap_lookup_elems)
  from scan_spec [of "\<lambda>i. index_loop h y i s", OF this, of 0] show ?thesis by simp
qed

subsection \<open>States that differ in memory and in one heap\<close>

named_theorems heap_simps \<open>normal form of a state after stores and heap updates\<close>

lemma upd_heap_simps [simp]:
  "mem (upd_heap h f s) = mem s" "heap_at (upd_heap h f s) h = f (heap_at s h)"
  "h' \<noteq> h \<Longrightarrow> heap_at (upd_heap h f s) h' = heap_at s h'"
  "rd a (upd_heap h f s) = rd a s"
  by (simp_all add: upd_heap_def rd_def)

lemma store_heap [heap_simps]:
  "wr a v (upd_heap h f s) = upd_heap h f (wr a v s)"
  "set_is_hole a b (upd_heap h f s) = upd_heap h f (set_is_hole a b s)"
  "(upd_heap h f s)\<lparr>mem := m\<rparr> = upd_heap h f (s\<lparr>mem := m\<rparr>)"
  by (simp_all add: upd_heap_def wr_def set_is_hole_def rd_def)

lemma store_mem [heap_simps]:
  "wr a v (s\<lparr>mem := m\<rparr>) = s\<lparr>mem := st32 m a v\<rparr>"
  "set_is_hole a b (s\<lparr>mem := m\<rparr>) = s\<lparr>mem := st8 m (a + 4) b\<rparr>"
  "rd a (s\<lparr>mem := m\<rparr>) = ld32 m a"
  "set_footer a hdp (s\<lparr>mem := m\<rparr>) = s\<lparr>mem := put_footer a hdp m\<rparr>"
  "heap_at (s\<lparr>mem := m\<rparr>) = heap_at s"
  by (simp_all add: wr_def set_is_hole_def rd_def set_footer_def put_footer_def)

lemma set_footer_heap [heap_simps]: "set_footer a hdp (upd_heap h f s) = upd_heap h f (set_footer a hdp s)"
  by (simp add: set_footer_def heap_simps)

lemma upd_heap_twice [heap_simps]: "upd_heap h f (upd_heap h g s) = upd_heap h (\<lambda>hp. f (g hp)) s"
  by (simp add: upd_heap_def)

text \<open>The index replaced and memory replaced.\<close>

definition with_index :: "u32 \<Rightarrow> ordered_array_t \<Rightarrow> memory \<Rightarrow> machine \<Rightarrow> machine" where
  "with_index h oa m s = upd_heap h (\<lambda>hp. hp\<lparr>index := oa\<rparr>) (s\<lparr>mem := m\<rparr>)"

lemma with_index_simps [simp]:
  "mem (with_index h oa m s) = m" "index (heap_at (with_index h oa m s) h) = oa"
  "start_address (heap_at (with_index h oa m s) h) = start_address (heap_at s h)"
  "end_address (heap_at (with_index h oa m s) h) = end_address (heap_at s h)"
  "max_address (heap_at (with_index h oa m s) h) = max_address (heap_at s h)"
  "rd a (with_index h oa m s) = ld32 m a"
  "wr a v (with_index h oa m s) = with_index h oa (st32 m a v) s"
  "set_is_hole a b (with_index h oa m s) = with_index h oa (st8 m (a + 4) b) s"
  "set_footer a hdp (with_index h oa m s) = with_index h oa (put_footer a hdp m) s"
  "with_index h oa' m' (with_index h oa m s) = with_index h oa' m' s"
  by (simp_all add: with_index_def heap_simps)

lemma with_index_same: "with_index h (index (heap_at s h)) (mem s) s = s"
  by (simp add: with_index_def upd_heap_def)

lemma store_with_index:
  "wr a v s = with_index h (index (heap_at s h)) (st32 (mem s) a v) s"
  "set_is_hole a b s = with_index h (index (heap_at s h)) (st8 (mem s) (a + 4) b) s"
  "set_footer a hdp s = with_index h (index (heap_at s h)) (put_footer a hdp (mem s)) s"
  by (subst with_index_same [of h s, symmetric], simp only: with_index_simps)+

lemma heap_remove_with:
  assumes "remove_ordered_array i (index (heap_at s h)) (mem s) = (oa, m)"
  shows "heap_remove i h s = with_index h oa m s"
  using assms by (simp add: heap_remove_def with_index_def)

lemma heap_insert_with:
  assumes "insert_ordered_array x (index (heap_at s h)) (mem s) = Inr (oa, m)"
  shows "heap_insert x h s = Inr ((), with_index h oa m s)"
  using assms by (simp add: heap_insert_def with_index_def)

subsection \<open>One run of \<open>alloc_take\<close> without alignment\<close>

lemma of_nat_minus: "k \<le> n \<Longrightarrow> (of_nat n :: u32) - of_nat k = of_nat (n - k)"
  by simp

lemma of_nat_less: "a < 4294967296 \<Longrightarrow> b < 4294967296 \<Longrightarrow> ((of_nat a :: u32) < of_nat b) = (a < b)"
  by (simp add: word_less_nat_alt unat_of_nat32)

lemma of_nat_eq0: "a < 4294967296 \<Longrightarrow> ((of_nat a :: u32) = 0) = (a = 0)"
proof -
  assume "a < 4294967296"
  then have "unat (of_nat a :: u32) = a" by (rule unat_of_nat32)
  then show ?thesis using unat_eq_0 [of "of_nat a :: u32"] by simp
qed

lemma put_block_unfold:
  "put_footer (of_nat (a + k - 8)) (of_nat a)
     (st32 (st8 (st32 m (of_nat a) HEAP_MAGIC) (of_nat a + 4) 0) (of_nat a + 8) (of_nat k)) = put_block a False k m"
  "put_footer (of_nat (a + k - 8)) (of_nat a)
     (st32 (st8 (st32 m (of_nat a) HEAP_MAGIC) (of_nat a + 4) 1) (of_nat a + 8) (of_nat k)) = put_block a True k m"
  by (simp_all add: put_block_def put_header_def hole_byte_def)

lemma place_block_run:
  assumes n: "20 \<le> n" "n \<le> N" "n < N \<Longrightarrow> 20 \<le> N - n"
    and top: "a + N < 4294967296" and en: "a + N \<le> heap_end h s"
    and ins: "n < N \<Longrightarrow> insert_ordered_array (of_nat (a + n)) (index (heap_at s h))
        (put_block (a + n) True (N - n) (put_block a False n (mem s))) = Inr (oa2, m2)"
  shows "place_block (of_nat a) (of_nat N) (of_nat (n - 20)) (of_nat n) h s =
    Inr (of_nat a + sizeof_header, if n < N then with_index h oa2 m2 s
      else with_index h (index (heap_at s h)) (put_block a False N (mem s)) s)"
proof -
  have fa: "(of_nat a + sizeof_header + of_nat (n - 20) :: u32) = of_nat (a + n - 8)"
    and ha: "(of_nat (a + n - 8) + sizeof_footer :: u32) = of_nat (a + n)"
    using n by (simp_all add: sizeof_header_def sizeof_footer_def)
  have rest: "(of_nat N :: u32) - of_nat n = of_nat (N - n)" using n(2) by (rule of_nat_minus)
  have pos: "((of_nat (N - n) :: u32) > 0) = (n < N)"
    using of_nat_eq0 [of "N - n"] top n unfolding word_neq_0_conv [symmetric] by linarith
  show ?thesis
  proof (cases "n < N")
    case False
    then have "n = N" using n by simp
    then show ?thesis
      unfolding place_block_def Let_def ha fa rest pos
      by (simp add: store_with_index [where h = h and s = s] put_block_unfold)
  next
    case True
    have hf: "(of_nat (a + n) + of_nat N - of_nat n - sizeof_footer :: u32) = of_nat (a + n + (N - n) - 8)"
      using n(3) [OF True] True by (simp add: sizeof_footer_def)
    have b: "(of_nat (a + n + (N - n) - 8) :: u32) < end_address (heap_at s h)"
      using top en n(3) [OF True] True by (simp add: word_less_nat_alt unat_of_nat32 del: of_nat_diff of_nat_add)
    have hol: "put_footer (of_nat (a + N - 8)) (of_nat (a + n))
        (st32 (st8 (st32 m (of_nat (a + n)) HEAP_MAGIC) (of_nat (a + n) + 4) 1) (of_nat (a + n) + 8) (of_nat (N - n)))
        = put_block (a + n) True (N - n) m" for m
      using put_block_unfold(2) [of "a + n" "N - n" m] True by (simp del: of_nat_add of_nat_diff)
    show ?thesis
      unfolding place_block_def Let_def ha fa rest pos hf
      using True b ins [OF True]
      by (simp add: store_with_index [where h = h and s = s] put_block_unfold(1) hol heap_insert_with
          del: of_nat_add of_nat_diff)
  qed
qed

subsection \<open>Cutting a block out of a hole\<close>

text \<open>The memory after the cut: the block at the start and, if anything is left, a hole behind it.\<close>

definition cut_mem :: "nat \<Rightarrow> nat \<Rightarrow> nat \<Rightarrow> memory \<Rightarrow> memory" where
  "cut_mem a n N m = (if n < N then put_block (a + n) True (N - n) (put_block a False n m) else put_block a False N m)"

definition cut_blocks :: "nat \<Rightarrow> nat \<Rightarrow> block list" where
  "cut_blocks n N = (False, n) # (if n < N then [(True, N - n)] else [])"

lemma bsum_cut [simp]: "n \<le> N \<Longrightarrow> bsum (cut_blocks n N) = N"
  by (simp add: cut_blocks_def)

lemma footed_cut: "(n < N \<Longrightarrow> ftr m (a + n) (N - n)) \<Longrightarrow> footed m a (cut_blocks n N)"
  by (simp add: cut_blocks_def)

lemma hole_addrs_cut: "n \<le> N \<Longrightarrow> hole_addrs a (cut_blocks n N) = (if n < N then [a + n] else [])"
  by (simp add: cut_blocks_def)

lemma cut_mem_chain:
  assumes "20 \<le> n" and "n \<le> N" and "n < N \<Longrightarrow> 20 \<le> N - n" and "a + N \<le> 4294967296"
  shows "only_in a (a + N) m (cut_mem a n N m)" and "chain (cut_mem a n N m) a (cut_blocks n N)"
    and "n < N \<Longrightarrow> ftr (cut_mem a n N m) (a + n) (N - n)"
proof -
  let ?m = "put_block a False n m"
  have b: "only_in a (a + n) m ?m" "hdr ?m a False n" "ftr ?m a n"
    using assms by (auto intro!: put_block)
  have "only_in a (a + N) m (cut_mem a n N m) \<and> chain (cut_mem a n N m) a (cut_blocks n N)
    \<and> (n < N \<longrightarrow> ftr (cut_mem a n N m) (a + n) (N - n))"
  proof (cases "n < N")
    case False
    then have "n = N" using assms(2) by simp
    then show ?thesis using b assms(1) by (simp add: cut_mem_def cut_blocks_def)
  next
    case True
    let ?m' = "put_block (a + n) True (N - n) ?m"
    have h: "only_in (a + n) (a + N) ?m ?m'" "hdr ?m' (a + n) True (N - n)" "ftr ?m' (a + n) (N - n)"
      using put_block [where a = "a + n" and n = "N - n" and m = ?m and h = True] assms True by simp_all
    have "hdr ?m' a False n" "ftr ?m' a n"
      using b assms by (simp_all add: hdr_same_on [OF only_in_same_on [OF h(1), of "a + n" a]]
          ftr_same_on [OF only_in_same_on [OF h(1), of "a + n" a]])
    moreover have "only_in a (a + N) m ?m'"
      using True by (intro only_in_trans [OF only_in_mono [OF b(1)] only_in_mono [OF h(1)]]) simp_all
    ultimately show ?thesis using h True assms by (simp add: cut_mem_def cut_blocks_def)
  qed
  then show "only_in a (a + N) m (cut_mem a n N m)" "chain (cut_mem a n N m) a (cut_blocks n N)"
    "n < N \<Longrightarrow> ftr (cut_mem a n N m) (a + n) (N - n)" by simp_all
qed

text \<open>A part of a chain replaced by another chain of the same length.\<close>

lemma chain_replace:
  assumes "chain m a bs1" and "chain m (a + bsum bs1 + N) bs2" and "chain m' (a + bsum bs1) new" and "bsum new = N"
    and "same_on a (a + bsum bs1) m m'" and "same_on (a + bsum bs1 + N) (a + bsum bs1 + N + bsum bs2) m m'"
    and "a + bsum bs1 + N + bsum bs2 \<le> 4294967296"
  shows "chain m' a (bs1 @ new @ bs2)"
  using assms chain_same_on [OF assms(5), of a bs1] chain_same_on [OF assms(6), of "a + bsum bs1 + N" bs2]
  by simp

subsection \<open>The order of the index\<close>

lemma sorted_by_sizes:
  assumes "\<And>x. x \<in> set xs \<Longrightarrow> ld32 m' (x + 8) = ld32 m (x + 8)"
  shows "sorted_by (header_t_less_than m') xs = sorted_by (header_t_less_than m) xs"
  using assms unfolding sorted_by_def header_t_less_than_def
  by (intro iffI; elim sorted_wrt_mono_rel [rotated]) simp_all

lemma mset_remove_nth: "i < length xs \<Longrightarrow> mset xs = add_mset (xs ! i) (mset (take i xs @ drop (Suc i) xs))"
  by (subst id_take_nth_drop [of i xs]) simp_all

text \<open>Removing the entry of one hole leaves the entries of the others.\<close>

lemma remove_hole:
  assumes ok: "heap_ok h s bs" and bs: "bs = bs1 @ (True, N) # bs2"
    and i: "i < oa_size (index (heap_at s h))"
    and x: "unat (elems (mem s) (index (heap_at s h)) ! unat i) = heap_start h s + bsum bs1"
  obtains oa1 m1 where "remove_ordered_array i (index (heap_at s h)) (mem s) = (oa1, m1)"
    and "oa1 = index (heap_at s h)\<lparr>oa_size := oa_size (index (heap_at s h)) - 1\<rparr>" and "oa_ok oa1"
    and "unat (oa_size oa1) < unat (max_size oa1)"
    and "only_in (oa_lo oa1) (oa_hi oa1) (mem s) m1"
    and "mset (map unat (elems m1 oa1)) =
      mset (hole_addrs (heap_start h s) bs1 @ hole_addrs (heap_start h s + bsum bs1 + N) bs2)"
    and "sorted_by lt (elems (mem s) (index (heap_at s h))) \<Longrightarrow> sorted_by lt (elems m1 oa1)"
proof -
  let ?oa = "index (heap_at s h)"
  let ?xs = "elems (mem s) ?oa"
  obtain oa1 m1 where r: "remove_ordered_array i ?oa (mem s) = (oa1, m1)" by (cases "remove_ordered_array i ?oa (mem s)")
  note e = remove_ordered_array_elems [OF heap_okD(1) [OF ok] i, of "mem s", unfolded r, simplified]
  have iu: "unat i < unat (oa_size ?oa)" using i by (simp add: word_less_nat_alt)
  then have sz: "unat (oa_size ?oa - 1) = unat (oa_size ?oa) - 1" by (simp add: unat_sub32)
  have "mset ?xs = add_mset (?xs ! unat i) (mset (elems m1 oa1))"
    unfolding conjunct1 [OF e] by (rule mset_remove_nth) (simp add: iu)
  then have "mset (map unat ?xs) = add_mset (heap_start h s + bsum bs1) (mset (map unat (elems m1 oa1)))"
    unfolding mset_map x [symmetric] by simp
  then have "mset (map unat (elems m1 oa1)) =
      mset (hole_addrs (heap_start h s) bs1 @ hole_addrs (heap_start h s + bsum bs1 + N) bs2)"
    using heap_okD(6) [OF ok] by (simp add: bs)
  moreover have "oa_ok oa1" "unat (oa_size oa1) < unat (max_size oa1)"
    using heap_okD(1) [OF ok] e sz iu by (auto simp: oa_ok_def)
  moreover have "oa_lo oa1 = oa_lo ?oa" "max_size oa1 = max_size ?oa" using e by simp_all
  moreover have "sorted_by lt (elems m1 oa1)" if "sorted_by lt ?xs"
    unfolding conjunct1 [OF e] using that by (rule sorted_by_removed)
  moreover have "oa1 = ?oa\<lparr>oa_size := oa_size ?oa - 1\<rparr>" using e by blast
  moreover have "only_in (oa_lo oa1) (oa_hi oa1) (mem s) m1" using e by simp
  ultimately show ?thesis using that [OF r] by blast
qed

text \<open>Where the other holes lie: apart from the one at \<open>a\<close>.\<close>

lemma other_hole_sizes:
  assumes "chain m st bs1" and "chain m (st + bsum bs1 + N) bs2" and "st + bsum bs1 + N + bsum bs2 \<le> 4294967296"
    and "same_on st (st + bsum bs1) m m'" and "same_on (st + bsum bs1 + N) (st + bsum bs1 + N + bsum bs2) m m'"
    and "unat y \<in> set (hole_addrs st bs1 @ hole_addrs (st + bsum bs1 + N) bs2)"
  shows "ld32 m' (y + 8) = ld32 m (y + 8)"
  using assms hole_size_same_on [OF assms(4), of st bs1 "unat y"]
    hole_size_same_on [OF assms(5), of "st + bsum bs1 + N" bs2 "unat y"]
  by auto

text \<open>Inserting the entry of a hole.\<close>

lemma insert_hole:
  assumes "oa_ok oa" and "unat (oa_size oa) < unat (max_size oa)" and "less_than oa = Header_T_Less_Than"
  obtains oa2 m2 where "insert_ordered_array x oa m = Inr (oa2, m2)"
    and "oa2 = oa\<lparr>oa_size := oa_size oa + 1\<rparr>" and "oa_ok oa2"
    and "only_in (oa_lo oa) (oa_hi oa) m m2"
    and "elems m2 oa2 = insert_by (header_t_less_than m) x (elems m oa)"
    and "mset (map unat (elems m2 oa2)) = add_mset (unat x) (mset (map unat (elems m oa)))"
proof -
  have n: "less_than oa \<noteq> Null_Predicate" using assms(3) by simp
  have lt: "call_less_than (less_than oa) m = header_t_less_than m" using assms(3) by (simp add: fun_eq_iff)
  from insert_ordered_array_elems [OF assms(1,2) n, of x m, unfolded lt] obtain m2 where
    m2: "insert_ordered_array x oa m = Inr (oa\<lparr>oa_size := oa_size oa + 1\<rparr>, m2)"
      "elems m2 (oa\<lparr>oa_size := oa_size oa + 1\<rparr>) = insert_by (header_t_less_than m) x (elems m oa)"
      "only_in (oa_lo oa) (oa_hi oa) m m2" by blast
  have "unat (oa_size oa + 1) = Suc (unat (oa_size oa))"
    using assms(2) by (intro unat_Suc32) (simp add: word_less_nat_alt)
  then have "oa_ok (oa\<lparr>oa_size := oa_size oa + 1\<rparr>)" using assms(1,2) by (simp add: oa_ok_def)
  then show ?thesis using that [OF m2(1) refl _ m2(3,2)] m2(2) by simp
qed

subsection \<open>A heap with a gap\<close>

text \<open>
  Between taking a hole out of the index and writing the block in its place, the heap is two
  chains with \<open>N\<close> bytes between them that belong to no block.
\<close>

definition heap_gap :: "u32 \<Rightarrow> machine \<Rightarrow> block list \<Rightarrow> nat \<Rightarrow> block list \<Rightarrow> bool" where
  "heap_gap h s bs1 N bs2 \<longleftrightarrow>
     oa_ok (index (heap_at s h)) \<and> less_than (index (heap_at s h)) = Header_T_Less_Than
     \<and> oa_hi (index (heap_at s h)) \<le> heap_start h s
     \<and> unat (oa_size (index (heap_at s h))) < unat (max_size (index (heap_at s h)))
     \<and> heap_start h s + bsum bs1 + N + bsum bs2 = heap_end h s
     \<and> chain (mem s) (heap_start h s) bs1 \<and> chain (mem s) (heap_start h s + bsum bs1 + N) bs2
     \<and> mset (map unat (elems (mem s) (index (heap_at s h)))) =
         mset (hole_addrs (heap_start h s) bs1 @ hole_addrs (heap_start h s + bsum bs1 + N) bs2)"

lemma heap_gapD:
  assumes "heap_gap h s bs1 N bs2"
  shows "oa_ok (index (heap_at s h))" and "less_than (index (heap_at s h)) = Header_T_Less_Than"
    and "oa_hi (index (heap_at s h)) \<le> heap_start h s"
    and "unat (oa_size (index (heap_at s h))) < unat (max_size (index (heap_at s h)))"
    and "heap_start h s + bsum bs1 + N + bsum bs2 = heap_end h s"
    and "chain (mem s) (heap_start h s) bs1" and "chain (mem s) (heap_start h s + bsum bs1 + N) bs2"
    and "mset (map unat (elems (mem s) (index (heap_at s h)))) =
         mset (hole_addrs (heap_start h s) bs1 @ hole_addrs (heap_start h s + bsum bs1 + N) bs2)"
    and "heap_start h s + bsum bs1 + N + bsum bs2 < 4294967296"
  using assms unat_bound32 [of "end_address (heap_at s h)"] by (simp_all add: heap_gap_def)

text \<open>A store into the gap, or into the index array alone.\<close>

definition outside_heap :: "u32 \<Rightarrow> machine \<Rightarrow> nat \<Rightarrow> nat \<Rightarrow> memory \<Rightarrow> bool" where
  "outside_heap h s lo hi m \<longleftrightarrow> (\<forall>y. (unat y < oa_lo (index (heap_at s h)) \<or> oa_hi (index (heap_at s h)) \<le> unat y)
     \<longrightarrow> (unat y < lo \<or> hi \<le> unat y) \<longrightarrow> m y = mem s y)"

lemma outside_heap_parts:
  assumes "outside_heap h s lo hi m" and "oa_hi (index (heap_at s h)) \<le> heap_start h s"
    and "heap_start h s \<le> lo" and "lo \<le> hi"
  shows "same_on (heap_start h s) lo (mem s) m" and "same_on hi e (mem s) m"
  using assms by (auto simp: outside_heap_def same_on_def)

text \<open>A part of a heap replaced by blocks with footers.\<close>

lemma footed_replace:
  assumes ok: "heap_ok h s (bs1 @ old @ bs2)" and a: "a = heap_start h s + bsum bs1" and "bsum new = bsum old"
    and "outside_heap h s a (a + bsum old) m" and "footed m a new" and "footed (mem s) (heap_start h s) (bs1 @ old @ bs2)"
  shows "footed m (heap_start h s) (bs1 @ new @ bs2)"
proof -
  note D = heap_okD [OF ok]
  have sz: "\<forall>b \<in> set bs1. 20 \<le> snd b" "\<forall>b \<in> set bs2. 20 \<le> snd b" using chain_sizes [OF D(5)] by simp_all
  note same = outside_heap_parts [OF assms(4) D(3)]
  have ft: "footed (mem s) (heap_start h s) bs1" "footed (mem s) (a + bsum old) bs2"
    using assms(6) by (simp_all add: a add.assoc)
  have top: "a + bsum old + bsum bs2 < 4294967296" using D(7) by (simp add: a)
  have "footed m (heap_start h s) bs1"
    by (rule footed_same_on [OF same(1) _ _ _ sz(1) ft(1)]) (use a top in simp_all)
  moreover have "footed m (a + bsum old) bs2"
    by (rule footed_same_on [OF same(2) [where e = "a + bsum old + bsum bs2"] _ _ _ sz(2) ft(2)]) (use a top in simp_all)
  ultimately show ?thesis using assms(3,5) a by (simp add: add.assoc)
qed

lemma gap_entry_sizes:
  assumes gap: "heap_gap h s bs1 N bs2" and y: "y \<in> set (elems (mem s) (index (heap_at s h)))"
    and "outside_heap h s (heap_start h s + bsum bs1) (heap_start h s + bsum bs1 + N) m"
  shows "ld32 m (y + 8) = ld32 (mem s) (y + 8)"
proof -
  note G = heap_gapD [OF gap]
  have "unat y \<in> set_mset (mset (map unat (elems (mem s) (index (heap_at s h)))))" using y by simp
  then have "unat y \<in> set (hole_addrs (heap_start h s) bs1 @ hole_addrs (heap_start h s + bsum bs1 + N) bs2)"
    unfolding G(8) by simp
  then show ?thesis
    using outside_heap_parts [OF assms(3) G(3)] G(9) by (intro other_hole_sizes [OF G(6,7)]) simp_all
qed

lemma unat_of_nat_add8: "a + 20 \<le> k \<Longrightarrow> k \<le> 4294967296 \<Longrightarrow> unat (of_nat a + 8 :: u32) = a + 8"
  by (simp add: unat_heap)

lemma gap_insert_sorted:
  assumes gap: "heap_gap h s bs1 N bs2" and a: "a = heap_start h s + bsum bs1"
    and n: "n < N" "20 \<le> N - n"
    and m3: "outside_heap h s a (a + N) m3" and m2: "outside_heap h s a (a + N) m2" "same_on a (a + N) m3 m2"
    and e: "elems m2 oa2 = insert_by (header_t_less_than m3) (of_nat (a + n)) (elems (mem s) (index (heap_at s h)))"
    and srt: "index_sorted h s"
  shows "sorted_by (header_t_less_than m2) (elems m2 oa2)"
proof -
  let ?xs = "elems (mem s) (index (heap_at s h))"
  note others = gap_entry_sizes [OF gap, folded a]
  have "sorted_by (header_t_less_than m3) ?xs"
    using srt sorted_by_sizes [of ?xs m3 "mem s"] others m3 unfolding index_sorted_def by blast
  then have "sorted_by (header_t_less_than m3) (elems m2 oa2)"
    unfolding e by (rule header.insert_by_sorted)
  moreover have "ld32 m2 (y + 8) = ld32 m3 (y + 8)" if "y \<in> set (elems m2 oa2)" for y
  proof (cases "y \<in> set ?xs")
    case True
    then show ?thesis using others m2(1) m3 by simp
  next
    case False
    with that have y: "y = of_nat (a + n)" by (simp add: e)
    have k: "a + n + 20 \<le> a + N" "a + N \<le> 4294967296" using n heap_gapD(9) [OF gap] a by simp_all
    from unat_of_nat_add8 [OF k] y k show ?thesis by (intro ld32_same_on [OF m2(2)]) simp_all
  qed
  ultimately show ?thesis using sorted_by_sizes [of "elems m2 oa2" m2 m3] by simp
qed


lemma place_block_gap:
  assumes gap: "heap_gap h s bs1 N bs2" and a: "a = heap_start h s + bsum bs1"
    and n: "20 \<le> n" "n \<le> N" "n < N \<Longrightarrow> 20 \<le> N - n"
  obtains oa m where
    "place_block (of_nat a) (of_nat N) (of_nat (n - 20)) (of_nat n) h s = Inr (of_nat a + sizeof_header, with_index h oa m s)"
    and "heap_ok h (with_index h oa m s) (bs1 @ cut_blocks n N @ bs2)"
    and "index_sorted h s \<Longrightarrow> index_sorted h (with_index h oa m s)"
    and "array oa = array (index (heap_at s h))" and "max_size oa = max_size (index (heap_at s h))"
    and "outside_heap h s a (a + N) m" and "n < N \<Longrightarrow> ftr m (a + n) (N - n)"
proof -
  let ?oa = "index (heap_at s h)" and ?A = "heap_start h s"
  note G = heap_gapD [OF gap]
  define m3 where "m3 = cut_mem a n N (mem s)"
  have c: "only_in a (a + N) (mem s) m3" "chain m3 a (cut_blocks n N)" "n < N \<Longrightarrow> ftr m3 (a + n) (N - n)"
    unfolding m3_def using cut_mem_chain [OF n, of a "mem s"] G(9) a by simp_all
  have e3: "elems m3 ?oa = elems (mem s) ?oa"
    using G(3) a by (intro elems_same_on [OF G(1)] only_in_same_on [OF c(1)]) simp
  obtain oa' m' where ins: "insert_ordered_array (of_nat (a + n)) ?oa m3 = Inr (oa', m')"
    "oa' = ?oa\<lparr>oa_size := oa_size ?oa + 1\<rparr>" "oa_ok oa'" "only_in (oa_lo ?oa) (oa_hi ?oa) m3 m'"
    "elems m' oa' = insert_by (header_t_less_than m3) (of_nat (a + n)) (elems m3 ?oa)"
    "mset (map unat (elems m' oa')) = add_mset (unat (of_nat (a + n) :: u32)) (mset (map unat (elems m3 ?oa)))"
    by (rule insert_hole [OF G(1,4,2)])
  define oa2 where "oa2 = (if n < N then oa' else ?oa)"
  define m2 where "m2 = (if n < N then m' else m3)"
  have o2: "only_in (oa_lo ?oa) (oa_hi ?oa) m3 m2" using ins(4) by (simp add: m2_def)
  have run: "place_block (of_nat a) (of_nat N) (of_nat (n - 20)) (of_nat n) h s =
    Inr (of_nat a + sizeof_header, with_index h oa2 m2 s)"
    using place_block_run [where a = a and n = n and N = N and h = h and s = s and ?oa2.0 = oa' and ?m2.0 = m', OF n] G(5,9) ins(1) n(2)
    by (auto simp: m3_def cut_mem_def oa2_def m2_def a)
  have out: "outside_heap h s a (a + N) m2" "outside_heap h s a (a + N) m3"
    using c(1) o2 by (auto simp: only_in_def outside_heap_def)
  have blk: "same_on a (a + N) m3 m2" using G(3) a by (intro only_in_same_on [OF o2]) simp
  have elems2: "mset (map unat (elems m2 oa2)) = mset (hole_addrs ?A (bs1 @ cut_blocks n N @ bs2))"
  proof -
    have "unat (of_nat (a + n) :: u32) = a + n" using G(9) n(2) a by (intro unat_of_nat32) simp
    then show ?thesis using ins(6) G(8) n(2) e3 by (simp add: oa2_def m2_def hole_addrs_cut a)
  qed
  have "chain m2 a (cut_blocks n N)"
    using chain_same_on [OF blk _ _ _ c(2)] n(2) G(9) a by simp
  then have "chain m2 ?A (bs1 @ cut_blocks n N @ bs2)"
    using outside_heap_parts [OF out(1) G(3)] G(9) n(2) a by (intro chain_replace [OF G(6,7)]) simp_all
  then have ok: "heap_ok h (with_index h oa2 m2 s) (bs1 @ cut_blocks n N @ bs2)"
    using ins(2,3) G(1,2,3,5) n(2) elems2 by (simp add: heap_ok_def oa2_def)
  have srt: "index_sorted h (with_index h oa2 m2 s)" if "index_sorted h s"
  proof (cases "n < N")
    case True
    then show ?thesis using gap_insert_sorted [OF gap a True n(3) out(2,1) blk, of oa2] ins(5) e3 that
      by (simp add: index_sorted_def oa2_def m2_def)
  next
    case False
    have "\<And>x. x \<in> set (elems (mem s) ?oa) \<Longrightarrow> ld32 m3 (x + 8) = ld32 (mem s) (x + 8)"
      using gap_entry_sizes [OF gap] out(2) unfolding a by blast
    then show ?thesis using False that e3 sorted_by_sizes [of "elems (mem s) ?oa" m3 "mem s"]
      by (simp add: index_sorted_def oa2_def m2_def)
  qed
  have "array oa2 = array ?oa" "max_size oa2 = max_size ?oa" using ins(2) by (simp_all add: oa2_def)
  moreover have "ftr m2 (a + n) (N - n)" if "n < N"
    using ftr_same_on [OF blk, of "a + n" "N - n"] c(3) [OF that] n(3) [OF that] that G(9) a by simp
  ultimately show ?thesis using that [OF run ok srt] out(1) by blast
qed

text \<open>Taking a hole out of the index leaves a gap.\<close>

lemma heap_remove_gap:
  assumes ok: "heap_ok h s bs" and bs: "bs = bs1 @ (True, N) # bs2"
    and i: "i < oa_size (index (heap_at s h))"
    and x: "unat (elems (mem s) (index (heap_at s h)) ! unat i) = heap_start h s + bsum bs1"
  obtains oa m where "heap_remove i h s = with_index h oa m s" and "heap_gap h (with_index h oa m s) bs1 N bs2"
    and "index_sorted h s \<Longrightarrow> index_sorted h (with_index h oa m s)"
    and "array oa = array (index (heap_at s h))" and "max_size oa = max_size (index (heap_at s h))"
    and "only_in (oa_lo (index (heap_at s h))) (oa_hi (index (heap_at s h))) (mem s) m"
proof -
  let ?oa = "index (heap_at s h)" and ?A = "heap_start h s"
  note D = heap_okD [OF ok]
  note T = chain_split [OF D(5) [unfolded bs]]
  obtain oa1 m1 where r: "remove_ordered_array i ?oa (mem s) = (oa1, m1)"
    "oa1 = ?oa\<lparr>oa_size := oa_size ?oa - 1\<rparr>" "oa_ok oa1" "unat (oa_size oa1) < unat (max_size oa1)"
    "only_in (oa_lo oa1) (oa_hi oa1) (mem s) m1"
    "mset (map unat (elems m1 oa1)) = mset (hole_addrs ?A bs1 @ hole_addrs (?A + bsum bs1 + N) bs2)"
    "sorted_by (header_t_less_than (mem s)) (elems (mem s) ?oa) \<Longrightarrow> sorted_by (header_t_less_than (mem s)) (elems m1 oa1)"
    using remove_hole [OF ok bs i x] by metis
  have f: "array oa1 = array ?oa" "max_size oa1 = max_size ?oa" "less_than oa1 = Header_T_Less_Than"
    using r(2) D(2) by simp_all
  note o = r(5) [unfolded f]
  have same: "same_on ?A e (mem s) m1" for e by (rule only_in_same_on [OF o]) (use D(3) in simp)
  have chains: "chain m1 ?A bs1" "chain m1 (?A + bsum bs1 + N) bs2"
    using D(7) chain_same_on [OF same [of "?A + bsum bs"] _ _ _ T(1)] chain_same_on [OF same [of "?A + bsum bs"] _ _ _ T(4)]
    by (simp_all add: bs)
  have gap: "heap_gap h (with_index h oa1 m1 s) bs1 N bs2"
    using r(3,4,6) f chains D(3,4) by (simp add: heap_gap_def bs)
  have srt: "index_sorted h (with_index h oa1 m1 s)" if "index_sorted h s"
  proof -
    have "ld32 m1 (y + 8) = ld32 (mem s) (y + 8)" if "y \<in> set (elems m1 oa1)" for y
    proof -
      have "unat y \<in> set_mset (mset (map unat (elems m1 oa1)))" using that by simp
      then have "unat y \<in> set (hole_addrs ?A bs1 @ hole_addrs (?A + bsum bs1 + N) bs2)" unfolding r(6) by simp
      then show ?thesis using D(7)
        by (intro other_hole_sizes [OF T(1,4)] same_on_mono [OF same [of "?A + bsum bs"]]) (simp_all add: bs)
    qed
    then show ?thesis using sorted_by_sizes [of "elems m1 oa1" m1 "mem s"] r(7) that by (simp add: index_sorted_def)
  qed
  show ?thesis by (rule that [OF heap_remove_with [OF r(1)] gap srt f(1,2) o])
qed

end
