(* ===== verification/Heap_Alloc.thy ===== *)
theory Heap_Alloc
  imports Heap_Blocks
begin

text \<open>
  \<open>alloc\<close> against the abstract view: which hole it chooses, what it cuts out of it, with and
  without page alignment, and that the invariant of the heap survives.
\<close>

unbundle bit_operations_syntax

subsection \<open>\<open>alloc_take\<close> without alignment\<close>

text \<open>The size of the block cut for a request of \<open>z\<close> bytes from a hole of \<open>N\<close>.\<close>

definition cut_size :: "nat \<Rightarrow> nat \<Rightarrow> nat" where
  "cut_size z N = (if N - (z + 20) < 20 then N else z + 20)"

lemma cut_size:
  assumes "z + 20 \<le> N"
  shows "20 \<le> cut_size z N" and "cut_size z N \<le> N" and "cut_size z N < N \<Longrightarrow> 20 \<le> N - cut_size z N"
    and "z + 20 \<le> cut_size z N"
  using assms by (auto simp: cut_size_def)

lemma alloc_take_places:
  assumes i: "i < oa_size (index (heap_at s h))"
    and x: "elems (mem s) (index (heap_at s h)) ! unat i = of_nat a"
    and sz: "ld32 (mem s) (of_nat a + 8) = of_nat N" and fits: "z + 20 \<le> N" and top: "a + N < 4294967296"
  shows "alloc_take i (of_nat z) 0 (of_nat z + sizeof_header + sizeof_footer) h s =
    place_block (of_nat a) (of_nat N) (of_nat (cut_size z N - 20)) (of_nat (cut_size z N)) h (heap_remove i h s)"
proof -
  have d: "(of_nat N :: u32) - (of_nat z + sizeof_header + sizeof_footer) = of_nat (N - (z + 20))"
    using of_nat_minus [OF fits] by (simp add: sizeof_header_def sizeof_footer_def add.commute)
  have lt20: "((of_nat (N - (z + 20)) :: u32) < sizeof_header + sizeof_footer) = (N - (z + 20) < 20)"
    using of_nat_less [of "N - (z + 20)" 20] top by (simp add: sizeof_header_def sizeof_footer_def del: of_nat_diff)
  have s20: "(of_nat z + sizeof_header + sizeof_footer :: u32) = of_nat (z + 20)"
    by (simp add: sizeof_header_def sizeof_footer_def)
  have sn: "of_nat z + of_nat (N - (z + 20)) = (of_nat (N - 20) :: u32)"
    using fits by simp
  show ?thesis
    unfolding alloc_take_def heap_lookup_elems [OF i] x
    using sz d lt20 by (simp add: rd_def Let_def cut_size_def s20 sn)
qed

lemma outside_heap_trans:
  assumes "only_in (oa_lo (index (heap_at s h))) (oa_hi (index (heap_at s h))) (mem s) m1"
    and "outside_heap h (with_index h oa m1 s) lo hi m2"
    and "array oa = array (index (heap_at s h))" and "max_size oa = max_size (index (heap_at s h))"
  shows "outside_heap h s lo hi m2"
  using assms by (auto simp: outside_heap_def only_in_def)

lemma alloc_take_unaligned:
  assumes ok: "heap_ok h s bs" and bs: "bs = bs1 @ (True, N) # bs2"
    and i: "i < oa_size (index (heap_at s h))"
    and x: "unat (elems (mem s) (index (heap_at s h)) ! unat i) = a" and a: "a = heap_start h s + bsum bs1"
    and fits: "z + 20 \<le> N"
  obtains oa m where
    "alloc_take i (of_nat z) 0 (of_nat z + sizeof_header + sizeof_footer) h s =
       Inr (of_nat a + sizeof_header, with_index h oa m s)"
    and "heap_ok h (with_index h oa m s) (bs1 @ cut_blocks (cut_size z N) N @ bs2)"
    and "index_sorted h s \<Longrightarrow> index_sorted h (with_index h oa m s)"
    and "array oa = array (index (heap_at s h))" and "max_size oa = max_size (index (heap_at s h))"
    and "outside_heap h s a (a + N) m"
    and "footed (mem s) (heap_start h s) bs \<Longrightarrow> footed m (heap_start h s) (bs1 @ cut_blocks (cut_size z N) N @ bs2)"
proof -
  have top: "a + N < 4294967296" using heap_okD(7) [OF ok] by (simp add: a bs)
  have xa: "elems (mem s) (index (heap_at s h)) ! unat i = of_nat a" unfolding x [symmetric] by simp
  have sz: "ld32 (mem s) (of_nat a + 8) = of_nat N"
    using chain_split(3) [OF heap_okD(5) [OF ok, unfolded bs]] unfolding a hdr_def by blast
  obtain oa1 m1 where r: "heap_remove i h s = with_index h oa1 m1 s" "heap_gap h (with_index h oa1 m1 s) bs1 N bs2"
    "index_sorted h s \<Longrightarrow> index_sorted h (with_index h oa1 m1 s)"
    "array oa1 = array (index (heap_at s h))" "max_size oa1 = max_size (index (heap_at s h))"
    "only_in (oa_lo (index (heap_at s h))) (oa_hi (index (heap_at s h))) (mem s) m1"
    using heap_remove_gap [OF ok bs i] x a by metis
  have a': "a = heap_start h (with_index h oa1 m1 s) + bsum bs1" by (simp add: a)
  obtain oa m where p: "place_block (of_nat a) (of_nat N) (of_nat (cut_size z N - 20)) (of_nat (cut_size z N)) h
      (with_index h oa1 m1 s) = Inr (of_nat a + sizeof_header, with_index h oa m (with_index h oa1 m1 s))"
    "heap_ok h (with_index h oa m (with_index h oa1 m1 s)) (bs1 @ cut_blocks (cut_size z N) N @ bs2)"
    "index_sorted h (with_index h oa1 m1 s) \<Longrightarrow> index_sorted h (with_index h oa m (with_index h oa1 m1 s))"
    "array oa = array (index (heap_at (with_index h oa1 m1 s) h))"
    "max_size oa = max_size (index (heap_at (with_index h oa1 m1 s) h))"
    "outside_heap h (with_index h oa1 m1 s) a (a + N) m"
    "cut_size z N < N \<Longrightarrow> ftr m (a + cut_size z N) (N - cut_size z N)"
    by (rule place_block_gap [OF r(2) a' cut_size(1-3) [OF fits]]) auto
  have o: "outside_heap h s a (a + N) m"
    using outside_heap_trans [OF r(6) p(6) r(4,5)] by simp
  have "footed m (heap_start h s) (bs1 @ cut_blocks (cut_size z N) N @ bs2)" if "footed (mem s) (heap_start h s) bs"
    using footed_replace [OF _ a, where old = "[(True, N)]", OF _ _ _ footed_cut [OF p(7)]] ok bs that o cut_size(2) [OF fits] by simp
  then show ?thesis
    using p r alloc_take_places [OF i xa sz fits top] o
    by (intro that [of oa m]) simp_all
qed

subsection \<open>Choosing the hole\<close>

definition first_fit :: "u32 \<Rightarrow> u8 \<Rightarrow> u32 \<Rightarrow> machine \<Rightarrow> nat" where
  "first_fit sz al h s = length (takeWhile (\<lambda>x. \<not> hole_fits sz al x s) (elems (mem s) (index (heap_at s h))))"

lemma first_fit_props:
  assumes "y \<in> set (elems (mem s) (index (heap_at s h)))" and "hole_fits sz al y s"
  shows "first_fit sz al h s < unat (oa_size (index (heap_at s h)))"
    and "hole_fits sz al (elems (mem s) (index (heap_at s h)) ! first_fit sz al h s) s"
    and "k < first_fit sz al h s \<Longrightarrow> \<not> hole_fits sz al (elems (mem s) (index (heap_at s h)) ! k) s"
proof -
  let ?xs = "elems (mem s) (index (heap_at s h))" and ?P = "\<lambda>x. \<not> hole_fits sz al x s"
  have "length (takeWhile ?P ?xs) \<noteq> length ?xs"
    using assms takeWhile_eq_take [of ?P ?xs] takeWhile_eq_all_conv [of ?P ?xs] by auto
  then have l: "length (takeWhile ?P ?xs) < length ?xs"
    using length_takeWhile_le [of ?P ?xs] by linarith
  then show "first_fit sz al h s < unat (oa_size (index (heap_at s h)))" by (simp add: first_fit_def)
  show "hole_fits sz al (?xs ! first_fit sz al h s) s"
    using nth_length_takeWhile [OF l] by (simp add: first_fit_def)
  assume "k < first_fit sz al h s"
  then show "\<not> hole_fits sz al (?xs ! k) s"
    unfolding first_fit_def using set_takeWhileD [of "?xs ! k" ?P ?xs] nth_mem [of k "takeWhile ?P ?xs"]
    by (simp add: takeWhile_nth)
qed

lemma find_smallest_hole_found:
  assumes "oa_ok (index (heap_at s h))" and "first_fit sz al h s < unat (oa_size (index (heap_at s h)))"
  shows "find_smallest_hole sz al h s = Inr (of_nat (first_fit sz al h s), s)"
    and "unat (of_nat (first_fit sz al h s) :: u32) = first_fit sz al h s"
    and "(of_nat (first_fit sz al h s) :: u32) \<noteq> - 1"
proof -
  let ?k = "first_fit sz al h s"
  have b: "4 * unat (oa_size (index (heap_at s h))) \<le> 4294967296" using assms(1) by (simp add: oa_ok_def)
  then show u: "unat (of_nat ?k :: u32) = ?k" using assms(2) by (intro unat_of_nat32) simp
  have "of_nat ?k \<noteq> oa_size (index (heap_at s h))"
  proof
    assume "of_nat ?k = oa_size (index (heap_at s h))"
    then have "unat (of_nat ?k :: u32) = unat (oa_size (index (heap_at s h)))" by simp
    with u assms(2) show False by simp
  qed
  then show "find_smallest_hole sz al h s = Inr (of_nat ?k, s)"
    by (simp add: find_smallest_hole_def find_hole_loop_spec first_fit_def)
  show "(of_nat ?k :: u32) \<noteq> - 1"
  proof
    assume "(of_nat ?k :: u32) = - 1"
    then have "unat (of_nat ?k :: u32) = unat (- 1 :: u32)" by simp
    moreover have "unat (- 1 :: u32) = 4294967295" by (simp add: unsigned_minus_1_eq_mask mask_eq_exp_minus_1)
    ultimately show False using u assms(2) b by simp
  qed
qed

lemma hole_entry:
  assumes ok: "heap_ok h s bs" and "bs = bs1 @ (True, N) # bs2"
    and x: "unat x = heap_start h s + bsum bs1"
  shows "h_size x s = of_nat N" and "unat (h_size x s) = N"
proof -
  have "x = of_nat (heap_start h s + bsum bs1)" unfolding x [symmetric] by simp
  then show sz: "h_size x s = of_nat N"
    using chain_split(3) [OF heap_okD(5) [OF ok, unfolded assms(2)]] by (simp add: hdr_def rd_def)
  show "unat (h_size x s) = N" using heap_okD(7) [OF ok] assms(2) unfolding sz by (intro unat_of_nat32) simp
qed

lemma hole_listed:
  assumes "heap_ok h s bs" and "(True, M) \<in> set bs"
  obtains i where "i < unat (oa_size (index (heap_at s h)))"
    and "unat (h_size (elems (mem s) (index (heap_at s h)) ! i) s) = M"
proof -
  from assms(2) obtain bs1 bs2 where bs: "bs = bs1 @ (True, M) # bs2" by (auto simp: in_set_conv_decomp)
  from hole_indexed [OF assms(1) [unfolded bs]] obtain i where
    i: "i < unat (oa_size (index (heap_at s h)))"
      "unat (elems (mem s) (index (heap_at s h)) ! i) = heap_start h s + bsum bs1" by blast
  show ?thesis using that [OF i(1)] hole_entry(2) [OF assms(1) bs i(2)] by simp
qed

lemma fits_unaligned: "hole_fits sz 0 x s = (unat sz \<le> unat (h_size x s))"
  by (simp add: hole_fits_def word_le_nat_alt)

lemma request_size:
  "unat z + 20 < 4294967296 \<Longrightarrow> unat (z + sizeof_header + sizeof_footer) = unat z + 20"
  by (simp add: sizeof_header_def sizeof_footer_def add.assoc unat_add_numeral32)

text \<open>A hole is big enough: one activation of \<open>alloc\<close> is \<open>alloc_take\<close> at the first that fits.\<close>

lemma alloc_body_takes:
  assumes ok: "heap_ok h s bs" and fits: "first_fit (z + sizeof_header + sizeof_footer) al h s < unat (oa_size (index (heap_at s h)))"
  shows "alloc_body again kap z al h s =
    alloc_take (of_nat (first_fit (z + sizeof_header + sizeof_footer) al h s)) z al (z + sizeof_header + sizeof_footer) h s"
  using find_smallest_hole_found [OF heap_okD(1) [OF ok] fits] by (simp add: alloc_body_def Let_def)

lemma first_fit_least:
  assumes ok: "heap_ok h s bs" and srt: "index_sorted h s" and "(True, M) \<in> set bs" and "unat sz \<le> M"
  shows "unat (h_size (elems (mem s) (index (heap_at s h)) ! first_fit sz 0 h s) s) \<le> M"
proof -
  let ?xs = "elems (mem s) (index (heap_at s h))"
  obtain j where j: "j < unat (oa_size (index (heap_at s h)))" "unat (h_size (?xs ! j) s) = M"
    by (rule hole_listed [OF ok assms(3)])
  have fj: "hole_fits sz 0 (?xs ! j) s" using j assms(4) by (simp add: fits_unaligned)
  then have k: "first_fit sz 0 h s < length ?xs"
    using first_fit_props(1) [of "?xs ! j"] j(1) nth_mem [of j ?xs] by simp
  have "\<not> header_t_less_than (mem s) (?xs ! j) (?xs ! first_fit sz 0 h s)"
  proof (rule header.first_is_least [where P = "\<lambda>x. hole_fits sz 0 x s"])
    show "sorted_by (header_t_less_than (mem s)) ?xs" using srt by (simp add: index_sorted_def)
    show "\<forall>k < first_fit sz 0 h s. \<not> hole_fits sz 0 (?xs ! k) s"
      using first_fit_props(3) [OF _ fj] j(1) nth_mem [of j ?xs] by simp
  qed (use k j(1) fj in simp_all)
  then show ?thesis using j(2) by (simp add: header_t_less_than_def rd_def word_less_nat_alt)
qed

lemma alloc_unaligned:
  assumes ok: "heap_ok h s bs" and M: "(True, M) \<in> set bs" "unat z + 20 \<le> M"
  obtains bs1 N bs2 oa m where "bs = bs1 @ (True, N) # bs2" and "unat z + 20 \<le> N"
    and "alloc (Suc n) z 0 h s = Inr (of_nat (heap_start h s + bsum bs1) + sizeof_header, with_index h oa m s)"
    and "heap_ok h (with_index h oa m s) (bs1 @ cut_blocks (cut_size (unat z) N) N @ bs2)"
    and "index_sorted h s \<Longrightarrow> index_sorted h (with_index h oa m s)"
    and "index_sorted h s \<Longrightarrow> (\<forall>M. (True, M) \<in> set bs \<and> unat z + 20 \<le> M \<longrightarrow> N \<le> M)"
    and "array oa = array (index (heap_at s h))" and "max_size oa = max_size (index (heap_at s h))"
    and "outside_heap h s (heap_start h s + bsum bs1) (heap_start h s + bsum bs1 + N) m"
    and "footed (mem s) (heap_start h s) bs \<Longrightarrow>
      footed m (heap_start h s) (bs1 @ cut_blocks (cut_size (unat z) N) N @ bs2)"
proof -
  let ?xs = "elems (mem s) (index (heap_at s h))" and ?new = "z + sizeof_header + sizeof_footer"
  let ?k = "first_fit ?new 0 h s"
  have small: "M < 4294967296"
  proof -
    from M(1) obtain b c where "bs = b @ (True, M) # c" by (auto simp: in_set_conv_decomp)
    then show ?thesis using heap_okD(7) [OF ok] by simp
  qed
  have new: "unat ?new = unat z + 20" using M(2) small by (intro request_size) simp
  obtain j where j: "j < unat (oa_size (index (heap_at s h)))" "unat (h_size (?xs ! j) s) = M"
    by (rule hole_listed [OF ok M(1)])
  have fj: "?xs ! j \<in> set ?xs" "hole_fits ?new 0 (?xs ! j) s"
    using j M(2) new by (simp_all add: fits_unaligned del: elems_nth)
  note ff = first_fit_props [OF fj]
  note found = find_smallest_hole_found [OF heap_okD(1) [OF ok] ff(1)]
  have "?xs ! ?k \<in> set ?xs" using ff(1) by (intro nth_mem) simp
  then obtain bs1 N bs2 where b: "bs = bs1 @ (True, N) # bs2" "unat (?xs ! ?k) = heap_start h s + bsum bs1"
    by (rule index_hole [OF ok])
  have N: "unat (h_size (?xs ! ?k) s) = N" by (rule hole_entry(2) [OF ok b])
  have fits: "unat z + 20 \<le> N" using ff(2) new N by (simp add: fits_unaligned)
  have i: "of_nat ?k < oa_size (index (heap_at s h))" using ff(1) found(2) by (simp add: word_less_nat_alt)
  have x: "unat (?xs ! unat (of_nat ?k :: u32)) = heap_start h s + bsum bs1" unfolding found(2) by (rule b(2))
  have run: "alloc (Suc n) z 0 h s = alloc_take (of_nat ?k) (of_nat (unat z)) 0 (of_nat (unat z) + sizeof_header + sizeof_footer) h s"
    using alloc_body_takes [OF ok ff(1)] by simp
  have best: "\<forall>M. (True, M) \<in> set bs \<and> unat z + 20 \<le> M \<longrightarrow> N \<le> M" if "index_sorted h s"
  proof (intro allI impI)
    fix M assume "(True, M) \<in> set bs \<and> unat z + 20 \<le> M"
    then show "N \<le> M" using first_fit_least [OF ok that, of M ?new] new N by auto
  qed
  show ?thesis
    using alloc_take_unaligned [OF ok b(1) i x refl fits] that [OF b(1) fits _ _ _ best] run by metis
qed

subsection \<open>An example heap\<close>

text \<open>One hole of 8192 bytes at 0x2000, its index at 0x1000, the heap structure at 0x100.\<close>

definition example_heap :: machine where
  "example_heap = (power_on (st32 (put_header 0x2000 1 0x2000 (\<lambda>_. 0)) 0x1000 0x2000) (\<lambda>_ _. 0))
     \<lparr>heap_at := (\<lambda>_. no_heap)(0x100 :=
        \<lparr>index = \<lparr>array = 0x1000, oa_size = 1, max_size = 8, less_than = Header_T_Less_Than\<rparr>,
         start_address = 0x2000, end_address = 0x4000, max_address = 0x10000, supervisor = 0, readonly = 0\<rparr>)\<rparr>"

lemma example_heap_simps [simp]:
  "mem example_heap = st32 (put_header 0x2000 1 0x2000 (\<lambda>_. 0)) 0x1000 0x2000"
  "index (heap_at example_heap 0x100) = \<lparr>array = 0x1000, oa_size = 1, max_size = 8, less_than = Header_T_Less_Than\<rparr>"
  "start_address (heap_at example_heap 0x100) = 0x2000" "end_address (heap_at example_heap 0x100) = 0x4000"
  by (simp_all add: example_heap_def)

lemma example_heap_ok: "heap_ok 0x100 example_heap [(True, 0x2000)]"
proof -
  have "hdr (mem example_heap) 0x2000 True 0x2000"
    by (simp add: hdr_def put_header_def far_simps unat_numeral32 hole_byte_def)
  then have "chain (mem example_heap) 0x2000 [(True, 0x2000)]" by simp
  moreover have "elems (mem example_heap) (index (heap_at example_heap 0x100)) = [0x2000]"
    by (simp add: elems_def cell_def elem_addr_def upt_rec)
  ultimately show ?thesis by (simp add: heap_ok_def oa_ok_def unat_numeral32)
qed

lemma example_heap_sorted: "index_sorted 0x100 example_heap"
  by (simp add: index_sorted_def sorted_by_def elems_def upt_rec)

subsection \<open>Properties\<close>

text \<open>
  C9: When some hole can hold the request with its header and footer, \<open>alloc\<close> returns at
  once: it cuts the block from the front of a hole that fits (the smallest one, if the index
  is in order), leaves the rest as a hole, keeps the invariant of the heap, the order of
  the index and the footers of the holes, and touches no other block.
\<close>

theorem alloc_best_fit:
  assumes "heap_ok h s bs" and "(True, M) \<in> set bs" and "unat sz + 20 \<le> M"
  shows "\<exists>bs1 N bs2 s'. bs = bs1 @ (True, N) # bs2 \<and> unat sz + 20 \<le> N
    \<and> alloc (Suc n) sz 0 h s = Inr (of_nat (heap_start h s + bsum bs1 + 12), s')
    \<and> heap_ok h s' (bs1 @ cut_blocks (cut_size (unat sz) N) N @ bs2)
    \<and> (index_sorted h s \<longrightarrow> index_sorted h s' \<and> (\<forall>M'. (True, M') \<in> set bs \<and> unat sz + 20 \<le> M' \<longrightarrow> N \<le> M'))
    \<and> (footed (mem s) (heap_start h s) bs \<longrightarrow> footed (mem s') (heap_start h s) (bs1 @ cut_blocks (cut_size (unat sz) N) N @ bs2))
    \<and> outside_heap h s (heap_start h s + bsum bs1) (heap_start h s + bsum bs1 + N) (mem s')"
proof -
  obtain bs1 N bs2 oa m where a: "bs = bs1 @ (True, N) # bs2" "unat sz + 20 \<le> N"
    "alloc (Suc n) sz 0 h s = Inr (of_nat (heap_start h s + bsum bs1) + sizeof_header, with_index h oa m s)"
    "heap_ok h (with_index h oa m s) (bs1 @ cut_blocks (cut_size (unat sz) N) N @ bs2)"
    "index_sorted h s \<Longrightarrow> index_sorted h (with_index h oa m s)"
    "index_sorted h s \<Longrightarrow> (\<forall>M. (True, M) \<in> set bs \<and> unat sz + 20 \<le> M \<longrightarrow> N \<le> M)"
    "outside_heap h s (heap_start h s + bsum bs1) (heap_start h s + bsum bs1 + N) m"
    "footed (mem s) (heap_start h s) bs \<Longrightarrow> footed m (heap_start h s) (bs1 @ cut_blocks (cut_size (unat sz) N) N @ bs2)"
    using alloc_unaligned [OF assms, of n] by metis
  have "of_nat (heap_start h s + bsum bs1) + sizeof_header = (of_nat (heap_start h s + bsum bs1 + 12) :: u32)"
    by (simp add: sizeof_header_def)
  with a show ?thesis
    by (intro exI [of _ bs1] exI [of _ N] exI [of _ bs2] exI [of _ "with_index h oa m s"]) simp
qed

theorem alloc_best_fit_witness:
  "\<exists>s'. alloc 1 0x10 0 0x100 example_heap = Inr (0x200C, s')
    \<and> heap_ok 0x100 s' [(False, 0x24), (True, 0x1FDC)] \<and> index_sorted 0x100 s'"
proof -
  have "(True, 0x2000) \<in> set [(True, 0x2000 :: nat)]" "unat (0x10 :: u32) + 20 \<le> 0x2000"
    by (simp_all add: unat_numeral32)
  from alloc_best_fit [OF example_heap_ok this, of 0] show ?thesis
    using example_heap_sorted
    by (auto simp: append_eq_Cons_conv Cons_eq_append_conv cut_blocks_def cut_size_def unat_numeral32)
qed

text \<open>The allocated blocks with their addresses.\<close>

definition live :: "nat \<Rightarrow> block list \<Rightarrow> (nat \<times> nat) set" where
  "live a bs = {(b, n). \<exists>bs1 bs2. bs = bs1 @ (False, n) # bs2 \<and> b = a + bsum bs1}"

lemma live_Nil [simp]: "live a [] = {}"
  by (simp add: live_def)

lemma live_Cons [simp]: "live a ((h, n) # bs) = (if h then {} else {(a, n)}) \<union> live (a + n) bs"
  by (auto simp: live_def Cons_eq_append_conv intro: exI [of _ "[]"])
    (metis bsum_simps(2) snd_conv)+

lemma live_append [simp]: "live a (bs @ cs) = live a bs \<union> live (a + bsum bs) cs"
  by (induction bs arbitrary: a) (auto simp: add.assoc)

lemma live_range: "(b, n) \<in> live a bs \<Longrightarrow> a \<le> b \<and> b + n \<le> a + bsum bs"
  by (auto simp: live_def)

lemma live_cut: "n \<le> N \<Longrightarrow> live a (cut_blocks n N) = {(a, n)}"
  by (simp add: cut_blocks_def)

text \<open>
  C10: A request that \<open>alloc\<close> serves this way gives the caller memory of its own: the returned
  bytes lie inside the heap between the new header and footer, every block that was allocated
  before lies apart from the new one and keeps its contents, and the new block is the only
  one added.
\<close>

theorem alloc_fresh_memory:
  assumes "heap_ok h s bs" and "(True, M) \<in> set bs" and "unat sz + 20 \<le> M"
  shows "\<exists>p s' bs' n. alloc (Suc k) sz 0 h s = Inr (p, s') \<and> heap_ok h s' bs'
    \<and> heap_start h s + 12 \<le> unat p \<and> unat p + unat sz + 8 \<le> unat p - 12 + n \<and> unat p - 12 + n \<le> heap_end h s
    \<and> live (heap_start h s) bs' = insert (unat p - 12, n) (live (heap_start h s) bs)
    \<and> (\<forall>(b, l) \<in> live (heap_start h s) bs. (b + l \<le> unat p - 12 \<or> unat p - 12 + n \<le> b)
        \<and> (\<forall>x. b \<le> unat x \<and> unat x < b + l \<longrightarrow> mem s' x = mem s x))"
proof -
  let ?A = "heap_start h s"
  obtain bs1 N bs2 oa m where a: "bs = bs1 @ (True, N) # bs2" "unat sz + 20 \<le> N"
    "alloc (Suc k) sz 0 h s = Inr (of_nat (?A + bsum bs1) + sizeof_header, with_index h oa m s)"
    "heap_ok h (with_index h oa m s) (bs1 @ cut_blocks (cut_size (unat sz) N) N @ bs2)"
    "outside_heap h s (?A + bsum bs1) (?A + bsum bs1 + N) m"
    using alloc_unaligned [OF assms, of k] by metis
  note D = heap_okD [OF assms(1)]
  note n = cut_size [OF a(2)]
  let ?p = "of_nat (?A + bsum bs1) + sizeof_header :: u32" and ?n = "cut_size (unat sz) N"
  have p: "unat ?p = ?A + bsum bs1 + 12"
    using D(7) a(1,2) unat_nat_offset [of "?A + bsum bs1" 12] by (simp add: sizeof_header_def)
  have apart: "(b + l \<le> ?A + bsum bs1 \<or> ?A + bsum bs1 + N \<le> b) \<and> ?A \<le> b \<and> b + l \<le> heap_end h s"
    if "(b, l) \<in> live ?A bs" for b l
    using that D(4) live_range [of b l ?A bs1] live_range [of b l "?A + bsum bs1 + N" bs2] by (auto simp: a(1))
  have kept: "mem (with_index h oa m s) x = mem s x" if "(b, l) \<in> live ?A bs" "b \<le> unat x" "unat x < b + l" for b l x
    using apart [OF that(1)] that(2,3) a(5) D(3) unfolding outside_heap_def by auto
  show ?thesis
  proof (intro exI conjI)
    show "alloc (Suc k) sz 0 h s = Inr (?p, with_index h oa m s)" by (rule a(3))
    show "heap_ok h (with_index h oa m s) (bs1 @ cut_blocks ?n N @ bs2)" by (rule a(4))
    show "live ?A (bs1 @ cut_blocks ?n N @ bs2) = insert (unat ?p - 12, ?n) (live ?A bs)"
      using n(2) unfolding p by (auto simp: live_cut a(1))
    show "\<forall>(b, l) \<in> live ?A bs. (b + l \<le> unat ?p - 12 \<or> unat ?p - 12 + ?n \<le> b)
        \<and> (\<forall>x. b \<le> unat x \<and> unat x < b + l \<longrightarrow> mem (with_index h oa m s) x = mem s x)"
      using apart kept n(2) unfolding p by fastforce
  qed (use p n D(4) a(1) in simp_all)
qed

theorem alloc_fresh_memory_witness:
  "\<exists>p s'. alloc 1 0x10 0 0x100 example_heap = Inr (p, s') \<and> 0x200C \<le> unat p \<and> unat p + 0x18 \<le> 0x4000"
proof -
  have "(True, 0x2000) \<in> set [(True, 0x2000 :: nat)]" "unat (0x10 :: u32) + 20 \<le> 0x2000"
    by (simp_all add: unat_numeral32)
  from alloc_fresh_memory [OF example_heap_ok this, of 0] show ?thesis
    by (auto simp: unat_numeral32)
qed

subsection \<open>Page-aligned blocks\<close>

text \<open>
  The hole left in front of a page-aligned block, as \<open>alloc\<close> computes it: the block's header
  ends on the next page boundary.
\<close>

definition front_size :: "nat \<Rightarrow> nat" where
  "front_size a = 4084 - a mod 4096"

lemma unat_and_fff: "unat (w AND 0xFFF :: u32) = unat w mod 4096"
proof -
  have "w AND 0xFFF = take_bit 12 w" by (simp add: take_bit_eq_mask mask_numeral)
  then have "w AND 0xFFF = w mod 0x1000" by (simp add: take_bit_eq_mod)
  then show ?thesis by (simp add: unat_mod)
qed

lemma and_page_zero:
  assumes "w AND 0xFFFFF000 = (0 :: u32)"
  shows "unat w < 4096"
proof -
  have "drop_bit 12 w = 0"
  proof (rule bit_word_eqI)
    fix n assume n: "n < LENGTH(32)"
    have "bit (0xFFFFF000 :: u32) (n + 12)" if "n + 12 < 32"
    proof -
      have e: "(0xFFFFF000 :: u32) = NOT (mask 12)" by (simp add: mask_numeral)
      from that show ?thesis unfolding e by (simp add: bit_simps)
    qed
    moreover have "\<not> bit (w AND 0xFFFFF000) (n + 12)" using assms by simp
    ultimately show "bit (drop_bit 12 w) n = bit (0 :: u32) n"
      using bit_imp_le_length [of w "n + 12"] by (cases "n < 20") (auto simp: bit_simps add.commute)
  qed
  then have "drop_bit 12 (unat w) = 0" using unat_drop_bit_eq [of 12 w] by simp
  then show ?thesis by (simp add: drop_bit_eq_div div_eq_0_iff)
qed

lemma new_location:
  assumes "a mod 4096 \<le> 4084" and "a < 4294967296"
  shows "(0x1000 - (of_nat a AND 0xFFF) - sizeof_header :: u32) = of_nat (front_size a)"
    and "(of_nat a + 0x1000 - (of_nat a AND 0xFFF) - sizeof_header :: u32) = of_nat (a + front_size a)"
proof -
  have "unat (of_nat a AND 0xFFF :: u32) = a mod 4096"
    using assms(2) by (simp add: unat_and_fff unat_of_nat32)
  then have r: "(of_nat a AND 0xFFF :: u32) = of_nat (a mod 4096)"
    using unat_of_nat32 [of "a mod 4096"] by (intro unat_eqI32) simp
  have "(of_nat (front_size a) :: u32) = of_nat 4084 - of_nat (a mod 4096)"
    unfolding front_size_def using assms(1) by (rule of_nat_diff)
  then show "(0x1000 - (of_nat a AND 0xFFF) - sizeof_header :: u32) = of_nat (front_size a)"
    unfolding r by (simp add: sizeof_header_def)
  then show "(of_nat a + 0x1000 - (of_nat a AND 0xFFF) - sizeof_header :: u32) = of_nat (a + front_size a)"
    by (simp add: algebra_simps)
qed


text \<open>The header and footer of that front hole.\<close>

definition front_mem :: "nat \<Rightarrow> nat \<Rightarrow> memory \<Rightarrow> memory" where
  "front_mem a k m = put_footer (of_nat (a + k - 8)) (of_nat a)
     (st8 (st32 (st32 m (of_nat a + 8) (of_nat k)) (of_nat a) HEAP_MAGIC) (of_nat a + 4) 1)"

lemma front_mem:
  assumes "a + k \<le> 4294967296" and "20 \<le> k"
  shows "only_in a (a + k) m (front_mem a k m)" and "hdr (front_mem a k m) a True k" and "ftr (front_mem a k m) a k"
proof -
  let ?m = "st8 (st32 (st32 m (of_nat a + 8) (of_nat k)) (of_nat a) HEAP_MAGIC) (of_nat a + 4) 1"
  have 1: "only_in a (a + 12) m ?m"
    using assms by (intro only_in_st8_step only_in_st32_step only_in_refl) (simp_all add: unat_heap)
  have 2: "only_in (a + k - 8) (a + k) ?m (front_mem a k m)"
    using put_footer_only_in [of "a + k - 8" ?m "of_nat a"] assms by (simp add: front_mem_def)
  have "hdr ?m a True k" using assms by (simp add: hdr_def far_simps unat_heap hole_byte_def)
  then show "hdr (front_mem a k m) a True k"
    using assms by (subst hdr_same_on [OF only_in_same_on [OF 2, of "a + 12" a]]) simp_all
  show "only_in a (a + k) m (front_mem a k m)"
    using assms by (intro only_in_trans [OF only_in_mono [OF 1] only_in_mono [OF 2]]) simp_all
  show "ftr (front_mem a k m) a k"
    unfolding front_mem_def using assms by (intro ftr_put_footer) simp_all
qed

lemma alloc_take_front:
  assumes i: "i < oa_size (index (heap_at s h))"
    and x: "elems (mem s) (index (heap_at s h)) ! unat i = of_nat a" and sz: "ld32 (mem s) (of_nat a + 8) = of_nat N"
    and a: "4096 \<le> a" "a mod 4096 \<le> 4064" and fits: "front_size a + z + 20 \<le> N" and top: "a + N < 4294967296"
  shows "alloc_take i (of_nat z) 1 (of_nat z + sizeof_header + sizeof_footer) h s =
    place_block (of_nat (a + front_size a)) (of_nat (N - front_size a)) (of_nat z) (of_nat (z + 20)) h
      (with_index h (index (heap_at s h)) (front_mem a (front_size a) (mem s)) s)"
proof -
  let ?k = "front_size a"
  have k: "20 \<le> ?k" using a(2) by (simp add: front_size_def)
  have d: "(of_nat N :: u32) - (of_nat z + sizeof_header + sizeof_footer) = of_nat (N - (z + 20))"
    using of_nat_minus [of "z + 20" N] fits by (simp add: sizeof_header_def sizeof_footer_def add.commute)
  have lt20: "\<not> (of_nat (N - (z + 20)) :: u32) < sizeof_header + sizeof_footer"
    using of_nat_less [of "N - (z + 20)" 20] top k fits by (simp add: sizeof_header_def sizeof_footer_def del: of_nat_diff)
  have s20: "(of_nat z + sizeof_header + sizeof_footer :: u32) = of_nat (z + 20)"
    by (simp add: sizeof_header_def sizeof_footer_def)
  have page: "(of_nat a :: u32) AND 0xFFFFF000 \<noteq> 0"
    using and_page_zero [of "of_nat a"] a(1) top unat_of_nat32 [of a] by auto
  have am: "a mod 4096 \<le> 4084" "a < 4294967296" using a(2) top by simp_all
  note loc = new_location [OF am]
  have ft: "(of_nat (a + ?k) - sizeof_footer :: u32) = of_nat (a + ?k - 8)"
    using k by (simp add: sizeof_footer_def)
  have km: "h_size (of_nat a) (with_index h (index (heap_at s h)) (front_mem a ?k (mem s)) s) = of_nat ?k"
    using front_mem(2) [of a ?k "mem s"] k fits top by (simp add: hdr_def)
  have "with_index h (index (heap_at s h)) (front_mem a ?k (mem s)) s =
    set_footer (of_nat (a + ?k - 8)) (of_nat a) (set_is_hole (of_nat a) 1 (wr (of_nat a) HEAP_MAGIC (wr (of_nat a + 8) (of_nat ?k) s)))"
    unfolding store_with_index [where h = h and s = s] front_mem_def by simp
  then show ?thesis
    unfolding alloc_take_def heap_lookup_elems [OF i] x
    using sz d lt20 page km of_nat_minus [of ?k N] fits by (simp add: rd_def Let_def s20 loc ft del: of_nat_diff of_nat_add)
qed

text \<open>A hole that gives up its end keeps its place in the index when no smaller hole passes it.\<close>

lemma other_block:
  assumes "bs1 @ (b, N) # bs2 = cs1 @ (c, M) # cs2" and "bsum cs1 \<noteq> bsum bs1"
  shows "(c, M) \<in> set (bs1 @ bs2)" and "bsum cs1 + M \<le> bsum bs1 \<or> bsum bs1 + N \<le> bsum cs1"
  using assms by (auto simp: append_eq_append_conv2 append_eq_Cons_conv Cons_eq_append_conv)

lemma index_sorted_shrunk:
  assumes ok: "heap_ok h s bs" and bs: "bs = bs1 @ (True, N) # bs2" and srt: "index_sorted h s"
    and a: "a = heap_start h s + bsum bs1" and m1: "only_in a (a + k) (mem s) m1" "hdr m1 a True k" and k: "k \<le> N"
    and e: "elems m1 (index (heap_at s h)) = elems (mem s) (index (heap_at s h))"
    and other: "\<forall>M. (True, M) \<in> set (bs1 @ bs2) \<and> M \<le> N \<longrightarrow> M \<le> k"
  shows "index_sorted h (with_index h (index (heap_at s h)) m1 s)"
proof -
  let ?xs = "elems (mem s) (index (heap_at s h))"
  note D = heap_okD [OF ok]
  have N: "20 \<le> N" "a + N \<le> heap_end h s" "heap_end h s < 4294967296"
    using chain_split(2) [OF D(5) [unfolded bs]] D(4,7) by (simp_all add: a bs)
  have at: "unat (h_size x s) = N \<and> unat (ld32 m1 (x + 8)) = k" if "x \<in> set ?xs" "unat x = a" for x
  proof -
    have "x = of_nat a" unfolding that(2) [symmetric] by simp
    then have "ld32 m1 (x + 8) = of_nat k" using m1(2) by (simp add: hdr_def)
    then show ?thesis using hole_entry(2) [OF ok bs, of x] that(2) a k N by (simp add: unat_of_nat32)
  qed
  have off: "ld32 m1 (x + 8) = h_size x s \<and> (unat (h_size x s) \<le> N \<longrightarrow> unat (h_size x s) \<le> k)"
    if x: "x \<in> set ?xs" and ne: "unat x \<noteq> a" for x
  proof -
    obtain cs1 M cs2 where c: "bs = cs1 @ (True, M) # cs2" "unat x = heap_start h s + bsum cs1" by (rule index_hole [OF ok x])
    have M: "20 \<le> M" "unat x + M \<le> heap_end h s" using chain_split(2) [OF D(5) [unfolded c(1)]] D(4) c by simp_all
    have ap: "bsum cs1 \<noteq> bsum bs1" using ne c(2) a by simp
    have eq: "bs1 @ (True, N) # bs2 = cs1 @ (True, M) # cs2" using bs c(1) by simp
    note o = other_block [OF eq ap]
    have hs: "unat (h_size x s) = M" by (rule hole_entry(2) [OF ok c])
    have u: "unat (x + 8) = unat x + 8" using M N(3) by (intro unat_add_numeral32) simp
    have "ld32 m1 (x + 8) = ld32 (mem s) (x + 8)"
      by (rule ld32_only_in [OF m1(1)]) (use u o(2) c(2) a k M N in auto)
    then show ?thesis using hs o(1) other by (auto simp: rd_def)
  qed
  have "\<not> ld32 m1 (?xs ! j + 8) < ld32 m1 (?xs ! i + 8)" if "i < j" "j < length ?xs" for i j
  proof -
    have x: "?xs ! i \<in> set ?xs" "?xs ! j \<in> set ?xs" using that nth_mem [of i ?xs] nth_mem [of j ?xs] by simp_all
    have le: "h_size (?xs ! i) s \<le> h_size (?xs ! j) s"
      using srt that unfolding index_sorted_def sorted_by_def sorted_wrt_iff_nth_less header_t_less_than_def rd_def
      by (simp add: not_less del: elems_nth)
    show ?thesis
      using at [OF x(1)] at [OF x(2)] off [OF x(1)] off [OF x(2)] le k
      by (cases "unat (?xs ! i) = a"; cases "unat (?xs ! j) = a") (simp_all add: word_less_nat_alt word_le_nat_alt del: elems_nth)
  qed
  then show ?thesis
    by (simp add: index_sorted_def sorted_by_def sorted_wrt_iff_nth_less header_t_less_than_def e del: elems_nth)
qed

lemma alloc_take_aligned:
  assumes ok: "heap_ok h s bs" and bs: "bs = bs1 @ (True, N) # bs2" and room: "index_room h s"
    and i: "i < oa_size (index (heap_at s h))"
    and x: "unat (elems (mem s) (index (heap_at s h)) ! unat i) = a" and a: "a = heap_start h s + bsum bs1"
    and at: "4096 \<le> a" "a mod 4096 \<le> 4064" and fits: "front_size a + z + 20 \<le> N"
    and rest: "N = front_size a + z + 20 \<or> front_size a + z + 40 \<le> N"
  obtains oa m where
    "alloc_take i (of_nat z) 1 (of_nat z + sizeof_header + sizeof_footer) h s =
       Inr (of_nat (a + front_size a) + sizeof_header, with_index h oa m s)"
    and "heap_ok h (with_index h oa m s) ((bs1 @ [(True, front_size a)]) @ cut_blocks (z + 20) (N - front_size a) @ bs2)"
    and "array oa = array (index (heap_at s h))" and "max_size oa = max_size (index (heap_at s h))"
    and "outside_heap h s a (a + N) m"
    and "footed m a ((True, front_size a) # cut_blocks (z + 20) (N - front_size a))"
    and "index_sorted h s \<Longrightarrow> \<forall>M. (True, M) \<in> set (bs1 @ bs2) \<and> M \<le> N \<longrightarrow> M \<le> front_size a
      \<Longrightarrow> index_sorted h (with_index h oa m s)"
proof -
  let ?oa = "index (heap_at s h)" and ?A = "heap_start h s" and ?k = "front_size a"
  note D = heap_okD [OF ok]
  note T = chain_split [OF D(5) [unfolded bs], folded a]
  have top: "a + N + bsum bs2 < 4294967296" and en: "a + N + bsum bs2 = heap_end h s"
    using D(4,7) by (simp_all add: a bs)
  have xa: "elems (mem s) ?oa ! unat i = of_nat a" unfolding x [symmetric] by simp
  have sz: "ld32 (mem s) (of_nat a + 8) = of_nat N" using T(3) by (simp add: hdr_def)
  have k: "20 \<le> ?k" "?k \<le> N" using at(2) fits by (simp_all add: front_size_def)
  define m1 where "m1 = front_mem a ?k (mem s)"
  define t where "t = with_index h ?oa m1 s"
  have f: "only_in a (a + ?k) (mem s) m1" "hdr m1 a True ?k" "ftr m1 a ?k"
    unfolding m1_def using front_mem [of a ?k "mem s"] k top by simp_all
  have e: "elems m1 ?oa = elems (mem s) ?oa"
    using D(3) a by (intro elems_same_on [OF D(1)] only_in_same_on [OF f(1)]) simp
  have chains: "chain m1 ?A bs1" "chain m1 (a + N) bs2"
    using chain_same_on [OF only_in_same_on [OF f(1), of a ?A] _ _ _ T(1)]
      chain_same_on [OF only_in_same_on [OF f(1), of "a + N + bsum bs2" "a + N"] _ _ _ T(4)] a k top by simp_all
  have aN: "?A + (bsum bs1 + N) = a + N" by (simp add: a)
  have gap: "heap_gap h t (bs1 @ [(True, ?k)]) (N - ?k) bs2"
    using D(1-3,6) room e chains f(2,3) k en
    by (simp add: heap_gap_def t_def a [symmetric] aN bs index_room_def word_less_nat_alt)
  have a': "a + ?k = heap_start h t + bsum (bs1 @ [(True, ?k)])" by (simp add: t_def a)
  have n: "20 \<le> z + 20" "z + 20 \<le> N - ?k" "z + 20 < N - ?k \<Longrightarrow> 20 \<le> N - ?k - (z + 20)"
    using fits rest by auto
  obtain oa m where p: "place_block (of_nat (a + ?k)) (of_nat (N - ?k)) (of_nat (z + 20 - 20)) (of_nat (z + 20)) h t =
      Inr (of_nat (a + ?k) + sizeof_header, with_index h oa m t)"
    "heap_ok h (with_index h oa m t) ((bs1 @ [(True, ?k)]) @ cut_blocks (z + 20) (N - ?k) @ bs2)"
    "array oa = array (index (heap_at t h))" "max_size oa = max_size (index (heap_at t h))"
    "outside_heap h t (a + ?k) (a + ?k + (N - ?k)) m"
    "z + 20 < N - ?k \<Longrightarrow> ftr m (a + ?k + (z + 20)) (N - ?k - (z + 20))"
    "index_sorted h t \<Longrightarrow> index_sorted h (with_index h oa m t)"
    using place_block_gap [OF gap a' n] by metis
  have srt: "index_sorted h t" if "index_sorted h s" "\<forall>M. (True, M) \<in> set (bs1 @ bs2) \<and> M \<le> N \<longrightarrow> M \<le> ?k"
    unfolding t_def by (rule index_sorted_shrunk [OF ok bs that(1) a f(1,2) k(2) e that(2)])
  have "same_on a (a + ?k) m1 m"
    using D(3) a by (intro same_on_mono [OF outside_heap_parts(1) [OF p(5)], unfolded t_def with_index_simps]) simp_all
  then have "ftr m a ?k" using ftr_same_on [of a "a + ?k" m1 m a ?k] f(3) k top by simp
  then have ft: "footed m a ((True, ?k) # cut_blocks (z + 20) (N - ?k))" using footed_cut [OF p(6)] by simp
  have "outside_heap h s a (a + N) m"
    using p(5) f(1) k(2) by (auto simp: outside_heap_def only_in_def t_def)
  with p(1-4) ft p(7) srt show ?thesis
    using alloc_take_front [OF i xa sz at _ _, of z] fits top
    by (intro that [of oa m]) (simp_all add: t_def m1_def add.assoc)
qed

text \<open>Whether a hole of \<open>N\<close> bytes at \<open>a\<close> can hold an aligned block of \<open>z\<close> bytes.\<close>

lemma fits_aligned:
  assumes x: "unat x = a" and N: "unat (h_size x s) = N" and a: "4096 \<le> a" "a mod 4096 \<le> 4064" "a + N < 4294967296"
    and small: "20 \<le> N" "N < 2147483648" "z + 20 < 2147483648"
  shows "hole_fits (of_nat (z + 20)) 1 x s = (front_size a + z + 20 \<le> N)"
proof -
  let ?k = "front_size a"
  have k: "?k \<le> 4084" by (simp add: front_size_def)
  have ax: "x = of_nat a" unfolding x [symmetric] by simp
  have hd: "(x + sizeof_header) = of_nat (a + 12)" by (simp add: ax sizeof_header_def)
  have ua: "unat (of_nat (a + 12) :: u32) = a + 12"
    using a(3) small(1) by (intro unat_of_nat32) simp
  have page: "(of_nat (a + 12) :: u32) AND 0xFFFFF000 \<noteq> 0"
    using and_page_zero [of "of_nat (a + 12)"] ua a(1) by auto
  have "unat ((of_nat (a + 12) :: u32) mod 0x1000) = (a + 12) mod 4096"
    by (simp only: unat_mod ua) simp
  also have "\<dots> = (a mod 4096 + 12) mod 4096" by (rule mod_add_left_eq [symmetric])
  also have "\<dots> = a mod 4096 + 12" using a(2) by (intro mod_less) simp
  finally have "(of_nat (a + 12) :: u32) mod 0x1000 = of_nat (a mod 4096 + 12)"
    using unat_of_nat32 [of "a mod 4096 + 12"] a(2) by (intro unat_eqI32) simp
  then have off: "(0x1000 - (of_nat (a + 12) :: u32) mod 0x1000) = of_nat ?k"
    using a(2) by (simp add: front_size_def)
  have Nw: "h_size x s = of_nat N" unfolding N [symmetric] by simp
  have si: "sint (word_of_int i :: u32) = i" if "- 2147483648 \<le> i" "i < 2147483648" for i
    using that by (simp add: signed_of_int signed_take_bit_int_eq_self)
  have "sint (h_size x s - of_nat ?k) = sint (word_of_int (int N - int ?k) :: u32)"
    unfolding Nw by simp
  also have "\<dots> = int N - int ?k" using small k by (intro si) linarith+
  finally have h: "sint (h_size x s - of_nat ?k) = int N - int ?k" .
  have zi: "sint (of_nat (z + 20) :: u32) = int (z + 20)"
    using si [of "int (z + 20)"] small(3) by simp
  show ?thesis unfolding hole_fits_def Let_def hd using page off h zi by auto
qed

text \<open>
  What \<open>alloc\<close> needs of the holes to align a block without damage: room for the front hole's
  header and footer, and for those of the hole behind the block unless nothing is left.
\<close>

definition aligns_well :: "nat \<Rightarrow> nat \<Rightarrow> block list \<Rightarrow> bool" where
  "aligns_well st z bs \<longleftrightarrow> (\<forall>bs1 N bs2. bs = bs1 @ (True, N) # bs2 \<longrightarrow>
     (let a = st + bsum bs1 in a mod 4096 \<le> 4064
        \<and> (front_size a + z + 20 \<le> N \<longrightarrow> N = front_size a + z + 20 \<or> front_size a + z + 40 \<le> N)))"

lemma alloc_aligned_runs:
  assumes ok: "heap_ok h s bs" and room: "index_room h s" and lo: "4096 \<le> heap_start h s"
    and small: "bsum bs < 2147483648" "unat sz + 20 < 2147483648" and well: "aligns_well (heap_start h s) (unat sz) bs"
    and M: "bs = cs1 @ (True, M) # cs2" "front_size (heap_start h s + bsum cs1) + unat sz + 20 \<le> M"
  shows "\<exists>bs1 N bs2 p s'. bs = bs1 @ (True, N) # bs2 \<and> front_size (heap_start h s + bsum bs1) + unat sz + 20 \<le> N
    \<and> alloc (Suc n) sz 1 h s = Inr (p, s')
    \<and> unat p = heap_start h s + bsum bs1 + front_size (heap_start h s + bsum bs1) + 12 \<and> unat p mod 4096 = 0
    \<and> heap_ok h s' (bs1 @ (True, front_size (heap_start h s + bsum bs1))
        # cut_blocks (unat sz + 20) (N - front_size (heap_start h s + bsum bs1)) @ bs2)
    \<and> outside_heap h s (heap_start h s + bsum bs1) (heap_start h s + bsum bs1 + N) (mem s')
    \<and> (\<exists>oa m. s' = with_index h oa m s \<and> array oa = array (index (heap_at s h)) \<and> max_size oa = max_size (index (heap_at s h)))
    \<and> (index_sorted h s \<longrightarrow> (\<forall>M. (True, M) \<in> set (bs1 @ bs2) \<and> M \<le> N \<longrightarrow> M \<le> front_size (heap_start h s + bsum bs1))
        \<longrightarrow> index_sorted h s')"
proof -
  let ?xs = "elems (mem s) (index (heap_at s h))" and ?new = "sz + sizeof_header + sizeof_footer"
  let ?k = "first_fit ?new 1 h s" and ?A = "heap_start h s"
  have new: "?new = of_nat (unat sz + 20)" by (simp add: sizeof_header_def sizeof_footer_def)
  have fits: "hole_fits ?new 1 x s = (front_size (?A + bsum bs1) + unat sz + 20 \<le> N)"
    if "bs = bs1 @ (True, N) # bs2" "unat x = ?A + bsum bs1" for x bs1 N bs2
  proof -
    have "20 \<le> N" using chain_split(2) [OF heap_okD(5) [OF ok, unfolded that(1)]] .
    then show ?thesis unfolding new
      using that well lo small heap_okD(7) [OF ok] hole_entry(2) [OF ok that]
      by (intro fits_aligned) (auto simp: aligns_well_def Let_def)
  qed
  obtain j where j: "j < unat (oa_size (index (heap_at s h)))" "unat (?xs ! j) = ?A + bsum cs1"
    using hole_indexed [OF ok [unfolded M(1)]] by blast
  have fj: "?xs ! j \<in> set ?xs" "hole_fits ?new 1 (?xs ! j) s"
    using j(1) fits [OF M(1) j(2)] M(2) by (simp_all del: elems_nth)
  note ff = first_fit_props [OF fj]
  note found = find_smallest_hole_found [OF heap_okD(1) [OF ok] ff(1)]
  have "?xs ! ?k \<in> set ?xs" using ff(1) by (intro nth_mem) simp
  then obtain bs1 N bs2 where b: "bs = bs1 @ (True, N) # bs2" "unat (?xs ! ?k) = ?A + bsum bs1"
    by (rule index_hole [OF ok])
  define a where "a = ?A + bsum bs1"
  have fit: "front_size a + unat sz + 20 \<le> N" using ff(2) fits [OF b] by (simp add: a_def)
  have w: "a mod 4096 \<le> 4064" "N = front_size a + unat sz + 20 \<or> front_size a + unat sz + 40 \<le> N"
    using well fit b(1) unfolding aligns_well_def a_def Let_def by blast+
  have i: "of_nat ?k < oa_size (index (heap_at s h))" using ff(1) found(2) by (simp add: word_less_nat_alt)
  have x: "unat (?xs ! unat (of_nat ?k :: u32)) = a" unfolding found(2) a_def by (rule b(2))
  have run: "alloc (Suc n) sz 1 h s = alloc_take (of_nat ?k) (of_nat (unat sz)) 1 (of_nat (unat sz) + sizeof_header + sizeof_footer) h s"
    using alloc_body_takes [OF ok ff(1)] by simp
  have a4: "4096 \<le> a" using lo by (simp add: a_def)
  obtain oa m where t: "alloc_take (of_nat ?k) (of_nat (unat sz)) 1 (of_nat (unat sz) + sizeof_header + sizeof_footer) h s
      = Inr (of_nat (a + front_size a) + sizeof_header, with_index h oa m s)"
    "heap_ok h (with_index h oa m s) ((bs1 @ [(True, front_size a)]) @ cut_blocks (unat sz + 20) (N - front_size a) @ bs2)"
    "array oa = array (index (heap_at s h))" "max_size oa = max_size (index (heap_at s h))" "outside_heap h s a (a + N) m"
    "index_sorted h s \<Longrightarrow> \<forall>M. (True, M) \<in> set (bs1 @ bs2) \<and> M \<le> N \<longrightarrow> M \<le> front_size a
      \<Longrightarrow> index_sorted h (with_index h oa m s)"
    by (rule alloc_take_aligned [OF ok b(1) room i x a_def a4 w(1) fit w(2)]) blast
  have p: "unat (of_nat (a + front_size a) + sizeof_header :: u32) = a + front_size a + 12"
    using unat_nat_offset [of "a + front_size a" 12] heap_okD(7) [OF ok] b(1) fit
    by (simp add: sizeof_header_def a_def)
  have "a + front_size a + 12 = 4096 * (a div 4096 + 1)"
  proof -
    have "b + (4084 - r) + 12 = 4096 * (q + 1)" if "4096 * q + r = b" "r \<le> 4064" for b q r :: nat
      using that by simp
    from this [OF mult_div_mod_eq w(1)] show ?thesis by (simp only: front_size_def)
  qed
  then have "(a + front_size a + 12) mod 4096 = 0" by simp
  then have pm: "unat (of_nat (a + front_size a) + sizeof_header :: u32) mod 4096 = 0" unfolding p .
  show ?thesis
  proof (rule exI [of _ bs1], rule exI [of _ N], rule exI [of _ bs2], rule exI [of _ "of_nat (a + front_size a) + sizeof_header"],
      rule exI [of _ "with_index h oa m s"], intro conjI)
    show "bs = bs1 @ (True, N) # bs2" by (rule b(1))
    show "front_size (?A + bsum bs1) + unat sz + 20 \<le> N" using fit by (simp add: a_def)
    show "alloc (Suc n) sz 1 h s = Inr (of_nat (a + front_size a) + sizeof_header, with_index h oa m s)"
      unfolding run by (rule t(1))
    show "unat (of_nat (a + front_size a) + sizeof_header :: u32) = ?A + bsum bs1 + front_size (?A + bsum bs1) + 12"
      unfolding a_def [symmetric] by (rule p)
    show "heap_ok h (with_index h oa m s) (bs1 @ (True, front_size (?A + bsum bs1))
        # cut_blocks (unat sz + 20) (N - front_size (?A + bsum bs1)) @ bs2)"
      using t(2) unfolding a_def [symmetric] by simp
    show "outside_heap h s (?A + bsum bs1) (?A + bsum bs1 + N) (mem (with_index h oa m s))"
      using t(5) unfolding a_def [symmetric] by simp
    show "unat (of_nat (a + front_size a) + sizeof_header :: u32) mod 4096 = 0" by (rule pm)
    show "\<exists>oa' m'. with_index h oa m s = with_index h oa' m' s \<and> array oa' = array (index (heap_at s h))
        \<and> max_size oa' = max_size (index (heap_at s h))"
      by (intro exI conjI, rule refl, rule t(3), rule t(4))
    show "index_sorted h s \<longrightarrow> (\<forall>M. (True, M) \<in> set (bs1 @ bs2) \<and> M \<le> N \<longrightarrow> M \<le> front_size (?A + bsum bs1))
        \<longrightarrow> index_sorted h (with_index h oa m s)"
      unfolding a_def [symmetric] by (rule impI, rule impI, rule t(6))
  qed
qed

text \<open>
  C15: A page-aligned request for which some hole has room is served at once with an address
  at the start of a page: the hole is split into a front hole, the block and what remains, and
  the invariant of the heap holds again, provided no hole would leave a piece too small for a
  header and a footer.
\<close>

theorem alloc_page_aligned:
  assumes ok: "heap_ok h s bs" and room: "index_room h s" and lo: "4096 \<le> heap_start h s"
    and small: "bsum bs < 2147483648" "unat sz + 20 < 2147483648" and well: "aligns_well (heap_start h s) (unat sz) bs"
    and M: "bs = cs1 @ (True, M) # cs2" "front_size (heap_start h s + bsum cs1) + unat sz + 20 \<le> M"
  shows "\<exists>bs1 N bs2 p s'. bs = bs1 @ (True, N) # bs2 \<and> alloc (Suc n) sz 1 h s = Inr (p, s')
    \<and> unat p = heap_start h s + bsum bs1 + front_size (heap_start h s + bsum bs1) + 12 \<and> unat p mod 4096 = 0
    \<and> heap_ok h s' (bs1 @ (True, front_size (heap_start h s + bsum bs1))
        # cut_blocks (unat sz + 20) (N - front_size (heap_start h s + bsum bs1)) @ bs2)
    \<and> outside_heap h s (heap_start h s + bsum bs1) (heap_start h s + bsum bs1 + N) (mem s')"
  using alloc_aligned_runs [OF assms, of n] by (elim exE conjE, intro exI conjI) assumption+

theorem alloc_page_aligned_witness:
  "\<exists>p s'. alloc 1 0x10 1 0x100 example_heap = Inr (p, s') \<and> unat p mod 4096 = 0
    \<and> heap_ok 0x100 s' [(True, 0xFF4), (False, 0x24), (True, 0xFE8)]"
proof -
  have room: "index_room 0x100 example_heap" by (simp add: index_room_def)
  have w: "aligns_well 0x2000 0x10 [(True, 0x2000)]"
    by (auto simp: aligns_well_def Cons_eq_append_conv front_size_def)
  show ?thesis
    using alloc_page_aligned [OF example_heap_ok room, of "0x10" "[]" "0x2000" "[]" 0] w
    by (auto simp: unat_numeral32 front_size_def Cons_eq_append_conv append_eq_Cons_conv cut_blocks_def)
qed

subsection \<open>More fuel changes nothing\<close>

text \<open>The second outcome is the first, unless the first ran out of fuel.\<close>

definition agree :: "halt + 'a \<Rightarrow> halt + 'a \<Rightarrow> bool" where
  "agree x y \<longleftrightarrow> x = Inl No_Fuel \<or> y = x"

named_theorems agree_intros \<open>constructs of the programs that keep \<open>agree\<close>\<close>

lemma agree_refl [agree_intros]: "agree x x"
  by (simp add: agree_def)

lemma agree_case [agree_intros]:
  "agree x y \<Longrightarrow> (\<And>a s. agree (F a s) (G a s)) \<Longrightarrow> agree (case_sum Inl (case_prod F) x) (case_sum Inl (case_prod G) y)"
  by (cases x) (auto simp: agree_def)

lemma agree_prod [agree_intros]:
  "(\<And>a b. agree (F a b) (G a b)) \<Longrightarrow> agree (case_prod F p) (case_prod G p)"
  by (cases p) simp

lemma agree_sum [agree_intros]:
  "(\<And>a. agree (F a) (G a)) \<Longrightarrow> agree (case_sum Inl F x) (case_sum Inl G x)"
  by (cases x) (simp_all add: agree_def)

lemma agree_if [agree_intros]:
  "agree a b \<Longrightarrow> agree a' b' \<Longrightarrow> agree (if c then a else a') (if c then b else b')"
  by simp

lemma agree_page_for:
  assumes "\<And>i s. agree (b i s) (b' i s)"
  shows "agree (page_for l b i s) (page_for l b' i s)"
  using assms
proof (induction l b i s rule: page_for.induct)
  case (1 l b i s)
  note unf = page_for.simps [of l b i s] page_for.simps [of l b' i s]
  show ?case
  proof (cases "i < l s")
    case False
    then show ?thesis unfolding unf by (simp add: agree_refl)
  next
    case True
    show ?thesis
    proof (cases "b i s")
      case (Inl e)
      then have "b' i s = Inl e \<or> e = No_Fuel" using 1(2) [of i s] by (auto simp: agree_def)
      with True Inl show ?thesis unfolding unf by (auto simp: agree_def)
    next
      case (Inr r)
      obtain u s' where r: "r = (u, s')" by (cases r)
      have b': "b' i s = Inr (u, s')" using Inr r 1(2) [of i s] by (simp add: agree_def)
      have "agree (page_for l b (i + 0x1000) s') (page_for l b' (i + 0x1000) s')" if "\<not> i + 0x1000 < i"
        using 1(1) [OF True Inr r [symmetric] that] 1(2) by blast
      with True Inr r b' show ?thesis unfolding unf by (auto simp: agree_refl)
    qed
  qed
qed

lemma agree_get_page:
  "(\<And>z s. agree (k z s) (k' z s)) \<Longrightarrow> agree (get_page k a mk d s) (get_page k' a mk d s)"
  unfolding get_page_def Let_def by (intro agree_intros)

lemma agree_kmalloc_with:
  "(\<And>z al h s. agree (f z al h s) (g z al h s)) \<Longrightarrow> agree (kmalloc_with f z al w s) (kmalloc_with g z al w s)"
  unfolding kmalloc_with_def Let_def by (intro agree_intros)


lemma agree_seq:
  "agree (p s) (q s) \<Longrightarrow> (\<And>x s. agree (f x s) (g x s)) \<Longrightarrow> agree (seq p f s) (seq q g s)"
  unfolding seq_def by (intro agree_intros)

lemma agree_alloc_expand:
  "(\<And>z s. agree (k z s) (k' z s)) \<Longrightarrow> agree (alloc_expand k n h s) (alloc_expand k' n h s)"
  unfolding alloc_expand_def expand_def Let_def
  by (intro agree_intros agree_page_for agree_seq agree_get_page)

lemma agree_alloc_body:
  "(\<And>z al h s. agree (f z al h s) (g z al h s)) \<Longrightarrow> (\<And>z s. agree (k z s) (k' z s)) \<Longrightarrow>
    agree (alloc_body f k z al h s) (alloc_body g k' z al h s)"
  unfolding alloc_body_def Let_def by (intro agree_intros agree_alloc_expand)

lemma agree_alloc_Suc: "agree (alloc n z al h s) (alloc (Suc n) z al h s)"
proof (induction n arbitrary: z al h s)
  case 0
  show ?case by (simp add: agree_def stop_def)
next
  case (Suc n)
  show ?case unfolding alloc.simps(2) [of n] alloc.simps(2) [of "Suc n"]
    by (intro agree_alloc_body agree_kmalloc_with Suc.IH [unfolded alloc.simps(2)])
qed

text \<open>
  The fuel of \<open>alloc\<close> is only a bound on its recursion: once it returns or halts for a
  reason of the code, any larger bound gives the same outcome, and so do the \<open>kmalloc\<close>
  variants built on it.
\<close>

theorem alloc_fuel:
  assumes "alloc n sz al h s \<noteq> Inl No_Fuel" and "n \<le> m"
  shows "alloc m sz al h s = alloc n sz al h s"
  using assms(2,1)
proof (induction m rule: dec_induct)
  case (step m)
  then show ?case using agree_alloc_Suc [of m sz al h s] by (simp add: agree_def)
qed simp

theorem alloc_fuel_witness:
  "alloc 7 0x10 0 0x100 example_heap = alloc 1 0x10 0 0x100 example_heap"
proof -
  have "(True, 0x2000) \<in> set [(True, 0x2000 :: nat)]" "unat (0x10 :: u32) + 20 \<le> 0x2000"
    by (simp_all add: unat_numeral32)
  then have "alloc 1 0x10 0 0x100 example_heap \<noteq> Inl No_Fuel"
    using alloc_unaligned [OF example_heap_ok, of "0x2000" "0x10" 0] by (metis One_nat_def Inl_Inr_False)
  then show ?thesis using alloc_fuel [of 1 "0x10" 0 "0x100" example_heap 7] by simp
qed

end
