(* ===== verification/Heap_Free.thy ===== *)
theory Heap_Free
  imports Heap_Alloc
begin

text \<open>
  \<open>free\<close> against the abstract view: the block becomes a hole, is joined with the holes around it
  and entered in the index when it is not part of one that is; what the code leaves behind when the
  block on the right is a hole; and the checks on the pointer it is given.
\<close>

unbundle bit_operations_syntax


subsection \<open>Reading a block and its neighbours\<close>

lemma block_at:
  assumes "chain m st (bs1 @ (b, n) # bs2)" and "a = st + bsum bs1"
  shows "20 \<le> n" and "hdr m a b n" and "b = False \<Longrightarrow> ftr m a n"
  using assms by simp_all

text \<open>The address arithmetic of \<open>free\<close> on a block of \<open>n\<close> bytes at \<open>a\<close>.\<close>

lemma free_addresses:
  assumes "20 \<le> n" and "8 \<le> a"
  shows "of_nat (a + 12) - sizeof_header = (of_nat a :: u32)"
    and "of_nat a + of_nat n - sizeof_footer = (of_nat (a + n - 8) :: u32)"
    and "of_nat (a + n - 8) + sizeof_footer = (of_nat (a + n) :: u32)"
    and "of_nat a - sizeof_footer = (of_nat (a - 8) :: u32)"
  using assms by (simp_all add: sizeof_header_def sizeof_footer_def)

definition free_with ::
  "u32 \<Rightarrow> u32 \<Rightarrow> u32 \<Rightarrow> (machine, unit) prog" where
  "free_with header footer h s =
     (case unify_left header footer s of
        (header, do_add, s) \<Rightarrow>
          (case unify_right header footer h s of
             Inl e \<Rightarrow> Inl e
           | Inr (footer', s) \<Rightarrow>
               (case free_contract header footer' (footer + sizeof_footer) h s of
                  Inl e \<Rightarrow> Inl e
                | Inr (_, s) \<Rightarrow> if do_add then heap_insert header h s else Inr ((), s))))"

text \<open>Past the checks of the pointer.\<close>

lemma free_checked:
  assumes "hdr (mem s) a b n" and "ftr (mem s) a n" and "20 \<le> n" and "8 \<le> a" and "a + n < 4294967296"
  shows "free (of_nat (a + 12)) h s = free_with (of_nat a) (of_nat (a + n - 8)) h (set_is_hole (of_nat a) 1 s)"
proof -
  have p: "(of_nat (a + 12) :: u32) \<noteq> 0" using of_nat_eq0 [of "a + 12"] assms(3,5) by simp
  have m: "h_size (of_nat a) s = of_nat n" "h_magic (of_nat a) s = HEAP_MAGIC"
    "f_magic (of_nat (a + n - 8)) s = HEAP_MAGIC"
    using assms(1,2) by (simp_all add: hdr_def ftr_def rd_def)
  show ?thesis
    unfolding free_def Let_def free_addresses(1) [OF assms(3,4)] m free_addresses(2) [OF assms(3,4)] free_with_def
    using p by simp
qed

subsection \<open>What a step changes\<close>

text \<open>
  \<open>heap_touched h s lo hi t\<close>: from \<open>s\<close> to \<open>t\<close> only the index, its array and the bytes of the
  heap between \<open>lo\<close> and \<open>hi\<close> have changed.
\<close>

definition heap_touched :: "u32 \<Rightarrow> machine \<Rightarrow> nat \<Rightarrow> nat \<Rightarrow> machine \<Rightarrow> bool" where
  "heap_touched h s lo hi t \<longleftrightarrow> (\<exists>oa m. t = with_index h oa m s \<and> array oa = array (index (heap_at s h))
     \<and> max_size oa = max_size (index (heap_at s h)) \<and> outside_heap h s lo hi m)"

lemma heap_touchedI:
  "array oa = array (index (heap_at s h)) \<Longrightarrow> max_size oa = max_size (index (heap_at s h)) \<Longrightarrow> outside_heap h s lo hi m \<Longrightarrow>
    heap_touched h s lo hi (with_index h oa m s)"
  unfolding heap_touched_def by blast

lemma heap_touched_fields:
  assumes "heap_touched h s lo hi t"
  shows "start_address (heap_at t h) = start_address (heap_at s h)" and "end_address (heap_at t h) = end_address (heap_at s h)"
    and "array (index (heap_at t h)) = array (index (heap_at s h))"
    and "max_size (index (heap_at t h)) = max_size (index (heap_at s h))"
    and "outside_heap h s lo hi (mem t)" and "max_address (heap_at t h) = max_address (heap_at s h)"
  using assms by (auto simp: heap_touched_def)

lemma outside_heap_mono: "outside_heap h s lo hi m \<Longrightarrow> lo' \<le> lo \<Longrightarrow> hi \<le> hi' \<Longrightarrow> outside_heap h s lo' hi' m"
  by (simp add: outside_heap_def)

lemma heap_touched_mono: "heap_touched h s lo hi t \<Longrightarrow> lo' \<le> lo \<Longrightarrow> hi \<le> hi' \<Longrightarrow> heap_touched h s lo' hi' t"
  unfolding heap_touched_def using outside_heap_mono by blast

lemma heap_touched_trans:
  assumes "heap_touched h s lo hi t" and "heap_touched h t lo hi u"
  shows "heap_touched h s lo hi u"
proof -
  obtain oa m where t: "t = with_index h oa m s" "array oa = array (index (heap_at s h))"
    "max_size oa = max_size (index (heap_at s h))" "outside_heap h s lo hi m"
    using assms(1) by (auto simp: heap_touched_def)
  obtain oa' m' where u: "u = with_index h oa' m' t" "array oa' = array (index (heap_at t h))"
    "max_size oa' = max_size (index (heap_at t h))" "outside_heap h t lo hi m'"
    using assms(2) by (auto simp: heap_touched_def)
  have "outside_heap h s lo hi m'" using t(2-4) u(4) unfolding t(1) by (simp add: outside_heap_def)
  moreover have "u = with_index h oa' m' s" unfolding u(1) t(1) by simp
  ultimately show ?thesis using t u by (simp add: heap_touchedI)
qed

lemma only_in_outside: "only_in lo hi (mem s) m \<Longrightarrow> outside_heap h s lo hi m"
  by (simp add: outside_heap_def only_in_def)

lemma index_only_outside:
  "only_in (oa_lo (index (heap_at s h))) (oa_hi (index (heap_at s h))) (mem s) m \<Longrightarrow> outside_heap h s lo hi m"
  by (simp add: outside_heap_def only_in_def)

subsection \<open>A heap whose index lacks some holes\<close>

definition heap_lacks :: "u32 \<Rightarrow> machine \<Rightarrow> block list \<Rightarrow> nat multiset \<Rightarrow> bool" where
  "heap_lacks h s bs X \<longleftrightarrow>
     oa_ok (index (heap_at s h)) \<and> less_than (index (heap_at s h)) = Header_T_Less_Than
     \<and> oa_hi (index (heap_at s h)) \<le> heap_start h s
     \<and> heap_start h s + bsum bs = heap_end h s \<and> chain (mem s) (heap_start h s) bs
     \<and> mset (map unat (elems (mem s) (index (heap_at s h)))) + X = mset (hole_addrs (heap_start h s) bs)"

lemma heap_lacks_none: "heap_lacks h s bs {#} = heap_ok h s bs"
  by (simp add: heap_lacks_def heap_ok_def)

lemma heap_lacksD:
  assumes "heap_lacks h s bs X"
  shows "oa_ok (index (heap_at s h))" and "less_than (index (heap_at s h)) = Header_T_Less_Than"
    and "oa_hi (index (heap_at s h)) \<le> heap_start h s"
    and "heap_start h s + bsum bs = heap_end h s" and "chain (mem s) (heap_start h s) bs"
    and "mset (map unat (elems (mem s) (index (heap_at s h)))) + X = mset (hole_addrs (heap_start h s) bs)"
    and "heap_start h s + bsum bs < 4294967296"
  using assms unat_bound32 [of "end_address (heap_at s h)"] by (simp_all add: heap_lacks_def)

text \<open>Entries of the index whose headers a store leaves alone keep the index in order.\<close>

lemma index_sorted_kept:
  assumes "index_sorted h s" and "elems (mem t) (index (heap_at t h)) = elems (mem s) (index (heap_at s h))"
    and "\<And>y. y \<in> set (elems (mem s) (index (heap_at s h))) \<Longrightarrow> ld32 (mem t) (y + 8) = ld32 (mem s) (y + 8)"
  shows "index_sorted h t"
  using assms sorted_by_sizes [of "elems (mem s) (index (heap_at s h))" "mem t" "mem s"] by (simp add: index_sorted_def)

subsection \<open>Marking the block as a hole\<close>

lemma mark_hole_chain:
  assumes "chain m st (bs1 @ (False, n) # bs2)" and "a = st + bsum bs1" and "a + n + bsum bs2 < 4294967296"
  shows "chain (st8 m (of_nat a + 4) 1) st (bs1 @ (True, n) # bs2)"
    and "only_in (a + 4) (a + 5) m (st8 m (of_nat a + 4) 1)" and "ftr (st8 m (of_nat a + 4) 1) a n"
proof -
  note b = block_at [OF assms(1,2)]
  show o: "only_in (a + 4) (a + 5) m (st8 m (of_nat a + 4) 1)"
    using b(1) assms(3) by (intro only_in_st8) (simp_all add: unat_heap)
  have "hdr (st8 m (of_nat a + 4) 1) a True n"
    using b(1,2) assms(3) by (simp add: hdr_def ld32_st8_far unat_heap hole_byte_def)
  then have "chain (st8 m (of_nat a + 4) 1) (st + bsum bs1) [(True, n)]"
    using b(1) assms(2) by simp
  from chain_replace [of m st bs1 n bs2, OF _ _ this] show
    "chain (st8 m (of_nat a + 4) 1) st (bs1 @ (True, n) # bs2)"
    using assms o b(1) by (simp add: only_in_same_on)
  show "ftr (st8 m (of_nat a + 4) 1) a n"
    using b(1,3) assms(3) by (subst ftr_same_on [OF only_in_same_on [OF o, of "a + n" "a + 5"]]) simp_all
qed

lemma freed_marked:
  assumes ok: "heap_ok h s bs" and bs: "bs = bs1 @ (False, n) # bs2" and a: "a = heap_start h s + bsum bs1"
    and t: "t = set_is_hole (of_nat a) 1 s"
  shows "heap_lacks h t (bs1 @ (True, n) # bs2) {#a#}" and "heap_touched h s (a + 4) (a + 5) t"
    and "only_in (a + 4) (a + 5) (mem s) (mem t)" and "ftr (mem t) a n" and "index (heap_at t h) = index (heap_at s h)"
    and "elems (mem t) (index (heap_at t h)) = elems (mem s) (index (heap_at s h))"
    and "index_sorted h s \<Longrightarrow> index_sorted h t"
proof -
  note D = heap_okD [OF ok]
  note c = D(5) [unfolded bs]
  have top: "a + n + bsum bs2 < 4294967296" using D(7) by (simp add: a bs)
  note n = block_at [OF c a] and m = mark_hole_chain [OF c a top]
  have tw: "t = with_index h (index (heap_at s h)) (st8 (mem s) (of_nat a + 4) 1) s"
    by (simp add: t store_with_index [where h = h and s = s])
  show o: "only_in (a + 4) (a + 5) (mem s) (mem t)" using m(2) by (simp add: tw)
  show "ftr (mem t) a n" "index (heap_at t h) = index (heap_at s h)" using m(3) by (simp_all add: tw)
  show e: "elems (mem t) (index (heap_at t h)) = elems (mem s) (index (heap_at s h))"
    unfolding tw with_index_simps using D(3) a by (intro elems_same_on [OF D(1)] only_in_same_on [OF m(2)]) simp
  show "heap_touched h s (a + 4) (a + 5) t"
    unfolding tw by (rule heap_touchedI [OF refl refl only_in_outside [OF m(2)]])
  show "heap_lacks h t (bs1 @ (True, n) # bs2) {#a#}"
    unfolding heap_lacks_def e using D m(1) by (simp add: tw bs a)
  assume srt: "index_sorted h s"
  show "index_sorted h t"
  proof (rule index_sorted_kept [OF srt e])
    fix y assume "y \<in> set (elems (mem s) (index (heap_at s h)))"
    then have "unat y \<in> set_mset (mset (map unat (elems (mem s) (index (heap_at s h)))))" by simp
    then have y: "unat y \<in> set (hole_addrs (heap_start h s) bs1 @ hole_addrs (heap_start h s + bsum bs1 + n) bs2)"
      unfolding D(6) by (simp add: bs add.assoc)
    show "ld32 (mem t) (y + 8) = ld32 (mem s) (y + 8)"
      using c top n(1) a by (intro other_hole_sizes [OF _ _ _ only_in_same_on [OF o] only_in_same_on [OF o] y]) simp_all
  qed
qed

subsection \<open>The left neighbour\<close>

text \<open>
  Neighbours that are not merged: an allocated block, or nothing at the start of the heap
  when the word before it does not look like a footer.
\<close>

definition left_solid :: "u32 \<Rightarrow> machine \<Rightarrow> block list \<Rightarrow> bool" where
  "left_solid h s bs1 \<longleftrightarrow> (bs1 = [] \<and> rd (of_nat (heap_start h s - 8)) s \<noteq> HEAP_MAGIC)
     \<or> (\<exists>bs0 l. bs1 = bs0 @ [(False, l)])"

definition right_solid :: "block list \<Rightarrow> bool" where
  "right_solid bs2 \<longleftrightarrow> (\<exists>k bs3. bs2 = (False, k) # bs3)"

lemma unify_left_none:
  assumes "rd (header - sizeof_footer) s \<noteq> HEAP_MAGIC \<or> h_is_hole (rd (header - sizeof_footer + 4) s) s \<noteq> 1"
  shows "unify_left header footer s = (header, True, s)"
  using assms by (auto simp: unify_left_def Let_def)

lemma left_neighbour:
  assumes "chain m st (bs0 @ (b, l) # bs2)" and "a = st + bsum bs0 + l" and "8 \<le> st" and "ftr m (st + bsum bs0) l"
  shows "ld32 m (of_nat (a - 8)) = HEAP_MAGIC" and "ld32 m (of_nat (a - 8) + 4) = of_nat (a - l)"
    and "ld8 m (of_nat (a - l) + 4) = hole_byte b" and "ld32 m (of_nat (a - l) + 8) = of_nat l"
  using block_at [OF assms(1) refl] assms(2,4) by (simp_all add: ftr_def hdr_def)

lemma left_solid_step:
  assumes "chain (mem s) (heap_start h s) (bs1 @ (b, n) # bs2)" and "a = heap_start h s + bsum bs1"
    and "8 \<le> heap_start h s" and "left_solid h s bs1"
  shows "unify_left (of_nat a) f s = (of_nat a, True, s)"
proof (rule unify_left_none)
  note n = block_at [OF assms(1,2)]
  have f: "of_nat a - sizeof_footer = (of_nat (a - 8) :: u32)"
    using free_addresses(4) [OF n(1), of a] assms(2,3) by simp
  show "rd (of_nat a - sizeof_footer) s \<noteq> HEAP_MAGIC
      \<or> h_is_hole (rd (of_nat a - sizeof_footer + 4) s) s \<noteq> 1"
  proof (cases "bs1 = []")
    case True
    then show ?thesis using assms(2,4) unfolding f by (simp add: left_solid_def)
  next
    case False
    then obtain bs0 l where b: "bs1 = bs0 @ [(False, l)]" using assms(4) by (auto simp: left_solid_def)
    have c: "chain (mem s) (heap_start h s) (bs0 @ (False, l) # (b, n) # bs2)"
      using assms(1) unfolding b by simp
    then have "ftr (mem s) (heap_start h s + bsum bs0) l" by simp
    from left_neighbour [OF c _ assms(3) this, of a] show ?thesis
      using assms(2) b unfolding f by (simp add: rd_def h_is_hole_def hole_byte_def del: of_nat_diff)
  qed
qed

lemma left_solid_kept:
  assumes "left_solid h s bs1" and "only_in lo hi (mem s) (mem t)" and "heap_start h s \<le> lo" and "8 \<le> heap_start h s"
    and "start_address (heap_at t h) = start_address (heap_at s h)"
  shows "left_solid h t bs1"
proof (cases "bs1 = []")
  case True
  have u: "unat (of_nat (heap_start h s - 8) :: u32) = heap_start h s - 8"
    using unat_bound32 [of "start_address (heap_at s h)"] by (intro unat_of_nat32) simp
  have "ld32 (mem t) (of_nat (heap_start h s - 8)) = ld32 (mem s) (of_nat (heap_start h s - 8))"
    by (rule ld32_only_in [OF assms(2)]) (use u assms(3,4) unat_bound32 [of "start_address (heap_at s h)"] in auto)
  then show ?thesis using assms(1,5) True by (simp add: left_solid_def rd_def)
qed (use assms(1) in \<open>simp add: left_solid_def\<close>)

subsection \<open>Merging with the hole on the left\<close>

lemma merge_left_mem:
  assumes c: "chain m st (bs0 @ (True, l) # (b, n) # bs2)" and f: "ftr m (d + l) n" and d: "d = st + bsum bs0"
    and top: "d + l + n + bsum bs2 < 4294967296"
    and m': "m' = st32 (st32 m (of_nat (d + l + n - 8) + 4) (of_nat d)) (of_nat d + 8) (of_nat (l + n))"
  shows "chain m' st (bs0 @ (True, l + n) # bs2)" and "only_in d (d + l + n) m m'" and "ftr m' d (l + n)"
proof -
  define f where "f = d + l + n - 8"
  have L: "20 \<le> l" "hdr m d True l" and N: "20 \<le> n" "ftr m (d + l) n"
    using c d \<open>ftr m (d + l) n\<close> by simp_all
  have f: "d + 12 \<le> f" "f + 8 = d + l + n" "f + 8 < 4294967296" using L(1) N(1) top by (simp_all add: f_def)
  have m'': "m' = st32 (st32 m (of_nat f + 4) (of_nat d)) (of_nat d + 8) (of_nat (l + n))" by (simp add: m' f_def)
  show o: "only_in d (d + l + n) m m'"
    unfolding m'' using f by (intro only_in_st32_step only_in_refl) (simp_all add: unat_heap)
  have "hdr m' d True (l + n)"
    unfolding m'' using L f by (simp add: hdr_def ld32_st32_far ld8_st32_far unat_heap del: of_nat_add)
  then have "chain m' (st + bsum bs0) [(True, l + n)]" using L(1) d by simp
  from chain_replace [of m st bs0 "l + n" bs2, OF _ _ this] show "chain m' st (bs0 @ (True, l + n) # bs2)"
    using c d top o by (simp add: only_in_same_on add.assoc)
  have "ld32 m' (of_nat f) = HEAP_MAGIC" "ld32 m' (of_nat f + 4) = of_nat d"
    unfolding m'' using N(2) f by (simp_all add: ftr_def f_def [symmetric] add.assoc [symmetric] ld32_st32_far unat_heap)
  then show "ftr m' d (l + n)" by (simp add: ftr_def f_def add.assoc)
qed

lemma unify_left_hole:
  assumes c: "chain (mem s) (heap_start h s) (bs0 @ (True, l) # (b, n) # bs2)" and d: "d = heap_start h s + bsum bs0"
    and fl: "ftr (mem s) d l" and st: "8 \<le> heap_start h s" and top: "d + l + n + bsum bs2 < 4294967296"
  shows "unify_left (of_nat (d + l)) (of_nat (d + l + n - 8)) s =
    (of_nat d, False, with_index h (index (heap_at s h))
      (st32 (st32 (mem s) (of_nat (d + l + n - 8) + 4) (of_nat d)) (of_nat d + 8) (of_nat (l + n))) s)"
proof -
  have L: "20 \<le> l" "hdr (mem s) d True l" and N: "20 \<le> n" "hdr (mem s) (d + l) b n"
    using c d by simp_all
  have nb: "ld32 (mem s) (of_nat (d + l - 8)) = HEAP_MAGIC" "ld32 (mem s) (of_nat (d + l - 8) + 4) = of_nat d"
    "ld8 (mem s) (of_nat d + 4) = hole_byte True"
    using left_neighbour [OF c _ st, of "d + l"] d fl by simp_all
  have f: "of_nat (d + l) - sizeof_footer = (of_nat (d + l - 8) :: u32)"
    using free_addresses(4) [OF N(1), of "d + l"] L(1) by simp
  define g where "g = d + l + n - 8"
  have g: "d + 12 \<le> g" "g + 8 < 4294967296" using L(1) N(1) top by (simp_all add: g_def)
  have "ld32 (st32 (mem s) (of_nat g + 4) (of_nat d)) (of_nat d + 8) = of_nat l"
    using L g by (simp add: hdr_def ld32_st32_far unat_heap)
  then show ?thesis
    unfolding unify_left_def f Let_def g_def [symmetric] using nb N(2)
    by (simp add: rd_def h_is_hole_def hdr_def hole_byte_def store_with_index [where h = h and s = s]
        add.commute del: of_nat_add) (simp add: add.commute)
qed

lemma left_merged:
  assumes lk: "heap_lacks h t (bs0 @ (True, l) # (True, n) # bs2) {#d + l#}" and d: "d = heap_start h t + bsum bs0"
    and f: "ftr (mem t) d l" "ftr (mem t) (d + l) n" and st: "8 \<le> heap_start h t"
  obtains u where "unify_left (of_nat (d + l)) (of_nat (d + l + n - 8)) t = (of_nat d, False, u)"
    and "heap_ok h u (bs0 @ (True, l + n) # bs2)" and "heap_touched h t d (d + l + n) u"
    and "only_in d (d + l + n) (mem t) (mem u)" and "ftr (mem u) d (l + n)" and "index (heap_at u h) = index (heap_at t h)"
    and "elems (mem u) (index (heap_at u h)) = elems (mem t) (index (heap_at t h))"
proof -
  note D = heap_lacksD [OF lk]
  have top: "d + l + n + bsum bs2 < 4294967296" using D(7) by (simp add: d)
  define m where "m = st32 (st32 (mem t) (of_nat (d + l + n - 8) + 4) (of_nat d)) (of_nat d + 8) (of_nat (l + n))"
  define u where "u = with_index h (index (heap_at t h)) m t"
  note ml = merge_left_mem [OF D(5) f(2) d top m_def]
  have ul: "unify_left (of_nat (d + l)) (of_nat (d + l + n - 8)) t = (of_nat d, False, u)"
    using unify_left_hole [OF D(5) d f(1) st top] by (simp add: u_def m_def)
  have e: "elems m (index (heap_at t h)) = elems (mem t) (index (heap_at t h))"
    using D(3) d by (intro elems_same_on [OF D(1)] only_in_same_on [OF ml(2)]) simp
  have "heap_ok h u (bs0 @ (True, l + n) # bs2)"
    using D ml(1) e by (simp add: heap_ok_def u_def d add.assoc)
  moreover have "heap_touched h t d (d + l + n) u"
    unfolding u_def by (rule heap_touchedI [OF refl refl only_in_outside [OF ml(2)]])
  ultimately show ?thesis using that [OF ul] ml(2,3) e by (simp add: u_def)
qed

subsection \<open>Merging with the hole on the right\<close>

lemma unify_right_none:
  assumes "rd (footer + sizeof_footer) s \<noteq> HEAP_MAGIC \<or> h_is_hole (footer + sizeof_footer) s = 0"
  shows "unify_right header footer h s = Inr (footer, s)"
  using assms by (auto simp: unify_right_def Let_def)

lemma right_neighbour:
  assumes "chain m st (bs1 @ (b, n) # (c, k) # bs3)" and "a = st + bsum bs1"
  shows "ld32 m (of_nat (a + n)) = HEAP_MAGIC" and "ld8 m (of_nat (a + n) + 4) = hole_byte c"
    and "ld32 m (of_nat (a + n) + 8) = of_nat k" and "20 \<le> k"
  using assms by (simp_all add: hdr_def del: of_nat_add)

lemma right_solid_step:
  assumes "chain (mem s) st (bs1 @ (b, n) # bs2)" and "a = st + bsum bs1" and "right_solid bs2" and "8 \<le> st"
  shows "unify_right hd' (of_nat (a + n - 8)) h s = Inr (of_nat (a + n - 8), s)"
proof (rule unify_right_none)
  note n = block_at [OF assms(1,2)]
  have f: "of_nat (a + n - 8) + sizeof_footer = (of_nat (a + n) :: u32)"
    using free_addresses(3) [OF n(1), of a] assms(2,4) by simp
  obtain k bs3 where "bs2 = (False, k) # bs3" using assms(3) by (auto simp: right_solid_def)
  from right_neighbour(2) [OF assms(1) [unfolded this] assms(2)]
  show "rd (of_nat (a + n - 8) + sizeof_footer) s \<noteq> HEAP_MAGIC \<or> h_is_hole (of_nat (a + n - 8) + sizeof_footer) s = 0"
    unfolding f by (simp add: h_is_hole_def hole_byte_def del: of_nat_add)
qed

lemma index_loop_found:
  assumes "oa_ok (index (heap_at s h))" and "x \<in> set (elems (mem s) (index (heap_at s h)))"
  obtains j where "index_loop h x 0 s = Inr j" and "j < oa_size (index (heap_at s h))"
    and "elems (mem s) (index (heap_at s h)) ! unat j = x"
proof -
  let ?xs = "elems (mem s) (index (heap_at s h))"
  let ?k = "length (takeWhile (\<lambda>y. y \<noteq> x) ?xs)"
  have "takeWhile (\<lambda>y. y \<noteq> x) ?xs \<noteq> ?xs" using assms(2) by auto
  then have l: "?k < length ?xs"
    using takeWhile_eq_take [of "\<lambda>y. y \<noteq> x" ?xs] length_takeWhile_le [of "\<lambda>y. y \<noteq> x" ?xs]
    by (metis le_neq_implies_less take_all_iff)
  then have u: "unat (of_nat ?k :: u32) = ?k"
    using unat_bound32 [of "oa_size (index (heap_at s h))"] by (intro unat_of_nat32) simp
  show ?thesis
  proof (rule that [OF index_loop_spec])
    show "of_nat ?k < oa_size (index (heap_at s h))" using l u by (simp add: word_less_nat_alt)
    show "?xs ! unat (of_nat ?k :: u32) = x" unfolding u using nth_length_takeWhile [OF l] by simp
  qed
qed

text \<open>The merge: sizes are added and the right hole's entry leaves the index.\<close>

lemma merge_right_mem:
  assumes c: "chain m st (bs1 @ (True, n) # (True, k) # bs3)" and a: "a = st + bsum bs1"
    and top: "a + n + k + bsum bs3 < 4294967296"
  shows "chain (st32 m (of_nat a + 8) (of_nat (n + k))) st (bs1 @ (True, n + k) # bs3)"
    and "only_in (a + 8) (a + 12) m (st32 m (of_nat a + 8) (of_nat (n + k)))"
proof -
  let ?m = "st32 m (of_nat a + 8) (of_nat (n + k))"
  have N: "20 \<le> n" "hdr m a True n" using c a by simp_all
  show o: "only_in (a + 8) (a + 12) m ?m" using top N(1) by (intro only_in_st32) (simp_all add: unat_heap)
  have "hdr ?m a True (n + k)"
    using N top by (simp add: hdr_def ld32_st32_far ld8_st32_far unat_heap del: of_nat_add)
  then have "chain ?m (st + bsum bs1) [(True, n + k)]" using N(1) a by simp
  from chain_replace [of m st bs1 "n + k" bs3, OF _ _ this] show "chain ?m st (bs1 @ (True, n + k) # bs3)"
    using c a top N(1) o by (simp add: only_in_same_on add.assoc)
qed

lemma unify_right_hole:
  assumes lk: "heap_lacks h t (bs1 @ (True, n) # (True, k) # bs3) X" and a: "a = heap_start h t + bsum bs1"
    and st: "8 \<le> heap_start h t" and X: "a + n \<notin># X"
  obtains v where "unify_right (of_nat a) (of_nat (a + n - 8)) h t = Inr (of_nat (a + n + k - 8), v)"
    and "heap_lacks h v (bs1 @ (True, n + k) # bs3) X" and "heap_touched h t a (a + n + k) v" and "index_room h v"
    and "same_on (a + 12) (heap_end h t) (mem t) (mem v)" and "X = {#a#} \<Longrightarrow> index_sorted h t \<Longrightarrow> index_sorted h v"
proof -
  let ?oa = "index (heap_at t h)"
  note D = heap_lacksD [OF lk] and c = heap_lacksD(5) [OF lk]
  have top: "a + n + k + bsum bs3 < 4294967296" using D(7) by (simp add: a)
  have N: "20 \<le> n" "hdr (mem t) a True n" using c a by simp_all
  note R = right_neighbour [OF c a]
  have f: "of_nat (a + n - 8) + sizeof_footer = (of_nat (a + n) :: u32)"
    using free_addresses(3) [OF N(1), of a] a st by simp
  define m1 where "m1 = st32 (mem t) (of_nat a + 8) (of_nat (n + k))"
  define u where "u = with_index h ?oa m1 t"
  have c1: "chain m1 (heap_start h t) (bs1 @ (True, n + k) # bs3)" and o: "only_in (a + 8) (a + 12) (mem t) m1"
    unfolding m1_def by (rule merge_right_mem [OF c a top])+
  have w: "wr (of_nat a + 8) (h_size (of_nat a) t + h_size (of_nat (a + n)) t) t = u"
    using N(2) R(3) by (simp add: u_def m1_def hdr_def rd_def store_with_index [where h = h and s = t] del: of_nat_add) simp
  have "ld32 m1 (of_nat (a + n) + 8) = of_nat k"
    using R(3) top N(1) R(4) by (subst ld32_only_in [OF o]) (simp_all add: unat_heap del: of_nat_add)
  then have hs: "of_nat (a + n) + h_size (of_nat (a + n)) u - sizeof_footer = (of_nat (a + n + k - 8) :: u32)"
    using free_addresses(2) [of k "a + n"] R(4) a st by (simp add: u_def del: of_nat_add of_nat_diff)
  have e: "elems m1 ?oa = elems (mem t) ?oa"
    using D(3) a by (intro elems_same_on [OF D(1)] only_in_same_on [OF o]) simp
  have "a + n \<in># mset (map unat (elems (mem t) ?oa)) + X" unfolding D(6) by (simp add: a)
  then have "a + n \<in> unat ` set (elems (mem t) ?oa)" using X by simp
  then obtain x where x: "x \<in> set (elems (mem t) ?oa)" "unat x = a + n" by auto
  have xw: "x = of_nat (a + n)" unfolding x(2) [symmetric] by simp
  obtain j where j: "index_loop h (of_nat (a + n)) 0 u = Inr j" "j < oa_size (index (heap_at u h))"
      "elems (mem u) (index (heap_at u h)) ! unat j = of_nat (a + n)"
    by (rule index_loop_found [of u h "of_nat (a + n)"]) (use D(1) x(1) xw e in \<open>simp_all add: u_def\<close>)
  obtain oa m where r: "remove_ordered_array j ?oa m1 = (oa, m)" by (cases "remove_ordered_array j ?oa m1")
  have ju: "j < oa_size ?oa" using j(2) by (simp add: u_def)
  note rm = remove_ordered_array_elems [OF D(1) ju, of m1, unfolded r, simplified]
  have "unat (oa_size ?oa - 1) = unat (oa_size ?oa) - 1" "0 < unat (oa_size ?oa)"
    using ju by (simp_all add: unat_sub32 word_less_nat_alt)
  then have oa: "oa_ok oa" "unat (oa_size oa) < unat (max_size oa)" "array oa = array ?oa" "max_size oa = max_size ?oa"
    "less_than oa = less_than ?oa"
    using rm D(1) by (auto simp: oa_ok_def)
  have om: "only_in (oa_lo ?oa) (oa_hi ?oa) m1 m" using rm by simp
  have same: "same_on (heap_start h t) (heap_end h t) m1 m" using D(3) by (intro only_in_same_on [OF om]) simp
  have hole: "h_magic (of_nat (a + n)) t = HEAP_MAGIC \<and> h_is_hole (of_nat (a + n)) t \<noteq> 0"
    using R(1,2) by (simp add: rd_def h_is_hole_def hole_byte_def del: of_nat_add)
  define v where "v = with_index h oa m t"
  have "heap_remove j h u = v"
    using heap_remove_with [of j u h oa m] r by (simp add: u_def v_def)
  then have run: "unify_right (of_nat a) (of_nat (a + n - 8)) h t = Inr (of_nat (a + n + k - 8), v)"
    unfolding unify_right_def Let_def f w hs using hole j(1,2) by (simp del: of_nat_add of_nat_diff)
  have "mset (elems m1 ?oa) = add_mset (elems m1 ?oa ! unat j) (mset (elems m oa))"
    unfolding conjunct1 [OF rm] by (rule mset_remove_nth) (use ju in \<open>simp add: word_less_nat_alt\<close>)
  then have "mset (map unat (elems m1 ?oa)) = add_mset (unat (elems m1 ?oa ! unat j)) (mset (map unat (elems m oa)))"
    by simp
  moreover have "elems m1 ?oa ! unat j = of_nat (a + n)" using j(3) by (simp add: u_def)
  ultimately have "mset (map unat (elems (mem t) ?oa)) = add_mset (a + n) (mset (map unat (elems m oa)))"
    using x(2) xw by (simp add: e)
  then have "mset (map unat (elems m oa)) + X = mset (hole_addrs (heap_start h t) (bs1 @ (True, n + k) # bs3))"
    using D(6) by (simp add: a add.assoc)
  moreover have "chain m (heap_start h t) (bs1 @ (True, n + k) # bs3)"
    using chain_same_on [OF same _ _ _ c1] D(4) unat_bound32 [of "end_address (heap_at t h)"] by (simp add: add.assoc)
  ultimately have lv: "heap_lacks h v (bs1 @ (True, n + k) # bs3) X"
    using oa D(1-4) by (simp add: heap_lacks_def v_def add.assoc)
  have srt: "index_sorted h v" if "X = {#a#}" "index_sorted h t"
  proof -
    have "sorted_by (header_t_less_than (mem t)) (elems m oa)"
      unfolding conjunct1 [OF rm] e using that(2) by (intro sorted_by_removed) (simp add: index_sorted_def)
    moreover have "ld32 m (y + 8) = ld32 (mem t) (y + 8)" if "y \<in> set (elems m oa)" for y
    proof -
      have "mset (map unat (elems m oa)) = mset (hole_addrs (heap_start h t) bs1 @ hole_addrs (heap_start h t + bsum bs1 + (n + k)) bs3)"
        using heap_lacksD(6) [OF lv] \<open>X = {#a#}\<close> by (simp add: v_def a add.assoc)
      moreover have "unat y \<in> set_mset (mset (map unat (elems m oa)))" using that by simp
      ultimately have y: "unat y \<in> set (hole_addrs (heap_start h t) bs1 @ hole_addrs (heap_start h t + bsum bs1 + (n + k)) bs3)"
        by (metis set_mset_mset)
      have o': "outside_heap h t a (a + (n + k)) m" using o om N(1) by (simp add: outside_heap_def only_in_def)
      note P = outside_heap_parts [OF o' D(3), unfolded a]
      show ?thesis
        by (rule other_hole_sizes [OF _ _ _ P(1) P(2) y]) (use c top a in \<open>simp_all add: add.assoc\<close>)
    qed
    ultimately show ?thesis using sorted_by_sizes [of "elems m oa" m "mem t"] by (simp add: index_sorted_def v_def)
  qed
  have "heap_touched h t a (a + n + k) v"
    unfolding v_def using oa(3,4) o om N(1) by (intro heap_touchedI) (simp_all add: outside_heap_def only_in_def)
  moreover have "index_room h v" using oa by (simp add: index_room_def v_def word_less_nat_alt)
  moreover have "same_on (a + 12) (heap_end h t) (mem t) (mem v)"
  proof -
    have "same_on (a + 12) (heap_end h t) m1 m" using a by (intro same_on_mono [OF same]) simp_all
    then show ?thesis unfolding v_def with_index_simps
      by (intro same_on_trans [OF only_in_same_on [OF o]]) simp_all
  qed
  ultimately show ?thesis using that [OF run] lv srt by blast
qed

subsection \<open>The end of \<open>free\<close>\<close>

lemma free_contract_none:
  "footer + sizeof_footer \<noteq> end_address (heap_at s h) \<Longrightarrow> free_contract header footer t h s = Inr ((), s)"
  by (simp add: free_contract_def)

lemma not_at_end:
  assumes "20 \<le> n" and "8 \<le> a" and "a + n < heap_end h s"
  shows "free_contract hd' (of_nat (a + n - 8)) t h s = Inr ((), s)"
proof (rule free_contract_none)
  have "unat (of_nat (a + n) :: u32) = a + n"
    using assms(3) unat_bound32 [of "end_address (heap_at s h)"] by (intro unat_of_nat32) simp
  then show "of_nat (a + n - 8) + sizeof_footer \<noteq> end_address (heap_at s h)"
    unfolding free_addresses(3) [OF assms(1,2)] using assms(3) by (metis less_irrefl)
qed

text \<open>Entering a hole in the index.\<close>

lemma hole_entered:
  assumes lk: "heap_lacks h t bs {#a#}" and room: "index_room h t"
  obtains v where "heap_insert (of_nat a) h t = Inr ((), v)" and "heap_ok h v bs" and "\<And>lo hi. heap_touched h t lo hi v"
    and "index_sorted h t \<Longrightarrow> index_sorted h v" and "same_on (heap_start h t) (heap_end h t) (mem t) (mem v)"
proof -
  let ?oa = "index (heap_at t h)" and ?A = "heap_start h t"
  note D = heap_lacksD [OF lk]
  have "a \<in> set_mset (mset (hole_addrs ?A bs))" unfolding D(6) [symmetric] by simp
  then have ua: "unat (of_nat a :: u32) = a" using hole_addrs_range [of a ?A bs] D(7) by (intro unat_of_nat32) simp
  have r: "unat (oa_size ?oa) < unat (max_size ?oa)" using room by (simp add: index_room_def word_less_nat_alt)
  obtain oa m where i: "insert_ordered_array (of_nat a) ?oa (mem t) = Inr (oa, m)"
    "oa = ?oa\<lparr>oa_size := oa_size ?oa + 1\<rparr>" "oa_ok oa" "only_in (oa_lo ?oa) (oa_hi ?oa) (mem t) m"
    "elems m oa = insert_by (header_t_less_than (mem t)) (of_nat a) (elems (mem t) ?oa)"
    "mset (map unat (elems m oa)) = add_mset (unat (of_nat a :: u32)) (mset (map unat (elems (mem t) ?oa)))"
    by (rule insert_hole [OF D(1) r D(2)])
  have same: "same_on ?A (heap_end h t) (mem t) m" using D(3) by (intro only_in_same_on [OF i(4)]) simp
  have cm: "chain m ?A bs" using D(4,7) by (intro chain_same_on [OF same _ _ _ D(5)]) simp_all
  have ms: "mset (map unat (elems m oa)) = mset (hole_addrs ?A bs)" unfolding i(6) ua using D(6) by simp
  have "heap_ok h (with_index h oa m t) bs"
    using i(2,3) D(2-4) cm ms by (simp add: heap_ok_def)
  moreover have "index_sorted h (with_index h oa m t)" if "index_sorted h t"
  proof -
    have "ld32 m (y + 8) = ld32 (mem t) (y + 8)" if "y \<in> set (elems m oa)" for y
    proof -
      have "unat y \<in> set_mset (mset (map unat (elems m oa)))" using that by simp
      then have "unat y \<in> set (hole_addrs ?A bs)" unfolding ms by simp
      from hole_size_same_on [OF same _ _ _ D(5) this] D(4,7) show ?thesis by simp
    qed
    moreover have "sorted_by (header_t_less_than (mem t)) (elems m oa)"
      unfolding i(5) using that by (intro header.insert_by_sorted) (simp add: index_sorted_def)
    ultimately show ?thesis using sorted_by_sizes [of "elems m oa" m "mem t"] by (simp add: index_sorted_def)
  qed
  moreover have "heap_touched h t lo hi (with_index h oa m t)" for lo hi
    using i(2) by (intro heap_touchedI index_only_outside [OF i(4)]) simp_all
  ultimately show ?thesis using that [OF heap_insert_with [OF i(1)]] same by simp
qed

subsection \<open>\<open>free\<close> as an operation on blocks\<close>

text \<open>
  The freed block as a hole of \<open>n\<close> bytes, joined with the hole behind it and with the hole in
  front of it.
\<close>

fun join_right :: "nat \<Rightarrow> block list \<Rightarrow> block list" where
  "join_right n ((True, k) # bs) = (True, n + k) # bs"
| "join_right n bs = (True, n) # bs"

definition join_blocks :: "block list \<Rightarrow> nat \<Rightarrow> block list \<Rightarrow> block list" where
  "join_blocks bs1 n bs2 =
     (case rev bs1 of (True, l) # r \<Rightarrow> rev r @ join_right (l + n) bs2 | _ \<Rightarrow> bs1 @ join_right n bs2)"

lemma join_blocks_simps [simp]:
  "join_blocks (bs0 @ [(True, l)]) n bs2 = bs0 @ join_right (l + n) bs2"
  "join_blocks (bs0 @ [(False, l)]) n bs2 = bs0 @ (False, l) # join_right n bs2"
  "join_blocks [] n bs2 = join_right n bs2"
  by (simp_all add: join_blocks_def)

lemma join_blocks_solid: "left_solid h s bs1 \<Longrightarrow> join_blocks bs1 n bs2 = bs1 @ join_right n bs2"
  by (auto simp: left_solid_def)

text \<open>The bytes of the hole a list of blocks starts or ends with.\<close>

fun right_hole :: "block list \<Rightarrow> nat" where
  "right_hole ((True, k) # bs) = k"
| "right_hole bs = 0"

definition left_hole :: "block list \<Rightarrow> nat" where
  "left_hole bs1 = right_hole (rev bs1)"

lemma left_hole_simps [simp]: "left_hole [] = 0" "left_hole (bs @ [(b, l)]) = (if b then l else 0)"
  by (cases b; simp add: left_hole_def)+

lemma left_hole_solid: "left_solid h s bs1 \<Longrightarrow> left_hole bs1 = 0"
  by (auto simp: left_solid_def)

lemma right_hole_le: "right_hole bs \<le> bsum bs"
  by (cases bs rule: right_hole.cases) simp_all

lemma live_join_right: "live a (join_right N bs) = live (a + N) bs"
  by (cases "(N, bs)" rule: join_right.cases) (simp_all add: add.assoc)

lemma live_join: "live a (join_blocks bs1 n bs2) = live a bs1 \<union> live (a + bsum bs1 + n) bs2"
proof (cases bs1 rule: rev_cases)
  case (snoc ys y)
  then show ?thesis by (cases y; cases "fst y") (auto simp: live_join_right add.assoc)
qed (simp add: live_join_right)

lemma bsum_join: "bsum (join_blocks bs1 n bs2) = bsum bs1 + n + bsum bs2"
proof -
  have "bsum (join_right N bs) = N + bsum bs" for N bs by (cases "(N, bs)" rule: join_right.cases) simp_all
  note j = this
  show ?thesis
  proof (cases bs1 rule: rev_cases)
    case (snoc ys y)
    then show ?thesis by (cases y; cases "fst y") (simp_all add: j)
  qed (simp add: j)
qed

text \<open>
  What \<open>free\<close> needs of its neighbours: the footer of a hole in front must name the header of
  that hole, and a hole behind must not be the last block, because then the heap contracts.
\<close>

definition left_clear :: "u32 \<Rightarrow> machine \<Rightarrow> block list \<Rightarrow> bool" where
  "left_clear h s bs1 \<longleftrightarrow> left_solid h s bs1
     \<or> (\<exists>bs0 l. bs1 = bs0 @ [(True, l)] \<and> ftr (mem s) (heap_start h s + bsum bs0) l)"

definition right_clear :: "block list \<Rightarrow> bool" where
  "right_clear bs2 \<longleftrightarrow> bs2 \<noteq> [] \<and> (\<forall>k. bs2 \<noteq> [(True, k)])"

lemma right_solid_clear: "right_solid bs2 \<Longrightarrow> right_clear bs2"
  by (auto simp: right_solid_def right_clear_def)

text \<open>From the merge on the right to the end.\<close>

lemma free_right:
  assumes lk: "heap_lacks h t (bs1 @ (True, n) # bs2) X" and a: "a = heap_start h t + bsum bs1"
    and st: "8 \<le> heap_start h t" and X: "a + n \<notin># X" and r: "right_clear bs2" and room: "index_room h t"
  obtains f v where "unify_right (of_nat a) (of_nat (a + n - 8)) h t = Inr (f, v)"
    and "free_contract (of_nat a) f x h v = Inr ((), v)"
    and "heap_lacks h v (bs1 @ join_right n bs2) X" and "heap_touched h t a (a + n + right_hole bs2) v" and "index_room h v"
    and "same_on (a + 12) (heap_end h t) (mem t) (mem v)" and "right_solid bs2 \<Longrightarrow> v = t"
    and "X = {#a#} \<Longrightarrow> index_sorted h t \<Longrightarrow> index_sorted h v"
proof -
  note D = heap_lacksD [OF lk] and c = heap_lacksD(5) [OF lk]
  have n: "20 \<le> n" and a8: "8 \<le> a" using c st a by simp_all
  show ?thesis
  proof (cases "right_solid bs2")
    case True
    then have j: "join_right n bs2 = (True, n) # bs2" by (auto simp: right_solid_def)
    have "0 < bsum bs2" using True c by (auto simp: right_solid_def)
    then have e: "free_contract (of_nat a) (of_nat (a + n - 8)) x h t = Inr ((), t)"
      using D(4) a by (intro not_at_end [OF n a8]) simp
    have "heap_touched h t a (a + n + right_hole bs2) t"
      unfolding heap_touched_def
      by (intro exI [of _ "index (heap_at t h)"] exI [of _ "mem t"]) (simp add: with_index_same outside_heap_def)
    then show ?thesis using that [OF right_solid_step [OF c a True st] e] lk room j by (simp add: same_on_def)
  next
    case False
    then obtain k bs3 where b: "bs2 = (True, k) # bs3" "bs3 \<noteq> []"
      using r unfolding right_clear_def right_solid_def by (cases bs2) auto
    obtain v where v: "unify_right (of_nat a) (of_nat (a + n - 8)) h t = Inr (of_nat (a + n + k - 8), v)"
      "heap_lacks h v (bs1 @ (True, n + k) # bs3) X" "heap_touched h t a (a + n + k) v" "index_room h v"
      "same_on (a + 12) (heap_end h t) (mem t) (mem v)" "X = {#a#} \<Longrightarrow> index_sorted h t \<Longrightarrow> index_sorted h v"
      by (rule unify_right_hole [OF lk [unfolded b(1)] a st X]) blast
    have "0 < bsum bs3" using b(2) c unfolding b(1) by (auto simp: neq_Nil_conv)
    then have lt: "a + (n + k) < heap_end h v"
      using D(4) a b(1) heap_touched_fields(2) [OF v(3)] by simp
    have "free_contract (of_nat a) (of_nat (a + (n + k) - 8)) x h v = Inr ((), v)"
      by (rule not_at_end [OF _ a8 lt]) (use n in simp)
    then have e: "free_contract (of_nat a) (of_nat (a + n + k - 8)) x h v = Inr ((), v)" by (simp add: add.assoc)
    show ?thesis using that [OF v(1) e] v(2-6) b(1) False by simp
  qed
qed

text \<open>Up to the merge on the left.\<close>

lemma free_left:
  assumes ok: "heap_ok h s bs" and bs: "bs = bs1 @ (False, n) # bs2" and a: "a = heap_start h s + bsum bs1"
    and st: "8 \<le> heap_start h s" and l: "left_clear h s bs1"
  obtains d N add u bs0 where "unify_left (of_nat a) (of_nat (a + n - 8)) (set_is_hole (of_nat a) 1 s) = (of_nat d, add, u)"
    and "d + N = a + n" and "d \<le> a" and "d = heap_start h s + bsum bs0" and "n \<le> N"
    and "heap_lacks h u (bs0 @ (True, N) # bs2) (if add then {#d#} else {#})" and "heap_touched h s d (a + n) u"
    and "only_in d (a + n) (mem s) (mem u)" and "ftr (mem u) d N" and "index (heap_at u h) = index (heap_at s h)"
    and "elems (mem u) (index (heap_at u h)) = elems (mem s) (index (heap_at s h))"
    and "join_blocks bs1 n bs2 = bs0 @ join_right N bs2" and "d + left_hole bs1 = a" and "add \<longleftrightarrow> left_solid h s bs1"
    and "left_solid h s bs1 \<Longrightarrow> (index_sorted h s \<longrightarrow> index_sorted h u) \<and> heap_touched h s (a + 4) (a + 5) u
      \<and> only_in (a + 4) (a + 5) (mem s) (mem u)"
proof -
  define t where "t = set_is_hole (of_nat a) 1 s"
  note F = freed_marked [OF ok bs a t_def] and D = heap_okD [OF ok]
  note c = heap_lacksD(5) [OF F(1)] and cs = D(5) [unfolded bs]
  have sa: "start_address (heap_at t h) = start_address (heap_at s h)" by (rule heap_touched_fields(1) [OF F(2)])
  have n: "20 \<le> n" using block_at(1) [OF cs a] .
  have at: "a = heap_start h t + bsum bs1" and st': "8 \<le> heap_start h t" using a st by (simp_all add: sa)
  show ?thesis
  proof (cases "left_solid h s bs1")
    case True
    have lt: "left_solid h t bs1" by (rule left_solid_kept [OF True F(3) _ st sa]) (simp add: a)
    have ul: "unify_left (of_nat a) (of_nat (a + n - 8)) t = (of_nat a, True, t)" by (rule left_solid_step [OF c at st' lt])
    show ?thesis
    proof (rule that [OF ul [unfolded t_def] _ _ a, folded t_def])
      show "heap_touched h s a (a + n) t" by (rule heap_touched_mono [OF F(2)]) (use n in simp_all)
      show "only_in a (a + n) (mem s) (mem t)" by (rule only_in_mono [OF F(3)]) (use n in simp_all)
    qed (use F True join_blocks_solid [OF True] left_hole_solid [OF True] in simp_all)
  next
    case False
    then obtain bs0 l where b: "bs1 = bs0 @ [(True, l)]" and fl: "ftr (mem s) (heap_start h s + bsum bs0) l"
      using l by (auto simp: left_clear_def)
    define d where "d = heap_start h s + bsum bs0"
    have dl: "a = d + l" by (simp add: a b d_def)
    have "20 \<le> l" using cs b by simp
    moreover have "a < 4294967296" using D(7) by (simp add: bs a)
    ultimately have fd: "ftr (mem t) d l"
      using ftr_same_on [OF only_in_same_on [OF F(3), of a d], of d l] fl by (simp add: dl d_def)
    have lk: "heap_lacks h t (bs0 @ (True, l) # (True, n) # bs2) {#d + l#}" using F(1) by (simp add: b dl)
    have dt: "d = heap_start h t + bsum bs0" by (simp add: d_def sa)
    obtain u where u: "unify_left (of_nat (d + l)) (of_nat (d + l + n - 8)) t = (of_nat d, False, u)"
      "heap_ok h u (bs0 @ (True, l + n) # bs2)" "heap_touched h t d (d + l + n) u" "only_in d (d + l + n) (mem t) (mem u)"
      "ftr (mem u) d (l + n)" "index (heap_at u h) = index (heap_at t h)"
      "elems (mem u) (index (heap_at u h)) = elems (mem t) (index (heap_at t h))"
      by (rule left_merged [OF lk dt fd F(4) [unfolded dl] st'])
    show ?thesis
    proof (rule that [OF u(1) [folded dl, unfolded t_def], where ?bs0.0 = bs0 and N = "l + n"])
      show "heap_touched h s d (a + n) u"
        by (rule heap_touched_trans [OF heap_touched_mono [OF F(2)] heap_touched_mono [OF u(3)]]) (use n dl in simp_all)
      show "only_in d (a + n) (mem s) (mem u)"
        by (rule only_in_trans [OF only_in_mono [OF F(3)] only_in_mono [OF u(4)]]) (use n dl in simp_all)
    qed (use u(2,5-7) F(5,6) False in \<open>simp_all add: dl d_def heap_lacks_none b\<close>)
  qed
qed

text \<open>All steps together.\<close>

lemma free_in_steps:
  assumes ok: "heap_ok h s bs" and bs: "bs = bs1 @ (False, n) # bs2" and a: "a = heap_start h s + bsum bs1"
    and st: "8 \<le> heap_start h s"
    and L: "unify_left (of_nat a) (of_nat (a + n - 8)) (set_is_hole (of_nat a) 1 s) = (of_nat d, add, u)"
    and R: "unify_right (of_nat d) (of_nat (a + n - 8)) h u = Inr (f, v)"
      "free_contract (of_nat d) f (of_nat (a + n - 8) + sizeof_footer) h v = Inr ((), v)"
  shows "free (of_nat (a + 12)) h s = (if add then heap_insert (of_nat d) h v else Inr ((), v))"
proof -
  note D = heap_okD [OF ok]
  have n: "20 \<le> n" "hdr (mem s) a False n" "ftr (mem s) a n" using D(5) by (simp_all add: bs a)
  have a8: "8 \<le> a" "a + n < 4294967296" using st D(7) by (simp_all add: a bs)
  show ?thesis
    unfolding free_checked [OF n(2,3,1) a8] free_with_def L prod.case R(1) sum.case R(2) by simp
qed

lemma free_joins:
  assumes ok: "heap_ok h s bs" and bs: "bs = bs1 @ (False, n) # bs2" and a: "a = heap_start h s + bsum bs1"
    and st: "8 \<le> heap_start h s" and l: "left_clear h s bs1" and r: "right_clear bs2" and room: "index_room h s"
  obtains v where "free (of_nat (a + 12)) h s = Inr ((), v)" and "heap_ok h v (join_blocks bs1 n bs2)"
    and "heap_touched h s (a - left_hole bs1) (a + n + right_hole bs2) v"
    and "left_solid h s bs1 \<Longrightarrow> same_on (a + 12) (heap_end h s) (mem s) (mem v)"
    and "left_solid h s bs1 \<Longrightarrow> right_solid bs2 \<Longrightarrow> heap_touched h s (a + 4) (a + 5) v"
    and "left_solid h s bs1 \<Longrightarrow> index_sorted h s \<Longrightarrow> index_sorted h v"
    and "\<not> left_solid h s bs1 \<Longrightarrow> right_solid bs2 \<Longrightarrow> only_in (a - left_hole bs1) (a + n) (mem s) (mem v)
      \<and> elems (mem v) (index (heap_at v h)) = elems (mem s) (index (heap_at s h)) \<and> ftr (mem v) (a - left_hole bs1) (left_hole bs1 + n)"
proof -
  have n: "20 \<le> n" using heap_okD(5) [OF ok] by (simp add: bs)
  obtain d N add u bs0 where L: "unify_left (of_nat a) (of_nat (a + n - 8)) (set_is_hole (of_nat a) 1 s) = (of_nat d, add, u)"
    "d + N = a + n" "d \<le> a" "d = heap_start h s + bsum bs0" "n \<le> N"
    "heap_lacks h u (bs0 @ (True, N) # bs2) (if add then {#d#} else {#})" "heap_touched h s d (a + n) u"
    "index (heap_at u h) = index (heap_at s h)" "join_blocks bs1 n bs2 = bs0 @ join_right N bs2"
    and left: "d + left_hole bs1 = a" "add \<longleftrightarrow> left_solid h s bs1" "only_in d (a + n) (mem s) (mem u)" "ftr (mem u) d N"
    "elems (mem u) (index (heap_at u h)) = elems (mem s) (index (heap_at s h))"
    and solid: "left_solid h s bs1 \<Longrightarrow> (index_sorted h s \<longrightarrow> index_sorted h u) \<and> heap_touched h s (a + 4) (a + 5) u
      \<and> only_in (a + 4) (a + 5) (mem s) (mem u)"
    by (rule free_left [OF ok bs a st l]) blast
  have d: "d = a - left_hole bs1" "N = left_hole bs1 + n" using left(1) L(2) by simp_all
  note su = heap_touched_fields(1,2) [OF L(7)]
  have du: "d = heap_start h u + bsum bs0" and st': "8 \<le> heap_start h u" using L(4) st by (simp_all add: su)
  have ru: "index_room h u" using room L(8) by (simp add: index_room_def)
  have X: "d + N \<notin># (if add then {#d#} else {#})" using L(5) n by simp
  obtain f v where R: "unify_right (of_nat d) (of_nat (d + N - 8)) h u = Inr (f, v)"
    "free_contract (of_nat d) f (of_nat (a + n - 8) + sizeof_footer) h v = Inr ((), v)"
    "heap_lacks h v (bs0 @ join_right N bs2) (if add then {#d#} else {#})" "heap_touched h u d (d + N + right_hole bs2) v" "index_room h v"
    "same_on (d + 12) (heap_end h u) (mem u) (mem v)" "right_solid bs2 \<Longrightarrow> v = u"
    "(if add then {#d#} else {#}) = {#d#} \<Longrightarrow> index_sorted h u \<Longrightarrow> index_sorted h v"
    by (rule free_right [OF L(6) du st' X r ru]) blast
  have tv: "heap_touched h s d (a + n + right_hole bs2) v"
    by (rule heap_touched_trans [OF heap_touched_mono [OF L(7)] heap_touched_mono [OF R(4)]]) (use L(2) in simp_all)
  note eq = free_in_steps [OF ok bs a st L(1) R(1) [unfolded L(2)] R(2)]
  show ?thesis
  proof (cases add)
    case False
    then show ?thesis using that [of v] eq R(3,7) L(9) tv left d by (simp add: heap_lacks_none)
  next
    case True
    then have lk: "heap_lacks h v (bs0 @ join_right N bs2) {#d#}" and so: "left_solid h s bs1" using R(3) left(2) by simp_all
    obtain w where w: "heap_insert (of_nat d) h v = Inr ((), w)" "heap_ok h w (bs0 @ join_right N bs2)"
      "\<And>lo hi. heap_touched h v lo hi w" "index_sorted h v \<Longrightarrow> index_sorted h w"
      "same_on (heap_start h v) (heap_end h v) (mem v) (mem w)"
      by (rule hole_entered [OF lk R(5)]) blast
    have "same_on (a + 12) (heap_end h s) (mem s) (mem w)"
    proof (rule same_on_trans [OF _ same_on_trans])
      show "same_on (a + 12) (heap_end h s) (mem s) (mem u)" using solid [OF so] by (intro only_in_same_on) auto
      show "same_on (a + 12) (heap_end h s) (mem u) (mem v)" using R(6) left_hole_solid [OF so] left by (simp add: su)
      show "same_on (a + 12) (heap_end h s) (mem v) (mem w)"
        by (rule same_on_mono [OF w(5)]) (use heap_touched_fields(1,2) [OF tv] a in simp_all)
    qed
    moreover have "heap_touched h s (a + 4) (a + 5) w" if "right_solid bs2"
      using solid [OF so] R(7) [OF that] w(3) heap_touched_trans by blast
    moreover have "index_sorted h w" if "index_sorted h s"
      using solid [OF so] R(8) w(4) that True by simp
    ultimately show ?thesis
      using that [of w] eq True w(1,2) L(9) heap_touched_trans [OF tv w(3)] so d left by simp
  qed
qed

subsection \<open>A heap of eight blocks\<close>

fun put_blocks :: "nat \<Rightarrow> block list \<Rightarrow> memory \<Rightarrow> memory" where
  "put_blocks a [] m = m"
| "put_blocks a ((b, n) # bs) m = put_block a b n (put_blocks (a + n) bs m)"

lemma put_blocks:
  assumes "\<forall>b\<in>set bs. 20 \<le> snd b" and "a + bsum bs \<le> 4294967296"
  shows "only_in a (a + bsum bs) m (put_blocks a bs m) \<and> chain (put_blocks a bs m) a bs \<and> footed (put_blocks a bs m) a bs"
  using assms
proof (induction a bs m rule: put_blocks.induct)
  case (2 a b n bs m)
  let ?m = "put_blocks (a + n) bs m"
  have IH: "only_in (a + n) (a + n + bsum bs) m ?m" "chain ?m (a + n) bs" "footed ?m (a + n) bs" using 2 by simp_all
  have n: "20 \<le> n" "a + n \<le> 4294967296" using 2 by simp_all
  note p = put_block [OF n(2,1), where m = ?m and h = b]
  have "same_on (a + n) (a + n + bsum bs) ?m (put_block a b n ?m)"
    by (rule only_in_same_on [OF p(1)]) simp
  from chain_same_on [OF this _ _ _ IH(2)] footed_same_on [OF this _ _ _ chain_sizes [OF IH(2)] IH(3)]
  have "chain (put_block a b n ?m) (a + n) bs" "footed (put_block a b n ?m) (a + n) bs" using 2 by simp_all
  moreover have "only_in a (a + n + bsum bs) m (put_block a b n ?m)"
    by (rule only_in_trans [OF only_in_mono [OF IH(1)] only_in_mono [OF p(1)]]) simp_all
  ultimately show ?case using n p by (cases b) (simp_all add: add.assoc)
qed simp

definition eight_blocks :: "block list" where
  "eight_blocks = [(False, 0x20), (False, 0x20), (False, 0x20), (True, 0x20), (False, 0x20), (False, 0x20),
     (True, 0x20), (False, 0x20)]"

definition blocks_heap :: machine where
  "blocks_heap = (power_on (put_blocks 0x2000 eight_blocks (st32 (st32 (\<lambda>_. 0) 0x1000 0x2060) 0x1004 0x20C0)) (\<lambda>_ _. 0))
     \<lparr>heap_at := (\<lambda>_. no_heap)(0x100 :=
        \<lparr>index = \<lparr>array = 0x1000, oa_size = 2, max_size = 8, less_than = Header_T_Less_Than\<rparr>,
         start_address = 0x2000, end_address = 0x2100, max_address = 0x10000, supervisor = 0, readonly = 0\<rparr>)\<rparr>"

lemma blocks_heap_simps [simp]:
  "index (heap_at blocks_heap 0x100) = \<lparr>array = 0x1000, oa_size = 2, max_size = 8, less_than = Header_T_Less_Than\<rparr>"
  "start_address (heap_at blocks_heap 0x100) = 0x2000" "end_address (heap_at blocks_heap 0x100) = 0x2100"
  by (simp_all add: blocks_heap_def)

lemma blocks_heap_ok: "heap_ok 0x100 blocks_heap eight_blocks" and blocks_heap_footed: "footed (mem blocks_heap) 0x2000 eight_blocks"
proof -
  let ?m = "st32 (st32 (\<lambda>_. 0) 0x1000 0x2060) 0x1004 0x20C0"
  have p: "only_in 0x2000 0x2100 ?m (mem blocks_heap)" "chain (mem blocks_heap) 0x2000 eight_blocks"
    "footed (mem blocks_heap) 0x2000 eight_blocks"
    using put_blocks [of eight_blocks "0x2000" ?m] by (simp_all add: eight_blocks_def blocks_heap_def)
  have "oa_ok (index (heap_at blocks_heap 0x100))" by (simp add: oa_ok_def unat_numeral32)
  moreover have "elems (mem blocks_heap) (index (heap_at blocks_heap 0x100)) = elems ?m (index (heap_at blocks_heap 0x100))"
    by (rule elems_same_on [OF calculation only_in_same_on [OF p(1)]]) (simp add: unat_numeral32)
  moreover have "elems ?m (index (heap_at blocks_heap 0x100)) = [0x2060, 0x20C0]"
    by (simp add: elems_def cell_def elem_addr_def upt_rec ld32_st32_far unat_numeral32)
  ultimately show "heap_ok 0x100 blocks_heap eight_blocks"
    using p(2) by (simp add: heap_ok_def unat_numeral32) (simp add: eight_blocks_def)
  show "footed (mem blocks_heap) 0x2000 eight_blocks" by (rule p(3))
qed

lemma eight_blocks_split:
  "eight_blocks = [(False, 0x20)] @ (False, 0x20) # (False, 0x20) # drop 3 eight_blocks"
  "eight_blocks = take 3 eight_blocks @ (True, 0x20) # (False, 0x20) # (False, 0x20) # drop 6 eight_blocks"
  "eight_blocks = (take 4 eight_blocks @ [(False, 0x20)]) @ (False, 0x20) # (True, 0x20) # drop 7 eight_blocks"
  by (simp_all add: eight_blocks_def)

subsection \<open>Properties\<close>

text \<open>
  Freeing an allocated block whose neighbours are allocated turns exactly this block into a
  hole: the other blocks keep their places and sizes, the index gets the new hole and stays in
  order, and the heap's invariant holds again.
\<close>

theorem free_makes_hole:
  assumes "heap_ok h s bs" and "bs = bs1 @ (False, n) # bs2" and "a = heap_start h s + bsum bs1"
    and "8 \<le> heap_start h s" and "left_solid h s bs1" and "right_solid bs2" and "index_room h s"
  shows "\<exists>s'. free (of_nat (a + 12)) h s = Inr ((), s') \<and> heap_ok h s' (bs1 @ (True, n) # bs2)
    \<and> (index_sorted h s \<longrightarrow> index_sorted h s') \<and> outside_heap h s (a + 4) (a + 5) (mem s')"
proof -
  have c: "left_clear h s bs1" "right_clear bs2" using assms(5,6) right_solid_clear by (simp_all add: left_clear_def)
  have j: "join_blocks bs1 n bs2 = bs1 @ (True, n) # bs2"
    using assms(5,6) by (auto simp: join_blocks_solid right_solid_def)
  obtain v where v: "free (of_nat (a + 12)) h s = Inr ((), v)" "heap_ok h v (bs1 @ (True, n) # bs2)"
    "heap_touched h s (a + 4) (a + 5) v" "index_sorted h s \<Longrightarrow> index_sorted h v"
    using free_joins [OF assms(1-4) c assms(7)] assms(5,6) unfolding j by metis
  then show ?thesis using heap_touched_fields(5) [of h s "a + 4" "a + 5" v] by blast
qed

theorem free_makes_hole_witness:
  "\<exists>s'. free 0x202C 0x100 blocks_heap = Inr ((), s')
    \<and> heap_ok 0x100 s' [(False, 0x20), (True, 0x20), (False, 0x20), (True, 0x20), (False, 0x20), (False, 0x20),
        (True, 0x20), (False, 0x20)]"
proof -
  have "left_solid 0x100 blocks_heap [(False, 0x20)]" "right_solid ((False, 0x20) # drop 3 eight_blocks)"
    "index_room 0x100 blocks_heap"
    by (simp_all add: left_solid_def right_solid_def index_room_def)
  from free_makes_hole [OF blocks_heap_ok eight_blocks_split(1) refl _ this] show ?thesis
    by (auto simp: unat_numeral32 eight_blocks_def)
qed

text \<open>
  C16: Freeing refines the abstract operation on the list of blocks: the freed block becomes a
  hole and is joined with the hole behind it and with the hole in front of it, whichever of
  them there is. The invariant of the heap holds again for the joined list, the allocated
  blocks are those before without the freed one, and every one of them keeps its contents; the
  index stays in order unless the block grew a hole that is in it.
  It holds whenever the index has a free slot, the footer of a hole in front is in order and the
  joined hole does not reach the end of the heap.
\<close>

theorem free_coalesces:
  assumes "heap_ok h s bs" and "bs = bs1 @ (False, n) # bs2" and "a = heap_start h s + bsum bs1"
    and "8 \<le> heap_start h s" and "left_clear h s bs1" and "right_clear bs2" and "index_room h s"
  shows "\<exists>s'. free (of_nat (a + 12)) h s = Inr ((), s') \<and> heap_ok h s' (join_blocks bs1 n bs2)
    \<and> live (heap_start h s) (join_blocks bs1 n bs2) = live (heap_start h s) bs - {(a, n)}
    \<and> (\<forall>(b, k) \<in> live (heap_start h s) bs - {(a, n)}. \<forall>x. b \<le> unat x \<and> unat x < b + k \<longrightarrow> mem s' x = mem s x)
    \<and> (left_solid h s bs1 \<and> index_sorted h s \<longrightarrow> index_sorted h s')"
proof -
  let ?A = "heap_start h s" and ?L = "live (heap_start h s) bs - {(a, n)}"
  note D = heap_okD [OF assms(1)]
  obtain v where v: "free (of_nat (a + 12)) h s = Inr ((), v)" "heap_ok h v (join_blocks bs1 n bs2)"
    "heap_touched h s (a - left_hole bs1) (a + n + right_hole bs2) v"
    "left_solid h s bs1 \<Longrightarrow> index_sorted h s \<Longrightarrow> index_sorted h v"
    by (rule free_joins [OF assms]) blast
  have n: "20 \<le> n" using D(5) by (simp add: assms(2))
  have eq: "live ?A (join_blocks bs1 n bs2) = ?L"
    using n live_range [of a n ?A bs1] live_range [of a n "a + n" bs2] by (auto simp: live_join assms(2,3))
  have split: "(b, k) \<in> live ?A bs1 \<or> (b, k) \<in> live (a + n) bs2" if "(b, k) \<in> ?L" for b k
    using that unfolding eq [symmetric] by (simp add: live_join assms(3))
  have L: "b + k \<le> a - left_hole bs1" if "(b, k) \<in> live ?A bs1" for b k
  proof (cases bs1 rule: rev_cases)
    case (snoc ys y)
    then show ?thesis using that live_range [of b k ?A ys] live_range [of b k ?A bs1] assms(3) by (cases y; cases "fst y") auto
  qed (use that in simp)
  have R: "a + n + right_hole bs2 \<le> b" if "(b, k) \<in> live (a + n) bs2" for b k
    using that live_range [of b k "a + n" bs2] live_range [of b k "a + n + right_hole bs2" "tl bs2"]
    by (cases bs2 rule: right_hole.cases) auto
  have "mem v x = mem s x" if l: "(b, k) \<in> ?L" and x: "b \<le> unat x" "unat x < b + k" for b k x
  proof -
    have "unat x < a - left_hole bs1 \<or> a + n + right_hole bs2 \<le> unat x" using split [OF l] L [of b k] R [of b k] x by fastforce
    moreover have "oa_hi (index (heap_at s h)) \<le> unat x" using D(3) l x live_range [of b k ?A bs] by simp
    ultimately show ?thesis using heap_touched_fields(5) [OF v(3)] unfolding outside_heap_def by blast
  qed
  then show ?thesis using v(1,2,4) eq by auto
qed

theorem free_coalesces_witness:
  "\<exists>s'. free 0x20AC 0x100 blocks_heap = Inr ((), s')
    \<and> heap_ok 0x100 s' [(False, 0x20), (False, 0x20), (False, 0x20), (True, 0x20), (False, 0x20), (True, 0x40), (False, 0x20)]"
proof -
  have "left_clear 0x100 blocks_heap (take 4 eight_blocks @ [(False, 0x20)])" "right_clear ((True, 0x20) # drop 7 eight_blocks)"
    "index_room 0x100 blocks_heap"
    by (simp_all add: left_clear_def left_solid_def right_clear_def index_room_def eight_blocks_def)
  note c = free_coalesces [OF blocks_heap_ok eight_blocks_split(3) refl _ this]
  have j: "join_blocks (take 4 eight_blocks @ [(False, 0x20)]) 0x20 ((True, 0x20) # drop 7 eight_blocks)
      = [(False, 0x20), (False, 0x20), (False, 0x20), (True, 0x20), (False, 0x20), (True, 0x40), (False, 0x20)]"
    by (simp add: eight_blocks_def join_blocks_def)
  have b: "bsum (take 4 eight_blocks @ [(False, 0x20)]) = 0xA0" by (simp add: eight_blocks_def)
  show ?thesis using c unfolding j b by (auto simp: unat_numeral32)
qed

text \<open>
  Freeing a block behind a hole leaves the entries of the index in the order they had: the grown
  hole is not moved to its place.
\<close>

theorem free_joins_left:
  assumes "heap_ok h s bs" and "bs = bs0 @ (True, l) # (False, n) # bs2" and "d = heap_start h s + bsum bs0"
    and "8 \<le> heap_start h s" and "right_solid bs2" and "ftr (mem s) d l" and "index_room h s"
  shows "\<exists>s'. free (of_nat (d + l + 12)) h s = Inr ((), s') \<and> heap_ok h s' (bs0 @ (True, l + n) # bs2)
    \<and> elems (mem s') (index (heap_at s' h)) = elems (mem s) (index (heap_at s h))
    \<and> only_in d (d + l + n) (mem s) (mem s') \<and> ftr (mem s') d (l + n)"
proof -
  let ?bs1 = "bs0 @ [(True, l)]"
  have b: "bs = ?bs1 @ (False, n) # bs2" and a: "d + l = heap_start h s + bsum ?bs1" by (simp_all add: assms(2,3))
  have c: "left_clear h s ?bs1" "right_clear bs2" and ns: "\<not> left_solid h s ?bs1"
    using assms(3,5,6) right_solid_clear by (simp_all add: left_clear_def left_solid_def)
  have j: "join_blocks ?bs1 n bs2 = bs0 @ (True, l + n) # bs2" using assms(5) by (auto simp: right_solid_def)
  obtain v where "free (of_nat (d + l + 12)) h s = Inr ((), v)" "heap_ok h v (bs0 @ (True, l + n) # bs2)"
    "only_in (d + l - left_hole ?bs1) (d + l + n) (mem s) (mem v)
      \<and> elems (mem v) (index (heap_at v h)) = elems (mem s) (index (heap_at s h)) \<and> ftr (mem v) (d + l - left_hole ?bs1) (left_hole ?bs1 + n)"
    using free_joins [OF assms(1) b a assms(4) c assms(7)] ns assms(5) unfolding j by metis
  then show ?thesis by (intro exI [of _ v]) simp
qed

theorem free_joins_left_witness:
  "\<exists>s'. free 0x208C 0x100 blocks_heap = Inr ((), s')
    \<and> heap_ok 0x100 s' [(False, 0x20), (False, 0x20), (False, 0x20), (True, 0x40), (False, 0x20), (True, 0x20), (False, 0x20)]"
proof -
  have "right_solid ((False, 0x20) # drop 6 eight_blocks)" "index_room 0x100 blocks_heap"
    by (simp_all add: right_solid_def index_room_def)
  moreover have "ftr (mem blocks_heap) (heap_start 0x100 blocks_heap + bsum (take 3 eight_blocks)) 0x20"
    using blocks_heap_footed by (simp add: eight_blocks_def)
  ultimately show ?thesis
    using free_joins_left [OF blocks_heap_ok eight_blocks_split(2) refl]
    by (auto simp: unat_numeral32 eight_blocks_def)
qed

text \<open>
  Freeing a block in front of a hole adds the hole's size to the block's header, but the footer at
  the end of the joined hole still names the absorbed header, so freeing the block behind it next
  would join it with a hole that no longer exists.
\<close>

theorem free_right_stale:
  assumes "heap_ok h s bs" and "bs = bs1 @ (False, n) # (True, k) # bs3" and "a = heap_start h s + bsum bs1"
    and "8 \<le> heap_start h s" and "left_solid h s bs1" and "bs3 \<noteq> []" and "index_room h s" and "ftr (mem s) (a + n) k"
  shows "\<exists>s'. free (of_nat (a + 12)) h s = Inr ((), s') \<and> heap_ok h s' (bs1 @ (True, n + k) # bs3) \<and> \<not> ftr (mem s') a (n + k)"
proof -
  note D = heap_okD [OF assms(1)]
  have c: "left_clear h s bs1" "right_clear ((True, k) # bs3)" using assms(5,6) by (simp_all add: left_clear_def right_clear_def)
  obtain v where v: "free (of_nat (a + 12)) h s = Inr ((), v)" "heap_ok h v (bs1 @ (True, n + k) # bs3)"
    "same_on (a + 12) (heap_end h s) (mem s) (mem v)"
    using free_joins [OF assms(1-4) c assms(7)] assms(5) join_blocks_solid [OF assms(5)] by (metis join_right.simps(1))
  have n: "20 \<le> n" "20 \<le> k" "a + n + k + bsum bs3 = heap_end h s" "a + n + k < 4294967296"
    using D(4,5,7) by (simp_all add: assms(2,3))
  have "ftr (mem v) (a + n) k" using ftr_same_on [OF v(3), of "a + n" k] assms(8) n D(4,7) by simp
  moreover have "(of_nat (a + n) :: u32) \<noteq> of_nat a"
    using unat_nat_addr [of "a + n"] unat_nat_addr [of a] n(1,4) by (metis add_cancel_right_right add_lessD1 not_numeral_le_zero)
  ultimately have "\<not> ftr (mem v) a (n + k)" by (simp add: ftr_def add.assoc del: of_nat_add)
  then show ?thesis using v(1,2) by blast
qed

theorem free_right_stale_witness:
  "\<exists>s'. free 0x20AC 0x100 blocks_heap = Inr ((), s') \<and> \<not> ftr (mem s') 0x20A0 0x40"
proof -
  have "left_solid 0x100 blocks_heap (take 4 eight_blocks @ [(False, 0x20)])" "drop 7 eight_blocks \<noteq> []" "index_room 0x100 blocks_heap"
    by (simp_all add: left_solid_def eight_blocks_def index_room_def)
  moreover have "ftr (mem blocks_heap) (heap_start 0x100 blocks_heap + bsum (take 4 eight_blocks @ [(False, 0x20)]) + 0x20) 0x20"
    using blocks_heap_footed by (simp add: eight_blocks_def)
  ultimately show ?thesis
    using free_right_stale [OF blocks_heap_ok eight_blocks_split(3) refl]
    by (auto simp: unat_numeral32 eight_blocks_def)
qed

text \<open>
  What becomes of it: freeing the block behind the joined hole adds its bytes to the absorbed header, which is no block any
  more. The freed block is left as a hole that the index does not name, and no list of blocks describes the heap.
\<close>

lemma stale_left:
  assumes c: "c = a' + k" and k: "20 \<le> k" "20 \<le> l" "c + l < 4294967296" and f: "ftr (mem t) a' k" "ld8 (mem t) (of_nat a' + 4) = 1"
  obtains m where "unify_left (of_nat c) (of_nat (c + l - 8)) t = (of_nat a', False, t\<lparr>mem := m\<rparr>)"
    and "same_on 0 (a' + 8) (mem t) m" and "same_on (a' + 12) (c + l - 4) (mem t) m" and "same_on (c + l) 4294967296 (mem t) m"
proof -
  define g where "g = c + l - 8"
  define m0 where "m0 = st32 (mem t) (of_nat g + 4) (of_nat a')"
  define m where "m = st32 m0 (of_nat a' + 8) (ld32 m0 (of_nat a' + 8) + h_size (of_nat c) t)"
  have g: "a' + 12 \<le> g" "g + 8 = c + l" "g + 8 < 4294967296" using k c by (simp_all add: g_def)
  have fa: "of_nat c - sizeof_footer = (of_nat (a' + k - 8) :: u32)"
    using free_addresses(4) [OF k(2), of c] k(1) c by simp
  have r: "unify_left (of_nat c) (of_nat g) t = (of_nat a', False, t\<lparr>mem := m\<rparr>)"
    unfolding unify_left_def fa Let_def using f by (simp add: ftr_def rd_def h_is_hole_def wr_def m_def m0_def)
  have o: "only_in (g + 4) (g + 8) (mem t) m0" "only_in (a' + 8) (a' + 12) m0 m"
    unfolding m_def m0_def using g by (intro only_in_st32; simp add: unat_heap)+
  have s: "same_on lo hi (mem t) m" if "hi \<le> g + 4 \<or> g + 8 \<le> lo" "hi \<le> a' + 8 \<or> a' + 12 \<le> lo" for lo hi
    by (rule same_on_trans [OF only_in_same_on [OF o(1)] only_in_same_on [OF o(2)]]) (use that in auto)
  have "c + l - 4 = g + 4" using g by simp
  then have "same_on 0 (a' + 8) (mem t) m" "same_on (a' + 12) (c + l - 4) (mem t) m" "same_on (c + l) 4294967296 (mem t) m"
    using g by (intro s; simp)+
  then show ?thesis by (rule that [OF r [unfolded g_def]])
qed

lemma hole_lost:
  assumes ok: "heap_ok h v (bs1 @ (True, n) # (False, l) # bs3)" and c: "c = heap_start h v + bsum bs1 + n"
    and w: "heap_at w h = heap_at v h" "elems (mem w) (index (heap_at v h)) = elems (mem v) (index (heap_at v h))"
    and hd: "ld32 (mem w) (of_nat (heap_start h v + bsum bs1) + 8) = of_nat n" "ld8 (mem w) (of_nat c + 4) = 1"
  shows "\<not> heap_ok h w bs"
proof
  assume okw: "heap_ok h w bs"
  let ?a = "heap_start h v + bsum bs1"
  note D = heap_okD [OF ok] and W = heap_okD [OF okw]
  have hc: "hdr (mem v) c False l" and l: "20 \<le> l" using D(5) by (simp_all add: c)
  have top: "c + l \<le> heap_end h v" "heap_end h v < 4294967296" using D(4,7) by (simp_all add: c)
  have ix: "\<exists>xs k ys. zs = xs @ (True, k) # ys \<and> x = heap_start h u + bsum xs"
    if "heap_ok h u zs" "x \<in> set (map unat (elems (mem u) (index (heap_at u h))))" for u zs x
  proof -
    have "x \<in> set (hole_addrs (heap_start h u) zs)" using that heap_okD(6) by (metis set_mset_mset)
    then show ?thesis by (rule hole_addrs_split)
  qed
  have same: "set (map unat (elems (mem w) (index (heap_at w h)))) = set (map unat (elems (mem v) (index (heap_at v h))))"
    using w by simp
  have holes: "set (map unat (elems (mem u) (index (heap_at u h)))) = set (hole_addrs (heap_start h u) zs)" if "heap_ok h u zs" for u zs
    using heap_okD(6) [OF that] by (metis set_mset_mset)
  have "?a \<in> set (map unat (elems (mem w) (index (heap_at w h))))" unfolding same holes [OF ok] by simp
  from ix [OF okw this] obtain xs k ys where bs: "bs = xs @ (True, k) # ys" "?a = heap_start h w + bsum xs" by blast
  have st: "heap_start h w = heap_start h v" "heap_end h w = heap_end h v" by (simp_all add: w)
  have cw: "chain (mem w) ?a ((True, k) # ys)" using W(5) unfolding bs(1) chain_append bs(2) by blast
  have sum: "?a + k + bsum ys = heap_end h v" using W(4) bs(2) by (simp add: bs(1) st)
  have "(of_nat k :: u32) = of_nat n" using cw hd(1) by (simp add: hdr_def)
  moreover have "unat (of_nat k :: u32) = k" "unat (of_nat n :: u32) = n"
    using sum top c by (simp_all add: unat_of_nat32)
  ultimately have kn: "k = n" by metis
  then obtain b j zs where ys: "ys = (b, j) # zs" using sum top(1) l c by (cases ys) auto
  have "hdr (mem w) c b j" using cw by (simp add: kn ys c)
  then have "b" using hd(2) by (simp add: hdr_def hole_byte_def split: if_splits)
  then have "c \<in> set (hole_addrs (heap_start h w) bs)" using bs by (simp add: ys kn c)
  then have "c \<in> set (map unat (elems (mem v) (index (heap_at v h))))" using holes [OF okw] same by blast
  from ix [OF ok this] obtain xs' k' ys' where "bs1 @ (True, n) # (False, l) # bs3 = xs' @ (True, k') # ys'" "c = heap_start h v + bsum xs'"
    by blast
  with D(5) have "hdr (mem v) c True k'" by (metis block_at(2))
  then show False using hc by (simp add: hdr_def hole_byte_def)
qed

lemma free_stale:
  assumes ok: "heap_ok h v (bs1 @ (True, n + k) # (False, l) # bs3)" and a: "a = heap_start h v + bsum bs1"
    and k: "20 \<le> n" "20 \<le> k" and f: "ftr (mem v) (a + n) k" "ld8 (mem v) (of_nat (a + n) + 4) = 1" and r: "right_solid bs3"
    and st: "8 \<le> heap_start h v"
  obtains w where "free (of_nat (a + n + k + 12)) h v = Inr ((), w)" and "\<forall>bs. \<not> heap_ok h w bs"
proof -
  let ?bs = "bs1 @ (True, n + k) # (False, l) # bs3"
  define c where "c = a + n + k"
  note D = heap_okD [OF ok]
  obtain j bs4 where b3: "bs3 = (False, j) # bs4" using r by (auto simp: right_solid_def)
  have l: "20 \<le> l" "20 \<le> j" and hj: "hdr (mem v) (c + l) False j" and ha: "hdr (mem v) a True (n + k)" 
    using D(5) by (simp_all add: c_def a b3 add.assoc)
  have top: "c + l + 20 \<le> heap_end h v" "c + l + 20 < 4294967296" using D(4,7) l(2) by (simp_all add: c_def a b3)
  have split: "?bs = (bs1 @ [(True, n + k)]) @ (False, l) # bs3" and cb: "c = heap_start h v + bsum (bs1 @ [(True, n + k)])"
    by (simp_all add: c_def a)
  define t where "t = set_is_hole (of_nat c) 1 v"
  note M = freed_marked [OF ok split cb t_def]
  have tv: "t = v\<lparr>mem := mem t\<rparr>" by (simp add: t_def set_is_hole_def)
  have st8: "same_on lo hi (mem v) (mem t)" if "hi \<le> c + 4 \<or> c + 5 \<le> lo" for lo hi
    using only_in_same_on [OF M(3)] that by blast
  have s0: "same_on 0 c (mem v) (mem t)" by (rule st8) simp
  have "ftr (mem t) (a + n) k = ftr (mem v) (a + n) k" by (rule ftr_same_on [OF s0]) (use k top in \<open>simp_all add: c_def\<close>)
  then have "ftr (mem t) (a + n) k" using f(1) by simp
  moreover have "ld8 (mem t) (of_nat (a + n) + 4) = 1"
  proof -
    have "unat (of_nat (a + n) + 4 :: u32) = a + n + 4" using top k by (simp add: c_def unat_heap del: of_nat_add)
    then have "mem t (of_nat (a + n) + 4) = mem v (of_nat (a + n) + 4)"
      using s0 k by (simp add: same_on_def c_def)
    then show ?thesis using f(2) by (simp add: ld8_def)
  qed
  ultimately obtain m where m: "unify_left (of_nat c) (of_nat (c + l - 8)) t = (of_nat (a + n), False, t\<lparr>mem := m\<rparr>)"
    "same_on 0 (a + n + 8) (mem t) m" "same_on (a + n + 12) (c + l - 4) (mem t) m" "same_on (c + l) 4294967296 (mem t) m"
    using stale_left [of c "a + n" k l t] k l top by (auto simp: c_def)
  let ?w = "t\<lparr>mem := m\<rparr>"
  have wa: "heap_at ?w h = heap_at v h" by (subst tv) simp
  have kept: "ld32 m (of_nat x) = ld32 (mem v) (of_nat x)" if "x + 4 \<le> a + n + 8" for x
  proof -
    have u: "unat (of_nat x :: u32) = x" by (rule unat_of_nat32) (use that top in \<open>simp add: c_def\<close>)
    have "same_on 0 (a + n + 8) (mem v) m" by (rule same_on_trans [OF st8 m(2)]) (use k in \<open>simp add: c_def\<close>)
    then show ?thesis by (rule ld32_same_on) (use u that top in \<open>simp_all add: c_def\<close>)
  qed
  have byte: "ld8 m (of_nat c + 4) = 1"
  proof -
    have "unat (of_nat c + 4 :: u32) = c + 4" using top by (simp add: unat_heap)
    then have "m (of_nat c + 4) = mem t (of_nat c + 4)" using m(3) l(1) k by (simp add: same_on_def c_def)
    also have "\<dots> = 1" by (simp add: t_def set_is_hole_def st8_def)
    finally show ?thesis by (simp add: ld8_def)
  qed
  have hw: "hdr m (c + l) False j"
  proof -
    have "same_on (c + l) 4294967296 (mem v) m" by (rule same_on_trans [OF st8 m(4)]) (use l in simp)
    then show ?thesis using hdr_same_on [of "c + l" 4294967296 "mem v" m "c + l"] hj top by simp
  qed
  have cl: "of_nat (c + l - 8) + sizeof_footer = (of_nat (c + l) :: u32)"
    using free_addresses(3) [OF l(1), of c] k by (simp add: c_def)
  have R: "unify_right (of_nat (a + n)) (of_nat (c + l - 8)) h ?w = Inr (of_nat (c + l - 8), ?w)"
    by (rule unify_right_none) (use hw in \<open>simp add: cl rd_def h_is_hole_def hdr_def hole_byte_def del: of_nat_add\<close>)
  have "free_contract (of_nat (a + n)) (of_nat (c + l - 8)) (of_nat (c + l - 8) + sizeof_footer) h ?w = Inr ((), ?w)"
    by (rule not_at_end [OF l(1)]) (use k top wa in \<open>simp_all add: c_def\<close>)
  from free_in_steps [OF ok split cb st m(1) [unfolded t_def] R [unfolded t_def] this [unfolded t_def]]
  have run: "free (of_nat (c + 12)) h v = Inr ((), ?w)" by (simp add: t_def)
  have e: "elems m (index (heap_at v h)) = elems (mem v) (index (heap_at v h))"
  proof (rule elems_same_on [OF D(1)])
    show "same_on (oa_lo (index (heap_at v h))) (oa_hi (index (heap_at v h))) (mem v) m"
      by (rule same_on_trans [OF st8 same_on_mono [OF m(2)]]) (use D(3) k in \<open>simp_all add: c_def a\<close>)
  qed
  have "\<not> heap_ok h ?w bs" for bs
  proof (rule hole_lost [OF ok _ wa])
    show "c = heap_start h v + bsum bs1 + (n + k)" by (simp add: c_def a)
    show "elems (mem ?w) (index (heap_at v h)) = elems (mem v) (index (heap_at v h))" using e by simp
    show "ld32 (mem ?w) (of_nat (heap_start h v + bsum bs1) + 8) = of_nat (n + k)"
      using kept [of "a + 8"] ha k by (simp add: hdr_def a [symmetric])
    show "ld8 (mem ?w) (of_nat c + 4) = 1" using byte by simp
  qed
  then show ?thesis using that run by (simp add: c_def)
qed

text \<open>
  So \<open>free\<close> is not safe on every block of a heap in order: when a block in front of a hole is freed and then the block
  behind that hole, both calls return, and there is no list of blocks any more for which the heap is in order.
\<close>

theorem frees_lose_block:
  assumes "heap_ok h s bs" and "bs = bs1 @ (False, n) # (True, k) # (False, l) # bs3" and "a = heap_start h s + bsum bs1"
    and "8 \<le> heap_start h s" and "left_solid h s bs1" and "right_solid bs3" and "index_room h s" and "ftr (mem s) (a + n) k"
  shows "\<exists>v w. free (of_nat (a + 12)) h s = Inr ((), v) \<and> heap_ok h v (bs1 @ (True, n + k) # (False, l) # bs3)
    \<and> free (of_nat (a + n + k + 12)) h v = Inr ((), w) \<and> (\<forall>bs. \<not> heap_ok h w bs)"
proof -
  note D = heap_okD [OF assms(1)]
  have c: "left_clear h s bs1" "right_clear ((True, k) # (False, l) # bs3)" using assms(5) by (simp_all add: left_clear_def right_clear_def)
  obtain v where v: "free (of_nat (a + 12)) h s = Inr ((), v)" "heap_ok h v (bs1 @ (True, n + k) # (False, l) # bs3)"
    "same_on (a + 12) (heap_end h s) (mem s) (mem v)" "heap_touched h s (a - left_hole bs1) (a + n + k) v"
    using free_joins [OF assms(1-4) c assms(7)] assms(5) join_blocks_solid [OF assms(5)]
    by (metis join_right.simps(1) right_hole.simps(1))
  have n: "20 \<le> n" "20 \<le> k" "hdr (mem s) (a + n) True k" "a + n + k + l \<le> heap_end h s" "heap_end h s < 4294967296"
    using D(4,5,7) by (simp_all add: assms(2,3))
  have "ftr (mem v) (a + n) k" using ftr_same_on [OF v(3), of "a + n" k] assms(8) n by simp
  moreover have "ld8 (mem v) (of_nat (a + n) + 4) = 1"
    using hdr_same_on [OF v(3), of "a + n" True k] n by (simp add: hdr_def hole_byte_def)
  moreover have st: "heap_start h v = heap_start h s" using heap_touched_fields(1) [OF v(4)] by simp
  ultimately obtain w where "free (of_nat (a + n + k + 12)) h v = Inr ((), w)" "\<forall>bs. \<not> heap_ok h w bs"
    using free_stale [OF v(2) _ n(1,2) _ _ assms(6)] assms(3,4) by metis
  then show ?thesis using v(1,2) by blast
qed

theorem frees_lose_block_witness:
  "\<exists>v w. free 0x204C 0x100 blocks_heap = Inr ((), v) \<and> free 0x208C 0x100 v = Inr ((), w) \<and> (\<forall>bs. \<not> heap_ok 0x100 w bs)"
proof -
  have b: "eight_blocks = [(False, 0x20), (False, 0x20)] @ (False, 0x20) # (True, 0x20) # (False, 0x20) # drop 5 eight_blocks"
    by (simp add: eight_blocks_def)
  have "left_solid 0x100 blocks_heap [(False, 0x20), (False, 0x20)]" "right_solid (drop 5 eight_blocks)" "index_room 0x100 blocks_heap"
    by (simp_all add: left_solid_def right_solid_def eight_blocks_def index_room_def)
  moreover have "ftr (mem blocks_heap) (heap_start 0x100 blocks_heap + bsum [(False, 0x20), (False, 0x20)] + 0x20) 0x20"
    using blocks_heap_footed by (simp add: eight_blocks_def)
  ultimately show ?thesis
    using frees_lose_block [OF blocks_heap_ok b refl] by (auto simp: unat_numeral32)
qed

text \<open>
  \<open>free\<close> does nothing on a null pointer and stops at its assertion, without touching memory,
  on a pointer whose header or footer does not carry the magic number.
\<close>

theorem free_checks_pointer:
  "free 0 h s = Inr ((), s)
   \<and> (p \<noteq> 0 \<longrightarrow> rd (p - 12) s \<noteq> HEAP_MAGIC
       \<longrightarrow> free p h s = Inl (Assert_Failed ''header->magic == HEAP_MAGIC''))
   \<and> (p \<noteq> 0 \<longrightarrow> rd (p - 12) s = HEAP_MAGIC \<longrightarrow> rd (p - 12 + rd (p - 12 + 8) s - 8) s \<noteq> HEAP_MAGIC
       \<longrightarrow> free p h s = Inl (Assert_Failed ''footer->magic == HEAP_MAGIC''))"
  by (simp add: free_def Let_def sizeof_header_def sizeof_footer_def)

theorem free_checks_pointer_witness:
  "free 0x100C 0x100 example_heap = Inl (Assert_Failed ''header->magic == HEAP_MAGIC'')"
proof -
  have "rd (0x100C - 12) example_heap \<noteq> HEAP_MAGIC"
    by (simp add: rd_def put_header_def far_simps unat_numeral32 HEAP_MAGIC_def)
  then show ?thesis using free_checks_pointer [of "0x100" example_heap "0x100C"] by simp
qed

end
