(* ===== verification/Tasks.thy ===== *)
theory Tasks
  imports Interrupts Heap_Free
begin

text \<open>
  \<open>task.c\<close>: moving the boot stack, the ready queue as a linked list of \<open>task_t\<close>, \<open>fork\<close>,
  and the round-robin switch. The processor registers that inline assembly reads and writes
  are fields of the state.
\<close>

unbundle bit_operations_syntax


subsection \<open>Data\<close>

text \<open>\<open>task_t\<close>: the offsets of its members.\<close>

definition task_id_at :: "u32 \<Rightarrow> u32" where "task_id_at t = t"
definition task_esp_at :: "u32 \<Rightarrow> u32" where "task_esp_at t = t + 4"
definition task_ebp_at :: "u32 \<Rightarrow> u32" where "task_ebp_at t = t + 8"
definition task_eip_at :: "u32 \<Rightarrow> u32" where "task_eip_at t = t + 12"
definition task_directory_at :: "u32 \<Rightarrow> u32" where "task_directory_at t = t + 16"
definition task_next_at :: "u32 \<Rightarrow> u32" where "task_next_at t = t + 20"
definition sizeof_task :: u32 where "sizeof_task = 24"

lemmas task_offsets = task_id_at_def task_esp_at_def task_ebp_at_def task_eip_at_def task_directory_at_def task_next_at_def

text \<open>
  \<open>read_eip\<close> is assembly: it returns the address it was called from, which is where a saved
  task goes on. The register is a field of the state.
\<close>

definition read_eip :: "machine \<Rightarrow> u32" where
  "read_eip s = eip s"

definition cli :: "machine \<Rightarrow> machine" where "cli s = s\<lparr>iflag := False\<rparr>"
definition sti :: "machine \<Rightarrow> machine" where "sti s = s\<lparr>iflag := True\<rparr>"

subsection \<open>\<open>move_stack\<close>\<close>

text \<open>The loop that maps the new stack, from its start down to \<open>limit\<close>.\<close>

function map_stack_loop :: "(u32 \<Rightarrow> (machine, u32 \<times> u32) prog) \<Rightarrow> u32 \<Rightarrow> u32 \<Rightarrow> (machine, unit) prog" where
  "map_stack_loop kap limit i s =
     (if limit \<le> i then
        (case seq (get_page kap i True (current_directory s)) (\<lambda>page. alloc_frame page 0 1) s of
           Inl e \<Rightarrow> Inl e
         | Inr (_, s) \<Rightarrow> if i < 0x1000 then Inl Diverges else map_stack_loop kap limit (i - 0x1000) s)
      else Inr ((), s))"
  by pat_completeness auto
termination
  by (relation "measure (\<lambda>(kap, limit, i, s). unat i)") (auto intro: contract_measure)

declare map_stack_loop.simps [simp del]

text \<open>
  The loop over the words of the new stack, from its start down to \<open>limit\<close>: a word that looks
  like an address in the old stack is moved by \<open>offset\<close>.
\<close>

function relocate_loop :: "u32 \<Rightarrow> u32 \<Rightarrow> u32 \<Rightarrow> u32 \<Rightarrow> (machine, unit) prog" where
  "relocate_loop old_stack_pointer offset limit i s =
     (if limit < i then
        let tmp = rd i s;
            s = (if old_stack_pointer < tmp \<and> tmp < initial_esp s then wr i (tmp + offset) s else s)
        in if i < 4 then Inl Diverges else relocate_loop old_stack_pointer offset limit (i - 4) s
      else Inr ((), s))"
  by pat_completeness auto

lemma word_step_measure: "\<not> i < 4 \<Longrightarrow> unat (i - 4) < unat i" for i :: u32
  by (simp add: unat_sub32 word_less_nat_alt unat_numeral32)

termination relocate_loop
  by (relation "measure (\<lambda>(o', d, limit, i, s). unat i)") (auto intro: word_step_measure)

declare relocate_loop.simps [simp del]

definition move_stack :: "nat \<Rightarrow> u32 \<Rightarrow> u32 \<Rightarrow> (machine, unit) prog" where
  "move_stack n new_stack_start sz s =
     (case map_stack_loop (kmalloc_ap n) (new_stack_start - sz) new_stack_start s of
        Inl e \<Rightarrow> Inl e
      | Inr (_, s) \<Rightarrow>
          let s = s\<lparr>cr3 := cr3 s\<rparr>;
              old_stack_pointer = esp s;
              old_base_pointer = ebp s;
              offset = new_stack_start - initial_esp s;
              new_stack_pointer = old_stack_pointer + offset;
              new_base_pointer = old_base_pointer + offset;
              s = s\<lparr>mem := memcpy new_stack_pointer old_stack_pointer (initial_esp s - old_stack_pointer) (mem s)\<rparr>
          in (case relocate_loop old_stack_pointer offset (new_stack_start - sz) new_stack_start s of
                Inl e \<Rightarrow> Inl e
              | Inr (_, s) \<Rightarrow> Inr ((), s\<lparr>esp := new_stack_pointer, ebp := new_base_pointer\<rparr>)))"

subsection \<open>Tasks\<close>

text \<open>The first lines of a new \<open>task_t\<close>: the next free id, empty registers, no successor.\<close>

definition new_task :: "u32 \<Rightarrow> u32 \<Rightarrow> machine \<Rightarrow> machine" where
  "new_task t directory s =
     (let s = (wr (task_id_at t) (next_pid s) s)\<lparr>next_pid := next_pid s + 1\<rparr>;
          s = wr (task_ebp_at t) 0 s;
          s = wr (task_esp_at t) 0 s;
          s = wr (task_eip_at t) 0 s;
          s = wr (task_directory_at t) directory s
      in wr (task_next_at t) 0 s)"

definition initialize_tasking :: "nat \<Rightarrow> (machine, unit) prog" where
  "initialize_tasking n s =
     (case move_stack n 0xE0000000 0x2000 (cli s) of
        Inl e \<Rightarrow> Inl e
      | Inr (_, s) \<Rightarrow>
          (case kmalloc n sizeof_task s of
             Inl e \<Rightarrow> Inl e
           | Inr (t, s) \<Rightarrow>
               let s = s\<lparr>ready_queue := t, current_task := t\<rparr>
               in Inr ((), sti (new_task t (current_directory s) s))))"

partial_function (option) last_task :: "u32 \<Rightarrow> machine \<Rightarrow> u32 option" where
  "last_task tmp_task s =
     (if rd (task_next_at tmp_task) s \<noteq> 0 then last_task (rd (task_next_at tmp_task) s) s else Some tmp_task)"

text \<open>
  \<open>fork\<close> from the return of \<open>read_eip\<close> on. The parent comes here with the address as \<open>eip\<close>;
  the child comes here when \<open>switch_task\<close> jumps to that address.
\<close>

definition fork_return :: "u32 \<Rightarrow> u32 \<Rightarrow> u32 \<Rightarrow> machine \<Rightarrow> s32 \<times> machine" where
  "fork_return parent_task child addr s =
     (if current_task s = parent_task then
        let s = wr (task_esp_at child) (esp s) s;
            s = wr (task_ebp_at child) (ebp s) s;
            s = wr (task_eip_at child) addr s;
            s = sti s
        in (rd (task_id_at child) s, s)
      else (0, s))"

definition fork :: "nat \<Rightarrow> (machine, s32) prog" where
  "fork n s =
     (let s = cli s;
          parent_task = current_task s
      in (case clone_directory (kmalloc_ap n) (current_directory s) s of
            Inl e \<Rightarrow> Inl e
          | Inr (directory, s) \<Rightarrow>
              (case kmalloc n sizeof_task s of
                 Inl e \<Rightarrow> Inl e
               | Inr (child, s) \<Rightarrow>
                   let s = new_task child directory s
                   in (case last_task (ready_queue s) s of
                         None \<Rightarrow> Inl Diverges
                       | Some tmp_task \<Rightarrow>
                           let s = wr (task_next_at tmp_task) child s
                           in Inr (fork_return parent_task child (read_eip s) s)))))"

text \<open>
  How \<open>switch_task\<close> ends: it returns to its caller, or it jumps to the saved address of the next
  task, which is then \<open>eip\<close>, with 0x12345 as the value \<open>read_eip\<close> seems to return there.
\<close>

datatype control = Returned | Jumped

definition save_current :: "u32 \<Rightarrow> u32 \<Rightarrow> u32 \<Rightarrow> machine \<Rightarrow> machine" where
  "save_current sp bp addr s =
     (let s = wr (task_eip_at (current_task s)) addr s;
          s = wr (task_esp_at (current_task s)) sp s
      in wr (task_ebp_at (current_task s)) bp s)"

definition choose_next :: "machine \<Rightarrow> machine" where
  "choose_next s =
     (let s = s\<lparr>current_task := rd (task_next_at (current_task s)) s\<rparr>
      in if current_task s = 0 then s\<lparr>current_task := ready_queue s\<rparr> else s)"

definition resume_current :: "(machine, control) prog" where
  "resume_current s =
     (let addr = rd (task_eip_at (current_task s)) s;
          sp = rd (task_esp_at (current_task s)) s;
          bp = rd (task_ebp_at (current_task s)) s;
          s = s\<lparr>current_directory := rd (task_directory_at (current_task s)) s\<rparr>
      in (case tfp_printf (cstr ''got here '' @ [10]) [] s of
            Inl e \<Rightarrow> Inl e
          | Inr (_, s) \<Rightarrow>
              let s = cli s;
                  s = s\<lparr>esp := sp, ebp := bp, cr3 := rd (physicalAddr_at (current_directory s)) s\<rparr>;
                  s = sti s
              in Inr (Jumped, s\<lparr>eip := addr\<rparr>)))"

text \<open>From the return of \<open>read_eip\<close> on, with its value \<open>addr\<close>.\<close>

definition switch_from :: "u32 \<Rightarrow> u32 \<Rightarrow> u32 \<Rightarrow> (machine, control) prog" where
  "switch_from sp bp addr s =
     (if addr = 0x12345 then Inr (Returned, s)
      else resume_current (choose_next (save_current sp bp addr s)))"

definition switch_task :: "(machine, control) prog" where
  "switch_task s =
     (if current_task s = 0 then Inr (Returned, s)
      else switch_from (esp s) (ebp s) (read_eip s) s)"

definition getpid :: "machine \<Rightarrow> s32" where
  "getpid s = rd (task_id_at (current_task s)) s"

subsection \<open>The ready queue\<close>

text \<open>A \<open>task_t\<close> lies in memory without wrapping, and not where the screen code writes.\<close>

definition task_place :: "u32 \<Rightarrow> bool" where
  "task_place p \<longleftrightarrow> p \<noteq> 0 \<and> unat p + 24 \<le> 4294967296 \<and> (unat p + 24 \<le> 0xB8000 \<or> 0xBA000 \<le> unat p)"

definition task_apart :: "u32 \<Rightarrow> u32 \<Rightarrow> bool" where
  "task_apart p r \<longleftrightarrow> unat p + 24 \<le> unat r \<or> unat r + 24 \<le> unat p"

text \<open>The tasks \<open>q\<close> are linked in their order from \<open>ready_queue\<close> on.\<close>

definition queue_linked :: "u32 list \<Rightarrow> memory \<Rightarrow> bool" where
  "queue_linked q m \<longleftrightarrow>
     (\<forall>i < length q. ld32 m (task_next_at (q ! i)) = (if Suc i < length q then q ! Suc i else 0))"

definition queue_ok :: "u32 list \<Rightarrow> machine \<Rightarrow> bool" where
  "queue_ok q s \<longleftrightarrow> q \<noteq> [] \<and> (\<forall>p \<in> set q. task_place p)
     \<and> (\<forall>i < length q. \<forall>j < length q. i \<noteq> j \<longrightarrow> task_apart (q ! i) (q ! j))
     \<and> ready_queue s = q ! 0 \<and> queue_linked q (mem s)"

text \<open>The registers saved in a task.\<close>

type_synonym ctx = "u32 \<times> u32 \<times> u32"

definition saved :: "u32 \<Rightarrow> machine \<Rightarrow> ctx" where
  "saved p s = (rd (task_esp_at p) s, rd (task_ebp_at p) s, rd (task_eip_at p) s)"

definition regs :: "machine \<Rightarrow> ctx" where
  "regs s = (esp s, ebp s, eip s)"

lemma task_field_unat:
  assumes "task_place p"
  shows "unat (task_id_at p) = unat p" "unat (task_esp_at p) = unat p + 4" "unat (task_ebp_at p) = unat p + 8"
    "unat (task_eip_at p) = unat p + 12" "unat (task_directory_at p) = unat p + 16" "unat (task_next_at p) = unat p + 20"
  using assms by (simp_all add: task_place_def task_offsets unat_add_numeral32)

text \<open>Two memories that agree on the structure of a task.\<close>

definition task_same :: "u32 \<Rightarrow> memory \<Rightarrow> memory \<Rightarrow> bool" where
  "task_same p m m' \<longleftrightarrow> same_on (unat p) (unat p + 24) m m'"

lemma task_same_fields:
  assumes "task_place p" and "task_same p m m'"
  shows "ld32 m' (task_id_at p) = ld32 m (task_id_at p)" "ld32 m' (task_esp_at p) = ld32 m (task_esp_at p)"
    "ld32 m' (task_ebp_at p) = ld32 m (task_ebp_at p)" "ld32 m' (task_eip_at p) = ld32 m (task_eip_at p)"
    "ld32 m' (task_directory_at p) = ld32 m (task_directory_at p)" "ld32 m' (task_next_at p) = ld32 m (task_next_at p)"
  using assms(2) unfolding task_same_def
  by (rule ld32_same_on; use assms(1) in \<open>simp add: task_field_unat [OF assms(1)] task_place_def\<close>)+

lemma saved_same: "task_place p \<Longrightarrow> task_same p (mem s) (mem t) \<Longrightarrow> saved p t = saved p s"
  by (simp add: saved_def rd_def task_same_fields)

lemma queue_linked_same:
  "queue_linked q m \<Longrightarrow> \<forall>p \<in> set q. task_place p \<and> task_same p m m' \<Longrightarrow> queue_linked q m'"
  unfolding queue_linked_def using task_same_fields(6) [of _ m m'] by (simp add: all_set_conv_all_nth)

subsection \<open>Saving the registers of a task\<close>

definition save_task :: "u32 \<Rightarrow> ctx \<Rightarrow> memory \<Rightarrow> memory" where
  "save_task p c m = st32 (st32 (st32 m (task_eip_at p) (snd (snd c))) (task_esp_at p) (fst c)) (task_ebp_at p) (fst (snd c))"

lemma save_task:
  assumes p: "task_place p"
  shows "only_in (unat p + 4) (unat p + 16) m (save_task p c m)"
    and "ld32 (save_task p c m) (task_esp_at p) = fst c" and "ld32 (save_task p c m) (task_ebp_at p) = fst (snd c)"
    and "ld32 (save_task p c m) (task_eip_at p) = snd (snd c)"
    and "ld32 (save_task p c m) (task_id_at p) = ld32 m (task_id_at p)"
    and "ld32 (save_task p c m) (task_directory_at p) = ld32 m (task_directory_at p)"
    and "ld32 (save_task p c m) (task_next_at p) = ld32 m (task_next_at p)"
  using p task_field_unat [OF p]
  by (simp_all add: save_task_def task_place_def only_in_st32_step ld32_st32_far)

lemma save_task_other: "task_apart p r \<Longrightarrow> task_place p \<Longrightarrow> task_same r m (save_task p c m)"
  unfolding task_same_def by (rule only_in_same_on [OF save_task(1)]) (auto simp: task_apart_def)

lemma save_task_linked:
  assumes q: "queue_ok q s" and i: "i < length q"
  shows "queue_linked q (save_task (q ! i) c (mem s))"
proof -
  have "ld32 (save_task (q ! i) c (mem s)) (task_next_at (q ! j)) = ld32 (mem s) (task_next_at (q ! j))"
    if "j < length q" for j
  proof (cases "j = i")
    case True
    then show ?thesis using q i save_task(7) by (simp add: queue_ok_def)
  next
    case False
    then show ?thesis using q i that save_task_other [of "q ! i" "q ! j" "mem s" c]
      by (simp add: queue_ok_def task_same_fields)
  qed
  then show ?thesis using q by (simp add: queue_ok_def queue_linked_def)
qed

lemma task_same_screen: "only_in 0xB8000 0xBA000 m m' \<Longrightarrow> task_place p \<Longrightarrow> task_same p m m'"
  unfolding task_same_def by (erule only_in_same_on) (auto simp: task_place_def)


subsection \<open>One switch\<close>

lemma queue_okD:
  assumes "queue_ok q s" and "i < length q"
  shows "task_place (q ! i)" "q ! i \<noteq> 0" "j < length q \<Longrightarrow> i \<noteq> j \<Longrightarrow> task_apart (q ! i) (q ! j)"
    "ld32 (mem s) (task_next_at (q ! i)) = (if Suc i < length q then q ! Suc i else 0)" "ready_queue s = q ! 0"
  using assms by (auto simp: queue_ok_def queue_linked_def task_place_def)

lemma queue_ok_keep:
  assumes "queue_ok q s" and "ready_queue t = ready_queue s" and "queue_linked q (mem t)"
  shows "queue_ok q t"
  using assms by (simp add: queue_ok_def)

definition next_index :: "u32 list \<Rightarrow> nat \<Rightarrow> nat" where
  "next_index q i = Suc i mod length q"

lemma next_index_less [simp]: "i < length q \<Longrightarrow> next_index q i < length q"
  unfolding next_index_def by (rule mod_less_divisor) auto

lemma format_got_here: "format_out (cstr ''got here '' @ [10]) [] = Inr (cstr ''got here '' @ [10])"
  by (simp add: format_out_def cstr_def)

lemma save_current_mem: "save_current sp bp addr s = s\<lparr>mem := save_task (current_task s) (sp, bp, addr) (mem s)\<rparr>"
  by (simp add: save_current_def wr_def save_task_def)

lemma choose_next_index:
  assumes "queue_ok q s" and "i < length q" and "current_task s = q ! i" and "queue_linked q m"
  shows "choose_next (s\<lparr>mem := m\<rparr>) = s\<lparr>mem := m, current_task := q ! next_index q i\<rparr>"
proof (cases "Suc i < length q")
  case True
  then have "ld32 m (task_next_at (q ! i)) = q ! Suc i" "q ! Suc i \<noteq> 0" "next_index q i = Suc i"
    using assms(2,4) queue_okD(2) [OF assms(1) True] by (simp_all add: queue_linked_def next_index_def)
  then show ?thesis by (simp add: choose_next_def rd_def assms(3))
next
  case False
  then have "Suc i = length q" using assms(2) by simp
  then have "ld32 m (task_next_at (q ! i)) = 0" "next_index q i = 0"
    using assms(2,4) by (simp_all add: queue_linked_def next_index_def)
  then show ?thesis using queue_okD(5) [OF assms(1,2)] by (simp add: choose_next_def rd_def assms(3))
qed

definition resumed :: "u32 \<Rightarrow> memory \<Rightarrow> machine \<Rightarrow> machine" where
  "resumed p m s = s\<lparr>iflag := True, esp := ld32 m (task_esp_at p), ebp := ld32 m (task_ebp_at p),
     cr3 := rd (physicalAddr_at (current_directory s)) s, eip := ld32 m (task_eip_at p)\<rparr>"

lemma resumed_simps [simp]:
  "mem (resumed p m s) = mem s" "current_task (resumed p m s) = current_task s" "ready_queue (resumed p m s) = ready_queue s"
  "next_pid (resumed p m s) = next_pid s" "iflag (resumed p m s)" "current_directory (resumed p m s) = current_directory s"
  "console_ok (resumed p m s) = console_ok s" "rd a (resumed p m s) = rd a s"
  "regs (resumed p m s) = (ld32 m (task_esp_at p), ld32 m (task_ebp_at p), ld32 m (task_eip_at p))"
  by (simp_all add: resumed_def console_ok_def rd_def regs_def)

lemma resume_current_runs:
  assumes "console_ok s" and "current_task s = p"
  obtains v where "resume_current s = Inr (Jumped, resumed p (mem s) v)" and "console_ok v"
    and "screen_step (s\<lparr>current_directory := rd (task_directory_at p) s\<rparr>) v" and "only_in 0xB8000 0xBA000 (mem s) (mem v)"
proof -
  let ?t = "s\<lparr>current_directory := rd (task_directory_at p) s\<rparr>"
  have "console_ok ?t" using assms(1) by (simp add: console_ok_def)
  then obtain v where v: "tfp_printf (cstr ''got here '' @ [10]) [] ?t = Inr ((), v)" "screen_step ?t v" "console_ok v"
    "only_in 0xB8000 0xBA000 (mem ?t) (mem v)"
    by (rule console_line [OF _ format_got_here]) (simp_all add: cstr_def)
  then have "resume_current s = Inr (Jumped, resumed p (mem s) v)"
    by (simp add: resume_current_def Let_def rd_def cli_def sti_def resumed_def assms(2))
  then show ?thesis using that v(2-4) by simp
qed

lemma switch_task_runs:
  assumes q: "queue_ok q s" and i: "i < length q" and cur: "current_task s = q ! i" and con: "console_ok s"
    and e: "eip s \<noteq> 0x12345"
  obtains u where "switch_task s = Inr (Jumped, u)" and "queue_ok q u" and "console_ok u"
    and "current_task u = q ! next_index q i" and "saved (q ! i) u = regs s"
    and "\<forall>j < length q. j \<noteq> i \<longrightarrow> saved (q ! j) u = saved (q ! j) s"
    and "regs u = saved (q ! next_index q i) u" and "iflag u" and "next_pid u = next_pid s"
    and "\<forall>p \<in> set q. rd (task_id_at p) u = rd (task_id_at p) s \<and> rd (task_directory_at p) u = rd (task_directory_at p) s"
    and "current_directory u = rd (task_directory_at (q ! next_index q i)) s"
    and "\<exists>m. only_in (unat (q ! i) + 4) (unat (q ! i) + 16) (mem s) m \<and> only_in 0xB8000 0xBA000 m (mem u)"
    and "cr3 u = rd (physicalAddr_at (current_directory u)) u"
proof -
  let ?p = "q ! i" and ?n = "q ! next_index q i"
  note P = queue_okD [OF q i] and N = queue_okD [OF q next_index_less [OF i]]
  define m where "m = save_task ?p (regs s) (mem s)"
  define t where "t = s\<lparr>mem := m, current_task := ?n\<rparr>"
  note sv = save_task [OF P(1), where m = "mem s" and c = "regs s", folded m_def]
  have "choose_next (save_current (esp s) (ebp s) (eip s) s) = t"
    using choose_next_index [OF q i cur save_task_linked [OF q i, of "regs s"]]
    by (simp add: save_current_mem cur regs_def m_def t_def)
  then have st: "switch_task s = resume_current t"
    using P(2) e by (simp add: switch_task_def switch_from_def read_eip_def cur)
  have "console_ok t" "current_task t = ?n" using con by (simp_all add: console_ok_def t_def)
  then obtain v where v: "resume_current t = Inr (Jumped, resumed ?n (mem t) v)" "console_ok v"
    "screen_step (t\<lparr>current_directory := rd (task_directory_at ?n) t\<rparr>) v" "only_in 0xB8000 0xBA000 (mem t) (mem v)"
    by (rule resume_current_runs)
  note vs = screen_step_simps [OF v(3)]
  define u where "u = resumed ?n m v"
  have us: "mem u = mem v" "current_task u = ?n" "ready_queue u = ready_queue s" "next_pid u = next_pid s" "iflag u"
    "current_directory u = ld32 m (task_directory_at ?n)" "console_ok u" "rd a u = ld32 (mem v) a"
    "regs u = (ld32 m (task_esp_at ?n), ld32 m (task_ebp_at ?n), ld32 m (task_eip_at ?n))" for a
    using vs v(2) by (simp_all add: u_def t_def rd_def)
  have run: "switch_task s = Inr (Jumped, u)" using st v(1) by (simp add: u_def t_def)
  have scr: "task_same (q ! j) m (mem u)" if "j < length q" for j
    using task_same_screen [OF v(4) queue_okD(1) [OF q that]] by (simp add: t_def us)
  have oth: "task_same (q ! j) (mem s) m" if "j < length q" "j \<noteq> i" for j
    unfolding m_def using that queue_okD(3) [OF q i, of j] by (intro save_task_other P(1)) simp
  have fld: "ld32 m (task_id_at (q ! j)) = ld32 (mem s) (task_id_at (q ! j))
      \<and> ld32 m (task_directory_at (q ! j)) = ld32 (mem s) (task_directory_at (q ! j))" if "j < length q" for j
  proof (cases "j = i")
    case True
    then show ?thesis using sv(5,6) by simp
  next
    case False
    then show ?thesis using task_same_fields(1,5) [OF queue_okD(1) [OF q that] oth [OF that False]] by simp
  qed
  have flu: "rd (task_id_at (q ! j)) u = rd (task_id_at (q ! j)) s
      \<and> rd (task_directory_at (q ! j)) u = rd (task_directory_at (q ! j)) s" if "j < length q" for j
    using fld [OF that] task_same_fields(1,5) [OF queue_okD(1) [OF q that] scr [OF that]] by (simp add: us) (simp add: rd_def)
  have sav: "saved (q ! j) u = (ld32 m (task_esp_at (q ! j)), ld32 m (task_ebp_at (q ! j)), ld32 m (task_eip_at (q ! j)))"
    if "j < length q" for j
    using task_same_fields(2,3,4) [OF queue_okD(1) [OF q that] scr [OF that]] by (simp add: saved_def rd_def)
  have lk: "queue_linked q (mem u)"
  proof (rule queue_linked_same)
    show "queue_linked q m" unfolding m_def by (rule save_task_linked [OF q i])
    show "\<forall>p \<in> set q. task_place p \<and> task_same p m (mem u)"
      unfolding all_set_conv_all_nth using scr queue_okD(1) [OF q] by blast
  qed
  show ?thesis
  proof (rule that [OF run])
    show "queue_ok q u" using lk us by (intro queue_ok_keep [OF q]) simp_all
    show "console_ok u" by (rule us)
    show "current_task u = ?n" "next_pid u = next_pid s" "iflag u" by (rule us)+
    show "saved ?p u = regs s" unfolding sav [OF i] using sv(2-4) by (simp add: prod_eq_iff)
    show "\<forall>j < length q. j \<noteq> i \<longrightarrow> saved (q ! j) u = saved (q ! j) s"
      using sav task_same_fields(2-4) [OF queue_okD(1) [OF q] oth] by (simp add: saved_def rd_def)
    show "regs u = saved ?n u" unfolding sav [OF next_index_less [OF i]] by (rule us)
    show "\<forall>p \<in> set q. rd (task_id_at p) u = rd (task_id_at p) s \<and> rd (task_directory_at p) u = rd (task_directory_at p) s"
      unfolding all_set_conv_all_nth using flu by blast
    show "current_directory u = rd (task_directory_at ?n) s"
      using us(6) fld [OF next_index_less [OF i]] by (simp add: rd_def)
    show "\<exists>m. only_in (unat ?p + 4) (unat ?p + 16) (mem s) m \<and> only_in 0xB8000 0xBA000 m (mem u)"
      using sv(1) v(4) by (intro exI [of _ m]) (simp add: us t_def)
    show "cr3 u = rd (physicalAddr_at (current_directory u)) u"
      unfolding u_def by (simp add: resumed_def rd_def)
  qed
qed

subsection \<open>Schedules\<close>

text \<open>
  What the running task may do between two switches: anything that leaves the task structures,
  the scheduler's variables and the console in order, and it never runs at the magic address.
\<close>

definition task_runs :: "u32 list \<Rightarrow> machine \<Rightarrow> machine \<Rightarrow> bool" where
  "task_runs q s t \<longleftrightarrow> (\<forall>p \<in> set q. task_same p (mem s) (mem t)) \<and> current_task t = current_task s
     \<and> ready_queue t = ready_queue s \<and> console_ok t \<and> eip t \<noteq> 0x12345"

text \<open>\<open>schedule q s k t\<close>: from \<open>s\<close> to \<open>t\<close> by tasks running and \<open>k\<close> switches.\<close>

inductive schedule :: "u32 list \<Rightarrow> machine \<Rightarrow> nat \<Rightarrow> machine \<Rightarrow> bool" for q where
  start: "schedule q s 0 s"
| run: "schedule q s k t \<Longrightarrow> task_runs q t u \<Longrightarrow> schedule q s k u"
| switch: "schedule q s k t \<Longrightarrow> switch_task t = Inr (Jumped, u) \<Longrightarrow> schedule q s (Suc k) u"

text \<open>The scheduler is at task \<open>i\<close> of \<open>q\<close>.\<close>

definition at_task :: "u32 list \<Rightarrow> nat \<Rightarrow> machine \<Rightarrow> bool" where
  "at_task q i s \<longleftrightarrow> queue_ok q s \<and> i < length q \<and> current_task s = q ! i \<and> console_ok s"

lemma task_runs_at: "at_task q i s \<Longrightarrow> task_runs q s t \<Longrightarrow> at_task q i t"
  by (auto simp: at_task_def task_runs_def queue_ok_def intro: queue_linked_same)

lemma task_runs_directory:
  assumes "at_task q i s" and "task_runs q s t" and j: "j < length q"
  shows "rd (task_directory_at (q ! j)) t = rd (task_directory_at (q ! j)) s"
proof -
  have "queue_ok q s" "task_same (q ! j) (mem s) (mem t)" using assms by (simp_all add: at_task_def task_runs_def)
  then show ?thesis using task_same_fields(5) queue_okD(1) [OF _ j] by (metis rd_def)
qed

lemma task_runs_saved: "at_task q i s \<Longrightarrow> task_runs q s t \<Longrightarrow> j < length q \<Longrightarrow> saved (q ! j) t = saved (q ! j) s"
  by (rule saved_same) (auto simp: at_task_def task_runs_def queue_ok_def)

lemma switch_at:
  assumes "at_task q i s" and "switch_task s = Inr (Jumped, t)"
  shows "at_task q (next_index q i) t" and "saved (q ! i) t = regs s"
    and "j < length q \<Longrightarrow> j \<noteq> i \<Longrightarrow> saved (q ! j) t = saved (q ! j) s"
    and "regs t = saved (q ! next_index q i) t"
    and "j < length q \<Longrightarrow> rd (task_directory_at (q ! j)) t = rd (task_directory_at (q ! j)) s"
    and "current_directory t = rd (task_directory_at (q ! next_index q i)) s"
    and "cr3 t = rd (physicalAddr_at (current_directory t)) t"
proof -
  have e: "eip s \<noteq> 0x12345"
    using assms by (auto simp: switch_task_def switch_from_def read_eip_def split: if_splits)
  have A: "queue_ok q s" "i < length q" "current_task s = q ! i" "console_ok s"
    using assms(1) by (simp_all add: at_task_def)
  obtain u where u: "switch_task s = Inr (Jumped, u)" "queue_ok q u" "console_ok u"
    "current_task u = q ! next_index q i" "saved (q ! i) u = regs s"
    "\<forall>j < length q. j \<noteq> i \<longrightarrow> saved (q ! j) u = saved (q ! j) s" "regs u = saved (q ! next_index q i) u"
    "\<forall>p \<in> set q. rd (task_id_at p) u = rd (task_id_at p) s \<and> rd (task_directory_at p) u = rd (task_directory_at p) s"
    "current_directory u = rd (task_directory_at (q ! next_index q i)) s" "cr3 u = rd (physicalAddr_at (current_directory u)) u"
    by (rule switch_task_runs [OF A e])
  have "t = u" using assms(2) u(1) by simp
  then show "at_task q (next_index q i) t" "saved (q ! i) t = regs s"
    "j < length q \<Longrightarrow> j \<noteq> i \<Longrightarrow> saved (q ! j) t = saved (q ! j) s" "regs t = saved (q ! next_index q i) t"
    "j < length q \<Longrightarrow> rd (task_directory_at (q ! j)) t = rd (task_directory_at (q ! j)) s"
    "current_directory t = rd (task_directory_at (q ! next_index q i)) s" "cr3 t = rd (physicalAddr_at (current_directory t)) t"
    using u A(2) by (simp_all add: at_task_def)
qed

lemma next_index_add: "i < length q \<Longrightarrow> next_index q ((i + k) mod length q) = (i + Suc k) mod length q"
  by (simp add: next_index_def mod_Suc_eq)

lemma schedule_at:
  assumes "schedule q s k t" and "at_task q i s"
  shows "at_task q ((i + k) mod length q) t"
  using assms
proof (induction rule: schedule.induct)
  case (start s)
  then show ?case by (simp add: at_task_def)
next
  case (run s k t u)
  then show ?case using task_runs_at by blast
next
  case (switch s k t u)
  have "i < length q" using switch.prems by (simp add: at_task_def)
  then show ?case using switch_at(1) [OF switch.IH [OF switch.prems] switch.hyps(2)] by (simp add: next_index_add)
qed

text \<open>A task that is not running keeps its saved registers.\<close>

lemma schedule_saved:
  assumes "schedule q s k t" and "at_task q i s" and "j < length q" and "\<forall>l < k. (i + l) mod length q \<noteq> j"
  shows "saved (q ! j) t = saved (q ! j) s"
  using assms
proof (induction rule: schedule.induct)
  case (run s k t u)
  then show ?case using task_runs_saved [OF schedule_at [OF run.hyps(1) run.prems(1)] run.hyps(2)] by simp
next
  case (switch s k t u)
  then have "j \<noteq> (i + k) mod length q" by auto
  from switch_at(3) [OF schedule_at [OF switch.hyps(1) switch.prems(1)] switch.hyps(2) switch.prems(2) this]
  show ?case using switch by simp
qed simp

text \<open>No task gets another page directory, whether it runs or not.\<close>

lemma schedule_directory:
  assumes "schedule q s k t" and "at_task q i s" and "j < length q"
  shows "rd (task_directory_at (q ! j)) t = rd (task_directory_at (q ! j)) s"
  using assms
proof (induction rule: schedule.induct)
  case (run s k t u)
  then show ?case using task_runs_directory [OF schedule_at [OF run.hyps(1) run.prems(1)] run.hyps(2)] by simp
next
  case (switch s k t u)
  then show ?case using switch_at(5) [OF schedule_at [OF switch.hyps(1) switch.prems(1)] switch.hyps(2)] by simp
qed simp

subsection \<open>Properties of the scheduler\<close>

text \<open>
  C13: \<open>switch_task\<close> is a step of a round-robin scheduler: it saves the registers in the running
  task, goes on with the next task of the ready queue (the first one after the last), loads the
  registers and the page directory saved there, changes no other task, and leaves the queue as
  it was, with interrupts on.
\<close>

theorem switch_task_round_robin:
  assumes "queue_ok q s" and "i < length q" and "current_task s = q ! i" and "console_ok s" and "eip s \<noteq> 0x12345"
  shows "\<exists>u. switch_task s = Inr (Jumped, u) \<and> queue_ok q u \<and> current_task u = q ! (Suc i mod length q)
    \<and> saved (q ! i) u = regs s \<and> (\<forall>j < length q. j \<noteq> i \<longrightarrow> saved (q ! j) u = saved (q ! j) s)
    \<and> regs u = saved (q ! (Suc i mod length q)) u \<and> iflag u
    \<and> current_directory u = rd (task_directory_at (q ! (Suc i mod length q))) s"
proof -
  obtain u where "switch_task s = Inr (Jumped, u)" "queue_ok q u" "console_ok u"
    "current_task u = q ! next_index q i" "saved (q ! i) u = regs s"
    "\<forall>j < length q. j \<noteq> i \<longrightarrow> saved (q ! j) u = saved (q ! j) s" "regs u = saved (q ! next_index q i) u" "iflag u"
    "current_directory u = rd (task_directory_at (q ! next_index q i)) s"
    by (rule switch_task_runs [OF assms])
  then show ?thesis unfolding next_index_def by blast
qed

text \<open>
  C11: The scheduler is fair: after \<open>k\<close> switches, whatever the tasks do in between, the task
  \<open>k\<close> places further in the cyclic order of the queue is running, and the next switch does not
  block either.
\<close>

theorem scheduler_fair:
  assumes "queue_ok q s" and "i < length q" and "current_task s = q ! i" and "console_ok s"
    and "schedule q s k t" and "eip t \<noteq> 0x12345"
  shows "current_task t = q ! ((i + k) mod length q) \<and> queue_ok q t \<and> (\<exists>u. switch_task t = Inr (Jumped, u))"
proof -
  have t: "at_task q ((i + k) mod length q) t"
    using assms by (intro schedule_at [of q s k t i]) (simp_all add: at_task_def)
  then obtain u where "switch_task t = Inr (Jumped, u)"
    using switch_task_runs [of q t "(i + k) mod length q"] assms(6) unfolding at_task_def by metis
  then show ?thesis using t by (simp add: at_task_def)
qed

text \<open>
  C12: A task is resumed as it was left: when it has been switched away and, after every other
  task had its turn, is switched to again, it goes on with the stack pointer, base pointer and
  address it was interrupted with, and in the page directory of its task structure: the one it ran
  in, if it ran in the one that the structure named. The processor is given the physical address
  that this directory holds.
\<close>

theorem task_resumed_as_left:
  assumes "queue_ok q s" and "i < length q" and "current_task s = q ! i" and "console_ok s" and "2 \<le> length q"
    and "switch_task s = Inr (Jumped, t)" and "schedule q t (length q - 2) u" and "switch_task u = Inr (Jumped, v)"
  shows "current_task v = current_task s \<and> regs v = regs s
    \<and> current_directory v = rd (task_directory_at (current_task s)) s
    \<and> (current_directory s = rd (task_directory_at (current_task s)) s \<longrightarrow> current_directory v = current_directory s)
    \<and> cr3 v = rd (physicalAddr_at (current_directory v)) v"
proof -
  let ?n = "length q"
  have s: "at_task q i s" using assms by (simp add: at_task_def)
  note t = switch_at [OF s assms(6)]
  define j where "j = (next_index q i + (?n - 2)) mod ?n"
  have u: "at_task q j u" unfolding j_def by (rule schedule_at [OF assms(7) t(1)])
  have turn: "(next_index q i + l) mod ?n \<noteq> i" if "l < ?n - 1" for l
  proof -
    have "(next_index q i + l) mod ?n = (Suc i + l) mod ?n" by (simp add: next_index_def mod_add_left_eq)
    moreover have "(Suc i + l) mod ?n \<noteq> i"
      using assms(2) that by (cases "Suc i + l < ?n") (auto simp: mod_if)
    ultimately show ?thesis by simp
  qed
  have j: "j \<noteq> i" "next_index q j = i"
  proof -
    show "j \<noteq> i" unfolding j_def using turn [of "?n - 2"] assms(5) by simp
    have "next_index q j = Suc (Suc i + (?n - 2)) mod ?n"
      by (simp add: j_def next_index_def mod_Suc_eq mod_add_left_eq)
    also have "Suc (Suc i + (?n - 2)) = i + ?n" using assms(5) by simp
    finally show "next_index q j = i" using assms(2) by simp
  qed
  have "saved (q ! i) u = saved (q ! i) t"
    using turn by (intro schedule_saved [OF assms(7) t(1) assms(2)]) simp
  moreover note v = switch_at [OF u assms(8)]
  ultimately have "regs v = regs s" using v(3) [OF assms(2)] v(4) t(2) j by simp
  moreover have "current_task v = current_task s" using v(1) j(2) assms(3) by (simp add: at_task_def)
  moreover have "current_directory v = rd (task_directory_at (q ! i)) u" using v(6) j(2) by simp
  moreover have "rd (task_directory_at (q ! i)) u = rd (task_directory_at (q ! i)) s"
    using schedule_directory [OF assms(7) t(1) assms(2)] t(5) [OF assms(2)] by simp
  ultimately show ?thesis using v(7) assms(3) by simp
qed

subsection \<open>A queue of two tasks\<close>

definition two_tasks :: machine where
  "two_tasks = init_printf Screen_Putc ((power_on
       (st32 (st32 (\<lambda>_. 0) (task_directory_at 0x1000) 0x7000) (task_next_at 0x1000) 0x2000) (\<lambda>_ _. 0))
     \<lparr>ready_queue := 0x1000, current_task := 0x1000, current_directory := 0x7000, esp := 0x10, ebp := 0x20, eip := 0x30\<rparr>)"

lemma two_tasks_ok: "queue_ok [0x1000, 0x2000] two_tasks" "current_task two_tasks = [0x1000, 0x2000] ! 0"
  "console_ok two_tasks" "regs two_tasks = (0x10, 0x20, 0x30)"
proof -
  have z: "ld32 (\<lambda>_. 0) a = 0" for a by (simp add: ld32_def)
  have m: "mem two_tasks = st32 (st32 (\<lambda>_. 0) (task_directory_at 0x1000) 0x7000) (task_next_at 0x1000) 0x2000" by (simp add: two_tasks_def init_printf_def)
  have "ld32 (mem two_tasks) (task_next_at 0x2000) = 0"
    unfolding m by (simp add: task_offsets far_simps unat_numeral32 z)
  moreover have "ld32 (mem two_tasks) (task_next_at 0x1000) = 0x2000" unfolding m by simp
  ultimately have "queue_linked [0x1000, 0x2000] (mem two_tasks)"
    by (simp add: queue_linked_def less_Suc_eq nth_Cons split: nat.split)
  then show "queue_ok [0x1000, 0x2000] two_tasks"
    by (auto simp: queue_ok_def task_place_def task_apart_def unat_numeral32 less_Suc_eq) (simp_all add: two_tasks_def init_printf_def)
  show "current_task two_tasks = [0x1000, 0x2000] ! 0" "console_ok two_tasks" "regs two_tasks = (0x10, 0x20, 0x30)"
    by (simp_all add: two_tasks_def init_printf_def console_ok_def regs_def)
qed


lemma two_tasks_directories: "rd (task_directory_at 0x1000) two_tasks = 0x7000" "rd (task_directory_at 0x2000) two_tasks = 0"
  "current_directory two_tasks = 0x7000"
proof -
  have z: "ld32 (\<lambda>_. 0) a = 0" for a by (simp add: ld32_def)
  have m: "mem two_tasks = st32 (st32 (\<lambda>_. 0) (task_directory_at 0x1000) 0x7000) (task_next_at 0x1000) 0x2000"
    by (simp add: two_tasks_def init_printf_def)
  show "rd (task_directory_at 0x1000) two_tasks = 0x7000" "rd (task_directory_at 0x2000) two_tasks = 0"
    unfolding rd_def m by (simp_all add: task_offsets far_simps unat_numeral32 z)
  show "current_directory two_tasks = 0x7000" by (simp add: two_tasks_def init_printf_def)
qed

lemma two_tasks_saved: "saved 0x2000 two_tasks = (0, 0, 0)"
proof -
  have z: "ld32 (\<lambda>_. 0) a = 0" for a by (simp add: ld32_def)
  have m: "mem two_tasks = st32 (st32 (\<lambda>_. 0) (task_directory_at 0x1000) 0x7000) (task_next_at 0x1000) 0x2000" by (simp add: two_tasks_def init_printf_def)
  show ?thesis unfolding saved_def rd_def m by (simp add: task_offsets far_simps unat_numeral32 z)
qed

lemma two_tasks_switched:
  obtains t where "switch_task two_tasks = Inr (Jumped, t)" and "at_task [0x1000, 0x2000] 1 t" and "eip t \<noteq> 0x12345"
proof -
  have e: "eip two_tasks \<noteq> 0x12345" using two_tasks_ok(4) by (simp add: regs_def)
  obtain t where t: "switch_task two_tasks = Inr (Jumped, t)"
    using switch_task_runs [OF two_tasks_ok(1) _ two_tasks_ok(2,3) e] by auto
  have "at_task [0x1000, 0x2000] 0 two_tasks" using two_tasks_ok by (simp add: at_task_def)
  note s = switch_at [OF this t]
  have "regs t = (0, 0, 0)" using s(3) [of 1] s(4) two_tasks_saved by (simp add: next_index_def)
  then show ?thesis using that [OF t] s(1) by (simp add: next_index_def regs_def)
qed

theorem switch_task_round_robin_witness:
  "\<exists>u. switch_task two_tasks = Inr (Jumped, u) \<and> current_task u = 0x2000 \<and> saved 0x1000 u = (0x10, 0x20, 0x30)"
proof -
  have "eip two_tasks \<noteq> 0x12345" using two_tasks_ok(4) by (simp add: regs_def)
  then show ?thesis
    using switch_task_round_robin [OF two_tasks_ok(1) _ two_tasks_ok(2,3)] two_tasks_ok(4) by auto
qed

theorem scheduler_fair_witness:
  "\<exists>t u. schedule [0x1000, 0x2000] two_tasks 1 t \<and> current_task t = 0x2000 \<and> switch_task t = Inr (Jumped, u)"
proof -
  obtain t where t: "switch_task two_tasks = Inr (Jumped, t)" "eip t \<noteq> 0x12345" by (rule two_tasks_switched)
  have "schedule [0x1000, 0x2000] two_tasks (Suc 0) t" by (rule schedule.switch [OF schedule.start t(1)])
  from scheduler_fair [OF two_tasks_ok(1) _ two_tasks_ok(2,3) this t(2)] this show ?thesis by auto
qed

theorem task_resumed_as_left_witness:
  "\<exists>t v. switch_task two_tasks = Inr (Jumped, t) \<and> switch_task t = Inr (Jumped, v)
    \<and> current_task v = 0x1000 \<and> regs v = (0x10, 0x20, 0x30) \<and> current_directory two_tasks = 0x7000
    \<and> current_directory t = 0 \<and> current_directory v = 0x7000 \<and> cr3 v = rd (physicalAddr_at 0x7000) v"
proof -
  obtain t where t: "switch_task two_tasks = Inr (Jumped, t)" "at_task [0x1000, 0x2000] 1 t" "eip t \<noteq> 0x12345"
    by (rule two_tasks_switched)
  then obtain v where v: "switch_task t = Inr (Jumped, v)"
    using switch_task_runs [of "[0x1000, 0x2000]" t 1] by (auto simp: at_task_def)
  have "at_task [0x1000, 0x2000] 0 two_tasks" using two_tasks_ok by (simp add: at_task_def)
  note away = switch_at(6) [OF this t(1)]
  have "schedule [0x1000, 0x2000] t (length [0x1000, 0x2000 :: u32] - 2) t" by (simp add: schedule.start)
  from task_resumed_as_left [OF two_tasks_ok(1) _ two_tasks_ok(2,3) _ t(1) this v] t(1) v show ?thesis
    using two_tasks_ok(2,4) two_tasks_directories away by (auto simp: next_index_def)
qed

subsection \<open>\<open>fork\<close>\<close>

lemma last_task_from:
  assumes "queue_ok q s" and "i < length q"
  shows "last_task (q ! i) s = Some (last q)"
  using assms(2)
proof (induction "length q - i" arbitrary: i)
  case (Suc n)
  show ?case
  proof (cases "Suc i < length q")
    case True
    then have "rd (task_next_at (q ! i)) s = q ! Suc i" "q ! Suc i \<noteq> 0"
      using queue_okD(4) [OF assms(1) Suc.prems] queue_okD(2) [OF assms(1) True] by (simp_all add: rd_def)
    moreover have "last_task (q ! Suc i) s = Some (last q)" using Suc True by simp
    ultimately show ?thesis by (subst last_task.simps) simp
  next
    case False
    then have "i = length q - 1" "rd (task_next_at (q ! i)) s = 0"
      using queue_okD(4) [OF assms(1) Suc.prems] Suc.prems by (simp_all add: rd_def)
    then show ?thesis using assms(1) by (subst last_task.simps) (simp add: last_conv_nth queue_ok_def)
  qed
qed simp

text \<open>The memory of a new task and what \<open>new_task\<close> leaves alone.\<close>

lemma new_task_fields:
  assumes "task_place c"
  shows "\<exists>m. new_task c d s = s\<lparr>mem := m, next_pid := next_pid s + 1\<rparr> \<and> only_in (unat c) (unat c + 24) (mem s) m
    \<and> ld32 m (task_id_at c) = next_pid s \<and> ld32 m (task_directory_at c) = d \<and> ld32 m (task_next_at c) = 0"
proof -
  define m where "m = st32 (st32 (st32 (st32 (st32 (st32 (mem s) (task_id_at c) (next_pid s)) (task_ebp_at c) 0)
      (task_esp_at c) 0) (task_eip_at c) 0) (task_directory_at c) d) (task_next_at c) 0"
  have "new_task c d s = s\<lparr>mem := m, next_pid := next_pid s + 1\<rparr>"
    by (simp add: new_task_def m_def Let_def wr_def)
  moreover have "only_in (unat c) (unat c + 24) (mem s) m \<and> ld32 m (task_id_at c) = next_pid s
      \<and> ld32 m (task_directory_at c) = d \<and> ld32 m (task_next_at c) = 0"
    using assms task_field_unat [OF assms]
    by (simp add: m_def task_place_def only_in_st32_step ld32_st32_far)
  ultimately show ?thesis by blast
qed

lemma link_task:
  assumes q: "queue_ok q s" and c: "task_place c" and ap: "\<forall>p \<in> set q. task_apart p c"
    and m: "only_in (unat c) (unat c + 24) (mem s) m" "ld32 m (task_next_at c) = 0"
  shows "queue_linked (q @ [c]) (st32 m (task_next_at (last q)) c)"
    and "task_same c m (st32 m (task_next_at (last q)) c)"
    and "p \<in> set q \<Longrightarrow> saved p (s\<lparr>mem := st32 m (task_next_at (last q)) c\<rparr>) = saved p s"
proof -
  let ?l = "last q" and ?m = "st32 m (task_next_at (last q)) c"
  have ne: "q \<noteq> []" using q by (simp add: queue_ok_def)
  have lp: "?l \<in> set q" "task_place ?l" "?l = q ! (length q - 1)" using q ne by (simp_all add: queue_ok_def last_conv_nth)
  have only: "only_in (unat ?l + 20) (unat ?l + 24) m ?m"
    using task_field_unat(6) [OF lp(2)] lp(2) by (intro only_in_st32) (simp_all add: task_place_def)
  have qs: "task_same p (mem s) m" if "p \<in> set q" for p
    unfolding task_same_def by (rule only_in_same_on [OF m(1)]) (use ap that in \<open>auto simp: task_apart_def\<close>)
  show cm: "task_same c m ?m"
    unfolding task_same_def by (rule only_in_same_on [OF only]) (use ap lp in \<open>auto simp: task_apart_def\<close>)
  have tp: "task_place p" if "p \<in> set q" for p using q that by (simp add: queue_ok_def)
  show "saved p (s\<lparr>mem := ?m\<rparr>) = saved p s" if "p \<in> set q"
  proof -
    have "ld32 ?m (task_esp_at p) = ld32 m (task_esp_at p) \<and> ld32 ?m (task_ebp_at p) = ld32 m (task_ebp_at p)
        \<and> ld32 ?m (task_eip_at p) = ld32 m (task_eip_at p)"
    proof (cases "p = ?l")
      case True
      then show ?thesis using task_field_unat [OF lp(2)] lp(2) by (simp add: task_place_def ld32_st32_far)
    next
      case False
      obtain i where i: "i < length q" "q ! i = p" using \<open>p \<in> set q\<close> by (auto simp: in_set_conv_nth)
      then have "i \<noteq> length q - 1" using False lp(3) by auto
      have "task_apart p ?l" using queue_okD(3) [OF q i(1), of "length q - 1"] \<open>i \<noteq> length q - 1\<close> i ne lp(3) by simp
      then have "task_same p m ?m" unfolding task_same_def by (intro only_in_same_on [OF only]) (auto simp: task_apart_def)
      from task_same_fields(2-4) [OF tp [OF that] this] show ?thesis by simp
    qed
    then show ?thesis using task_same_fields(2-4) [OF tp [OF that] qs [OF that]] by (simp add: saved_def rd_def)
  qed
  show "queue_linked (q @ [c]) ?m"
    unfolding queue_linked_def
  proof (intro allI impI)
    fix i assume i: "i < length (q @ [c])"
    consider "i = length q" | "Suc i = length q" | "Suc i < length q" using i by fastforce
    then show "ld32 ?m (task_next_at ((q @ [c]) ! i)) = (if Suc i < length (q @ [c]) then (q @ [c]) ! Suc i else 0)"
    proof cases
      case 1
      then show ?thesis using m(2) task_same_fields(6) [OF c cm] by simp
    next
      case 2
      then have "(q @ [c]) ! i = ?l" using lp(3) by (simp add: nth_append flip: 2)
      then show ?thesis using 2 by (simp add: nth_append)
    next
      case 3
      then have j: "i < length q" "i \<noteq> length q - 1" by auto
      have "task_apart (q ! i) ?l" using queue_okD(3) [OF q j(1), of "length q - 1"] j ne lp(3) by simp
      then have "task_same (q ! i) m ?m"
        unfolding task_same_def by (intro only_in_same_on [OF only]) (auto simp: task_apart_def)
      from task_same_fields(6) [OF queue_okD(1) [OF q j(1)] this]
        task_same_fields(6) [OF queue_okD(1) [OF q j(1)] qs [of "q ! i"]]
      show ?thesis using queue_okD(4) [OF q j(1)] 3 j(1) by (simp add: nth_append)
    qed
  qed
qed

lemma queue_ok_snoc:
  assumes "queue_ok q s" and "task_place c" and "\<forall>p \<in> set q. task_apart p c"
    and "ready_queue t = ready_queue s" and "queue_linked (q @ [c]) (mem t)"
  shows "queue_ok (q @ [c]) t"
  using assms by (auto simp: queue_ok_def nth_append less_Suc_eq task_apart_def)


lemma fork_runs:
  assumes "clone_directory (kmalloc_ap n) (current_directory s) (cli s) = Inr (dir, s1)"
    and "kmalloc n sizeof_task s1 = Inr (c, s2)"
    and "queue_ok q s2" and "current_task s \<in> set q" and "current_task s2 = current_task s"
    and "task_place c" and "\<forall>p \<in> set q. task_apart p c"
  shows "\<exists>u. fork n s = Inr (next_pid s2, u) \<and> queue_ok (q @ [c]) u \<and> current_task u = current_task s
    \<and> next_pid u = next_pid s2 + 1 \<and> rd (task_id_at c) u = next_pid s2 \<and> rd (task_directory_at c) u = dir
    \<and> saved c u = regs s2 \<and> (\<forall>p \<in> set q. saved p u = saved p s2) \<and> iflag u
    \<and> (\<forall>v. current_task v = c \<longrightarrow> fork_return (current_task s) c 0x12345 v = (0, v))
    \<and> u = s2\<lparr>mem := mem u, next_pid := next_pid s2 + 1, iflag := True\<rparr>
    \<and> (\<forall>x. (unat x < unat c \<or> unat c + 24 \<le> unat x) \<longrightarrow> (unat x < unat (last q) + 20 \<or> unat (last q) + 24 \<le> unat x)
        \<longrightarrow> mem u x = mem s2 x)"
proof -
  let ?p = "current_task s"
  obtain m where m: "new_task c dir s2 = s2\<lparr>mem := m, next_pid := next_pid s2 + 1\<rparr>" "only_in (unat c) (unat c + 24) (mem s2) m"
    "ld32 m (task_id_at c) = next_pid s2" "ld32 m (task_directory_at c) = dir" "ld32 m (task_next_at c) = 0"
    using new_task_fields [OF assms(6)] by blast
  note lk = link_task [OF assms(3,6,7) m(2,5)]
  define m1 where "m1 = st32 m (task_next_at (last q)) c"
  define m2 where "m2 = st32 (st32 (st32 m1 (task_esp_at c) (esp s2)) (task_ebp_at c) (ebp s2)) (task_eip_at c) (eip s2)"
  define u where "u = s2\<lparr>mem := m2, next_pid := next_pid s2 + 1, iflag := True\<rparr>"
  have q0: "q \<noteq> []" "ready_queue s2 = q ! 0" using assms(3) by (simp_all add: queue_ok_def)
  have tp: "task_place p" if "p \<in> set q" for p using assms(3) that by (simp add: queue_ok_def)
  have only: "only_in (unat c + 4) (unat c + 16) m1 m2"
    using assms(6) task_field_unat [OF assms(6)] by (simp add: m2_def task_place_def only_in_st32_step)
  have cf: "ld32 m2 (task_id_at c) = next_pid s2" "ld32 m2 (task_directory_at c) = dir" "ld32 m2 (task_next_at c) = 0"
    "ld32 m2 (task_esp_at c) = esp s2" "ld32 m2 (task_ebp_at c) = ebp s2" "ld32 m2 (task_eip_at c) = eip s2"
    using assms(6) task_field_unat [OF assms(6)] task_same_fields [OF assms(6) lk(2)] m(3-5)
    by (simp_all add: m2_def m1_def task_place_def ld32_st32_far)
  have qs: "task_same p m1 m2" if "p \<in> set q" for p
    unfolding task_same_def by (rule only_in_same_on [OF only]) (use assms(7) that in \<open>auto simp: task_apart_def\<close>)
  have lt: "last_task (ready_queue s2) (s2\<lparr>mem := m, next_pid := next_pid s2 + 1\<rparr>) = Some (last q)"
  proof -
    have same: "task_same p (mem s2) m" if "p \<in> set q" for p
      unfolding task_same_def by (rule only_in_same_on [OF m(2)]) (use assms(7) that in \<open>auto simp: task_apart_def\<close>)
    then have "queue_linked q m" using assms(3) tp unfolding queue_ok_def by (blast intro: queue_linked_same)
    then have "queue_ok q (s2\<lparr>mem := m, next_pid := next_pid s2 + 1\<rparr>)"
      using assms(3) by (intro queue_ok_keep [OF assms(3)]) simp_all
    from last_task_from [OF this, of 0] show ?thesis using q0 by simp
  qed
  have run: "fork n s = Inr (next_pid s2, u)"
    unfolding fork_def Let_def
    using assms(1,2,5) lt cf(1)
    by (simp add: m(1) cli_def wr_def fork_return_def read_eip_def sti_def Let_def rd_def u_def m2_def m1_def)
  have lk2: "queue_linked (q @ [c]) m2"
  proof -
    have "ld32 m2 (task_next_at p) = ld32 m1 (task_next_at p)" if "p \<in> set (q @ [c])" for p
    proof (cases "p \<in> set q")
      case True
      then show ?thesis using task_same_fields(6) [OF tp [OF True] qs [OF True]] by simp
    next
      case False
      then have "p = c" using that by simp
      then show ?thesis using cf(3) task_same_fields(6) [OF assms(6) lk(2)] m(5) by (simp add: m1_def)
    qed
    then have "ld32 m2 (task_next_at ((q @ [c]) ! i)) = ld32 m1 (task_next_at ((q @ [c]) ! i))" if "i < length (q @ [c])" for i
      using nth_mem [OF that] by blast
    then show ?thesis using lk(1) unfolding queue_linked_def m1_def [symmetric] by metis
  qed
  have sv: "saved p u = saved p s2" if "p \<in> set q" for p
  proof -
    have "saved p u = saved p (s2\<lparr>mem := m1\<rparr>)"
      by (rule saved_same [OF tp [OF that]]) (use qs [OF that] in \<open>simp add: u_def\<close>)
    then show ?thesis using lk(3) [OF that] by (simp add: m1_def)
  qed
  have "?p \<noteq> c" using assms(4,7) by (auto simp: task_apart_def)
  then have child: "fork_return ?p c 0x12345 v = (0, v)" if "current_task v = c" for v
    using that by (simp add: fork_return_def)
  have "queue_ok (q @ [c]) u" by (rule queue_ok_snoc [OF assms(3,6,7)]) (use lk2 in \<open>simp_all add: u_def\<close>)
  moreover have "mem u x = mem s2 x" if x: "unat x < unat c \<or> unat c + 24 \<le> unat x" "unat x < unat (last q) + 20 \<or> unat (last q) + 24 \<le> unat x" for x
  proof -
    have l: "task_place (last q)" using tp q0(1) by simp
    have "only_in (unat (last q) + 20) (unat (last q) + 24) m m1"
      unfolding m1_def using task_field_unat(6) [OF l] l by (intro only_in_st32) (simp_all add: task_place_def)
    then have "m1 x = m x" using x(2) unfolding only_in_def by blast
    moreover have "m2 x = m1 x" "m x = mem s2 x" using only m(2) x(1) by (auto simp: only_in_def)
    ultimately show ?thesis by (simp add: u_def)
  qed
  ultimately show ?thesis
    using run sv child cf assms(5) by (intro exI [of _ u]) (simp add: u_def saved_def rd_def regs_def)
qed

text \<open>
  C20: \<open>fork\<close> in the parent: the new task is appended to the ready queue with a fresh id, the
  cloned directory and the parent's registers (so it will go on where \<open>fork\<close> reads its
  address); the tasks that were there are unchanged, the parent goes on running with the new id
  as the result and interrupts on. When the child is later resumed there, \<open>fork\<close> returns 0
  in it and changes nothing.
\<close>

theorem fork_appends_child:
  assumes "clone_directory (kmalloc_ap n) (current_directory s) (cli s) = Inr (dir, s1)"
    and "kmalloc n sizeof_task s1 = Inr (c, s2)"
    and "queue_ok q s2" and "current_task s \<in> set q" and "current_task s2 = current_task s"
    and "task_place c" and "\<forall>p \<in> set q. task_apart p c"
  shows "\<exists>u. fork n s = Inr (next_pid s2, u) \<and> queue_ok (q @ [c]) u \<and> current_task u = current_task s
    \<and> next_pid u = next_pid s2 + 1 \<and> rd (task_id_at c) u = next_pid s2 \<and> rd (task_directory_at c) u = dir
    \<and> saved c u = regs s2 \<and> (\<forall>p \<in> set q. saved p u = saved p s2) \<and> iflag u
    \<and> (\<forall>v. current_task v = c \<longrightarrow> fork_return (current_task s) c 0x12345 v = (0, v))"
  using fork_runs [OF assms] by blast


definition fork_example :: machine where
  "fork_example = two_tasks\<lparr>kernel_directory := 0x300000, current_directory := 0x300000, placement_address := 0x100000\<rparr>"

theorem fork_appends_child_witness:
  "\<exists>u. fork 0 fork_example = Inr (1, u) \<and> queue_ok [0x1000, 0x2000, 0x103004] u \<and> saved 0x103004 u = (0x10, 0x20, 0x30)"
proof -
  let ?s = "cli fork_example" and ?q = "[0x1000, 0x2000 :: u32]"
  let ?s1 = "?s\<lparr>placement_address := 0x103004\<rparr>"
  have k: "kmalloc_ap 0 sizeof_page_directory ?s = Inr ((0x101000, 0x101000), ?s1)"
    by (simp add: kmalloc_ap_def kmalloc_int_def kmalloc_with_def cli_def fork_example_def two_tasks_def init_printf_def
        sizeof_page_directory_def)
  have m: "mem ?s1 = st32 (st32 (\<lambda>_. 0) (task_directory_at 0x1000) 0x7000) (task_next_at 0x1000) 0x2000"
    by (simp add: cli_def fork_example_def two_tasks_def init_printf_def)
  have z: "rd (tables_at 0x300000 i) ?s1 = 0" if "unat i < 1024" for i
  proof -
    have "dir_ok 0x300000" by (simp add: dir_ok_def unat_numeral32)
    note u = unat_dir_fields(1) [OF this that]
    have "ld32 (st32 m' (task_next_at 0x1000) 0x2000) (tables_at 0x300000 i) = ld32 m' (tables_at 0x300000 i)"
      "ld32 (st32 m' (task_directory_at 0x1000) 0x7000) (tables_at 0x300000 i) = ld32 m' (tables_at 0x300000 i)" for m'
      using u that by (intro ld32_st32_far; simp add: task_offsets unat_numeral32)+
    then show ?thesis unfolding rd_def m by (simp add: ld32_def [of "\<lambda>_. 0"])
  qed
  have kd: "kernel_directory ?s1 = 0x300000" by (simp add: fork_example_def cli_def)
  have "dirs_apart 0x101000 0x300000" by (simp add: dirs_apart_def dir_ok_def unat_numeral32)
  moreover have "kernel_tables 0x300000 ?s1" using z kd by (simp add: kernel_tables_def)
  ultimately obtain s1 where s1: "clone_directory (kmalloc_ap 0) 0x300000 ?s = Inr (0x101000, s1)"
    "only_in 0x101000 0x103004 (mem ?s1) (mem s1)" "s1 = ?s1\<lparr>mem := mem s1\<rparr>"
    using clone_directory_runs [where kap = "kmalloc_ap 0" and s = ?s and dir = "0x101000" and phys = "0x101000"
        and ?s1.0 = ?s1 and src = "0x300000"] k kd by (auto simp: unat_numeral32)
  let ?s2 = "s1\<lparr>placement_address := 0x10301C\<rparr>"
  have h: "kheap s1 = 0" "placement_address s1 = 0x103004" "ready_queue s1 = 0x1000" "current_task s1 = 0x1000"
    "next_pid s1 = 1" "regs s1 = (0x10, 0x20, 0x30)"
    by (subst s1(3); simp add: cli_def fork_example_def two_tasks_def init_printf_def regs_def)+
  have k2: "kmalloc 0 sizeof_task s1 = Inr (0x103004, ?s2)"
    by (simp add: kmalloc_def kmalloc_int_def kmalloc_with_def h seq_def ret_def sizeof_task_def)
  have "queue_linked ?q (mem s1)"
  proof (rule queue_linked_same)
    show "queue_linked ?q (mem two_tasks)" using two_tasks_ok(1) by (simp add: queue_ok_def)
    have "mem ?s1 = mem two_tasks" by (simp add: cli_def fork_example_def)
    then have "same_on 0 0x101000 (mem two_tasks) (mem s1)" using s1(2) by (auto intro: only_in_same_on)
    then show "\<forall>p \<in> set ?q. task_place p \<and> task_same p (mem two_tasks) (mem s1)"
      by (auto simp: task_place_def task_same_def unat_numeral32 elim: same_on_mono)
  qed
  then have q: "queue_ok ?q ?s2" using two_tasks_ok(1) h(3) by (simp add: queue_ok_def)
  have p: "clone_directory (kmalloc_ap 0) (current_directory fork_example) (cli fork_example) = Inr (0x101000, s1)"
    "current_task fork_example \<in> set ?q" "current_task ?s2 = current_task fork_example"
    using s1(1) h(4) by (simp_all add: fork_example_def two_tasks_def init_printf_def)
  have c: "task_place 0x103004" "\<forall>p \<in> set ?q. task_apart p 0x103004"
    by (simp_all add: task_place_def task_apart_def unat_numeral32)
  from fork_appends_child [OF p(1) k2 q p(2,3) c] show ?thesis using h(5,6) by (auto simp: regs_def)
qed

subsection \<open>\<open>move_stack\<close>\<close>

definition relocate_word :: "u32 \<Rightarrow> u32 \<Rightarrow> u32 \<Rightarrow> u32 \<Rightarrow> u32" where
  "relocate_word old_stack_pointer bottom offset tmp =
     (if old_stack_pointer < tmp \<and> tmp < bottom then tmp + offset else tmp)"

lemma of_nat_unat_eq: "unat w = n \<Longrightarrow> of_nat n = w" for w :: u32
  using unat_bound32 [of w] by (intro unat_eqI32) (simp add: unat_of_nat32)

lemma memcpy_word:
  assumes "unat dest + unat len \<le> unat src \<or> unat src + unat len \<le> unat dest"
    and "unat dest + unat len \<le> 4294967296" and "unat src + unat len \<le> 4294967296" and "j + 4 \<le> unat len"
  shows "ld32 (memcpy dest src len m) (dest + of_nat j) = ld32 m (src + of_nat j)"
proof -
  have b: "memcpy dest src len m (dest + of_nat k) = m (src + of_nat k)" if "k < unat len" for k
    using st_bytes_apply [of dest "ld_bytes m src (unat len)" k m] assms(2) that
    unfolding memcpy_def memcpy_loop_bytes [OF assms(1-3)] by (simp add: ld_bytes_def)
  show ?thesis
    using b [of j] b [of "j + 1"] b [of "j + 2"] b [of "j + 3"] assms(4) by (simp add: ld32_def add.assoc add.commute [of "of_nat j"])
qed

text \<open>The loop over the words at \<open>limit + 4, \<dots>, limit + 4 K\<close>.\<close>

lemma relocate_loop_words:
  assumes "unat limit + 4 * K + 4 \<le> 4294967296"
  shows "\<exists>m. relocate_loop o' d limit (limit + of_nat (4 * K)) s = Inr ((), s\<lparr>mem := m\<rparr>)
    \<and> only_in (unat limit + 4) (unat limit + 4 * K + 4) (mem s) m
    \<and> (\<forall>k. 1 \<le> k \<longrightarrow> k \<le> K \<longrightarrow> ld32 m (limit + of_nat (4 * k))
          = relocate_word o' (initial_esp s) d (ld32 (mem s) (limit + of_nat (4 * k))))"
  using assms
proof (induction K arbitrary: s)
  case 0
  show ?case by (subst relocate_loop.simps) (auto intro!: exI [of _ "mem s"])
next
  case (Suc K)
  let ?i = "limit + of_nat (4 * Suc K)"
  have at: "unat (limit + of_nat (4 * k)) = unat limit + 4 * k" if "k \<le> Suc K" for k
    using that Suc.prems by (simp add: unat_add32 unat_of_nat32 del: of_nat_mult)
  define w where "w = relocate_word o' (initial_esp s) d (ld32 (mem s) ?i)"
  define m1 where "m1 = (if o' < rd ?i s \<and> rd ?i s < initial_esp s then st32 (mem s) ?i w else mem s)"
  have m1: "ld32 m1 ?i = w" "only_in (unat ?i) (unat ?i + 4) (mem s) m1"
    using Suc.prems at [of "Suc K"] by (simp_all add: m1_def w_def relocate_word_def rd_def only_in_st32 del: of_nat_mult)
  have st: "(if o' < rd ?i s \<and> rd ?i s < initial_esp s then wr ?i (rd ?i s + d) s else s) = s\<lparr>mem := m1\<rparr>"
    by (simp add: m1_def w_def relocate_word_def rd_def wr_def del: of_nat_mult)
  have g: "limit < ?i" "\<not> ?i < 4" using at [of "Suc K"] by (simp_all add: word_less_nat_alt unat_numeral32 del: of_nat_mult)
  have i4: "?i - 4 = limit + of_nat (4 * K)" by simp
  have step: "relocate_loop o' d limit ?i s = relocate_loop o' d limit (limit + of_nat (4 * K)) (s\<lparr>mem := m1\<rparr>)"
    by (subst relocate_loop.simps) (simp only: Let_def st i4 g if_True if_False)
  obtain m where m: "relocate_loop o' d limit (limit + of_nat (4 * K)) (s\<lparr>mem := m1\<rparr>) = Inr ((), s\<lparr>mem := m\<rparr>)"
    "only_in (unat limit + 4) (unat limit + 4 * K + 4) m1 m"
    "\<And>k. 1 \<le> k \<Longrightarrow> k \<le> K \<Longrightarrow> ld32 m (limit + of_nat (4 * k)) = relocate_word o' (initial_esp s) d (ld32 m1 (limit + of_nat (4 * k)))"
    using Suc.IH [of "s\<lparr>mem := m1\<rparr>"] Suc.prems by auto
  have low: "ld32 m1 (limit + of_nat (4 * k)) = ld32 (mem s) (limit + of_nat (4 * k))" if "k \<le> K" for k
    using that at [of k] at [of "Suc K"] Suc.prems by (intro ld32_only_in [OF m1(2)]) simp_all
  have top: "ld32 m ?i = w"
    using m1(1) ld32_only_in [OF m(2), of ?i] at [of "Suc K"] Suc.prems by simp
  have "only_in (unat limit + 4) (unat limit + 4 * Suc K + 4) (mem s) m"
    by (rule only_in_trans [OF only_in_mono [OF m1(2)] only_in_mono [OF m(2)]]) (use at [of "Suc K"] in simp_all)
  moreover have "ld32 m (limit + of_nat (4 * k)) = relocate_word o' (initial_esp s) d (ld32 (mem s) (limit + of_nat (4 * k)))"
    if "1 \<le> k" "k \<le> Suc K" for k
    using that m(3) [of k] low [of k] top w_def by (cases "k = Suc K") auto
  ultimately show ?case unfolding step m(1) by blast
qed


lemma move_stack_runs:
  assumes "map_stack_loop (kmalloc_ap n) (A - sz) A s = Inr ((), s1)"
    and "unat sz = 4 * K" and "4 * K \<le> unat A" and "unat A + 4 \<le> 4294967296"
    and "unat (initial_esp s1) = unat (esp s1) + 4 * l" and "l < K"
    and "unat (initial_esp s1) \<le> unat A - 4 * K \<or> unat A + 4 \<le> unat (esp s1)"
  shows "\<exists>m. move_stack n A sz s = Inr ((), s1\<lparr>mem := m, esp := esp s1 + (A - initial_esp s1), ebp := ebp s1 + (A - initial_esp s1)\<rparr>)
    \<and> (\<forall>k. 1 \<le> k \<longrightarrow> k \<le> l \<longrightarrow> ld32 m (A - of_nat (4 * k))
          = relocate_word (esp s1) (initial_esp s1) (A - initial_esp s1) (rd (initial_esp s1 - of_nat (4 * k)) s1))
    \<and> only_in (unat A - 4 * K) (unat A + 4) (mem s1) m"
proof -
  let ?T = "initial_esp s1" and ?e = "esp s1" and ?d = "A - initial_esp s1"
  let ?lim = "A - sz" and ?len = "initial_esp s1 - esp s1" and ?nsp = "esp s1 + (A - initial_esp s1)"
  have lim: "unat ?lim = unat A - 4 * K" using assms(2,3) by (simp add: unat_sub32)
  have len: "unat ?len = 4 * l" using assms(5) by (simp add: unat_sub32)
  have e: "?nsp = A - ?len" by simp
  have nsp: "unat ?nsp = unat A - 4 * l" unfolding e using len assms(3,6) by (subst unat_sub32) simp_all
  define m1 where "m1 = memcpy ?nsp ?e ?len (mem s1)"
  have ap: "unat ?nsp + unat ?len \<le> unat ?e \<or> unat ?e + unat ?len \<le> unat ?nsp"
    using nsp len assms(3,5-7) by linarith
  have top: "unat ?nsp + unat ?len \<le> 4294967296" "unat ?e + unat ?len \<le> 4294967296"
    using nsp len assms(3-6) unat_bound32 [of ?T] by simp_all
  have o1: "only_in (unat ?nsp) (unat ?nsp + unat ?len) (mem s1) m1"
    using st_bytes_only_in [of ?nsp "ld_bytes (mem s1) ?e (unat ?len)" "mem s1"] top(1)
    unfolding m1_def memcpy_def memcpy_loop_bytes [OF ap top] by (simp add: ld_bytes_def)
  have "of_nat (4 * K) = sz" by (rule of_nat_unat_eq [OF assms(2)])
  then have A: "?lim + of_nat (4 * K) = A" by simp
  obtain m2 where m2: "relocate_loop ?e ?d ?lim A (s1\<lparr>mem := m1\<rparr>) = Inr ((), s1\<lparr>mem := m2\<rparr>)"
    "only_in (unat ?lim + 4) (unat ?lim + 4 * K + 4) m1 m2"
    "\<And>k. 1 \<le> k \<Longrightarrow> k \<le> K \<Longrightarrow> ld32 m2 (?lim + of_nat (4 * k)) = relocate_word ?e ?T ?d (ld32 m1 (?lim + of_nat (4 * k)))"
    using relocate_loop_words [of ?lim K ?e ?d "s1\<lparr>mem := m1\<rparr>"] lim assms(3,4) unfolding A by auto
  let ?u = "s1\<lparr>mem := m2, esp := ?nsp, ebp := ebp s1 + ?d\<rparr>"
  have "s1\<lparr>cr3 := cr3 s1\<rparr> = s1" by simp
  then have run: "move_stack n A sz s = Inr ((), ?u)"
    unfolding move_stack_def assms(1) using m2(1) by (simp add: m1_def Let_def)
  have "ld32 m2 (A - of_nat (4 * k)) = relocate_word ?e ?T ?d (rd (?T - of_nat (4 * k)) s1)" if "1 \<le> k" "k \<le> l" for k
  proof -
    have "ld32 m1 (?nsp + of_nat (4 * (l - k))) = ld32 (mem s1) (?e + of_nat (4 * (l - k)))"
      unfolding m1_def by (rule memcpy_word [OF ap top]) (use len that in simp)
    moreover have "of_nat (4 * l) = ?len" by (rule of_nat_unat_eq [OF len])
    then have ll: "of_nat (4 * (l - k)) = ?len - of_nat (4 * k)"
      using that(2) by (simp add: diff_mult_distrib2 of_nat_diff)
    ultimately have c: "ld32 m1 (A - of_nat (4 * k)) = ld32 (mem s1) (?T - of_nat (4 * k))"
      unfolding ll by (simp add: algebra_simps)
    have "of_nat (4 * (K - k)) = sz - of_nat (4 * k)"
      using that(2) assms(6) \<open>of_nat (4 * K) = sz\<close> by (simp add: diff_mult_distrib2 of_nat_diff)
    then have "?lim + of_nat (4 * (K - k)) = A - of_nat (4 * k)" by simp
    then show ?thesis using m2(3) [of "K - k"] that assms(6) c by (simp add: rd_def)
  qed
  moreover have "only_in (unat A - 4 * K) (unat A + 4) (mem s1) m2"
    by (rule only_in_trans [OF only_in_mono [OF o1] only_in_mono [OF m2(2)]]) (use nsp len lim assms(3,6) in simp_all)
  ultimately show ?thesis using run by (intro exI [of _ m2]) simp
qed


text \<open>
  C34: \<open>move_stack\<close> copies the used part of the old stack to the top of the new one, word for
  word, where a word that points into the old stack now points to the same place of the new
  one, and moves the stack and base pointers by the same distance. It holds for every stack
  that fits with one word to spare, once the pages of the new stack are mapped.
\<close>

theorem move_stack_relocates:
  assumes "map_stack_loop (kmalloc_ap n) (A - sz) A s = Inr ((), s1)"
    and "unat sz = 4 * K" and "4 * K \<le> unat A" and "unat A + 4 \<le> 4294967296"
    and "unat (initial_esp s1) = unat (esp s1) + 4 * l" and "l < K"
    and "unat (initial_esp s1) \<le> unat A - 4 * K \<or> unat A + 4 \<le> unat (esp s1)"
  shows "\<exists>s'. move_stack n A sz s = Inr ((), s')
    \<and> (\<forall>k. 1 \<le> k \<longrightarrow> k \<le> l \<longrightarrow> rd (A - of_nat (4 * k)) s'
          = relocate_word (esp s1) (initial_esp s1) (A - initial_esp s1) (rd (initial_esp s1 - of_nat (4 * k)) s1))
    \<and> esp s' = esp s1 + (A - initial_esp s1) \<and> ebp s' = ebp s1 + (A - initial_esp s1)
    \<and> only_in (unat A - 4 * K) (unat A + 4) (mem s1) (mem s')"
  using move_stack_runs [OF assms] by (auto simp: rd_def)

definition stack_example :: machine where
  "stack_example = (power_on (st32 (st32 (st32 (\<lambda>_. 0) 0x100000 0x200000) 0x200020 0x8000) 0x4004 0x4004) (\<lambda>_ _. 0))
     \<lparr>current_directory := 0x100000, initial_esp := 0x4008, esp := 0x4000, ebp := 0x4004\<rparr>"

theorem move_stack_relocates_witness:
  "\<exists>s'. move_stack 0 0x8000 0x10 stack_example = Inr ((), s') \<and> rd 0x7FFC s' = 0x7FFC
    \<and> esp s' = 0x7FF8 \<and> ebp s' = 0x7FFC"
proof -
  let ?s = stack_example
  have f: "current_directory ?s = 0x100000" "initial_esp ?s = 0x4008" "esp ?s = 0x4000" "ebp ?s = 0x4004"
    "rd 0x100000 ?s = 0x200000" "rd 0x200020 ?s = 0x8000" "rd 0x4004 ?s = 0x4004"
    by (simp_all add: stack_example_def rd_def far_simps unat_numeral32)
  have "map_stack_loop (kmalloc_ap 0) 0x7FF0 0x7000 ?s = Inr ((), ?s)"
    by (subst map_stack_loop.simps) simp
  moreover have "seq (get_page (kmalloc_ap 0) 0x8000 True 0x100000) (\<lambda>page. alloc_frame page 0 1) ?s = Inr ((), ?s)"
    using f by (simp add: seq_def get_page_def tables_at_def pages_at_def alloc_frame_def page_frame_def Let_def)
  ultimately have "map_stack_loop (kmalloc_ap 0) 0x7FF0 0x8000 ?s = Inr ((), ?s)"
    by (subst map_stack_loop.simps) (simp add: f(1))
  then have "map_stack_loop (kmalloc_ap 0) (0x8000 - 0x10) 0x8000 ?s = Inr ((), ?s)" by simp
  from move_stack_relocates [OF this, of 4 2] obtain s' where
    s': "move_stack 0 0x8000 0x10 ?s = Inr ((), s')"
      "\<forall>k. 1 \<le> k \<longrightarrow> k \<le> 2 \<longrightarrow> rd (0x8000 - of_nat (4 * k)) s' = relocate_word 0x4000 0x4008 0x3FF8 (rd (0x4008 - of_nat (4 * k)) ?s)"
      "esp s' = 0x7FF8" "ebp s' = 0x7FFC"
    by (auto simp: f unat_numeral32)
  from s'(2) [rule_format, of 1] s' show ?thesis by (auto simp: f relocate_word_def)
qed

lemma initialize_tasking_runs:
  assumes "move_stack n 0xE0000000 0x2000 (cli s) = Inr ((), s1)" and "kmalloc n sizeof_task s1 = Inr (t, s2)"
    and "task_place t"
  obtains m where "initialize_tasking n s = Inr ((), s2\<lparr>ready_queue := t, current_task := t, mem := m, next_pid := next_pid s2 + 1, iflag := True\<rparr>)"
    and "only_in (unat t) (unat t + 24) (mem s2) m" and "ld32 m (task_id_at t) = next_pid s2"
    and "ld32 m (task_directory_at t) = current_directory s2" and "queue_linked [t] m"
proof -
  let ?s = "s2\<lparr>ready_queue := t, current_task := t\<rparr>"
  obtain m where m: "new_task t (current_directory s2) ?s = ?s\<lparr>mem := m, next_pid := next_pid ?s + 1\<rparr>"
    "only_in (unat t) (unat t + 24) (mem ?s) m" "ld32 m (task_id_at t) = next_pid ?s"
    "ld32 m (task_directory_at t) = current_directory s2" "ld32 m (task_next_at t) = 0"
    using new_task_fields [OF assms(3)] by blast
  have "queue_linked [t] m" using m(5) by (simp add: queue_linked_def)
  then show ?thesis
    using that [of m] m assms by (simp add: initialize_tasking_def Let_def sti_def)
qed

text \<open>
  \<open>initialize_tasking\<close> sets the scheduler up: once the stack is moved, the ready queue
  holds exactly the running task, with the next id, the current page directory and empty saved
  registers, and interrupts are on.
\<close>

theorem initialize_tasking_one_task:
  assumes "move_stack n 0xE0000000 0x2000 (cli s) = Inr ((), s1)" and "kmalloc n sizeof_task s1 = Inr (t, s2)"
    and "task_place t"
  shows "\<exists>u. initialize_tasking n s = Inr ((), u) \<and> queue_ok [t] u \<and> current_task u = t \<and> getpid u = next_pid s2
    \<and> next_pid u = next_pid s2 + 1 \<and> rd (task_directory_at t) u = current_directory s2 \<and> iflag u
    \<and> only_in (unat t) (unat t + 24) (mem s2) (mem u)"
  by (rule initialize_tasking_runs [OF assms]) (use assms(3) in \<open>auto simp: queue_ok_def getpid_def rd_def\<close>)

definition boot_example :: machine where
  "boot_example = (power_on (st32 (st32 (st32 (st32 (st32 (\<lambda>_. 0) 0x100E00 0x200000) 0x100DFC 0x201000)
       0x200000 0x8000) 0x201FFC 0x9000) 0x201FF8 0xA000) (\<lambda>_ _. 0))
     \<lparr>current_directory := 0x100000, initial_esp := 0x4008, esp := 0x4008, placement_address := 0x300000\<rparr>"

theorem initialize_tasking_one_task_witness:
  "\<exists>u. initialize_tasking 0 boot_example = Inr ((), u) \<and> queue_ok [0x300000] u \<and> getpid u = 1"
proof -
  let ?s = "cli boot_example"
  have f: "current_directory ?s = 0x100000" "initial_esp ?s = 0x4008" "esp ?s = 0x4008"
    "rd 0x100E00 ?s = 0x200000" "rd 0x100DFC ?s = 0x201000" "rd 0x200000 ?s = 0x8000" "rd 0x201FFC ?s = 0x9000"
    "rd 0x201FF8 ?s = 0xA000"
    by (simp_all add: boot_example_def cli_def rd_def far_simps unat_numeral32)
  have page: "seq (get_page (kmalloc_ap 0) i True 0x100000) (\<lambda>page. alloc_frame page 0 1) ?s = Inr ((), ?s)"
    if "i \<in> {0xE0000000, 0xDFFFF000, 0xDFFFE000}" for i
    using f that by (auto simp: seq_def get_page_def tables_at_def pages_at_def alloc_frame_def page_frame_def Let_def)
  have "map_stack_loop (kmalloc_ap 0) 0xDFFFE000 0xDFFFD000 ?s = Inr ((), ?s)" by (subst map_stack_loop.simps) simp
  then have "map_stack_loop (kmalloc_ap 0) 0xDFFFE000 0xDFFFE000 ?s = Inr ((), ?s)"
    by (subst map_stack_loop.simps) (simp add: f(1) page)
  then have "map_stack_loop (kmalloc_ap 0) 0xDFFFE000 0xDFFFF000 ?s = Inr ((), ?s)"
    by (subst map_stack_loop.simps) (simp add: f(1) page)
  then have "map_stack_loop (kmalloc_ap 0) 0xDFFFE000 0xE0000000 ?s = Inr ((), ?s)"
    by (subst map_stack_loop.simps) (simp add: f(1) page)
  then have map: "map_stack_loop (kmalloc_ap 0) (0xE0000000 - 0x2000) 0xE0000000 ?s = Inr ((), ?s)" by simp
  from move_stack_runs [OF map, of "0x800" 0] obtain m where
    m: "move_stack 0 0xE0000000 0x2000 ?s = Inr ((), ?s\<lparr>mem := m, esp := 0xE0000000, ebp := ebp ?s + 0xDFFFBFF8\<rparr>)"
    by (auto simp: f unat_numeral32)
  let ?s1 = "?s\<lparr>mem := m, esp := 0xE0000000, ebp := ebp ?s + 0xDFFFBFF8\<rparr>"
  have k: "kmalloc 0 sizeof_task ?s1 = Inr (0x300000, ?s1\<lparr>placement_address := 0x300018\<rparr>)"
    by (simp add: kmalloc_def kmalloc_int_def kmalloc_with_def seq_def ret_def sizeof_task_def cli_def boot_example_def)
  have "task_place 0x300000" by (simp add: task_place_def unat_numeral32)
  from initialize_tasking_one_task [OF m k this] show ?thesis by (auto simp: cli_def boot_example_def)
qed

end
