(* ===== verification/Boot.thy ===== *)
theory Boot
  imports Tasks
begin

text \<open>
  Starting the kernel: \<open>initialize_paging\<close> of \<open>paging.c\<close> and \<open>kmain\<close> of \<open>kmain.c\<close>, composed
  of the other components as the code composes them.
\<close>

unbundle bit_operations_syntax


subsection \<open>\<open>initialize_paging\<close>\<close>

text \<open>\<open>get_page(i, 1, kernel_directory)\<close>, and the frame the page is then given.\<close>

definition make_page :: "nat \<Rightarrow> u32 \<Rightarrow> (machine, u32) prog" where
  "make_page n i s = get_page (kmalloc_ap n) i True (kernel_directory s) s"

definition map_page :: "nat \<Rightarrow> u32 \<Rightarrow> (machine, unit) prog" where
  "map_page n i = seq (make_page n i) (\<lambda>page. alloc_frame page 0 0)"

text \<open>Up to where paging is switched on: the bitmap, the kernel's directory, the pages.\<close>

definition map_memory :: "nat \<Rightarrow> (machine, unit) prog" where
  "map_memory n s =
     (let mem_end_page = 0x1000000;
          s = s\<lparr>nframes := mem_end_page div 0x1000\<rparr>
      in
      seq (kmalloc n (INDEX_FROM_BIT (nframes s))) (\<lambda>fr s.
        let s = s\<lparr>frames := fr\<rparr>;
            s = s\<lparr>mem := memset fr 0 (INDEX_FROM_BIT (nframes s)) (mem s)\<rparr>
        in
        seq (kmalloc_a n sizeof_page_directory) (\<lambda>kd s.
          let s = s\<lparr>kernel_directory := kd\<rparr>;
              s = s\<lparr>mem := memset kd 0 sizeof_page_directory (mem s)\<rparr>;
              s = wr (physicalAddr_at kd) (tablesPhysical_at kd 0) s
          in
          seq (page_for (\<lambda>_. KHEAP_START + KHEAP_INITIAL_SIZE) (\<lambda>i. seq (make_page n i) (\<lambda>_. ret ())) KHEAP_START) (\<lambda>_.
          seq (page_for (\<lambda>s. placement_address s + 0x1000) (map_page n) 0) (\<lambda>_.
          page_for (\<lambda>_. KHEAP_START + KHEAP_INITIAL_SIZE) (map_page n) KHEAP_START)) s) s) s)"

definition initialize_paging :: "nat \<Rightarrow> (machine, unit) prog" where
  "initialize_paging n =
     seq (map_memory n) (\<lambda>_ s.
     seq (switch_page_directory (kernel_directory s)) (\<lambda>_.
     seq (create_heap n KHEAP_START (KHEAP_START + KHEAP_INITIAL_SIZE) 0xCFFFF000 0 0) (\<lambda>hp s.
     seq (tfp_printf (cstr ''about to clone directory'') []) (\<lambda>_ s.
     seq (clone_directory (kmalloc_ap n) (kernel_directory s)) (\<lambda>dir s.
     seq (tfp_printf (cstr ''about to switch page directory'' @ [10]) []) (\<lambda>_ s.
       switch_page_directory (current_directory s) s)
       (s\<lparr>current_directory := dir\<rparr>)) s) (s\<lparr>kheap := hp\<rparr>))) s)"

subsection \<open>\<open>kmain\<close>\<close>

text \<open>
  What the linker and the boot loader decide: where the tables and the interrupt stubs are, the
  address of \<open>idt_init\<close>, and what the loaded module does when it is called.
\<close>

record image =
  gdt_address :: u32
  idt_address :: u32
  stub_address :: "nat \<Rightarrow> u32"
  idt_init_address :: u32
  run_module :: "u32 \<Rightarrow> (machine, unit) prog"

text \<open>Members of \<open>multiboot_info_t\<close> and \<open>module_t\<close>.\<close>

definition mb_flags_at :: "u32 \<Rightarrow> u32" where "mb_flags_at a = a"
definition mb_mods_count_at :: "u32 \<Rightarrow> u32" where "mb_mods_count_at a = a + 20"
definition mb_mods_addr_at :: "u32 \<Rightarrow> u32" where "mb_mods_addr_at a = a + 24"
definition mod_start_at :: "u32 \<Rightarrow> u32" where "mod_start_at a = a"
definition mod_end_at :: "u32 \<Rightarrow> u32" where "mod_end_at a = a + 4"

definition say :: "string \<Rightarrow> va_arg list \<Rightarrow> (machine, unit) prog" where
  "say t va = tfp_printf (cstr t) va"

definition sayln :: "string \<Rightarrow> va_arg list \<Rightarrow> (machine, unit) prog" where
  "sayln t va = tfp_printf (cstr t @ [10]) va"

text \<open>The first part, up to the timer.\<close>

definition boot_devices :: "image \<Rightarrow> u32 \<Rightarrow> (machine, unit) prog" where
  "boot_devices img initial_stack s =
     (let s = s\<lparr>initial_esp := initial_stack\<rparr>;
          s = s\<lparr>tabs := gdt_init (gdt_address img) (tabs s)\<rparr>;
          s = init_printf Screen_Putc s;
          s = clear_screen s;
          welcome = cstr ''Welcome to Icarus!'' @ [10] @ cstr ''GDT Loaded. '' @ [10];
          s = fb_write welcome s
      in (case serial_write welcome s of
            None \<Rightarrow> Inl Diverges
          | Some s \<Rightarrow>
              seq (sayln ''Address of idt_init() = %x '' [VInt (idt_init_address img)]) (\<lambda>_ s.
                let s = s\<lparr>tabs := idt_init (stub_address img) (idt_address img) (tabs s)\<rparr>;
                    s = pic_init s
                in timer_init 50 s) s))"

text \<open>The part that exercises the heap: two blocks are allocated and freed, then a third.\<close>

definition heap_test :: "nat \<Rightarrow> u32 \<Rightarrow> (machine, unit) prog" where
  "heap_test n a =
     seq (kmalloc n 8) (\<lambda>b.
     seq (kmalloc n 8) (\<lambda>c.
     seq (say ''a: %x,'' [VInt a]) (\<lambda>_.
     seq (say '', b: %x'' [VInt b]) (\<lambda>_.
     seq (sayln ''c: %x '' [VInt c]) (\<lambda>_.
     seq (kfree c) (\<lambda>_.
     seq (say ''C free'' []) (\<lambda>_.
     seq (kfree b) (\<lambda>_.
     seq (kmalloc n 12) (\<lambda>d.
     sayln '', d: %x '' [VInt d])))))))))"

text \<open>The part that starts multitasking, from \<open>fork\<close> on, and the call of the module.\<close>

definition report_fork :: "nat \<Rightarrow> (machine, unit) prog" where
  "report_fork n =
     seq (fork n) (\<lambda>r.
     seq (say ''fork() returned %x, '' [VInt r]) (\<lambda>_.
     seq (gets getpid) (\<lambda>pid.
     seq (sayln ''and getpid() returned %x '' [VInt pid]) (\<lambda>_.
     sayln ''Note: errors begin to occur when switch_task() is called. Debugging in process.'' []))))"

definition start_tasks :: "nat \<Rightarrow> (machine, unit) prog" where
  "start_tasks n =
     seq (initialize_tasking n) (\<lambda>_.
     seq (sayln ''about to fork '' []) (\<lambda>_.
     report_fork n))"

definition start_module :: "image \<Rightarrow> u32 \<Rightarrow> (machine, unit) prog" where
  "start_module img address_of_module =
     seq (sayln ''about to start program '' []) (\<lambda>_.
     seq (run_module img (address_of_module + 1)) (\<lambda>_.
     sayln ''program ran '' []))"

definition kmain :: "image \<Rightarrow> nat \<Rightarrow> u32 \<Rightarrow> u32 \<Rightarrow> (machine, unit) prog" where
  "kmain img n ebx initial_stack =
     seq (boot_devices img initial_stack) (\<lambda>_ s.
     seq (sayln ''mbinfo flags: %x '' [VInt (rd (mb_flags_at ebx) s)]) (\<lambda>_ s.
       if rd (mb_mods_count_at ebx) s \<noteq> 1
       then Inr ((), fb_write (cstr ''error with mods_count '' @ [10]) s)
       else
         let m = rd (mb_mods_addr_at ebx) s;
             address_of_module = rd (mod_start_at m) s
         in
         seq (sayln ''address_of_module is %x '' [VInt address_of_module]) (\<lambda>_ s.
         seq (kmalloc n 8) (\<lambda>a.
         seq (initialize_paging n) (\<lambda>_.
         seq (sayln ''paging up '' []) (\<lambda>_ s.
         seq (sayln ''PageFault: %x '' [VInt (rd (placement_address s + 0xFD8) s)]) (\<lambda>_.
         seq (heap_test n a) (\<lambda>_.
         seq (start_tasks n) (\<lambda>_.
         start_module img address_of_module))) s)))
           (s\<lparr>placement_address := rd (mod_end_at m) s\<rparr>)) s) s)"

subsection \<open>Steps of the boot sequence\<close>

text \<open>
  \<open>dev_step b s\<close>: since the state \<open>b\<close>, only the devices and the video memory have been used,
  and the cursor is on the screen.
\<close>

definition dev_step :: "machine \<Rightarrow> machine \<Rightarrow> bool" where
  "dev_step b s \<longleftrightarrow> s\<lparr>mem := mem b, outs := outs b, reads := reads b, cursorPosition := cursorPosition b\<rparr> = b
     \<and> unat (cursorPosition s) \<le> 2080 \<and> only_in 0xB8000 0xC0000 (mem b) (mem s)"

named_theorems dev_steps \<open>operations that only use devices and video memory\<close>

lemma dev_stepE:
  assumes "dev_step b s"
  obtains m os r p where "s = b\<lparr>mem := m, outs := os, reads := r, cursorPosition := p\<rparr>"
    and "unat p \<le> 2080" and "only_in 0xB8000 0xC0000 (mem b) m"
proof -
  have b: "b = s\<lparr>mem := mem b, outs := outs b, reads := reads b, cursorPosition := cursorPosition b\<rparr>"
    using assms unfolding dev_step_def by metis
  have "s = b\<lparr>mem := mem s, outs := outs s, reads := reads s, cursorPosition := cursorPosition s\<rparr>"
    by (subst b) simp
  with that assms show ?thesis unfolding dev_step_def by blast
qed

lemma dev_step_refl: "unat (cursorPosition s) \<le> 2080 \<Longrightarrow> dev_step s s"
  by (simp add: dev_step_def)

lemma dev_step_outb [dev_steps]: "dev_step b s \<Longrightarrow> dev_step b (outb p d s)"
  by (simp add: dev_step_def outb_def)

lemma dev_step_tabs: "dev_step b s \<Longrightarrow> dev_step (b\<lparr>tabs := f (tabs b)\<rparr>) (s\<lparr>tabs := f (tabs s)\<rparr>)"
  by (elim dev_stepE) (simp add: dev_step_def)

lemma dev_step_iflag: "dev_step b s \<Longrightarrow> dev_step (b\<lparr>iflag := i\<rparr>) (s\<lparr>iflag := i\<rparr>)"
  by (elim dev_stepE) (simp add: dev_step_def)

lemma dev_step_screen:
  assumes "dev_step b s" and "screen_step s t" and "unat (cursorPosition t) \<le> 2080"
    and "only_in 0xB8000 0xC0000 (mem s) (mem t)"
  shows "dev_step b t"
proof -
  from assms(2) obtain m' os' p' where t: "t = s\<lparr>mem := m', outs := outs s @ os', cursorPosition := p'\<rparr>"
    by (auto simp: screen_step_def)
  show ?thesis
    using assms only_in_trans [of _ _ "mem b" "mem s" "mem t"] by (simp add: dev_step_def t)
qed

lemma dev_step_cursor: "dev_step b s \<Longrightarrow> unat (cursorPosition s) \<le> 2080"
  by (simp add: dev_step_def)

lemma dev_step_stdout: "dev_step b s \<Longrightarrow> stdout_putf s = stdout_putf b"
  by (elim dev_stepE) simp

lemma dev_step_write:
  assumes "dev_step b s" and "length cs \<le> 60"
  shows "dev_step b (fb_write (cs @ [10]) s)"
proof -
  have c: "unat (cursorPosition s) + 80 * length (cs @ [10]) < 0xFFF00"
    using dev_step_cursor [OF assms(1)] assms(2) by simp
  note w = fb_write_frame [OF c]
  show ?thesis
    using assms(2) w(1) fold_next_pos_newline [of cs "unat (cursorPosition s)"] dev_step_cursor [OF assms(1)]
    by (intro dev_step_screen [OF assms(1) screen_step_write] only_in_mono [OF w(2)]) simp_all
qed

lemma dev_step_print:
  assumes d: "dev_step b s" and b: "stdout_putf b = Screen_Putc"
    and f: "format_out fmt va = Inr (cs @ [10])" and len: "length cs \<le> 60"
  obtains s' where "tfp_printf fmt va s = Inr ((), s')" and "dev_step b s'"
proof -
  have sc: "stdout_putf s = Screen_Putc" using dev_step_stdout [OF d] b by simp
  let ?t = "fold putc (cs @ [10]) s"
  have run: "tfp_printf fmt va s = Inr ((), ?t)" by (rule tfp_printf_screen [OF sc f])
  have eq: "mem ?t = mem (fold fb_put (cs @ [10]) s)" "cursorPosition ?t = cursorPosition (fold fb_put (cs @ [10]) s)"
    using fold_putc [of s s "cs @ [10]"] by simp_all
  have c: "unat (cursorPosition s) + 80 * length (cs @ [10]) < 0xFFF00"
    using dev_step_cursor [OF d] len by simp
  note w = fb_puts [OF c]
  have "dev_step b ?t"
  proof (rule dev_step_screen [OF d tfp_printf_step [OF run]])
    show "unat (cursorPosition ?t) \<le> 2080"
      unfolding eq using w fold_next_pos_newline [of cs "unat (cursorPosition s)"] by simp
    show "only_in 0xB8000 0xC0000 (mem s) (mem ?t)"
      unfolding eq by (rule only_in_mono [OF conjunct2 [OF w]]) (use dev_step_cursor [OF d] len in simp_all)
  qed
  with run show ?thesis by (rule that)
qed

lemma serial_loop_frame:
  assumes "always_ready_again s"
  shows "\<exists>r os. serial_write_loop buf s = Some (s\<lparr>reads := r, outs := os\<rparr>)"
  using assms
proof (induction buf arbitrary: s)
  case Nil
  show ?case by (intro exI [of _ "reads s"] exI [of _ "outs s"]) simp
next
  case (Cons c buf)
  from Cons.prems obtain k where "dev s (SERIAL_LINE_STATUS_PORT SERIAL_COM1_BASE)
      (reads s (SERIAL_LINE_STATUS_PORT SERIAL_COM1_BASE) + k) \<noteq> 0"
    unfolding always_ready_again_def by blast
  from serial_wait_ready [OF this] obtain r
    where w: "serial_wait SERIAL_COM1_BASE s = Some (s\<lparr>reads := r\<rparr>)" by blast
  have "always_ready_again (outb SERIAL_COM1_BASE c (s\<lparr>reads := r\<rparr>))"
    using Cons.prems by (simp add: always_ready_again_def outb_def)
  from Cons.IH [OF this] obtain r' os where
    "serial_write_loop buf (outb SERIAL_COM1_BASE c (s\<lparr>reads := r\<rparr>)) =
      Some ((outb SERIAL_COM1_BASE c (s\<lparr>reads := r\<rparr>))\<lparr>reads := r', outs := os\<rparr>)" by blast
  with w show ?case by (intro exI [of _ r'] exI [of _ os]) (simp add: outb_def)
qed

lemma dev_step_serial:
  assumes "dev_step b s" and "always_ready_again b"
  obtains s' where "serial_write buf s = Some s'" and "dev_step b s'"
proof -
  let ?s = "serial_configure_line SERIAL_COM1_BASE (serial_configure_baud_rate SERIAL_COM1_BASE 1 s)"
  have d: "dev_step b ?s"
    unfolding serial_configure_line_def serial_configure_baud_rate_def by (intro dev_steps assms(1))
  then have "always_ready_again ?s" using assms(2) by (elim dev_stepE) (simp add: always_ready_again_def)
  from serial_loop_frame [OF this] obtain r os where
    "serial_write_loop buf ?s = Some (?s\<lparr>reads := r, outs := os\<rparr>)" by blast
  moreover have "dev_step b (?s\<lparr>reads := r, outs := os\<rparr>)" using d by (simp add: dev_step_def)
  ultimately show ?thesis using that by (simp add: serial_write_def)
qed

lemma format_hex:
  assumes "37 \<notin> set as" and "37 \<notin> set bs"
  shows "format_out (as @ [37, 120] @ bs) [VInt v] = Inr (as @ ui2a v 16 False @ bs)"
proof -
  have "tfp_format (\<lambda>c cs. cs @ [c]) bs va ds = Inr ((), ds @ bs)" for ds va using assms(2)
    by (induction bs arbitrary: ds) simp_all
  moreover have "fold (\<lambda>c cs. cs @ [c]) bs ds = ds @ bs" for bs ds :: "u8 list"
    by (induction bs arbitrary: ds) simp_all
  ultimately have e: "tfp_format (\<lambda>c cs. cs @ [c]) ([37, 120] @ bs) [VInt v] ds = Inr ((), ds @ ui2a v 16 False @ bs)" for ds
    by (simp add: parse_spec_def emit_spec_def putchw_padded padded_def)
  have "tfp_format (\<lambda>c cs. cs @ [c]) (as @ [37, 120] @ bs) [VInt v] ds = Inr ((), ds @ as @ ui2a v 16 False @ bs)" for ds
    using assms(1) e by (induction as arbitrary: ds) simp_all
  then show ?thesis by (simp add: format_out_def)
qed

lemma boot_texts:
  "cstr ''Address of idt_init() = %x '' = cstr ''Address of idt_init() = '' @ [37, 120, 32]"
  "cstr ''mbinfo flags: %x '' = cstr ''mbinfo flags: '' @ [37, 120, 32]"
  by (simp_all add: cstr_def)

lemma dev_step_say_hex:
  assumes "dev_step b s" and "stdout_putf b = Screen_Putc"
    and "cstr txt = as @ [37, 120, 32]" and "37 \<notin> set as" and "length as \<le> 40"
  obtains s' where "sayln txt [VInt v] s = Inr ((), s')" and "dev_step b s'"
proof (rule dev_step_print [OF assms(1,2)])
  have "format_out (as @ [37, 120, 32] @ [10]) [VInt v] = Inr (as @ ui2a v 16 False @ [32, 10])"
    using format_hex [OF assms(4), of "[32, 10]"] by simp
  then show "format_out (cstr txt @ [10]) [VInt v] = Inr ((as @ ui2a v 16 False @ [32]) @ [10])"
    by (simp add: assms(3))
  have "length (ui2a v 16 False) \<le> 8" by (rule ui2a_shape [of 16 v False]) simp_all
  with assms(5) show "length (as @ ui2a v 16 False @ [32]) \<le> 60" by simp
qed (use that in \<open>simp add: sayln_def\<close>)

subsection \<open>The devices are set up\<close>

text \<open>The machine as the devices leave it, video memory and device traffic apart.\<close>

definition booted :: "image \<Rightarrow> u32 \<Rightarrow> machine \<Rightarrow> machine" where
  "booted img initial_stack s = s\<lparr>initial_esp := initial_stack, stdout_putf := Screen_Putc,
     tabs := idt_init (stub_address img) (idt_address img) (gdt_init (gdt_address img) (tabs s)), iflag := True\<rparr>"

lemma clear_screen_step:
  assumes "unat (cursorPosition s) \<le> 2080"
  shows "dev_step s (clear_screen s)"
proof -
  obtain m where m: "clear_loop (80 * 25) 0 s = s\<lparr>mem := m\<rparr>" using clear_loop_frame by blast
  have "only_in 0xB8000 0xC0000 (mem s) (mem (clear_loop (80 * 25) 0 s))"
    using clear_loop_mem [of 0 0 "80 * 25" s] by (simp add: only_in_def)
  with m assms show ?thesis by (simp add: dev_step_def clear_screen_def)
qed

lemma boot_devices_runs:
  assumes "always_ready_again s" and "unat (cursorPosition s) \<le> 2080"
  obtains s' where "boot_devices img initial_stack s = Inr ((), s')" and "dev_step (booted img initial_stack s) s'"
proof -
  let ?b = "s\<lparr>initial_esp := initial_stack, tabs := gdt_init (gdt_address img) (tabs s), stdout_putf := Screen_Putc\<rparr>"
  let ?greet = "cstr ''Welcome to Icarus!'' @ [10] @ cstr ''GDT Loaded. '' @ [10]"
  let ?idt = "idt_init (stub_address img) (idt_address img)"
  have ready: "always_ready_again ?b" using assms(1) by (simp add: always_ready_again_def)
  have "dev_step ?b (clear_screen ?b)" using assms(2) by (intro clear_screen_step) simp
  from dev_step_write [OF this, of "cstr ''Welcome to Icarus!'' @ [10] @ cstr ''GDT Loaded. ''"]
  have "dev_step ?b (fb_write ?greet (clear_screen ?b))" by (simp add: cstr_def)
  then obtain s1 where s1: "serial_write ?greet (fb_write ?greet (clear_screen ?b)) = Some s1" "dev_step ?b s1"
    by (rule dev_step_serial [OF _ ready])
  obtain s2 where s2: "sayln ''Address of idt_init() = %x '' [VInt (idt_init_address img)] s1 = Inr ((), s2)" "dev_step ?b s2"
    by (rule dev_step_say_hex [OF s1(2) _ boot_texts(1)]) (simp_all add: cstr_def)
  let ?b3 = "?b\<lparr>tabs := ?idt (tabs ?b), iflag := True\<rparr>"
  define s3 where "s3 = pic_init (s2\<lparr>tabs := ?idt (tabs s2)\<rparr>)"
  have "dev_step (?b\<lparr>tabs := ?idt (tabs ?b)\<rparr>) (s2\<lparr>tabs := ?idt (tabs s2)\<rparr>)" by (rule dev_step_tabs [OF s2(2)])
  then have "dev_step ?b3 s3"
    unfolding s3_def pic_init_def by (simp only: fold_simps prod.case) (intro dev_step_iflag dev_steps)
  then have d4: "dev_step ?b3 (outb 0x40 h (outb 0x40 l (outb 0x43 0x36 s3)))" for h l by (intro dev_steps)
  obtain s5 where s5: "timer_init 50 s3 = Inr ((), s5)" "dev_step ?b3 s5"
  proof (rule dev_step_print [OF d4 [of "ucast (drop_bit 8 (1193180 div 50 :: u32) AND 0xFF)" "ucast ((1193180 div 50 :: u32) AND 0xFF)"]])
    show "format_out (cstr ''timer initiated '' @ [10]) [] = Inr (cstr ''timer initiated '' @ [10])"
      by (rule format_out_text) (simp add: cstr_def)
  qed (simp_all add: timer_init_def Let_def cstr_def)
  have "boot_devices img initial_stack s = Inr ((), s5)"
    unfolding boot_devices_def Let_def using s1(1) s2(1) s5(1) by (simp add: init_printf_def seq_def s3_def)
  moreover have "?b3 = booted img initial_stack s" by (simp add: booted_def)
  ultimately show ?thesis using that s5(2) by metis
qed

subsection \<open>Properties\<close>

text \<open>
  C29: A boot without exactly one module stops early: \<open>kmain\<close> sets up the descriptor tables, the
  console, the interrupt controller and the timer, prints the error and returns with
  interrupts on; besides these and video memory nothing has changed: no paging, no heap and no
  task has been touched.
\<close>

theorem kmain_needs_one_module:
  assumes "always_ready_again s" and "unat (cursorPosition s) \<le> 2080"
    and "unat ebx + 24 \<le> 0xB8000 \<or> 0xC0000 \<le> unat ebx + 20" and "unat ebx + 24 \<le> 4294967296"
    and "rd (mb_mods_count_at ebx) s \<noteq> 1"
  shows "\<exists>s' m os r p. kmain img n ebx initial_stack s = Inr ((), s')
    \<and> s' = (booted img initial_stack s)\<lparr>mem := m, outs := os, reads := r, cursorPosition := p\<rparr>
    \<and> only_in 0xB8000 0xC0000 (mem s) m"
proof -
  let ?b = "booted img initial_stack s"
  obtain s1 where s1: "boot_devices img initial_stack s = Inr ((), s1)" "dev_step ?b s1"
    by (rule boot_devices_runs [OF assms(1,2)])
  obtain s2 where s2: "sayln ''mbinfo flags: %x '' [VInt (rd (mb_flags_at ebx) s1)] s1 = Inr ((), s2)" "dev_step ?b s2"
    by (rule dev_step_say_hex [OF s1(2) _ boot_texts(2)]) (simp_all add: cstr_def booted_def)
  have "only_in 0xB8000 0xC0000 (mem s) (mem s2)" using s2(2) by (simp add: dev_step_def booted_def)
  moreover have "unat (ebx + 20) = unat ebx + 20" using assms(4) by (intro unat_add_numeral32) simp
  ultimately have "rd (mb_mods_count_at ebx) s2 = rd (mb_mods_count_at ebx) s"
    using assms(3,4) unfolding rd_def mb_mods_count_at_def by (intro ld32_only_in [of "0xB8000" "0xC0000"]) auto
  then have "kmain img n ebx initial_stack s = Inr ((), fb_write (cstr ''error with mods_count '' @ [10]) s2)"
    using assms(5) s1(1) s2(1) by (simp add: kmain_def seq_def)
  moreover have "dev_step ?b (fb_write (cstr ''error with mods_count '' @ [10]) s2)"
    by (rule dev_step_write [OF s2(2)]) (simp add: cstr_def)
  ultimately show ?thesis by (elim dev_stepE) (auto simp: booted_def)
qed

theorem kmain_needs_one_module_witness:
  "\<exists>s'. kmain \<lparr>gdt_address = 0x1000, idt_address = 0x2000, stub_address = (\<lambda>k. of_nat k), idt_init_address = 0x3000,
       run_module = (\<lambda>_. ret ())\<rparr> 0 0x10000 0x9000 (power_on (\<lambda>_. 0) (\<lambda>_ _. 0x60)) = Inr ((), s') \<and> kheap s' = 0"
proof -
  let ?s = "power_on (\<lambda>_. 0) (\<lambda>_ _. 0x60)"
  have "always_ready_again ?s" "unat (cursorPosition ?s) \<le> 2080" by (simp_all add: always_ready_again_def power_on_def)
  moreover have "rd (mb_mods_count_at 0x10000) ?s \<noteq> 1" by (simp add: rd_def ld32_def mb_mods_count_at_def)
  ultimately show ?thesis
    using kmain_needs_one_module [of ?s "0x10000" _ 0 "0x9000"] by (fastforce simp: booted_def power_on_def)
qed

text \<open>
  The frame bitmap \<open>initialize_paging\<close> asks for holds one byte for 32 frames, so it covers a
  quarter of the 4096 frames: giving out a frame of the other three quarters sets a bit behind
  the memory reserved, where the next request of \<open>kmalloc\<close> starts.
\<close>

theorem bitmap_overruns:
  assumes "kheap s = 0" and "kmalloc n (INDEX_FROM_BIT 0x1000) s = Inr (fr, s1)"
    and "unat fr + 512 \<le> 4294967296" and "frames t = fr" and "1024 \<le> f" and "f < 4096" and "\<not> frame_bit t f"
  shows "\<exists>x. unat (placement_address s1) \<le> unat x \<and> mem (set_frame (of_nat f * 0x1000) t) x \<noteq> mem t x"
proof -
  have p: "placement_address s1 = fr + 128"
    using assms(1,2) by (auto simp: kmalloc_def kmalloc_int_def kmalloc_with_def seq_def ret_def INDEX_FROM_BIT_def)
  let ?a = "fr + 4 * of_nat (f div 32)"
  have d: "32 \<le> f div 32" "f div 32 < 128" using assms(5,6) by simp_all
  have u4: "unat (4 * of_nat (f div 32) :: u32) = 4 * (f div 32)"
    using unat_of_nat32 [of "4 * (f div 32)"] d(2) by simp
  then have u: "unat ?a = unat fr + 4 * (f div 32)" using d(2) assms(3) by (simp add: unat_add32)
  have up: "unat (placement_address s1) = unat fr + 128"
    unfolding p using assms(3) by (intro unat_add_numeral32) simp
  note q = frame_address_parts [of f]
  have "set_frame (of_nat f * 0x1000) t = wr ?a (rd ?a t OR push_bit (f mod 32) 1) t"
    using q assms(4,6) by (simp add: set_frame_def Let_def)
  then have m: "mem (set_frame (of_nat f * 0x1000) t) = st32 (mem t) ?a (rd ?a t OR push_bit (f mod 32) 1)" by simp
  show ?thesis
  proof (rule ccontr)
    assume "\<not> ?thesis"
    then have "same_on (unat ?a) (unat ?a + 4) (mem t) (mem (set_frame (of_nat f * 0x1000) t))"
      using d(1) u up by (auto simp: same_on_def)
    then have "ld32 (mem (set_frame (of_nat f * 0x1000) t)) ?a = ld32 (mem t) ?a"
      by (rule ld32_same_on) (use u d(2) assms(3) in simp_all)
    then have "rd ?a t OR push_bit (f mod 32) 1 = rd ?a t" unfolding m by (simp add: rd_def)
    then have "bit (rd ?a t OR push_bit (f mod 32) 1) (f mod 32) = bit (rd ?a t) (f mod 32)" by simp
    then have "bit (rd ?a t) (f mod 32)" by (simp add: bit_simps)
    then show False using assms(4,7) by (simp add: frame_bit_def)
  qed
qed

theorem bitmap_overruns_witness:
  "\<exists>x. 0x200080 \<le> unat x \<and> mem (set_frame 0x400000 ((power_on (\<lambda>_. 0) (\<lambda>_ _. 0))\<lparr>frames := 0x200000\<rparr>)) x \<noteq> 0"
proof -
  let ?s = "(power_on (\<lambda>_. 0) (\<lambda>_ _. 0))\<lparr>placement_address := 0x200000\<rparr>"
  let ?t = "(power_on (\<lambda>_. 0) (\<lambda>_ _. 0))\<lparr>frames := 0x200000\<rparr>"
  have "kmalloc 0 (INDEX_FROM_BIT 0x1000) ?s = Inr (0x200000, ?s\<lparr>placement_address := 0x200080\<rparr>)"
    by (simp add: kmalloc_def kmalloc_int_def kmalloc_with_def seq_def ret_def INDEX_FROM_BIT_def power_on_def)
  moreover have "\<not> frame_bit ?t 1024" by (simp add: frame_bit_def rd_def ld32_def)
  ultimately show ?thesis
    using bitmap_overruns [of ?s 0 "0x200000" "?s\<lparr>placement_address := 0x200080\<rparr>" ?t 1024]
    by (simp add: power_on_def)
qed

end
