(* ===== verification/Heap_Runs.thy ===== *)
theory Heap_Runs
  imports Heap_Free Interrupts
begin

text \<open>
  A heap from its creation on: \<open>create_heap\<close> establishes the invariant, runs of allocations,
  frees and stores of the owners keep it, and every request they make is answered. Before
  there is a heap, memory comes from the placement address.
\<close>

unbundle bit_operations_syntax


subsection \<open>A new heap\<close>

lemma format_plain: "37 \<notin> set cs \<Longrightarrow> format_out cs [] = Inr cs"
proof -
  have "37 \<notin> set cs \<Longrightarrow> tfp_format (\<lambda>c cs. cs @ [c]) cs [] ds = Inr ((), ds @ cs)" for ds
    by (induction cs arbitrary: ds) simp_all
  then show "37 \<notin> set cs \<Longrightarrow> format_out cs [] = Inr cs" by (simp add: format_out_def)
qed

lemma console_text:
  assumes "console_ok s" and "37 \<notin> set cs" and "length cs \<le> 24"
  obtains s' where "tfp_printf (cs @ [10]) [] s = Inr ((), s')" and "screen_step s s'" and "console_ok s'"
    and "only_in 0xB8000 0xBA000 (mem s) (mem s')"
  by (rule console_line [OF assms(1) format_plain assms(3)]) (use assms(2) in simp_all)

lemma page_aligned_and: "w mod 0x1000 = 0 \<Longrightarrow> w AND 0xFFFFF000 = w" for w :: u32
proof -
  assume "w mod 0x1000 = 0"
  then have t: "take_bit 12 w = 0" by (simp add: take_bit_eq_mod)
  have m: "(0xFFFFF000 :: u32) = NOT (mask 12)" by (simp add: mask_eq_exp_minus_1 not_eq_complement)
  have "\<not> bit w n" if "n < 12" for n
    using that arg_cong [OF t, of "\<lambda>v. bit v n"] by (simp add: bit_take_bit_iff)
  then show ?thesis unfolding m by (intro bit_word_eqI) (auto simp: bit_simps not_less [symmetric])
qed

text \<open>The part of \<open>create_heap\<close> behind the last message: the fields, the first hole, its entry.\<close>

definition new_hole :: "u32 \<Rightarrow> u32 \<Rightarrow> memory \<Rightarrow> memory" where
  "new_hole a n m = st8 (st32 (st32 m (a + 8) n) a HEAP_MAGIC) (a + 4) 1"

lemma new_hole:
  assumes "unat a + 12 \<le> 4294967296"
  shows "only_in (unat a) (unat a + 12) m (new_hole a n m)" and "hdr (new_hole a n m) (unat a) True (unat n)"
proof -
  have u: "unat (a + 8) = unat a + 8" "unat (a + 4) = unat a + 4" using assms by (simp_all add: unat_add_numeral32)
  have w: "of_nat (unat w) = w" for w :: u32 by (rule unat_eqI32) (simp add: unat_of_nat32 unat_bound32)
  show "only_in (unat a) (unat a + 12) m (new_hole a n m)"
    unfolding new_hole_def using u assms by (intro only_in_st8_step only_in_st32_step only_in_refl) simp_all
  show "hdr (new_hole a n m) (unat a) True (unat n)"
    unfolding new_hole_def hdr_def w using u assms by (simp add: far_simps hole_byte_def)
qed

text \<open>A heap whose index has just got its only entry.\<close>

lemma first_hole_ok:
  assumes i: "index (heap_at s h) = \<lparr>array = st, oa_size = 0, max_size = mx, less_than = Header_T_Less_Than\<rparr>"
    and mx: "0 < unat mx" "unat st + 4 * unat mx \<le> heap_start h s" and n: "heap_start h s + N = heap_end h s" "20 \<le> N"
    and hd: "hdr (mem s) (heap_start h s) True N"
  obtains oa m where "heap_insert (start_address (heap_at s h)) h s = Inr ((), with_index h oa m s)"
    and "heap_ok h (with_index h oa m s) [(True, N)]" and "index_sorted h (with_index h oa m s)"
    and "max_size oa = mx" and "array oa = st" and "only_in (unat st) (unat st + 4 * unat mx) (mem s) m"
proof -
  let ?oa = "index (heap_at s h)" and ?H = "start_address (heap_at s h)"
  have top: "heap_start h s + N < 4294967296" using n(1) unat_bound32 [of "end_address (heap_at s h)"] by simp
  have ok: "oa_ok ?oa" "unat (oa_size ?oa) < unat (max_size ?oa)" "less_than ?oa = Header_T_Less_Than"
    using mx top by (simp_all add: i oa_ok_def)
  obtain oa m where r: "insert_ordered_array ?H ?oa (mem s) = Inr (oa, m)" "oa = ?oa\<lparr>oa_size := oa_size ?oa + 1\<rparr>"
    "oa_ok oa" "only_in (oa_lo ?oa) (oa_hi ?oa) (mem s) m"
    "elems m oa = insert_by (header_t_less_than (mem s)) ?H (elems (mem s) ?oa)" by (rule insert_hole [OF ok])
  have e: "elems m oa = [?H]" unfolding r(5) by (simp add: elems_def i)
  have "hdr m (heap_start h s) True N"
    using hdr_same_on [OF only_in_same_on [OF r(4), of "heap_start h s + N" "heap_start h s"]] hd mx(2) top n(2) i
    by simp
  then have "heap_ok h (with_index h oa m s) [(True, N)]"
    using r(2,3) e mx(2) n by (simp add: heap_ok_def i)
  moreover have "index_sorted h (with_index h oa m s)" using e by (simp add: index_sorted_def sorted_by_def)
  ultimately show ?thesis by (rule that [OF heap_insert_with [OF r(1)]]) (use r(4) in \<open>simp_all add: r(2) i\<close>)
qed

lemma create_heap_runs:
  assumes k: "kmalloc n sizeof_heap s = Inr (h, s1)" and con: "console_ok s1"
    and al: "start mod 0x1000 = 0" "end_addr mod 0x1000 = 0"
    and lo: "0xBA000 \<le> unat start" and hi: "unat start + 0x81000 + 20 \<le> unat end_addr"
  shows "\<exists>s'. create_heap n start end_addr maxa sv ro s = Inr (h, s')
    \<and> heap_ok h s' [(True, unat end_addr - (unat start + 0x81000))] \<and> index_sorted h s'
    \<and> heap_start h s' = unat start + 0x81000 \<and> heap_end h s' = unat end_addr
    \<and> max_address (heap_at s' h) = maxa \<and> max_size (index (heap_at s' h)) = HEAP_INDEX_SIZE
    \<and> array (index (heap_at s' h)) = start \<and> console_ok s'
    \<and> (\<exists>m os q hs. s' = s1\<lparr>mem := m, outs := os, cursorPosition := q, heap_at := hs\<rparr>)
    \<and> (\<forall>lo hi. 0xBA000 \<le> lo \<and> (hi \<le> unat start \<or> unat start + 0x80000 \<le> lo \<and> hi \<le> unat start + 0x81000) \<longrightarrow>
          same_on lo hi (mem s1) (mem s'))"
proof -
  obtain t1 where t1: "tfp_printf (cstr ''asserts done '' @ [10]) [] s1 = Inr ((), t1)" "console_ok t1" "only_in 0xB8000 0xBA000 (mem s1) (mem t1)"
    and st1: "screen_step s1 t1"
    by (rule console_text [OF con, of "cstr ''asserts done ''"]) (simp_all add: cstr_def)
  let ?oa = "\<lparr>array = start, oa_size = 0, max_size = HEAP_INDEX_SIZE, less_than = Header_T_Less_Than\<rparr>"
  define m where "m = memset start 0 (HEAP_INDEX_SIZE * 4) (mem t1)"
  define u1 where "u1 = upd_heap h (\<lambda>hp. hp\<lparr>index := ?oa\<rparr>) (t1\<lparr>mem := m\<rparr>)"
  have "console_ok u1" using t1(2) by (simp add: u1_def console_ok_def upd_heap_def)
  then obtain t2 where t2: "tfp_printf (cstr ''ordered array placed '' @ [10]) [] u1 = Inr ((), t2)" "screen_step u1 t2" "console_ok t2"
    "only_in 0xB8000 0xBA000 (mem u1) (mem t2)"
    by (rule console_text [of _ "cstr ''ordered array placed ''"]) (simp_all add: cstr_def)
  obtain t3 where t3: "tfp_printf (cstr ''start address grabbed '' @ [10]) [] t2 = Inr ((), t3)" "screen_step t2 t3" "console_ok t3"
    "only_in 0xB8000 0xBA000 (mem t2) (mem t3)"
    by (rule console_text [OF t2(3), of "cstr ''start address grabbed ''"]) (simp_all add: cstr_def)
  have hp: "index (heap_at t3 h) = ?oa"
    using screen_step_simps(11) [OF t2(2)] screen_step_simps(11) [OF t3(2)] by (simp add: u1_def upd_heap_def)
  define st where "st = start + 0x80000 + 0x1000"
  have e32: "unat end_addr < 4294967296" by (rule unat_bound32)
  have ust: "unat st = unat start + 0x81000" 
  proof -
    have "st = start + 0x81000" by (simp add: st_def)
    moreover have "unat start + 0x81000 < 4294967296" using hi e32 by simp
    ultimately show ?thesis using unat_add_numeral32 [of start] by (simp only:)
  qed
  have "(start + 0x80000) mod 0x1000 = 0"
  proof -
    have "unat (start mod 0x1000) = 0" using al(1) by simp
    then have "unat start mod 4096 = 0" by (simp add: unat_mod_distrib unat_numeral32)
    moreover have "unat (start + 0x80000) = unat start + 0x80000" using hi e32 by (intro unat_add_numeral32) simp
    moreover have "(unat start + 0x80000) mod 4096 = unat start mod 4096"
      using mod_mult_self1 [of "unat start" 128 4096] by simp
    ultimately have "unat ((start + 0x80000) mod 0x1000) = 0" by (simp add: unat_mod_distrib unat_numeral32)
    then show ?thesis by (simp only: unat_eq_zero)
  qed
  then have "(start + 0x80000) AND 0xFFFFF000 = start + 0x80000" by (rule page_aligned_and)
  moreover have "start + 0x80000 \<noteq> 0" using hi e32 unat_add_numeral32 [of start] by (simp flip: unat_eq_zero)
  ultimately have al2: "(if (start + 4 * HEAP_INDEX_SIZE) AND 0xFFFFF000 \<noteq> 0
      then ((start + 4 * HEAP_INDEX_SIZE) AND 0xFFFFF000) + 0x1000 else start + 4 * HEAP_INDEX_SIZE) = st"
    by (simp add: HEAP_INDEX_SIZE_def st_def)
  define t4 where "t4 = upd_heap h (\<lambda>hp. hp\<lparr>start_address := st, end_address := end_addr, max_address := maxa,
     supervisor := ucast sv, readonly := ucast ro\<rparr>) t3"
  define t5 where "t5 = with_index h ?oa (new_hole st (end_addr - st) (mem t4)) t4"
  have f4: "start_address (heap_at t4 h) = st" "end_address (heap_at t4 h) = end_addr" "max_address (heap_at t4 h) = maxa"
    "index (heap_at t4 h) = ?oa"
    by (simp_all add: t4_def upd_heap_def hp)
  have w5: "set_is_hole st 1 (wr st HEAP_MAGIC (wr (st + 8) (end_addr - st) t4)) = t5"
    by (simp add: t5_def new_hole_def store_with_index [where h = h and s = t4] f4(4))
  have N: "unat (end_addr - st) = unat end_addr - unat st" using hi ust by (simp add: unat_sub32)
  have f5: "index (heap_at t5 h) = ?oa" "start_address (heap_at t5 h) = st" "end_address (heap_at t5 h) = end_addr"
    "max_address (heap_at t5 h) = maxa"
    by (simp_all add: t5_def f4)
  have p: "0 < unat HEAP_INDEX_SIZE" "unat start + 4 * unat HEAP_INDEX_SIZE \<le> heap_start h t5"
    "heap_start h t5 + unat (end_addr - st) = heap_end h t5" "20 \<le> unat (end_addr - st)"
    using hi by (simp_all add: HEAP_INDEX_SIZE_def unat_numeral32 f5 ust N)
  have "hdr (mem t5) (unat st) True (unat (end_addr - st))"
    unfolding t5_def with_index_simps by (rule new_hole(2)) (use ust hi e32 in simp)
  then have p5: "hdr (mem t5) (heap_start h t5) True (unat (end_addr - st))" by (simp add: f5)
  obtain oa m' where i: "heap_insert st h t5 = Inr ((), with_index h oa m' t5)"
    "heap_ok h (with_index h oa m' t5) [(True, unat (end_addr - st))]" "index_sorted h (with_index h oa m' t5)"
    "max_size oa = HEAP_INDEX_SIZE" "array oa = start"
    "only_in (unat start) (unat start + 4 * unat HEAP_INDEX_SIZE) (mem t5) m'"
    by (rule first_hole_ok [OF f5(1) p p5, unfolded f5(2)]) blast
  have "create_heap n start end_addr maxa sv ro s = Inr (h, with_index h oa m' t5)"
    unfolding create_heap_def k place_ordered_array_def using al t1(1) t2(1) t3(1) i(1)
    by (simp add: Let_def al2 m_def [symmetric] u1_def [symmetric] t4_def [symmetric] w5)
  moreover have "same_on lo hi (mem s1) m'"
    if r: "0xBA000 \<le> lo" "hi \<le> unat start \<or> unat start + 0x80000 \<le> lo \<and> hi \<le> unat start + 0x81000" for lo hi :: nat
  proof -
    let ?same = "same_on lo hi"
    have z: "unat (HEAP_INDEX_SIZE * 4) = 0x80000" by (simp add: HEAP_INDEX_SIZE_def)
    have o2: "only_in (unat start) (unat start + 0x80000) (mem t1) m" unfolding m_def
      using memset_only_in [of start "HEAP_INDEX_SIZE * 4"] ust e32 unat_bound32 [of st] z by simp
    have a1: "?same (mem s1) (mem t1)" using only_in_same_on [OF t1(3)] r by simp
    have a2: "?same (mem t1) m" using only_in_same_on [OF o2] r by auto
    have a3: "?same m (mem t2)" using only_in_same_on [OF t2(4)] r by (simp add: u1_def)
    have a4: "?same (mem t2) (mem t4)" using only_in_same_on [OF t3(4)] r by (simp add: t4_def)
    have a5: "?same (mem t4) (mem t5)" unfolding t5_def with_index_simps
      by (rule only_in_same_on [OF new_hole(1)]) (use r ust hi e32 in auto)
    have a6: "?same (mem t5) m'" by (rule only_in_same_on [OF i(6)]) (use r in \<open>auto simp: HEAP_INDEX_SIZE_def\<close>)
    show ?thesis by (intro same_on_trans [OF a1 same_on_trans [OF a2 same_on_trans [OF a3 same_on_trans [OF a4 same_on_trans [OF a5 a6]]]]])
  qed
  moreover have "\<exists>m os q hs. with_index h oa m' t5 = s1\<lparr>mem := m, outs := os, cursorPosition := q, heap_at := hs\<rparr>"
  proof -
    obtain n1 o1 q1 where e1: "t1 = s1\<lparr>mem := n1, outs := o1, cursorPosition := q1\<rparr>" using st1 by (auto simp: screen_step_def)
    obtain n2 o2 q2 where e2: "t2 = u1\<lparr>mem := n2, outs := o2, cursorPosition := q2\<rparr>" using t2(2) by (auto simp: screen_step_def)
    obtain n3 o3 q3 where e3: "t3 = t2\<lparr>mem := n3, outs := o3, cursorPosition := q3\<rparr>" using t3(2) by (auto simp: screen_step_def)
    show ?thesis
      by (intro exI [of _ m'] exI [of _ o3] exI [of _ q3] exI [of _ "heap_at (with_index h oa m' t5)"])
        (simp add: t5_def t4_def e3 e2 u1_def e1 with_index_def upd_heap_def)
  qed
  moreover have "console_ok (with_index h oa m' t5)"
    using t3(3) by (simp add: console_ok_def t5_def t4_def with_index_def upd_heap_def)
  ultimately show ?thesis using i(2-5) N ust
    by (intro exI [of _ "with_index h oa m' t5"] conjI) (simp_all add: f5)
qed

subsection \<open>Runs of the heap\<close>

text \<open>
  What keeps a heap going: the invariant, an index that cannot fill up (a hole takes at least
  20 bytes), and a word before the first block that is not taken for a footer.
\<close>

definition heap_fit :: "u32 \<Rightarrow> machine \<Rightarrow> block list \<Rightarrow> bool" where
  "heap_fit h s bs \<longleftrightarrow> heap_ok h s bs \<and> heap_end h s - heap_start h s < 20 * unat (max_size (index (heap_at s h)))
     \<and> oa_hi (index (heap_at s h)) + 8 \<le> heap_start h s \<and> rd (of_nat (heap_start h s - 8)) s \<noteq> HEAP_MAGIC"

text \<open>
  The runs: requests that a hole can hold, page-aligned ones when no hole would leave a piece that
  is too small, frees of blocks and stores of the owners into the bytes of their blocks. Not every
  free belongs to them: a hole in front of the freed block must have a footer that names it, which
  a hole that has absorbed the one on its right has not (\<open>frees_lose_block\<close> is what becomes of a heap
  otherwise), and the joined hole must not reach the end of the heap, because then the heap
  contracts.
\<close>

definition left_named :: "u32 \<Rightarrow> machine \<Rightarrow> block list \<Rightarrow> bool" where
  "left_named h s bs1 \<longleftrightarrow> (\<forall>bs0 l. bs1 = bs0 @ [(True, l)] \<longrightarrow> ftr (mem s) (heap_start h s + bsum bs0) l)"

lemma footed_left_named: "footed (mem s) (heap_start h s) (bs1 @ bs2) \<Longrightarrow> left_named h s bs1"
  by (auto simp: left_named_def)

definition align_request :: "u32 \<Rightarrow> machine \<Rightarrow> block list \<Rightarrow> u32 \<Rightarrow> bool" where
  "align_request h s bs sz \<longleftrightarrow> 4096 \<le> heap_start h s \<and> bsum bs < 2147483648 \<and> unat sz + 20 < 2147483648
     \<and> aligns_well (heap_start h s) (unat sz) bs
     \<and> (\<exists>cs1 M cs2. bs = cs1 @ (True, M) # cs2 \<and> front_size (heap_start h s + bsum cs1) + unat sz + 20 \<le> M)"

inductive heap_run :: "u32 \<Rightarrow> machine \<Rightarrow> machine \<Rightarrow> bool" for h s0 where
  run_start: "heap_run h s0 s0"
| run_alloc: "heap_run h s0 s \<Longrightarrow> heap_ok h s bs \<Longrightarrow> (True, M) \<in> set bs \<Longrightarrow> unat sz + 20 \<le> M \<Longrightarrow>
    alloc (Suc k) sz 0 h s = Inr (p, s') \<Longrightarrow> heap_run h s0 s'"
| run_align: "heap_run h s0 s \<Longrightarrow> heap_ok h s bs \<Longrightarrow> align_request h s bs sz \<Longrightarrow>
    alloc (Suc k) sz 1 h s = Inr (p, s') \<Longrightarrow> heap_run h s0 s'"
| run_free: "heap_run h s0 s \<Longrightarrow> heap_ok h s (bs1 @ (False, n) # bs2) \<Longrightarrow> left_named h s bs1 \<Longrightarrow> right_clear bs2 \<Longrightarrow>
    free (of_nat (heap_start h s + bsum bs1 + 12)) h s = Inr ((), s') \<Longrightarrow> heap_run h s0 s'"
| run_store: "heap_run h s0 s \<Longrightarrow> heap_ok h s (bs1 @ (False, n) # bs2) \<Longrightarrow>
    only_in (heap_start h s + bsum bs1 + 12) (heap_start h s + bsum bs1 + n - 8) (mem s) m \<Longrightarrow>
    heap_run h s0 (s\<lparr>mem := m\<rparr>)"

text \<open>What a run leaves alone.\<close>

definition heap_frame :: "u32 \<Rightarrow> machine \<Rightarrow> machine \<Rightarrow> bool" where
  "heap_frame h s s' \<longleftrightarrow> heap_start h s' = heap_start h s \<and> heap_end h s' = heap_end h s
     \<and> array (index (heap_at s' h)) = array (index (heap_at s h))
     \<and> max_size (index (heap_at s' h)) = max_size (index (heap_at s h))
     \<and> (\<forall>x. (unat x < oa_lo (index (heap_at s h)) \<or> oa_hi (index (heap_at s h)) \<le> unat x)
          \<longrightarrow> (unat x < heap_start h s \<or> heap_end h s \<le> unat x) \<longrightarrow> mem s' x = mem s x)"

lemma heap_frame_refl: "heap_frame h s s"
  by (simp add: heap_frame_def)

lemma heap_frame_trans: "heap_frame h s s' \<Longrightarrow> heap_frame h s' s'' \<Longrightarrow> heap_frame h s s''"
  by (simp add: heap_frame_def)

lemma heap_frame_with_index:
  assumes "outside_heap h s lo hi m" and "heap_start h s \<le> lo" and "hi \<le> heap_end h s"
    and "array oa = array (index (heap_at s h))" and "max_size oa = max_size (index (heap_at s h))"
  shows "heap_frame h s (with_index h oa m s)"
  using assms by (auto simp: heap_frame_def outside_heap_def)

lemma heap_fit_step:
  assumes "heap_fit h s bs" and "heap_ok h s' bs'" and "heap_frame h s s'"
  shows "heap_fit h s' bs'"
proof -
  let ?a = "of_nat (heap_start h s - 8) :: u32"
  have u: "unat ?a = heap_start h s - 8"
    using unat_bound32 [of "start_address (heap_at s h)"] by (intro unat_of_nat32) simp
  have b: "oa_hi (index (heap_at s h)) + 8 \<le> heap_start h s" using assms(1) by (simp add: heap_fit_def)
  have "same_on (heap_start h s - 8) (heap_start h s) (mem s) (mem s')"
    using assms(3) b by (auto simp: heap_frame_def same_on_def)
  then have "ld32 (mem s') ?a = ld32 (mem s) ?a"
    by (rule ld32_same_on) (use u b unat_bound32 [of "start_address (heap_at s h)"] in simp_all)
  then show ?thesis using assms by (simp add: heap_fit_def heap_frame_def rd_def del: of_nat_diff)
qed

lemma hole_count: "chain m a bs \<Longrightarrow> 20 * length (hole_addrs a bs) \<le> bsum bs"
  by (induction m a bs rule: chain.induct) auto

lemma size_room:
  assumes ok: "heap_ok h s bs" and sz: "heap_end h s - heap_start h s < 20 * unat (max_size (index (heap_at s h)))"
  shows "index_room h s"
proof -
  note D = heap_okD [OF ok]
  have "size (mset (map unat (elems (mem s) (index (heap_at s h))))) = size (mset (hole_addrs (heap_start h s) bs))"
    unfolding D(6) ..
  then have "unat (oa_size (index (heap_at s h))) = length (hole_addrs (heap_start h s) bs)" by simp
  then have "20 * unat (oa_size (index (heap_at s h))) \<le> heap_end h s - heap_start h s"
    using hole_count [OF D(5)] D(4) by simp
  then have "20 * unat (oa_size (index (heap_at s h))) < 20 * unat (max_size (index (heap_at s h)))" using sz by linarith
  then show ?thesis by (simp add: index_room_def word_less_nat_alt)
qed

lemma heap_fit_room: "heap_fit h s bs \<Longrightarrow> index_room h s"
  unfolding heap_fit_def by (elim conjE) (rule size_room)

subsection \<open>Each step of a run\<close>

lemma run_alloc_step:
  assumes fit: "heap_fit h s bs" and M: "(True, M) \<in> set bs" "unat sz + 20 \<le> M"
  obtains p s' bs' where "alloc (Suc k) sz 0 h s = Inr (p, s')" and "heap_fit h s' bs'" and "heap_frame h s s'"
proof -
  have ok: "heap_ok h s bs" using fit by (simp add: heap_fit_def)
  note D = heap_okD [OF ok]
  obtain bs1 N bs2 oa m where a: "bs = bs1 @ (True, N) # bs2"
    "alloc (Suc k) sz 0 h s = Inr (of_nat (heap_start h s + bsum bs1) + sizeof_header, with_index h oa m s)"
    "heap_ok h (with_index h oa m s) (bs1 @ cut_blocks (cut_size (unat sz) N) N @ bs2)"
    "array oa = array (index (heap_at s h))" "max_size oa = max_size (index (heap_at s h))"
    "outside_heap h s (heap_start h s + bsum bs1) (heap_start h s + bsum bs1 + N) m"
    by (rule alloc_unaligned [OF ok M, of k]) blast
  have "heap_frame h s (with_index h oa m s)"
    by (rule heap_frame_with_index [OF a(6) _ _ a(4,5)]) (use D(4) a(1) in simp_all)
  then show ?thesis using that [OF a(2)] heap_fit_step [OF fit a(3)] by blast
qed

lemma run_align_step:
  assumes fit: "heap_fit h s bs" and r: "align_request h s bs sz"
  obtains p s' bs' where "alloc (Suc k) sz 1 h s = Inr (p, s')" and "unat p mod 4096 = 0" and "heap_fit h s' bs'" and "heap_frame h s s'"
proof -
  have ok: "heap_ok h s bs" using fit by (simp add: heap_fit_def)
  note D = heap_okD [OF ok]
  obtain cs1 M cs2 where q: "4096 \<le> heap_start h s" "bsum bs < 2147483648" "unat sz + 20 < 2147483648"
    "aligns_well (heap_start h s) (unat sz) bs" "bs = cs1 @ (True, M) # cs2" "front_size (heap_start h s + bsum cs1) + unat sz + 20 \<le> M"
    using r by (auto simp: align_request_def)
  obtain bs1 N bs2 p s' bs' oa m where a: "bs = bs1 @ (True, N) # bs2" "alloc (Suc k) sz 1 h s = Inr (p, s')" "unat p mod 4096 = 0"
    "heap_ok h s' bs'" "outside_heap h s (heap_start h s + bsum bs1) (heap_start h s + bsum bs1 + N) (mem s')"
    "s' = with_index h oa m s" "array oa = array (index (heap_at s h))" "max_size oa = max_size (index (heap_at s h))"
    using alloc_aligned_runs [OF ok heap_fit_room [OF fit] q, of k] by (elim exE conjE) (rule that)
  have o: "outside_heap h s (heap_start h s + bsum bs1) (heap_start h s + bsum bs1 + N) m" using a(5) by (simp add: a(6))
  have "heap_frame h s s'" unfolding a(6)
    by (rule heap_frame_with_index [OF o _ _ a(7,8)]) (use D(4) in \<open>simp_all add: a(1)\<close>)
  then show ?thesis using that [OF a(2,3)] heap_fit_step [OF fit a(4)] by blast
qed

lemma heap_touched_frame:
  assumes "heap_touched h s lo hi t" and "heap_start h s \<le> lo" and "hi \<le> heap_end h s"
  shows "heap_frame h s t"
  using assms heap_frame_with_index unfolding heap_touched_def by blast

lemma left_hole_le: "left_hole bs \<le> bsum bs"
proof (cases bs rule: rev_cases)
  case (snoc ys y)
  then show ?thesis by (cases y) simp
qed simp

lemma heap_fit_left_clear:
  assumes "heap_fit h s (bs1 @ bs2)" and "left_named h s bs1"
  shows "left_clear h s bs1"
proof (cases bs1 rule: rev_cases)
  case Nil
  then show ?thesis using assms(1) by (simp add: heap_fit_def left_clear_def left_solid_def del: of_nat_diff)
next
  case (snoc ys y)
  then show ?thesis using assms(2) by (cases y; cases "fst y") (auto simp: left_clear_def left_solid_def left_named_def)
qed

lemma run_free_step:
  assumes fit: "heap_fit h s (bs1 @ (False, n) # bs2)" and l: "left_named h s bs1" and r: "right_clear bs2"
  obtains s' where "free (of_nat (heap_start h s + bsum bs1 + 12)) h s = Inr ((), s')"
    and "heap_fit h s' (join_blocks bs1 n bs2)" and "heap_frame h s s'"
proof -
  let ?a = "heap_start h s + bsum bs1"
  have ok: "heap_ok h s (bs1 @ (False, n) # bs2)" and st: "8 \<le> heap_start h s"
    using fit by (simp_all add: heap_fit_def)
  note D = heap_okD [OF ok]
  obtain v where v: "free (of_nat (?a + 12)) h s = Inr ((), v)" "heap_ok h v (join_blocks bs1 n bs2)"
    "heap_touched h s (?a - left_hole bs1) (?a + n + right_hole bs2) v"
    by (rule free_joins [OF ok refl refl st heap_fit_left_clear [OF fit l] r heap_fit_room [OF fit]])
  have "heap_frame h s v"
    by (rule heap_touched_frame [OF v(3)]) (use D(4) left_hole_le [of bs1] right_hole_le [of bs2] in simp_all)
  then show ?thesis using that [OF v(1)] heap_fit_step [OF fit v(2)] by blast
qed

text \<open>The bytes of the allocated blocks that belong to their owners.\<close>

fun owned :: "nat \<Rightarrow> block list \<Rightarrow> nat \<Rightarrow> bool" where
  "owned a [] x = False"
| "owned a ((b, n) # bs) x = (\<not> b \<and> a + 12 \<le> x \<and> x + 8 < a + n \<or> owned (a + n) bs x)"

lemma owned_range: "owned a bs x \<Longrightarrow> a + 12 \<le> x \<and> x + 8 < a + bsum bs"
  by (induction a bs x rule: owned.induct) auto

lemma owned_append [simp]: "owned a (bs1 @ bs2) x = (owned a bs1 x \<or> owned (a + bsum bs1) bs2 x)"
  by (induction a bs1 x rule: owned.induct) (auto simp: add.assoc)

definition same_but_owned :: "nat \<Rightarrow> block list \<Rightarrow> memory \<Rightarrow> memory \<Rightarrow> bool" where
  "same_but_owned a bs m m' \<longleftrightarrow>
     (\<forall>x. a \<le> unat x \<longrightarrow> unat x < a + bsum bs \<longrightarrow> \<not> owned a bs (unat x) \<longrightarrow> m' x = m x)"

lemma chain_owned:
  "chain m a bs \<Longrightarrow> a + bsum bs \<le> 4294967296 \<Longrightarrow> same_but_owned a bs m m' \<Longrightarrow> chain m' a bs"
proof (induction m a bs rule: chain.induct)
  case (2 m a b n bs)
  have n: "20 \<le> n" "a + n \<le> 4294967296" using 2(2,3) by simp_all
  have out: "\<not> owned (a + n) bs x" if "x < a + n" for x using owned_range [of "a + n" bs x] that by auto
  have same: "m' x = m x" if "a \<le> unat x" "unat x < a + n" "unat x < a + 12 \<or> a + n \<le> unat x + 8" for x
    using 2(4) [unfolded same_but_owned_def, rule_format, of x] that out [of "unat x"] by auto
  have "same_on a (a + 12) m m'" "same_on (a + n - 8) (a + n) m m'"
    unfolding same_on_def using n by (intro allI impI same; linarith)+
  then have "hdr m' a b n = hdr m a b n" "ftr m' a n = ftr m a n"
    using n hdr_same_on [of a "a + 12" m m' a b n] ftr_same_on [of "a + n - 8" "a + n" m m' a n] by simp_all
  moreover have "same_but_owned (a + n) bs m m'" using 2(4) n by (auto simp: same_but_owned_def)
  ultimately show ?case using 2 by simp
qed simp

text \<open>Stores of the owners leave the heap consistent.\<close>

lemma heap_ok_owned:
  assumes ok: "heap_ok h s bs" and a: "heap_at t h = heap_at s h"
    and o: "same_but_owned (heap_start h s) bs (mem s) (mem t)"
    and ix: "same_on (oa_lo (index (heap_at s h))) (oa_hi (index (heap_at s h))) (mem s) (mem t)"
  shows "heap_ok h t bs" and "index_sorted h s \<Longrightarrow> index_sorted h t"
proof -
  note D = heap_okD [OF ok]
  have c: "chain (mem t) (heap_start h s) bs" using chain_owned [OF D(5) _ o] D(7) by simp
  have e: "elems (mem t) (index (heap_at s h)) = elems (mem s) (index (heap_at s h))" by (rule elems_same_on [OF D(1) ix])
  show okt: "heap_ok h t bs" using ok c e by (simp add: heap_ok_def a)
  assume srt: "index_sorted h s"
  show "index_sorted h t"
  proof (rule index_sorted_kept [OF srt])
    show "elems (mem t) (index (heap_at t h)) = elems (mem s) (index (heap_at s h))" by (simp add: a e)
    fix y assume y: "y \<in> set (elems (mem s) (index (heap_at s h)))"
    obtain bs1 n bs2 where b: "bs = bs1 @ (True, n) # bs2" "unat y = heap_start h s + bsum bs1" by (rule index_hole [OF ok y])
    have "h_size y t = h_size y s" using hole_entry(1) [OF ok b] hole_entry(1) [OF okt b(1), of y] b(2) by (simp add: a)
    then show "ld32 (mem t) (y + 8) = ld32 (mem s) (y + 8)" by (simp add: rd_def)
  qed
qed

lemma heap_ok_store:
  assumes ok: "heap_ok h s (bs1 @ (False, n) # bs2)"
    and o: "only_in (heap_start h s + bsum bs1 + 12) (heap_start h s + bsum bs1 + n - 8) (mem s) m"
  shows "heap_ok h (s\<lparr>mem := m\<rparr>) (bs1 @ (False, n) # bs2)" and "heap_frame h s (s\<lparr>mem := m\<rparr>)"
    and "index_sorted h s \<Longrightarrow> index_sorted h (s\<lparr>mem := m\<rparr>)"
proof -
  note D = heap_okD [OF ok]
  have "same_but_owned (heap_start h s) (bs1 @ (False, n) # bs2) (mem s) m"
    using o by (auto simp: same_but_owned_def only_in_def)
  moreover have "same_on (oa_lo (index (heap_at s h))) (oa_hi (index (heap_at s h))) (mem s) m"
    using D(3) by (intro only_in_same_on [OF o]) simp
  ultimately show "heap_ok h (s\<lparr>mem := m\<rparr>) (bs1 @ (False, n) # bs2)"
    and "index_sorted h s \<Longrightarrow> index_sorted h (s\<lparr>mem := m\<rparr>)"
    using heap_ok_owned [OF ok, of "s\<lparr>mem := m\<rparr>"] by simp_all
  show "heap_frame h s (s\<lparr>mem := m\<rparr>)" using o D(4) by (auto simp: heap_frame_def only_in_def)
qed

lemma run_store_step:
  assumes fit: "heap_fit h s (bs1 @ (False, n) # bs2)"
    and o: "only_in (heap_start h s + bsum bs1 + 12) (heap_start h s + bsum bs1 + n - 8) (mem s) m"
  shows "heap_fit h (s\<lparr>mem := m\<rparr>) (bs1 @ (False, n) # bs2)" and "heap_frame h s (s\<lparr>mem := m\<rparr>)"
proof -
  note ok = fit [unfolded heap_fit_def, THEN conjunct1]
  show f: "heap_frame h s (s\<lparr>mem := m\<rparr>)" by (rule heap_ok_store(2) [OF ok o])
  show "heap_fit h (s\<lparr>mem := m\<rparr>) (bs1 @ (False, n) # bs2)" by (rule heap_fit_step [OF fit heap_ok_store(1) [OF ok o] f])
qed

lemma heap_run_fit:
  assumes "heap_fit h s0 bs0" and "heap_run h s0 s"
  shows "(\<exists>bs. heap_fit h s bs) \<and> heap_frame h s0 s"
  using assms(2)
proof (induction rule: heap_run.induct)
  case run_start
  then show ?case using assms(1) heap_frame_refl by blast
next
  case (run_alloc s bs M sz k p s')
  then have "heap_fit h s bs" by (auto simp: heap_fit_def)
  from run_alloc_step [OF this run_alloc(3,4), of k] run_alloc(5,6) show ?case
    by (metis Inr_inject heap_frame_trans prod.inject)
next
  case (run_align s bs sz k p s')
  then have "heap_fit h s bs" by (auto simp: heap_fit_def)
  from run_align_step [OF this run_align(3), of k] run_align(4,5) show ?case
    by (metis Inr_inject heap_frame_trans prod.inject)
next
  case (run_free s bs1 n bs2 s')
  then have "heap_fit h s (bs1 @ (False, n) # bs2)" by (auto simp: heap_fit_def)
  from run_free_step [OF this run_free(3,4)] run_free(5,6) show ?case
    by (metis Inr_inject heap_frame_trans prod.inject)
next
  case (run_store s bs1 n bs2 m)
  then have "heap_fit h s (bs1 @ (False, n) # bs2)" by (auto simp: heap_fit_def)
  from run_store_step [OF this run_store(3)] run_store(4) show ?case
    using heap_frame_trans by blast
qed

lemma live_apart:
  "(b, n) \<in> live a bs \<Longrightarrow> (c, k) \<in> live a bs \<Longrightarrow> (b, n) = (c, k) \<or> b + n \<le> c \<or> c + k \<le> b"
proof (induction bs arbitrary: a)
  case (Cons x bs)
  obtain h l where x: "x = (h, l)" by (cases x)
  from Cons.prems consider "(b, n) = (a, l)" "(c, k) = (a, l)" | "(b, n) = (a, l)" "(c, k) \<in> live (a + l) bs"
    | "(b, n) \<in> live (a + l) bs" "(c, k) = (a, l)" | "(b, n) \<in> live (a + l) bs" "(c, k) \<in> live (a + l) bs"
    by (auto simp: x split: if_splits)
  then show ?case
  proof cases
    case 4
    then show ?thesis by (rule Cons.IH)
  qed (auto dest: live_range)
qed simp

subsection \<open>A heap with room to run\<close>

definition fit_heap :: machine where
  "fit_heap = with_index 0x100 \<lparr>array = 0x1000, oa_size = 2, max_size = 16, less_than = Header_T_Less_Than\<rparr>
     (mem blocks_heap) blocks_heap"

lemma fit_heap: "heap_fit 0x100 fit_heap eight_blocks"
proof -
  have "elems (mem fit_heap) (index (heap_at fit_heap 0x100)) = elems (mem blocks_heap) (index (heap_at blocks_heap 0x100))"
    by (simp add: fit_heap_def elems_def cell_def elem_addr_def)
  then have 1: "heap_ok 0x100 fit_heap eight_blocks"
    using blocks_heap_ok by (simp add: heap_ok_def fit_heap_def oa_ok_def)
  have "only_in 0x2000 0x2100 (st32 (st32 (\<lambda>_. 0) 0x1000 0x2060) 0x1004 0x20C0) (mem blocks_heap)"
    using put_blocks [of eight_blocks "0x2000" "st32 (st32 (\<lambda>_. 0) 0x1000 0x2060) 0x1004 0x20C0"]
    by (simp add: eight_blocks_def blocks_heap_def)
  from ld32_only_in [OF this, of "0x1FF8"] have "ld32 (mem blocks_heap) 0x1FF8 = ld32 (\<lambda>_. 0) 0x1FF8"
    by (simp add: ld32_st32_far)
  moreover have "ld32 (\<lambda>_. 0) 0x1FF8 \<noteq> HEAP_MAGIC" by (simp add: ld32_def HEAP_MAGIC_def)
  ultimately have "ld32 (mem blocks_heap) 0x1FF8 \<noteq> HEAP_MAGIC" by (simp only: not_False_eq_True)
  with 1 show ?thesis by (simp add: heap_fit_def fit_heap_def)
qed

lemma fit_heap_hole: "(True, 0x20) \<in> set eight_blocks" "unat (8 :: u32) + 20 \<le> 0x20"
  by (simp_all add: eight_blocks_def)

subsection \<open>Properties\<close>

text \<open>
  C7: A heap in order stays in order, whatever steps of the following kinds are taken on it, in any
  number and order: requests that a hole can serve, page-aligned ones as far as no hole would leave
  a piece that is too small; frees of a block, where the footer of a hole in front of it, if there
  is one, names that hole, and the joined hole does not reach the end of the heap; and stores of
  the owners into their own bytes. Then allocated blocks lie inside the heap and apart from each
  other, the index has a free slot, and nothing outside the heap's bounds and its index array ever
  changes. The restriction on frees is one of the code: behind a hole that has grown to the right a
  free leaves the heap without any list of blocks (\<open>frees_lose_block\<close>).
\<close>

theorem heap_run_safe:
  assumes "heap_fit h s0 bs0" and "heap_run h s0 s"
  shows "\<exists>bs. heap_fit h s bs \<and> heap_frame h s0 s \<and> index_room h s
    \<and> (\<forall>(b, n) \<in> live (heap_start h s) bs. heap_start h s0 \<le> b \<and> b + n \<le> heap_end h s0)
    \<and> (\<forall>(b, n) \<in> live (heap_start h s) bs. \<forall>(c, k) \<in> live (heap_start h s) bs.
         (b, n) = (c, k) \<or> b + n \<le> c \<or> c + k \<le> b)"
proof -
  obtain bs where bs: "heap_fit h s bs" and f: "heap_frame h s0 s" using heap_run_fit [OF assms] by blast
  have "heap_start h s + bsum bs = heap_end h s" using bs by (simp add: heap_fit_def heap_ok_def)
  then have "\<forall>(b, n) \<in> live (heap_start h s) bs. heap_start h s0 \<le> b \<and> b + n \<le> heap_end h s0"
    using f live_range [of _ _ "heap_start h s" bs] by (fastforce simp: heap_frame_def)
  then show ?thesis
    using bs f heap_fit_room [OF bs] live_apart [of _ _ "heap_start h s" bs] by blast
qed

theorem heap_run_safe_witness:
  "\<exists>p s. alloc 1 8 0 0x100 fit_heap = Inr (p, s) \<and> (\<exists>bs. heap_fit 0x100 s bs) \<and> index_room 0x100 s"
proof -
  obtain p s where a: "alloc (Suc 0) 8 0 0x100 fit_heap = Inr (p, s)"
    by (rule run_alloc_step [OF fit_heap fit_heap_hole])
  have "heap_ok 0x100 fit_heap eight_blocks" using fit_heap by (simp add: heap_fit_def)
  from run_alloc [OF run_start this fit_heap_hole a] have "heap_run 0x100 fit_heap s" .
  from heap_run_safe [OF fit_heap this] a show ?thesis by auto
qed

text \<open>
  C8: In every state such a run reaches, the heap answers: a request that some hole can hold
  returns at its first activation, a page-aligned one, when no hole would leave a piece that is too
  small, with the start of a page, and freeing any allocated block returns, whatever stands
  around it, as long as the footer of a hole in front of it is in order and the joined hole does
  not reach the end of the heap; all go on to states of the run.
\<close>

theorem heap_run_answers:
  assumes "heap_fit h s0 bs0" and "heap_run h s0 s"
  shows "\<exists>bs. heap_ok h s bs
    \<and> (\<forall>M sz. (True, M) \<in> set bs \<and> unat sz + 20 \<le> M \<longrightarrow>
         (\<exists>p s'. alloc (Suc k) sz 0 h s = Inr (p, s') \<and> heap_run h s0 s'))
    \<and> (\<forall>sz. align_request h s bs sz \<longrightarrow>
         (\<exists>p s'. alloc (Suc k) sz 1 h s = Inr (p, s') \<and> unat p mod 4096 = 0 \<and> heap_run h s0 s'))
    \<and> (\<forall>bs1 n bs2. bs = bs1 @ (False, n) # bs2 \<and> left_named h s bs1 \<and> right_clear bs2 \<longrightarrow>
         (\<exists>s'. free (of_nat (heap_start h s + bsum bs1 + 12)) h s = Inr ((), s') \<and> heap_run h s0 s'))"
proof -
  obtain bs where bs: "heap_fit h s bs" using heap_run_fit [OF assms] by blast
  then have ok: "heap_ok h s bs" by (simp add: heap_fit_def)
  have "\<exists>p s'. alloc (Suc k) sz 0 h s = Inr (p, s') \<and> heap_run h s0 s'"
    if M: "(True, M) \<in> set bs" "unat sz + 20 \<le> M" for M sz
  proof -
    obtain p s' where a: "alloc (Suc k) sz 0 h s = Inr (p, s')" by (rule run_alloc_step [OF bs M])
    then show ?thesis using run_alloc [OF assms(2) ok M a] by blast
  qed
  moreover have "\<exists>p s'. alloc (Suc k) sz 1 h s = Inr (p, s') \<and> unat p mod 4096 = 0 \<and> heap_run h s0 s'"
    if r: "align_request h s bs sz" for sz
  proof -
    obtain p s' where a: "alloc (Suc k) sz 1 h s = Inr (p, s')" "unat p mod 4096 = 0" by (rule run_align_step [OF bs r])
    then show ?thesis using run_align [OF assms(2) ok r a(1)] by (intro exI conjI)
  qed
  moreover have "\<exists>s'. free (of_nat (heap_start h s + bsum bs1 + 12)) h s = Inr ((), s') \<and> heap_run h s0 s'"
    if b: "bs = bs1 @ (False, n) # bs2" and l: "left_named h s bs1" and r: "right_clear bs2" for bs1 n bs2
  proof -
    obtain s' where f: "free (of_nat (heap_start h s + bsum bs1 + 12)) h s = Inr ((), s')"
      by (rule run_free_step [OF bs [unfolded b] l r])
    then show ?thesis using run_free [OF assms(2) ok [unfolded b] l r f] by blast
  qed
  ultimately show ?thesis using ok by blast
qed

theorem heap_run_answers_witness:
  "\<exists>bs. heap_ok 0x100 fit_heap bs \<and> (\<forall>M sz. (True, M) \<in> set bs \<and> unat sz + 20 \<le> M \<longrightarrow>
     (\<exists>p s'. alloc 1 sz 0 0x100 fit_heap = Inr (p, s')))"
  using heap_run_answers [OF fit_heap run_start, of 0] unfolding One_nat_def by blast

text \<open>
  C14: \<open>create_heap\<close> sets a heap up in order: behind the index of 131072 slots and a page
  boundary starts one hole that reaches to the given end, its address is the only entry of the
  index, and (unless the word before the hole happens to be the magic number) the heap can run
  from there.
\<close>

theorem create_heap_fit:
  assumes "kmalloc n sizeof_heap s = Inr (h, s1)" and "console_ok s1"
    and "start mod 0x1000 = 0" and "end_addr mod 0x1000 = 0"
    and "0xBA000 \<le> unat start" and "unat start + 0x81000 + 20 \<le> unat end_addr"
    and "unat end_addr < unat start + 0x81000 + 2621440" and "rd (start + 0x80FF8) s1 \<noteq> HEAP_MAGIC"
  shows "\<exists>s'. create_heap n start end_addr maxa sv ro s = Inr (h, s')
    \<and> heap_fit h s' [(True, unat end_addr - (unat start + 0x81000))] \<and> index_sorted h s'
    \<and> heap_start h s' = unat start + 0x81000 \<and> heap_end h s' = unat end_addr \<and> max_address (heap_at s' h) = maxa"
proof -
  obtain s' where s': "create_heap n start end_addr maxa sv ro s = Inr (h, s')"
    "heap_ok h s' [(True, unat end_addr - (unat start + 0x81000))]" "index_sorted h s'"
    "heap_start h s' = unat start + 0x81000" "heap_end h s' = unat end_addr"
    "max_address (heap_at s' h) = maxa" "max_size (index (heap_at s' h)) = HEAP_INDEX_SIZE"
    "array (index (heap_at s' h)) = start"
    "\<forall>lo hi. 0xBA000 \<le> lo \<and> (hi \<le> unat start \<or> unat start + 0x80000 \<le> lo \<and> hi \<le> unat start + 0x81000) \<longrightarrow>
      same_on lo hi (mem s1) (mem s')"
    using create_heap_runs [OF assms(1-6)] by blast
  have e: "unat start + 0x81000 < 4294967296" using assms(6) unat_bound32 [of end_addr] by simp
  have u: "unat (start + 0x80FF8) = unat start + 0x80FF8" by (rule unat_add_numeral32) (use e in simp)
  have "of_nat (heap_start h s' - 8) = start + 0x80FF8"
    by (simp add: s'(4) add.commute)
  moreover have "ld32 (mem s') (start + 0x80FF8) = ld32 (mem s1) (start + 0x80FF8)"
    by (rule ld32_same_on [OF s'(9) [rule_format, of "unat start + 0x80000" "unat start + 0x81000"]]) (use u e assms(5) in simp_all)
  ultimately have "rd (of_nat (heap_start h s' - 8)) s' \<noteq> HEAP_MAGIC" using assms(8) unfolding rd_def by metis
  moreover have "oa_hi (index (heap_at s' h)) + 8 \<le> heap_start h s'"
    and "heap_end h s' - heap_start h s' < 20 * unat (max_size (index (heap_at s' h)))"
    using assms(7) by (simp_all add: s'(4,5,7,8) HEAP_INDEX_SIZE_def)
  ultimately have "heap_fit h s' [(True, unat end_addr - (unat start + 0x81000))]"
    using s'(2) unfolding heap_fit_def by blast
  then show ?thesis using s'(1,3-6) by blast
qed

theorem create_heap_fit_witness:
  "\<exists>s'. create_heap 0 0xC0000000 0xC0100000 0xCFFFF000 0 0 (init_printf Screen_Putc (power_on (\<lambda>_. 0) (\<lambda>_ _. 0)))
     = Inr (0, s') \<and> heap_fit 0 s' [(True, 0x7F000)]"
proof -
  let ?s = "init_printf Screen_Putc (power_on (\<lambda>_. 0) (\<lambda>_ _. 0))"
  have k: "kmalloc 0 sizeof_heap ?s = Inr (0, ?s\<lparr>placement_address := sizeof_heap\<rparr>)"
    by (simp add: kmalloc_def kmalloc_int_def kmalloc_with_def seq_def ret_def init_printf_def power_on_def)
  have c: "console_ok (?s\<lparr>placement_address := sizeof_heap\<rparr>)"
    by (simp add: console_ok_def init_printf_def power_on_def)
  have z: "rd 0xC0080FF8 (?s\<lparr>placement_address := sizeof_heap\<rparr>) \<noteq> HEAP_MAGIC"
    by (simp add: rd_def ld32_def init_printf_def HEAP_MAGIC_def)
  show ?thesis
    using create_heap_fit [OF k c, of "0xC0000000" "0xC0100000" "0xCFFFF000" 0 0] z
    by (auto simp: unat_numeral32)
qed

text \<open>Addresses rounded down to a page.\<close>

lemma unat_page_base: "unat (w AND 0xFFFFF000 :: u32) = unat w - unat w mod 4096"
proof -
  have m: "(0xFFFFF000 :: u32) = NOT (mask 12)" "(0xFFF :: u32) = mask 12"
    by (simp_all add: mask_eq_exp_minus_1 not_eq_complement)
  have "w AND 0xFFFFF000 = w - (w AND 0xFFF)"
  proof -
    have "(w AND NOT (mask 12)) + (w AND mask 12) = (w AND NOT (mask 12)) OR (w AND mask 12)"
      by (rule disjunctive_add_eq_or) (simp add: bit_eq_iff bit_simps)
    also have "\<dots> = w" by (rule bit_word_eqI) (auto simp: bit_simps)
    finally show ?thesis unfolding m by (simp add: eq_diff_eq)
  qed
  moreover have "unat (w AND 0xFFF) \<le> unat w" unfolding unat_and_fff by simp
  ultimately show ?thesis by (simp add: unat_sub32 unat_and_fff)
qed

lemma next_page:
  assumes "0x1000 \<le> unat p" and "unat p + 0x1000 < 4294967296"
  shows "unat ((p AND 0xFFFFF000 :: u32) + 0x1000) = 4096 * (unat p div 4096 + 1)"
proof -
  have q: "unat (p AND 0xFFFFF000) = unat p - unat p mod 4096" by (rule unat_page_base)
  have "unat ((p AND 0xFFFFF000) + 0x1000) = unat p - unat p mod 4096 + 4096"
    using q assms(2) by (subst unat_add_numeral32) simp_all
  then show ?thesis by (simp add: minus_mod_eq_mult_div)
qed

lemma next_page_range: "p < 4096 * (p div 4096 + 1)" "4096 * (p div 4096 + 1) \<le> p + 0x1000" for p :: nat
  using mult_div_mod_eq [of 4096 p] mod_less_divisor [of 4096 p] by simp_all

lemma kmalloc_aligns:
  assumes "kheap s = 0" and "placement_address s AND 0xFFFFF000 \<noteq> 0"
  shows "kmalloc_int n sz 1 want s =
    Inr (((placement_address s AND 0xFFFFF000) + 0x1000, if want then (placement_address s AND 0xFFFFF000) + 0x1000 else 0),
      s\<lparr>placement_address := (placement_address s AND 0xFFFFF000) + 0x1000 + sz\<rparr>)"
  unfolding kmalloc_int_def kmalloc_with_def Let_def using assms by simp

text \<open>
  C36: Before there is a heap, every request is cut from the end of the kernel image: the
  address returned is the placement address, or for a page-aligned request the next page
  boundary (the one after it if the placement address is on a boundary already), it is also the
  physical address asked for, and the next request starts behind the memory given out.
\<close>

theorem kmalloc_early:
  assumes "kheap s = 0" and "0x1000 \<le> unat (placement_address s)"
    and "unat (placement_address s) + 0x1000 < 4294967296"
  shows "\<exists>a. kmalloc_int n sz al want s = Inr ((a, if want then a else 0), s\<lparr>placement_address := a + sz\<rparr>)
    \<and> (al \<noteq> 1 \<longrightarrow> a = placement_address s)
    \<and> (al = 1 \<longrightarrow> unat a mod 4096 = 0 \<and> unat (placement_address s) < unat a \<and> unat a \<le> unat (placement_address s) + 0x1000)"
proof (cases "al = 1")
  case True
  let ?p = "placement_address s"
  define a where "a = (?p AND 0xFFFFF000) + 0x1000"
  have "\<not> unat ?p < 4096" using assms(2) by simp
  then have "?p AND 0xFFFFF000 \<noteq> 0" by (blast dest: and_page_zero)
  from kmalloc_aligns [OF assms(1) this, folded a_def]
  have r: "kmalloc_int n sz al want s = Inr ((a, if want then a else 0), s\<lparr>placement_address := a + sz\<rparr>)"
    unfolding True .
  have a: "unat a = 4096 * (unat ?p div 4096 + 1)" unfolding a_def by (rule next_page [OF assms(2,3)])
  have "unat a mod 4096 = 0" unfolding a by (rule mod_mult_self1_is_0)
  moreover note next_page_range [of "unat ?p", folded a]
  ultimately show ?thesis using r True by (intro exI [of _ a]) simp
next
  case False
  then show ?thesis using assms(1) by (simp add: kmalloc_int_def kmalloc_with_def)
qed

theorem kmalloc_early_witness:
  "\<exists>a. kmalloc_int 0 0x20 1 True ((power_on (\<lambda>_. 0) (\<lambda>_ _. 0))\<lparr>placement_address := 0x101000\<rparr>)
     = Inr ((a, a), (power_on (\<lambda>_. 0) (\<lambda>_ _. 0))\<lparr>placement_address := a + 0x20\<rparr>)
     \<and> 0x101000 < unat a \<and> unat a \<le> 0x102000"
proof -
  let ?s = "(power_on (\<lambda>_. 0) (\<lambda>_ _. 0))\<lparr>placement_address := 0x101000\<rparr>"
  have p: "kheap ?s = 0" "unat (placement_address ?s) = 0x101000" by (simp_all add: power_on_def)
  have "0x1000 \<le> unat (placement_address ?s)" "unat (placement_address ?s) + 0x1000 < 4294967296"
    unfolding p(2) by simp_all
  from kmalloc_early [OF p(1) this, of 0 "0x20" 1 True] show ?thesis unfolding p(2) by auto
qed

end
