(* ===== verification/Paging_Init.thy ===== *)
theory Paging_Init
  imports Boot Heap_Runs
begin

text \<open>
  Switching paging on: the first part of \<open>initialize_paging\<close> (\<open>map_memory\<close>) fills two page tables so
  that low memory is mapped to itself and the heap area to the frames that follow; the loops
  by an invariant (\<open>filled\<close>), the result by the processor's address translation (\<open>translate\<close>).
\<close>

unbundle bit_operations_syntax


subsection \<open>Page-aligned requests\<close>

definition page_word :: "nat \<Rightarrow> u32" where
  "page_word k = of_nat (4096 * k)"

lemma unat_page_word: "k < 1048576 \<Longrightarrow> unat (page_word k) = 4096 * k"
  unfolding page_word_def by (intro unat_of_nat32) simp

lemma kmalloc_next_page:
  assumes "kheap s = 0" and "0x1000 \<le> unat (placement_address s)" and "unat (placement_address s) + 0x1000 < 4294967296"
  shows "kmalloc_int n sz 1 want s =
    (let a = page_word (unat (placement_address s) div 4096 + 1)
     in Inr ((a, if want then a else 0), s\<lparr>placement_address := a + sz\<rparr>))"
proof -
  let ?p = "placement_address s"
  have "\<not> unat ?p < 4096" using assms(2) by simp
  then have nz: "?p AND 0xFFFFF000 \<noteq> 0" by (blast dest: and_page_zero)
  have "unat ((?p AND 0xFFFFF000) + 0x1000) = 4096 * (unat ?p div 4096 + 1)" by (rule next_page [OF assms(2,3)])
  moreover have "unat ?p div 4096 + 1 < 1048576" using assms(3) by simp
  ultimately have "(?p AND 0xFFFFF000) + 0x1000 = page_word (unat ?p div 4096 + 1)"
    by (intro unat_eqI32) (simp add: unat_page_word)
  then show ?thesis unfolding kmalloc_aligns [OF assms(1) nz] by (simp add: Let_def)
qed

lemma page_for_steps:
  fixes J :: "nat \<Rightarrow> 's \<Rightarrow> bool"
  assumes start: "J 0 s" and step: "\<And>k s. k < N \<Longrightarrow> J k s \<Longrightarrow> a + page_word k < limit s
      \<and> (\<exists>s'. body (a + page_word k) s = Inr ((), s') \<and> J (Suc k) s')"
    and fin: "\<And>s. J N s \<Longrightarrow> \<not> a + page_word N < limit s" and top: "unat a + 4096 * N < 4294967296"
  shows "\<exists>s'. page_for limit body a s = Inr ((), s') \<and> J N s'"
proof -
  have u: "unat (a + page_word k) = unat a + 4096 * k" if "k \<le> N" for k
    using that top by (simp add: page_word_def unat_add32 unat_of_nat32 del: of_nat_mult)
  have "\<exists>s'. page_for limit body (a + page_word k) s = Inr ((), s') \<and> J N s'" if "J k s" "k \<le> N" for k s
    using that
  proof (induction "N - k" arbitrary: k s)
    case 0
    then have "J N s" "k = N" by simp_all
    then show ?case using fin [of s] by (subst page_for.simps) simp
  next
    case (Suc m)
    then have k: "k < N" by simp
    obtain s' where s': "a + page_word k < limit s" "body (a + page_word k) s = Inr ((), s')" "J (Suc k) s'"
      using step [OF k Suc.prems(1)] by blast
    have n: "a + page_word k + 0x1000 = a + page_word (Suc k)" by (simp add: page_word_def algebra_simps)
    have "\<not> a + page_word (Suc k) < a + page_word k"
      using u [of k] u [of "Suc k"] k by (simp add: word_less_nat_alt)
    moreover have "m = N - Suc k" "Suc k \<le> N" using Suc.hyps(2) k by simp_all
    then have "\<exists>s''. page_for limit body (a + page_word (Suc k)) s' = Inr ((), s'') \<and> J N s''"
      using Suc.hyps(1) s'(3) by blast
    ultimately show ?case using s'(1,2) by (subst page_for.simps) (simp add: n)
  qed
  from this [OF start] show ?thesis by (simp add: page_word_def)
qed

subsection \<open>The state while the tables are filled\<close>

text \<open>
  The bitmap \<open>p\<close> lies below the directory at page \<open>d\<close>, and everything that is written lies
  between the bitmap and page \<open>d + 6\<close>; of the rest of the machine only the globals of the
  allocator and of paging differ from the state \<open>s0\<close> before.
\<close>

definition low_bitmap :: "u32 \<Rightarrow> nat \<Rightarrow> bool" where
  "low_bitmap p d \<longleftrightarrow> unat p + 512 \<le> 4096 * d \<and> d < 1024"

definition based :: "machine \<Rightarrow> u32 \<Rightarrow> nat \<Rightarrow> machine \<Rightarrow> bool" where
  "based s0 p d s \<longleftrightarrow> kheap s0 = 0 \<and> (\<exists>m q. only_in (unat p) (4096 * (d + 6)) (mem s0) m
     \<and> s = s0\<lparr>mem := m, placement_address := q, frames := p, nframes := 0x1000, kernel_directory := page_word d\<rparr>)"

text \<open>The directory at page \<open>d\<close> has the table \<open>T i\<close> in slot \<open>i\<close>, 0 for no table.\<close>

definition directory_is :: "nat \<Rightarrow> (nat \<Rightarrow> u32) \<Rightarrow> machine \<Rightarrow> bool" where
  "directory_is d T s \<longleftrightarrow> rd (physicalAddr_at (page_word d)) s = page_word (d + 1)
     \<and> (\<forall>i < 1024. rd (tables_at (page_word d) (of_nat i)) s = T i
         \<and> rd (tablesPhysical_at (page_word d) (of_nat i)) s = (if T i = 0 then 0 else T i OR 7))"

text \<open>The entries of the table at page \<open>k\<close>: the first \<open>n\<close> have the frames from \<open>c\<close> on.\<close>

definition table_maps :: "nat \<Rightarrow> nat \<Rightarrow> nat \<Rightarrow> machine \<Rightarrow> bool" where
  "table_maps k c n s \<longleftrightarrow> (\<forall>j < 1024. rd (pages_at (page_word k) (of_nat j)) s =
     (if j < n then new_entry (of_nat (c + j)) 0 0 0 else 0))"

definition heap_slot :: "nat \<Rightarrow> nat \<Rightarrow> u32" where
  "heap_slot d = (\<lambda>_. 0)(768 := page_word (d + 3))"

definition both_slots :: "nat \<Rightarrow> nat \<Rightarrow> u32" where
  "both_slots d = (heap_slot d)(0 := page_word (d + 5))"

text \<open>\<open>a\<close> pages of the low memory and \<open>b\<close> of the heap are mapped, to the frames 0, 1, 2, ... in this order.\<close>

definition filled :: "machine \<Rightarrow> u32 \<Rightarrow> nat \<Rightarrow> nat \<Rightarrow> nat \<Rightarrow> machine \<Rightarrow> bool" where
  "filled s0 p d a b s \<longleftrightarrow> based s0 p d s \<and> placement_address s = page_word (d + 6)
     \<and> directory_is d (both_slots d) s \<and> table_maps (d + 5) 0 a s \<and> table_maps (d + 3) a b s
     \<and> used_frames s \<inter> {..<1024} = {..<a + b}"

lemma based_fields:
  "based s0 p d s \<Longrightarrow> kheap s = 0 \<and> frames s = p \<and> nframes s = 0x1000 \<and> kernel_directory s = page_word d"
  by (elim based_def [THEN iffD1, elim_format] conjE exE) simp

lemma based_step:
  assumes "based s0 p d s" and "only_in (unat p) (4096 * (d + 6)) (mem s) m"
  shows "based s0 p d (s\<lparr>mem := m\<rparr>)" and "based s0 p d (s\<lparr>placement_address := q, mem := m\<rparr>)"
proof -
  obtain m1 q1 where k: "kheap s0 = 0" and o: "only_in (unat p) (4096 * (d + 6)) (mem s0) m1"
    and s: "s = s0\<lparr>mem := m1, placement_address := q1, frames := p, nframes := 0x1000, kernel_directory := page_word d\<rparr>"
    using assms(1) unfolding based_def by blast
  have "mem s = m1" unfolding s by simp
  then have o2: "only_in (unat p) (4096 * (d + 6)) (mem s0) m"
    using only_in_trans [OF o] assms(2) by simp
  show "based s0 p d (s\<lparr>mem := m\<rparr>)" unfolding based_def s
    by (rule conjI [OF k], rule exI [of _ m], rule exI [of _ q1], rule conjI [OF o2]) simp
  show "based s0 p d (s\<lparr>placement_address := q, mem := m\<rparr>)" unfolding based_def s
    by (rule conjI [OF k], rule exI [of _ m], rule exI [of _ q], rule conjI [OF o2]) simp
qed

lemma bitmap_4096:
  assumes "low_bitmap p d" and "frames s = p" and "nframes s = 0x1000"
  shows "bitmap_ok s" and "frame_count s = 4096" and "bm_hi s \<le> 4096 * d"
  using assms by (simp_all add: low_bitmap_def bitmap_ok_def frame_count_def)

lemma entry_address: "k < 1048575 \<Longrightarrow> j < 1024 \<Longrightarrow> unat (pages_at (page_word k) (of_nat j)) = 4096 * k + 4 * j"
  by (simp add: unat_pages_at unat_page_word)

lemma slot_address:
  assumes "d < 1024" and "i < 1024"
  shows "unat (tables_at (page_word d) (of_nat i)) = 4096 * d + 4 * i"
    and "unat (tablesPhysical_at (page_word d) (of_nat i)) = 4096 * d + 4096 + 4 * i"
    and "unat (physicalAddr_at (page_word d)) = 4096 * d + 8192"
proof -
  have i: "unat (of_nat i :: u32) = i" using assms(2) by (intro unat_of_nat32) simp
  have d: "dir_ok (page_word d)" using assms(1) by (simp add: dir_ok_def unat_page_word)
  show "unat (tables_at (page_word d) (of_nat i)) = 4096 * d + 4 * i"
    "unat (tablesPhysical_at (page_word d) (of_nat i)) = 4096 * d + 4096 + 4 * i"
    "unat (physicalAddr_at (page_word d)) = 4096 * d + 8192"
    using unat_dir_fields [OF d, of "of_nat i"] assms i by (simp_all add: unat_page_word)
qed

text \<open>What keeps the words of a directory or of a table.\<close>

lemma directory_is_kept:
  assumes "directory_is d T s" and "d < 1024"
    and "\<And>x. 4096 * d \<le> unat x \<Longrightarrow> unat x + 4 \<le> 4096 * (d + 3) \<Longrightarrow> rd x s' = rd x s"
  shows "directory_is d T s'"
proof -
  note a = slot_address [OF assms(2)]
  have "rd (tables_at (page_word d) (of_nat i)) s' = rd (tables_at (page_word d) (of_nat i)) s"
    "rd (tablesPhysical_at (page_word d) (of_nat i)) s' = rd (tablesPhysical_at (page_word d) (of_nat i)) s"
    if "i < 1024" for i
    by (rule assms(3); use a [OF that] that in simp)+
  moreover have "rd (physicalAddr_at (page_word d)) s' = rd (physicalAddr_at (page_word d)) s"
    by (rule assms(3); use a(3) [of 0] in simp)
  ultimately show ?thesis using assms(1) by (simp add: directory_is_def)
qed

lemma table_maps_kept:
  assumes "table_maps k c n s" and "k < 1048575"
    and "\<And>x. 4096 * k \<le> unat x \<Longrightarrow> unat x + 4 \<le> 4096 * (k + 1) \<Longrightarrow> rd x s' = rd x s"
  shows "table_maps k c n s'"
proof -
  have "rd (pages_at (page_word k) (of_nat j)) s' = rd (pages_at (page_word k) (of_nat j)) s" if "j < 1024" for j
    by (rule assms(3); use entry_address [OF assms(2) that] that in simp)
  then show ?thesis using assms(1) by (simp add: table_maps_def)
qed

lemma used_frames_low:
  assumes "low_bitmap p d" and "frames s = p" "nframes s = 0x1000" and "frames s' = p" "nframes s' = 0x1000"
    and "\<And>x. unat x < 4096 * d \<Longrightarrow> mem s' x = mem s x"
  shows "used_frames s' = used_frames s"
proof -
  note B = bitmap_4096 [OF assms(1-3)] bitmap_4096 [OF assms(1,4,5)]
  have "frame_bit s' n = frame_bit s n" if "n < 4096" for n
  proof -
    have "unat (p + 4 * of_nat (n div 32)) + 4 \<le> 4096 * d" "4096 * d \<le> 4294967296"
      using unat_frame_word [OF B(1), of n] that B(2) assms(1-3) by (auto simp: low_bitmap_def)
    then have "rd (p + 4 * of_nat (n div 32)) s' = rd (p + 4 * of_nat (n div 32)) s"
      unfolding rd_def by (intro ld32_same_on [of 0 "4096 * d"]) (simp_all add: same_on_def assms(6))
    then show ?thesis by (simp add: frame_bit_def assms(2,4))
  qed
  then show ?thesis by (auto simp: used_frames_def B(2,5))
qed

subsection \<open>Giving the next free frame to an empty entry\<close>

lemma give_frame:
  assumes low: "low_bitmap p d" and s: "frames s = p" "nframes s = 0x1000"
    and page: "4096 * d \<le> unat page" "unat page + 4 \<le> 4294967296"
    and e: "rd page s = 0" and u: "used_frames s \<inter> {..<1024} = {..<c}" "c < 1024"
  obtains m where "alloc_frame page ik iw s = Inr ((), s\<lparr>mem := m\<rparr>)" and "ld32 m page = new_entry (of_nat c) ik iw 0"
    and "\<forall>x. (unat x < unat p \<or> 4096 * d \<le> unat x) \<longrightarrow> (unat x < unat page \<or> unat page + 4 \<le> unat x) \<longrightarrow> m x = mem s x"
    and "used_frames (s\<lparr>mem := m\<rparr>) \<inter> {..<1024} = {..<Suc c}"
proof -
  note B = bitmap_4096 [OF low s]
  have dd: "d < 1024" "unat p \<le> 4096 * d" using low by (simp_all add: low_bitmap_def)
  have ap: "entry_apart page s" using page B(3) by (simp add: entry_apart_def)
  have "c \<notin> used_frames s \<inter> {..<1024}" unfolding u(1) by simp
  then have cu: "c \<notin> used_frames s" using u(2) by simp
  have "c \<in> {..<frame_count s}" using u(2) unfolding B(2) by simp
  then have nf: "used_frames s \<noteq> {..<frame_count s}" using cu by metis
  have pf: "page_frame (rd page s) = 0" using e by (simp add: page_frame_def)
  obtain k s' where k: "k < frame_count s" "k \<notin> used_frames s" "\<forall>j < k. j \<in> used_frames s"
    "alloc_frame page ik iw s = Inr ((), s')" "used_frames s' = insert k (used_frames s)"
    "rd page s' = new_entry (of_nat k) ik iw (rd page s)"
    "s' = wr page (new_entry (of_nat k) ik iw (rd page s)) (set_frame (of_nat k * 0x1000) s)"
    by (rule alloc_frame_takes [OF B(1) ap pf nf])
  have "k = c"
  proof (rule linorder_cases [of k c])
    assume "k < c"
    then have "k \<in> used_frames s \<inter> {..<1024}" unfolding u(1) by simp
    then show ?thesis using k(2) by simp
  next
    assume "c < k"
    then show ?thesis using k(3) cu by simp
  qed
  let ?w = "frames s + 4 * of_nat (k div 32)"
  have sb: "set_frame (of_nat k * 0x1000) s = wr ?w (rd ?w s OR push_bit (k mod 32) 1) s"
    by (rule set_frame_bits(1) [OF B(1) k(1)])
  have uw: "unat p \<le> unat ?w" "unat ?w + 4 \<le> 4096 * d"
    using unat_frame_word [OF B(1) k(1)] B(3) s(1) by simp_all
  define m1 where "m1 = st32 (mem s) ?w (rd ?w s OR push_bit (k mod 32) 1)"
  define m where "m = st32 m1 page (new_entry (of_nat k) ik iw (rd page s))"
  have m: "s' = s\<lparr>mem := m\<rparr>" unfolding k(7) sb m_def m1_def by (simp add: wr_def)
  have "only_in (unat p) (4096 * d) (mem s) m1" "only_in (unat page) (unat page + 4) m1 m"
    unfolding m1_def m_def using uw page dd by (intro only_in_st32_step only_in_refl; simp)+
  then have o: "\<forall>x. (unat x < unat p \<or> 4096 * d \<le> unat x) \<longrightarrow> (unat x < unat page \<or> unat page + 4 \<le> unat x) \<longrightarrow> m x = mem s x"
    by (auto simp: only_in_def)
  have "used_frames s' \<inter> {..<1024} = {..<Suc c}"
  proof -
    have "used_frames s' \<inter> {..<1024} = insert c (used_frames s \<inter> {..<1024})"
      unfolding k(5) \<open>k = c\<close> using u(2) by blast
    then show ?thesis unfolding u(1) by (simp add: lessThan_Suc)
  qed
  then show ?thesis
    using that [of m] k(4,6) e \<open>k = c\<close> o unfolding m by (simp add: rd_def)
qed

lemma give_next_frame:
  assumes low: "low_bitmap p d" and s: "frames s = p" "nframes s = 0x1000"
    and page: "4096 * d \<le> unat page" "unat page + 4 \<le> 4096 * (d + 6)"
    and e: "rd page s = 0" and u: "used_frames s \<inter> {..<1024} = {..<c}" "c < 1024"
  obtains m where "alloc_frame page 0 0 s = Inr ((), s\<lparr>mem := m\<rparr>)" and "ld32 m page = new_entry (of_nat c) 0 0 0"
    and "\<And>x. 4096 * d \<le> unat x \<Longrightarrow> unat x + 4 \<le> 4294967296 \<Longrightarrow> unat x + 4 \<le> unat page \<or> unat page + 4 \<le> unat x \<Longrightarrow>
      ld32 m x = rd x s"
    and "used_frames (s\<lparr>mem := m\<rparr>) \<inter> {..<1024} = {..<Suc c}"
    and "only_in (unat p) (4096 * (d + 6)) (mem s) m"
proof -
  have dd: "4096 * (d + 6) \<le> 4294967296" "unat p \<le> 4096 * d" using low by (simp_all add: low_bitmap_def)
  have page4: "unat page + 4 \<le> 4294967296" using page(2) dd by linarith
  obtain m where m: "alloc_frame page 0 0 s = Inr ((), s\<lparr>mem := m\<rparr>)" "ld32 m page = new_entry (of_nat c) 0 0 0"
    "\<forall>x. (unat x < unat p \<or> 4096 * d \<le> unat x) \<longrightarrow> (unat x < unat page \<or> unat page + 4 \<le> unat x) \<longrightarrow> m x = mem s x"
    "used_frames (s\<lparr>mem := m\<rparr>) \<inter> {..<1024} = {..<Suc c}"
    by (rule give_frame [OF low s page(1) page4 e u])
  have "ld32 m x = rd x s"
    if x: "4096 * d \<le> unat x" "unat x + 4 \<le> 4294967296" "unat x + 4 \<le> unat page \<or> unat page + 4 \<le> unat x" for x
    unfolding rd_def by (rule ld32_same_on [of "unat x" "unat x + 4"]) (use m(3) x in \<open>auto simp: same_on_def\<close>)
  moreover have "only_in (unat p) (4096 * (d + 6)) (mem s) m" using m(3) page dd by (auto simp: only_in_def)
  ultimately show ?thesis using that m(1,2,4) by blast
qed

text \<open>The next frame for entry \<open>n\<close> of the table at page \<open>d + t\<close>: the directory and the other table stay.\<close>

lemma fill_entry:
  assumes low: "low_bitmap p d" and b: "based s0 p d s" and t: "t = 3 \<or> t = 5" "n < 1024"
    and f: "directory_is d T s" "table_maps (d + t) c n s" "table_maps (d + (8 - t)) c' n' s"
    and u: "used_frames s \<inter> {..<1024} = {..<c + n}" "c + n < 1024"
  obtains s' where "alloc_frame (pages_at (page_word (d + t)) (of_nat n)) 0 0 s = Inr ((), s')"
    and "based s0 p d s'" and "placement_address s' = placement_address s"
    and "directory_is d T s'" and "table_maps (d + t) c (Suc n) s'" and "table_maps (d + (8 - t)) c' n' s'"
    and "used_frames s' \<inter> {..<1024} = {..<c + Suc n}"
proof -
  let ?page = "pages_at (page_word (d + t)) (of_nat n)"
  have d: "d < 1024" using low by (simp add: low_bitmap_def)
  note s = based_fields [OF b]
  have up: "unat ?page = 4096 * (d + t) + 4 * n" using d t by (intro entry_address) auto
  have page: "4096 * d \<le> unat ?page" "unat ?page + 4 \<le> 4096 * (d + 6)" unfolding up using d t by auto
  have e: "rd ?page s = 0" using f(2) t(2) by (simp add: table_maps_def)
  obtain m where m: "alloc_frame ?page 0 0 s = Inr ((), s\<lparr>mem := m\<rparr>)" "ld32 m ?page = new_entry (of_nat (c + n)) 0 0 0"
    "\<And>x. 4096 * d \<le> unat x \<Longrightarrow> unat x + 4 \<le> 4294967296 \<Longrightarrow> unat x + 4 \<le> unat ?page \<or> unat ?page + 4 \<le> unat x \<Longrightarrow> ld32 m x = rd x s"
    "used_frames (s\<lparr>mem := m\<rparr>) \<inter> {..<1024} = {..<Suc (c + n)}" "only_in (unat p) (4096 * (d + 6)) (mem s) m"
    by (rule give_next_frame [OF low _ _ page e u]) (use s in auto)
  have same: "rd x (s\<lparr>mem := m\<rparr>) = rd x s"
    if "4096 * d \<le> unat x" "unat x + 4 \<le> 4096 * (d + 6)" "unat x + 4 \<le> unat ?page \<or> unat ?page + 4 \<le> unat x" for x
    using m(3) [of x] that d by (simp add: rd_def)
  show ?thesis
  proof (rule that [OF m(1)])
    show "based s0 p d (s\<lparr>mem := m\<rparr>)" by (rule based_step(1) [OF b m(5)])
    show "directory_is d T (s\<lparr>mem := m\<rparr>)"
      by (rule directory_is_kept [OF f(1) d], rule same) (use up t(1) in auto)
    show "table_maps (d + (8 - t)) c' n' (s\<lparr>mem := m\<rparr>)"
      by (rule table_maps_kept [OF f(3)], use d in simp, rule same) (use up t in auto)
    show "table_maps (d + t) c (Suc n) (s\<lparr>mem := m\<rparr>)"
    proof (unfold table_maps_def, intro allI impI)
      fix j :: nat assume j: "j < 1024"
      show "rd (pages_at (page_word (d + t)) (of_nat j)) (s\<lparr>mem := m\<rparr>) = (if j < Suc n then new_entry (of_nat (c + j)) 0 0 0 else 0)"
      proof (cases "j = n")
        case True
        then show ?thesis using m(2) by (simp add: rd_def)
      next
        case False
        have uj: "unat (pages_at (page_word (d + t)) (of_nat j)) = 4096 * (d + t) + 4 * j"
          using d t j by (intro entry_address) auto
        have "rd (pages_at (page_word (d + t)) (of_nat j)) (s\<lparr>mem := m\<rparr>) = rd (pages_at (page_word (d + t)) (of_nat j)) s"
          by (rule same) (use uj up False t j in auto)
        then show ?thesis using f(2) j False by (simp add: table_maps_def less_Suc_eq)
      qed
    qed
    show "used_frames (s\<lparr>mem := m\<rparr>) \<inter> {..<1024} = {..<c + Suc n}" using m(4) by simp
  qed simp
qed

lemma page_word_parts:
  assumes "k < 1048576"
  shows "table_index (page_word k) = of_nat (k div 1024)" and "page_index (page_word k) = of_nat (k mod 1024)"
proof -
  have u: "unat (page_word k div 0x1000) = k" using unat_page_word [OF assms] by (simp add: unat_div)
  have "k div 1024 < 4294967296" "k mod 1024 < 4294967296" using assms by simp_all
  then show "table_index (page_word k) = of_nat (k div 1024)" "page_index (page_word k) = of_nat (k mod 1024)"
    using u by (auto intro!: unat_eqI32 simp: table_index_def page_index_def unat_div unat_mod unat_of_nat32)
qed

lemma page_word_nonzero: "0 < k \<Longrightarrow> k < 1048576 \<Longrightarrow> page_word k \<noteq> 0"
  using unat_page_word [of k] by (metis mult_eq_0_iff neq0_conv unat_0 zero_neq_numeral)

lemma heap_area_parts:
  assumes "b < 1024"
  shows "table_index (KHEAP_START + page_word b) = 768" and "page_index (KHEAP_START + page_word b) = of_nat b"
proof -
  have k: "KHEAP_START + page_word b = page_word (786432 + b)"
    by (simp add: KHEAP_START_def page_word_def algebra_simps)
  have "786432 + b = b + 768 * 1024" by simp
  then have "(786432 + b) div 1024 = 768" "(786432 + b) mod 1024 = b"
    using assms by (simp_all only: div_mult_self1 mod_mult_self1 mod_less div_less zero_neq_numeral simp_thms add_0_right)
  then show "table_index (KHEAP_START + page_word b) = 768" "page_index (KHEAP_START + page_word b) = of_nat b"
    unfolding k using page_word_parts [of "786432 + b"] assms by simp_all
qed

lemma give_low_page:
  assumes low: "low_bitmap p d" and f: "filled s0 p d a 0 s" and a: "a < 1024"
  shows "\<exists>s'. alloc_frame (pages_at (page_word (d + 5)) (of_nat a)) 0 0 s = Inr ((), s') \<and> filled s0 p d (Suc a) 0 s'"
proof -
  note F = f [unfolded filled_def]
  have z: "table_maps (d + 3) c 0 s = table_maps (d + 3) c' 0 s" for c c' s by (simp add: table_maps_def)
  obtain s' where "alloc_frame (pages_at (page_word (d + 5)) (of_nat a)) 0 0 s = Inr ((), s')"
    "based s0 p d s'" "placement_address s' = placement_address s" "directory_is d (both_slots d) s'"
    "table_maps (d + 5) 0 (Suc a) s'" "table_maps (d + 3) a 0 s'" "used_frames s' \<inter> {..<1024} = {..<0 + Suc a}"
    using fill_entry [OF low, of s0 s 5 a "both_slots d" 0 a 0] F a by auto
  then show ?thesis using F z [of "Suc a" s' a] by (simp add: filled_def)
qed

lemma make_page_present:
  assumes "kernel_directory s = page_word d" and "directory_is d T s" and "table_index a = of_nat i" and "i < 1024" and "T i \<noteq> 0"
  shows "make_page n a s = Inr (pages_at (T i) (page_index a), s)"
  unfolding make_page_def using assms by (subst get_page_present) (simp_all add: directory_is_def)

lemma map_low_page:
  assumes low: "low_bitmap p d" and f: "filled s0 p d a 0 s" and a: "a < 1024"
  shows "\<exists>s'. map_page n (page_word a) s = Inr ((), s') \<and> filled s0 p d (Suc a) 0 s'"
proof -
  have d: "d < 1024" using low by (simp add: low_bitmap_def)
  have S: "kernel_directory s = page_word d" and D: "directory_is d (both_slots d) s"
    using f based_fields unfolding filled_def by blast+
  have t: "table_index (page_word a) = of_nat 0" "page_index (page_word a) = of_nat a" using page_word_parts [of a] a by simp_all
  have "make_page n (page_word a) s = Inr (pages_at (both_slots d 0) (page_index (page_word a)), s)"
    by (rule make_page_present [OF S D t(1)]) (use d page_word_nonzero [of "d + 5"] in \<open>simp_all add: both_slots_def\<close>)
  then show ?thesis using give_low_page [OF low f a] t(2) by (simp add: map_page_def seq_def both_slots_def)
qed

lemma map_heap_page:
  assumes low: "low_bitmap p d" and f: "filled s0 p d a b s" and b: "b < 1024" "a + b < 1024"
  shows "\<exists>s'. map_page n (KHEAP_START + page_word b) s = Inr ((), s') \<and> filled s0 p d a (Suc b) s'"
proof -
  have d: "d < 1024" using low by (simp add: low_bitmap_def)
  note F = f [unfolded filled_def]
  have S: "kernel_directory s = page_word d" and D: "directory_is d (both_slots d) s"
    using F based_fields by blast+
  have t: "table_index (KHEAP_START + page_word b) = of_nat 768" using heap_area_parts(1) [OF b(1)] by simp
  have "make_page n (KHEAP_START + page_word b) s = Inr (pages_at (both_slots d 768) (page_index (KHEAP_START + page_word b)), s)"
    by (rule make_page_present [OF S D t]) (use d page_word_nonzero [of "d + 3"] in \<open>simp_all add: both_slots_def heap_slot_def\<close>)
  moreover obtain s' where "alloc_frame (pages_at (page_word (d + 3)) (of_nat b)) 0 0 s = Inr ((), s')"
    "based s0 p d s'" "placement_address s' = placement_address s" "directory_is d (both_slots d) s'"
    "table_maps (d + 3) a (Suc b) s'" "table_maps (d + 5) 0 a s'" "used_frames s' \<inter> {..<1024} = {..<a + Suc b}"
    using fill_entry [OF low, of s0 s 3 b "both_slots d" a 0 a] F b by auto
  ultimately show ?thesis using F heap_area_parts(2) [OF b(1)]
    by (simp add: filled_def map_page_def seq_def both_slots_def heap_slot_def)
qed

subsection \<open>Making the two tables\<close>

definition opened :: "machine \<Rightarrow> u32 \<Rightarrow> nat \<Rightarrow> u32 \<Rightarrow> (nat \<Rightarrow> u32) \<Rightarrow> machine \<Rightarrow> bool" where
  "opened s0 p d q T s \<longleftrightarrow> based s0 p d s \<and> placement_address s = q \<and> directory_is d T s
     \<and> used_frames s \<inter> {..<1024} = {}"

lemma directory_is_new:
  assumes D: "directory_is d T s" and d: "d < 1024" and i: "i < 1024" and w: "w \<noteq> 0"
    and new: "rd (tables_at (page_word d) (of_nat i)) s2 = w" "rd (tablesPhysical_at (page_word d) (of_nat i)) s2 = w OR 7"
    and same: "\<And>x. 4096 * d \<le> unat x \<Longrightarrow> unat x + 4 \<le> 4096 * (d + 3) \<Longrightarrow>
      (unat x + 4 \<le> unat (tables_at (page_word d) (of_nat i)) \<or> unat (tables_at (page_word d) (of_nat i)) + 4 \<le> unat x) \<Longrightarrow>
      (unat x + 4 \<le> unat (tablesPhysical_at (page_word d) (of_nat i)) \<or> unat (tablesPhysical_at (page_word d) (of_nat i)) + 4 \<le> unat x) \<Longrightarrow>
      rd x s2 = rd x s"
  shows "directory_is d (T(i := w)) s2"
proof -
  note a = slot_address [OF d]
  have "rd (physicalAddr_at (page_word d)) s2 = rd (physicalAddr_at (page_word d)) s"
    by (rule same; use a(3) [OF i] a(1,2) [OF i] i in simp)
  moreover have "rd (tables_at (page_word d) (of_nat j)) s2 = rd (tables_at (page_word d) (of_nat j)) s"
    "rd (tablesPhysical_at (page_word d) (of_nat j)) s2 = rd (tablesPhysical_at (page_word d) (of_nat j)) s"
    if "j < 1024" "j < i \<or> i < j" for j
    by (rule same; use a(1,2) [OF i] a(1,2) [OF that(1)] that i in auto)+
  ultimately show ?thesis using D new w by (auto simp: directory_is_def neq_iff)
qed

lemma make_table:
  assumes low: "low_bitmap p d" and s: "opened s0 p d q T s"
    and i: "table_index a = of_nat i" "i < 1024" "T i = 0"
    and t: "unat q div 4096 + 1 = t" "t = d + 3 \<or> t = d + 5"
  obtains s2 where "make_page n a s = Inr (pages_at (page_word t) (page_index a), s2)"
    and "opened s0 p d (page_word (t + 1)) (T(i := page_word t)) s2" and "\<And>c. table_maps t c 0 s2"
    and "\<And>x. 4096 * (d + 3) \<le> unat x \<Longrightarrow> unat x + 4 \<le> 4096 * t \<Longrightarrow> rd x s2 = rd x s"
proof -
  let ?t = "tables_at (page_word d) (of_nat i)" and ?p = "tablesPhysical_at (page_word d) (of_nat i)"
  have d: "d < 1024" "unat p \<le> 4096 * d" using low by (simp_all add: low_bitmap_def)
  note S = s [unfolded opened_def] and f = based_fields [OF s [unfolded opened_def, THEN conjunct1]]
  have u: "unat (page_word d) = 4096 * d" "unat (page_word t) = 4096 * t" using d t(2) by (auto simp: unat_page_word)
  have dir: "dir_ok (page_word d)" using d by (simp add: dir_ok_def u)
  have e: "rd (tables_at (page_word d) (table_index a)) s = 0" using S i by (simp add: directory_is_def)
  have q: "4096 * (unat q div 4096) = 4096 * (t - 1)" using t(1) by simp
  have pl: "0x1000 \<le> unat (placement_address s)" "unat (placement_address s) + 0x1000 < 4294967296"
    using q t(2) d S mult_div_mod_eq [of 4096 "unat q"] mod_less_divisor [of 4096 "unat q"] by (simp_all, linarith+)
  have "page_word t + 4096 = page_word (t + 1)" by (simp add: page_word_def)
  then have kap: "kmalloc_ap n sizeof_page_table s = Inr ((page_word t, page_word t), s\<lparr>placement_address := page_word (t + 1)\<rparr>)"
    unfolding kmalloc_ap_def kmalloc_next_page [OF f [THEN conjunct1] pl] S [THEN conjunct2, THEN conjunct1] t(1)
    by (simp add: Let_def sizeof_page_table_def)
  have clear: "table_clear_of (page_word t) (page_word d)"
    using t d by (auto simp: table_clear_of_def dir u)
  note g = get_page_makes [where kap = "kmalloc_ap n" and dir = "page_word d" and a = a and s = s, OF e kap clear]
  obtain m where m0: "get_page (kmalloc_ap n) a True (page_word d) s
      = Inr (pages_at (page_word t) (page_index a), s\<lparr>placement_address := page_word (t + 1), mem := m\<rparr>)"
    and m: "ld32 m ?t = page_word t" "ld32 m ?p = page_word t OR 7"
    "\<forall>j < 1024. ld32 m (pages_at (page_word t) (of_nat j)) = 0"
    "\<And>x. (unat x < unat (page_word t) \<or> unat (page_word t) + 4096 \<le> unat x) \<Longrightarrow>
        (unat x < unat ?t \<or> unat ?t + 4 \<le> unat x) \<Longrightarrow> (unat x < unat ?p \<or> unat ?p + 4 \<le> unat x) \<Longrightarrow> m x = mem s x"
  proof (rule g, goal_cases)
    case (1 s2)
    have s2: "s2 = s\<lparr>placement_address := page_word (t + 1), mem := mem s2\<rparr>" using 1(3) by simp
    have "mem s2 x = mem s x" if "unat x < unat (page_word t) \<or> unat (page_word t) + 4096 \<le> unat x"
      "unat x < unat ?t \<or> unat ?t + 4 \<le> unat x" "unat x < unat ?p \<or> unat ?p + 4 \<le> unat x" for x
      using 1(7) [unfolded i(1), rule_format, OF that] by simp
    then show ?case
      by (rule 1(1) [of "mem s2", rotated 4]) (use 1(2) s2 1(4-6) in \<open>simp_all add: rd_def i(1)\<close>)
  qed
  define s2 where "s2 = s\<lparr>placement_address := page_word (t + 1), mem := m\<rparr>"
  note ua = slot_address(1,2) [OF d(1) i(2)]
  have same: "rd x s2 = rd x s" if "4096 * d \<le> unat x" "unat x + 4 \<le> 4096 * t"
    "unat x + 4 \<le> unat ?t \<or> unat ?t + 4 \<le> unat x" "unat x + 4 \<le> unat ?p \<or> unat ?p + 4 \<le> unat x" for x
  proof -
    have "same_on (unat x) (unat x + 4) (mem s) (mem s2)"
      unfolding same_on_def s2_def by (intro allI impI) (simp, rule m(4); use that u in auto)
    then show ?thesis unfolding rd_def by (rule ld32_same_on) (use that d t(2) in auto)
  qed
  have o: "only_in (unat p) (4096 * (d + 6)) (mem s) m"
    unfolding only_in_def by (intro allI impI, rule m(4); use u ua d t(2) i(2) in auto)
  have b: "based s0 p d s2" unfolding s2_def by (rule based_step(2) [OF S [THEN conjunct1] o])
  show ?thesis
  proof (rule that [of s2])
    show "make_page n a s = Inr (pages_at (page_word t) (page_index a), s2)"
      unfolding make_page_def s2_def using f m0 by simp
    have "directory_is d (T(i := page_word t)) s2"
    proof (rule directory_is_new [OF _ d(1) i(2)])
      show "directory_is d T s" using S by blast
      show "page_word t \<noteq> 0" using t(2) d by (intro page_word_nonzero) auto
      show "rd ?t s2 = page_word t" "rd ?p s2 = page_word t OR 7" using m(1,2) by (simp_all add: rd_def s2_def)
    qed (rule same, assumption, use t(2) in auto)
    moreover have "used_frames s2 = used_frames s"
      by (rule used_frames_low [OF low]) (use f based_fields [OF b] m(4) u ua d t(2) in \<open>auto simp: s2_def\<close>)
    ultimately show "opened s0 p d (page_word (t + 1)) (T(i := page_word t)) s2"
      using b S by (simp add: opened_def s2_def)
    show "table_maps t c 0 s2" for c using m(3) by (simp add: table_maps_def rd_def s2_def)
    show "rd x s2 = rd x s" if "4096 * (d + 3) \<le> unat x" "unat x + 4 \<le> 4096 * t" for x
      by (rule same) (use that ua i(2) in auto)
  qed
qed

subsection \<open>The three loops\<close>

lemma heap_area_limit: "k \<le> 256 \<Longrightarrow> KHEAP_START + page_word k < KHEAP_START + KHEAP_INITIAL_SIZE \<longleftrightarrow> k < 256"
  by (simp add: word_less_nat_alt KHEAP_START_def KHEAP_INITIAL_SIZE_def unat_add32 unat_page_word unat_numeral32)

definition heap_table :: "machine \<Rightarrow> u32 \<Rightarrow> nat \<Rightarrow> machine \<Rightarrow> bool" where
  "heap_table s0 p d s \<longleftrightarrow> opened s0 p d (page_word (d + 4)) (heap_slot d) s \<and> (\<forall>c. table_maps (d + 3) c 0 s)"

lemma heap_table_loop:
  assumes low: "low_bitmap p d" and s: "opened s0 p d (page_word d + 8196) (\<lambda>_. 0) s"
  shows "\<exists>s'. page_for (\<lambda>_. KHEAP_START + KHEAP_INITIAL_SIZE) (\<lambda>i. seq (make_page n i) (\<lambda>_. ret ())) KHEAP_START s = Inr ((), s')
    \<and> heap_table s0 p d s'"
proof -
  have d: "d < 1024" using low by (simp add: low_bitmap_def)
  have q: "unat (page_word d + 8196) div 4096 + 1 = d + 3"
    using d by (simp add: unat_add32 unat_page_word unat_numeral32)
  define J where "J k s' \<longleftrightarrow> (if k = 0 then s' = s else heap_table s0 p d s')" for k :: nat and s'
  have "\<exists>s'. page_for (\<lambda>_. KHEAP_START + KHEAP_INITIAL_SIZE) (\<lambda>i. seq (make_page n i) (\<lambda>_. ret ())) KHEAP_START s = Inr ((), s') \<and> J 256 s'"
  proof (rule page_for_steps)
    show "J 0 s" by (simp add: J_def)
    fix k s1 assume k: "k < 256" and j: "J k s1"
    note t = heap_area_parts [of k]
    show "KHEAP_START + page_word k < KHEAP_START + KHEAP_INITIAL_SIZE \<and>
      (\<exists>s'. seq (make_page n (KHEAP_START + page_word k)) (\<lambda>_. ret ()) s1 = Inr ((), s') \<and> J (Suc k) s')"
    proof (cases "k = 0")
      case True
      then have "s1 = s" using j by (simp add: J_def)
      obtain s2 where s2: "make_page n (KHEAP_START + page_word k) s = Inr (pages_at (page_word (d + 3)) (page_index (KHEAP_START + page_word k)), s2)"
        "opened s0 p d (page_word (d + 3 + 1)) ((\<lambda>_. 0)(768 := page_word (d + 3))) s2" "\<And>c. table_maps (d + 3) c 0 s2"
        by (rule make_table [where n = n, OF low s _ _ _ q, of "KHEAP_START + page_word k" 768]) (use t k in simp_all)
      then have "heap_table s0 p d s2" by (simp add: heap_table_def heap_slot_def ac_simps)
      then show ?thesis using s2(1) heap_area_limit [of k] k \<open>s1 = s\<close> by (simp add: seq_def ret_def J_def)
    next
      case False
      then have h: "heap_table s0 p d s1" using j by (simp add: J_def)
      then have "kernel_directory s1 = page_word d" "directory_is d (heap_slot d) s1"
        using based_fields unfolding heap_table_def opened_def by blast+
      from make_page_present [OF this, of "KHEAP_START + page_word k" 768 n]
      show ?thesis using t k d page_word_nonzero [of "d + 3"] heap_area_limit [of k] h
        by (simp add: heap_slot_def seq_def ret_def J_def)
    qed
  next
    show "\<not> KHEAP_START + page_word 256 < KHEAP_START + KHEAP_INITIAL_SIZE" using heap_area_limit [of 256] by simp
    show "unat KHEAP_START + 4096 * 256 < 4294967296" by (simp add: KHEAP_START_def unat_numeral32)
  qed
  then show ?thesis by (simp add: J_def)
qed

lemma map_first_page:
  assumes low: "low_bitmap p d" and s: "heap_table s0 p d s"
  shows "\<exists>s'. map_page n 0 s = Inr ((), s') \<and> filled s0 p d 1 0 s'"
proof -
  have d: "d < 1024" using low by (simp add: low_bitmap_def)
  have o: "opened s0 p d (page_word (d + 4)) (heap_slot d) s" and z: "table_maps (d + 3) 0 0 s"
    using s by (simp_all add: heap_table_def)
  have t: "table_index 0 = of_nat 0" "page_index 0 = 0" by (simp_all add: table_index_def page_index_def)
  have q: "unat (page_word (d + 4)) div 4096 + 1 = d + 5" using d by (simp add: unat_page_word)
  obtain s2 where s2: "make_page n 0 s = Inr (pages_at (page_word (d + 5)) (page_index 0), s2)"
    "opened s0 p d (page_word (d + 5 + 1)) ((heap_slot d)(0 := page_word (d + 5))) s2" "\<And>c. table_maps (d + 5) c 0 s2"
    "\<And>x. 4096 * (d + 3) \<le> unat x \<Longrightarrow> unat x + 4 \<le> 4096 * (d + 5) \<Longrightarrow> rd x s2 = rd x s"
    by (rule make_table [where n = n, OF low o t(1) _ _ q]) (simp_all add: heap_slot_def)
  have "table_maps (d + 3) 0 0 s2"
    by (rule table_maps_kept [OF z]; use d in \<open>simp add: s2(4)\<close>)
  then have "filled s0 p d 0 0 s2" using s2(2,3) by (simp add: filled_def opened_def both_slots_def ac_simps)
  then show ?thesis using give_low_page [OF low, of s0 0 s2] s2(1) t by (simp add: map_page_def seq_def)
qed

lemma low_memory_loop:
  assumes low: "low_bitmap p d" and s: "heap_table s0 p d s" and d: "d + 7 \<le> 1024"
  shows "\<exists>s'. page_for (\<lambda>s. placement_address s + 0x1000) (map_page n) 0 s = Inr ((), s') \<and> filled s0 p d (d + 7) 0 s'"
proof -
  define J where "J k s' \<longleftrightarrow> (if k = 0 then s' = s else filled s0 p d k 0 s')" for k :: nat and s'
  have lim: "0 + page_word k < page_word e + 0x1000 \<longleftrightarrow> k < e + 1" if "k \<le> 1024" "e \<le> 1024" for k e
  proof -
    have "page_word e + 0x1000 = page_word (e + 1)" by (simp add: page_word_def)
    then show ?thesis using that by (simp add: word_less_nat_alt unat_page_word) linarith
  qed
  have "\<exists>s'. page_for (\<lambda>s. placement_address s + 0x1000) (map_page n) 0 s = Inr ((), s') \<and> J (d + 7) s'"
  proof (rule page_for_steps)
    show "J 0 s" by (simp add: J_def)
    fix k s1 assume k: "k < d + 7" and j: "J k s1"
    show "0 + page_word k < placement_address s1 + 0x1000 \<and> (\<exists>s'. map_page n (0 + page_word k) s1 = Inr ((), s') \<and> J (Suc k) s')"
    proof (cases "k = 0")
      case True
      then have "s1 = s" "placement_address s1 = page_word (d + 4)" using j s by (simp_all add: J_def heap_table_def opened_def)
      then show ?thesis using True lim [of 0 "d + 4"] map_first_page [OF low s, of n] d
        by (simp add: J_def page_word_def)
    next
      case False
      then have f: "filled s0 p d k 0 s1" using j by (simp add: J_def)
      then have "placement_address s1 = page_word (d + 6)" by (simp add: filled_def)
      then show ?thesis using lim [of k "d + 6"] map_low_page [OF low f, of n] k d by (simp add: J_def)
    qed
  next
    show "\<not> 0 + page_word (d + 7) < placement_address s1 + 0x1000" if "J (d + 7) s1" for s1
      using that lim [of "d + 7" "d + 6"] d by (simp add: J_def filled_def)
    show "unat (0 :: u32) + 4096 * (d + 7) < 4294967296" using d by simp
  qed
  then show ?thesis by (simp add: J_def)
qed

lemma heap_area_loop:
  assumes low: "low_bitmap p d" and s: "filled s0 p d a 0 s" and a: "a + 256 \<le> 1024"
  shows "\<exists>s'. page_for (\<lambda>_. KHEAP_START + KHEAP_INITIAL_SIZE) (map_page n) KHEAP_START s = Inr ((), s') \<and> filled s0 p d a 256 s'"
proof (rule page_for_steps)
  show "filled s0 p d a 0 s" by (rule s)
  fix k s1 assume "k < 256" "filled s0 p d a k s1"
  then show "KHEAP_START + page_word k < KHEAP_START + KHEAP_INITIAL_SIZE \<and>
      (\<exists>s'. map_page n (KHEAP_START + page_word k) s1 = Inr ((), s') \<and> filled s0 p d a (Suc k) s')"
    using heap_area_limit [of k] map_heap_page [OF low, of s0 a k s1 n] a by simp
next
  show "\<not> KHEAP_START + page_word 256 < KHEAP_START + KHEAP_INITIAL_SIZE" using heap_area_limit [of 256] by simp
  show "unat KHEAP_START + 4096 * 256 < 4294967296" by (simp add: KHEAP_START_def unat_numeral32)
qed

subsection \<open>The set-up as a whole\<close>

lemma map_memory_start:
  assumes k: "kheap s = 0" and P: "unat (placement_address s) mod 4096 + 512 \<le> 4096"
    "0x1000 \<le> unat (placement_address s)" "unat (placement_address s) < 0x2F9000"
    and d: "d = unat (placement_address s) div 4096 + 1"
  shows "low_bitmap (placement_address s) d \<and> d + 263 \<le> 1024"
    and "\<exists>s1. map_memory n s =
        seq (page_for (\<lambda>_. KHEAP_START + KHEAP_INITIAL_SIZE) (\<lambda>i. seq (make_page n i) (\<lambda>_. ret ())) KHEAP_START) (\<lambda>_.
        seq (page_for (\<lambda>s. placement_address s + 0x1000) (map_page n) 0) (\<lambda>_.
        page_for (\<lambda>_. KHEAP_START + KHEAP_INITIAL_SIZE) (map_page n) KHEAP_START)) s1
      \<and> opened s (placement_address s) d (page_word d + 8196) (\<lambda>_. 0) s1"
proof -
  define p where "p = placement_address s"
  have dm: "4096 * d = unat p - unat p mod 4096 + 4096" unfolding d p_def by (simp add: minus_mod_eq_mult_div)
  have dd: "d + 263 \<le> 1024" using P(3) d by simp
  have ple: "unat p mod 4096 \<le> unat p" by (rule mod_less_eq_dividend)
  have lo: "unat p + 512 \<le> 4096 * d" using dm P(1) ple unfolding p_def by linarith
  have pd: "unat p \<le> 4096 * d" using lo by simp
  show low: "low_bitmap (placement_address s) d \<and> d + 263 \<le> 1024" using lo dd by (simp add: low_bitmap_def p_def)
  let ?kd = "page_word d"
  have up: "unat (p + 128) = unat p + 128" using P(3) by (intro unat_add_numeral32) (simp add: p_def)
  have pdiv: "unat (p + 128) div 4096 + 1 = d"
  proof -
    have "unat p + 128 = 4096 * (unat p div 4096) + (unat p mod 4096 + 128)" by simp
    moreover have "unat p mod 4096 + 128 < 4096" using P(1) by (simp add: p_def)
    ultimately have "(unat p + 128) div 4096 = unat p div 4096" by (metis div_mult_self4 div_less add_0_right zero_neq_numeral)
    then show ?thesis using up by (simp add: d p_def)
  qed
  define m1 where "m1 = memset ?kd 0 8196 (memset p 0 128 (mem s))"
  define m where "m = st32 m1 (physicalAddr_at ?kd) (tablesPhysical_at ?kd 0)"
  define s1 where "s1 = s\<lparr>mem := m, placement_address := ?kd + 8196, frames := p, nframes := 0x1000, kernel_directory := ?kd\<rparr>"
  have dlt: "d < 1024" using dd by simp
  have uk: "unat ?kd = 4096 * d" using dlt by (simp add: unat_page_word)
  note a = slot_address [OF dlt]
  show "\<exists>s1. map_memory n s =
        seq (page_for (\<lambda>_. KHEAP_START + KHEAP_INITIAL_SIZE) (\<lambda>i. seq (make_page n i) (\<lambda>_. ret ())) KHEAP_START) (\<lambda>_.
        seq (page_for (\<lambda>s. placement_address s + 0x1000) (map_page n) 0) (\<lambda>_.
        page_for (\<lambda>_. KHEAP_START + KHEAP_INITIAL_SIZE) (map_page n) KHEAP_START)) s1
      \<and> opened s (placement_address s) d (page_word d + 8196) (\<lambda>_. 0) s1"
  proof (intro exI conjI)
    have k1: "kmalloc n 128 (s\<lparr>nframes := 0x1000\<rparr>) = Inr (p, s\<lparr>nframes := 0x1000, placement_address := p + 128\<rparr>)"
      using k by (simp add: kmalloc_def kmalloc_int_def kmalloc_with_def seq_def ret_def p_def)
    have k2: "kmalloc_a n 8196 (s\<lparr>nframes := 0x1000, placement_address := p + 128, frames := p, mem := memset p 0 128 (mem s)\<rparr>)
      = Inr (?kd, s\<lparr>nframes := 0x1000, placement_address := ?kd + 8196, frames := p, mem := memset p 0 128 (mem s)\<rparr>)"
      unfolding kmalloc_a_def seq_def using k up P(2,3) pdiv
      by (subst kmalloc_next_page) (simp_all add: Let_def ret_def p_def [symmetric])
    have order: "s\<lparr>nframes := 0x1000, placement_address := ?kd + 8196, frames := p, kernel_directory := ?kd, mem := m\<rparr> = s1"
      unfolding s1_def by simp
    show "map_memory n s =
        seq (page_for (\<lambda>_. KHEAP_START + KHEAP_INITIAL_SIZE) (\<lambda>i. seq (make_page n i) (\<lambda>_. ret ())) KHEAP_START) (\<lambda>_.
        seq (page_for (\<lambda>s. placement_address s + 0x1000) (map_page n) 0) (\<lambda>_.
        page_for (\<lambda>_. KHEAP_START + KHEAP_INITIAL_SIZE) (map_page n) KHEAP_START)) s1"
      unfolding map_memory_def order [symmetric] m_def m1_def
      by (simp add: Let_def INDEX_FROM_BIT_def sizeof_page_directory_def k1 seq_def [of "kmalloc n 128"]
          seq_def [of "kmalloc_a n 8196"] k2 wr_def)
    have o: "only_in (unat p) (4096 * (d + 6)) (mem s) m"
    proof -
      have "only_in (unat p) (4096 * (d + 6)) (mem s) (memset p 0 128 (mem s))"
        by (rule only_in_mono [OF memset_only_in]) (use lo dd in \<open>simp_all add: unat_numeral32\<close>)
      moreover have "only_in (unat p) (4096 * (d + 6)) (memset p 0 128 (mem s)) m1"
        unfolding m1_def by (rule only_in_mono [OF memset_only_in]) (use pd uk dd in \<open>simp_all add: unat_numeral32\<close>)
      ultimately have "only_in (unat p) (4096 * (d + 6)) (mem s) m1" by (rule only_in_trans)
      then show ?thesis unfolding m_def
        by (rule only_in_st32_step) (use a(3) [of 0] pd dd in simp_all)
    qed
    have b: "based s p d s1" unfolding based_def s1_def using k o by blast
    have z: "ld32 m1 x = 0" if "4096 * d \<le> unat x" "unat x + 4 \<le> 4096 * d + 8196" for x
      unfolding m1_def by (rule ld32_memset_zero) (use that uk dd in \<open>simp_all add: unat_numeral32\<close>)
    have zm: "ld32 m x = 0" if "4096 * d \<le> unat x" "unat x + 4 \<le> 4096 * d + 8192" for x
      unfolding m_def using a(3) [of 0] that dd by (subst ld32_st32_far) (simp_all add: z)
    have "tablesPhysical_at ?kd 0 = page_word (d + 1)" by (simp add: tablesPhysical_at_def page_word_def)
    then have D: "directory_is d (\<lambda>_. 0) s1"
      using a by (simp add: directory_is_def rd_def s1_def zm) (simp add: m_def)
    have "\<not> frame_bit s1 c" if "c < 1024" for c
    proof -
      have w: "unat (p + 4 * of_nat (c div 32)) = unat p + 4 * (c div 32)" "c div 32 < 32"
        using unat_of_nat32 [of "4 * (c div 32)"] that P(3) by (simp_all add: unat_add32 p_def)
      have "ld32 m (p + 4 * of_nat (c div 32)) = ld32 (memset p 0 128 (mem s)) (p + 4 * of_nat (c div 32))"
      proof (rule ld32_same_on [of 0 "4096 * d"])
        have "same_on 0 (4096 * d) (memset p 0 128 (mem s)) m1"
          unfolding m1_def by (rule only_in_same_on [OF memset_only_in]) (use uk dd in \<open>simp_all add: unat_numeral32\<close>)
        moreover have "same_on 0 (4096 * d) m1 m"
          unfolding m_def by (rule only_in_same_on [OF only_in_st32 [of "4096 * d" _ 4294967296]]) (use a(3) [of 0] dd in auto)
        ultimately show "same_on 0 (4096 * d) (memset p 0 128 (mem s)) m" by (rule same_on_trans)
      qed (use w lo dd in simp_all)
      also have "\<dots> = 0" by (rule ld32_memset_zero) (use w P(3) in \<open>simp_all add: unat_numeral32 p_def\<close>)
      finally show ?thesis by (simp add: frame_bit_def rd_def s1_def)
    qed
    then have "used_frames s1 \<inter> {..<1024} = {}" by (auto simp: used_frames_def)
    then show "opened s (placement_address s) d (page_word d + 8196) (\<lambda>_. 0) s1"
      unfolding opened_def p_def [symmetric] using b D by (simp add: s1_def)
  qed
qed

lemma map_memory_fills:
  assumes "kheap s = 0" and "unat (placement_address s) mod 4096 + 512 \<le> 4096"
    and "0x1000 \<le> unat (placement_address s)" and "unat (placement_address s) < 0x2F9000"
    and d: "d = unat (placement_address s) div 4096 + 1"
  shows "\<exists>s'. map_memory n s = Inr ((), s') \<and> filled s (placement_address s) d (d + 7) 256 s'"
proof -
  note start = map_memory_start [OF assms]
  have low: "low_bitmap (placement_address s) d" "d + 263 \<le> 1024" using start(1) by blast+
  obtain s1 where s1: "map_memory n s =
        seq (page_for (\<lambda>_. KHEAP_START + KHEAP_INITIAL_SIZE) (\<lambda>i. seq (make_page n i) (\<lambda>_. ret ())) KHEAP_START) (\<lambda>_.
        seq (page_for (\<lambda>s. placement_address s + 0x1000) (map_page n) 0) (\<lambda>_.
        page_for (\<lambda>_. KHEAP_START + KHEAP_INITIAL_SIZE) (map_page n) KHEAP_START)) s1"
    "opened s (placement_address s) d (page_word d + 8196) (\<lambda>_. 0) s1"
    using start(2) [of n] by blast
  obtain s2 where s2: "page_for (\<lambda>_. KHEAP_START + KHEAP_INITIAL_SIZE) (\<lambda>i. seq (make_page n i) (\<lambda>_. ret ())) KHEAP_START s1 = Inr ((), s2)"
    "heap_table s (placement_address s) d s2"
    using heap_table_loop [OF low(1) s1(2), of n] by blast
  obtain s3 where s3: "page_for (\<lambda>s. placement_address s + 0x1000) (map_page n) 0 s2 = Inr ((), s3)"
    "filled s (placement_address s) d (d + 7) 0 s3"
    using low_memory_loop [OF low(1) s2(2), of n] low(2) by auto
  obtain s4 where s4: "page_for (\<lambda>_. KHEAP_START + KHEAP_INITIAL_SIZE) (map_page n) KHEAP_START s3 = Inr ((), s4)"
    "filled s (placement_address s) d (d + 7) 256 s4"
    using heap_area_loop [OF low(1) s3(2), of n] low(2) by auto
  show ?thesis unfolding s1(1) using s2(1) s3(1) s4 by (simp add: seq_def)
qed

lemma directory_slot:
  assumes "directory_is d T s" and "i < 1024"
  shows "rd (tables_at (page_word d) (of_nat i)) s = T i"
    and "rd (tablesPhysical_at (page_word d) (of_nat i)) s = (if T i = 0 then 0 else T i OR 7)"
  using assms by (simp_all add: directory_is_def)

lemma table_entry:
  "table_maps k c n s \<Longrightarrow> j < 1024 \<Longrightarrow> rd (pages_at (page_word k) (of_nat j)) s = (if j < n then new_entry (of_nat (c + j)) 0 0 0 else 0)"
  by (simp add: table_maps_def)

text \<open>The tables after \<open>map_memory\<close>, seen from any state that has the same low memory.\<close>

definition tables_up :: "nat \<Rightarrow> machine \<Rightarrow> bool" where
  "tables_up d s \<longleftrightarrow> kernel_directory s = page_word d \<and> directory_is d (both_slots d) s
     \<and> table_maps (d + 5) 0 (d + 7) s \<and> table_maps (d + 3) (d + 7) 256 s"

lemma tables_up_kept:
  assumes "tables_up d s" and "d + 263 \<le> 1024" and "kernel_directory s' = kernel_directory s"
    and "same_on (4096 * d) (4096 * (d + 6)) (mem s) (mem s')"
  shows "tables_up d s'"
proof -
  have r: "rd x s' = rd x s" if "4096 * d \<le> unat x" "unat x + 4 \<le> 4096 * (d + 6)" for x
    unfolding rd_def by (rule ld32_same_on [OF assms(4)]) (use that assms(2) in simp_all)
  have "directory_is d (both_slots d) s'" "table_maps (d + 5) 0 (d + 7) s'" "table_maps (d + 3) (d + 7) 256 s'"
    using assms(1,2) unfolding tables_up_def
    by (auto intro!: directory_is_kept [of _ _ s s'] table_maps_kept [of _ _ _ s s'] r)
  then show ?thesis using assms(1,3) by (simp add: tables_up_def)
qed

lemma filled_tables_up:
  assumes "filled s0 p d (d + 7) 256 s"
  shows "tables_up d s"
  using assms based_fields unfolding filled_def tables_up_def by blast

subsection \<open>What the processor makes of the tables\<close>

text \<open>
  The translation of a linear address with 4 KB pages, as the processor's manual describes it:
  bits 22 to 31 select the directory entry, bits 12 to 21 the table entry, both must be present
  (bit 0), and the upper 20 bits of an entry are those of the address it stands for.
\<close>

definition translate :: "machine \<Rightarrow> u32 \<Rightarrow> u32 option" where
  "translate s a =
     (let pde = rd (cr3 s + 4 * (a div 0x400000)) s;
          pte = rd ((pde AND 0xFFFFF000) + 4 * (a div 0x1000 mod 0x400)) s
      in if bit pde 0 \<and> bit pte 0 then Some ((pte AND 0xFFFFF000) + a mod 0x1000) else None)"

lemma page_word_push: "page_word k = push_bit 12 (of_nat k)"
  by (simp add: page_word_def push_bit_eq_mult mult.commute)

lemma page_base_table: "(page_word k OR 7) AND 0xFFFFF000 = page_word k" "bit (page_word k OR 7) 0"
proof -
  have m: "(0xFFFFF000 :: u32) = NOT (mask 12)" "(7 :: u32) = mask 3"
    by (simp_all add: mask_eq_exp_minus_1 not_eq_complement)
  show "(page_word k OR 7) AND 0xFFFFF000 = page_word k" unfolding m page_word_push
    by (rule bit_word_eqI) (auto simp: bit_simps)
  show "bit (page_word k OR 7) 0" unfolding m by (simp add: bit_simps)
qed

lemma page_base_entry:
  assumes "c < 1048576"
  shows "new_entry (of_nat c) 0 0 0 AND 0xFFFFF000 = page_word c" and "bit (new_entry (of_nat c) 0 0 0) 0"
proof -
  have m: "(0xFFFFF000 :: u32) = NOT (mask 12)" by (simp add: mask_eq_exp_minus_1 not_eq_complement)
  have "push_bit 12 (page_frame x) = x AND 0xFFFFF000" for x
    unfolding m page_frame_def by (rule bit_word_eqI) (auto simp: bit_simps)
  moreover have "page_frame (new_entry (of_nat c) 0 0 0) = of_nat c"
    using assms by (intro page_frame_new_entry) (simp add: unat_of_nat32)
  ultimately show "new_entry (of_nat c) 0 0 0 AND 0xFFFFF000 = page_word c" unfolding page_word_push by metis
  show "bit (new_entry (of_nat c) 0 0 0) 0" using new_entry_bits(1) [of "of_nat c" 0 0 0] by (simp add: PRESENT_def)
qed

lemma page_split: "a = page_word (unat a div 4096) + a mod 0x1000"
proof -
  have "a div 0x1000 * 0x1000 + a mod 0x1000 = a" by (rule div_mult_mod_eq)
  moreover have "unat (a div 0x1000) = unat a div 4096" by (simp add: unat_div)
  then have "of_nat (unat a div 4096) = a div 0x1000" using word_arith_nat_div [of a "0x1000"] by simp
  ultimately show ?thesis unfolding page_word_def by (simp add: mult.commute)
qed

lemma translate_up:
  assumes up: "tables_up d s" and low: "d + 263 \<le> 1024" and cr3: "cr3 s = page_word (d + 1)"
  shows "translate s a =
    (if a < page_word (d + 7) then Some a
     else if KHEAP_START \<le> a \<and> a < KHEAP_START + KHEAP_INITIAL_SIZE then Some (page_word (d + 7) + (a - KHEAP_START))
     else None)"
proof -
  have d: "d < 1024" "page_word (d + 5) \<noteq> 0" "page_word (d + 3) \<noteq> 0"
    using low by (simp_all add: page_word_nonzero)
  have D: "directory_is d (both_slots d) s" and L: "table_maps (d + 5) 0 (d + 7) s" and H: "table_maps (d + 3) (d + 7) 256 s"
    using up by (simp_all add: tables_up_def)
  define k where "k = unat a div 4096"
  have kb: "k < 1048576" using unat_bound32 [of a] by (simp add: k_def)
  have ak: "a = page_word k + a mod 0x1000" unfolding k_def by (rule page_split)
  have ai: "a div 0x400000 = of_nat (k div 1024)" and aj: "a div 0x1000 mod 0x400 = of_nat (k mod 1024)"
  proof -
    have "k div 1024 < 4294967296" "k mod 1024 < 4294967296" using kb by simp_all
    then show "a div 0x400000 = of_nat (k div 1024)" "a div 0x1000 mod 0x400 = of_nat (k mod 1024)"
      by (auto intro!: unat_eqI32 simp: unat_div unat_mod unat_of_nat32 k_def div_mult2_eq [symmetric])
  qed
  have pde: "rd (cr3 s + 4 * (a div 0x400000)) s = (if both_slots d (k div 1024) = 0 then 0 else both_slots d (k div 1024) OR 7)"
  proof -
    have "cr3 s + 4 * (a div 0x400000) = tablesPhysical_at (page_word d) (of_nat (k div 1024))"
      by (simp add: cr3 ai tablesPhysical_at_def page_word_def)
    moreover have "k div 1024 < 1024" using kb by simp
    ultimately show ?thesis using D by (simp add: directory_is_def)
  qed
  have entry: "rd (page_word t + 4 * (a div 0x1000 mod 0x400)) s = (if k mod 1024 < m then new_entry (of_nat (c + k mod 1024)) 0 0 0 else 0)"
    if "table_maps t c m s" for t c m
    using that unfolding table_maps_def pages_at_def aj by simp
  have mapped: "translate s a = (if k mod 1024 < m then Some (page_word (c + k mod 1024) + a mod 0x1000) else None)"
    if "both_slots d (k div 1024) = page_word t" "page_word t \<noteq> 0" "table_maps t c m s" "c + 1024 \<le> 1048576" for t c m
    unfolding translate_def Let_def pde using that entry [OF that(3)] page_base_table [of t] page_base_entry [of "c + k mod 1024"]
    by simp
  have k1: "a < page_word (d + 7) \<longleftrightarrow> k < d + 7"
    using low by (simp add: word_less_nat_alt unat_page_word k_def div_less_iff_less_mult mult.commute)
  have k2: "KHEAP_START \<le> a \<longleftrightarrow> 786432 \<le> k"
    by (simp add: word_le_nat_alt KHEAP_START_def unat_numeral32 k_def less_eq_div_iff_mult_less_eq)
  have k3: "a < KHEAP_START + KHEAP_INITIAL_SIZE \<longleftrightarrow> k < 786688"
    by (simp add: word_less_nat_alt KHEAP_START_def KHEAP_INITIAL_SIZE_def unat_numeral32 k_def div_less_iff_less_mult)
  show ?thesis
  proof (cases "k div 1024 = 0")
    case True
    then have k0: "k mod 1024 = k" "\<not> 786432 \<le> k" by simp_all
    have "translate s a = (if k mod 1024 < d + 7 then Some (page_word (0 + k mod 1024) + a mod 0x1000) else None)"
      by (rule mapped [OF _ d(2) L]) (simp_all add: True both_slots_def)
    then show ?thesis unfolding k1 k2 k3 k0(1) using k0(2) ak by simp
  next
    case high: False
    then have kd: "\<not> k < d + 7" using low by auto
    show ?thesis
    proof (cases "k div 1024 = 768")
      case True
      define j where "j = k mod 1024"
      have kj: "k = 786432 + j" using True div_mult_mod_eq [of k 1024] unfolding j_def by linarith
      have "translate s a = (if k mod 1024 < 256 then Some (page_word (d + 7 + k mod 1024) + a mod 0x1000) else None)"
        by (rule mapped [OF _ d(3) H]) (use d in \<open>simp_all add: True both_slots_def heap_slot_def\<close>)
      moreover have "page_word (d + 7 + j) + a mod 0x1000 = page_word (d + 7) + (a - KHEAP_START)"
      proof -
        have "a - KHEAP_START = page_word j + a mod 0x1000"
          by (subst ak) (simp add: kj KHEAP_START_def page_word_def algebra_simps)
        then show ?thesis by (simp add: page_word_def algebra_simps)
      qed
      ultimately show ?thesis unfolding k1 k2 k3 j_def [symmetric] using kj kd by simp
    next
      case False
      then have "both_slots d (k div 1024) = 0" using high by (simp add: both_slots_def heap_slot_def)
      then have "translate s a = None" unfolding translate_def Let_def pde by simp
      moreover have "\<not> (786432 \<le> k \<and> k < 786688)"
      proof
        assume "786432 \<le> k \<and> k < 786688"
        then have "1024 * 768 \<le> k" "k < 1024 * 769" by simp_all
        then have "768 \<le> k div 1024" "k div 1024 < 769"
          by (simp_all add: less_eq_div_iff_mult_less_eq div_less_iff_less_mult)
        then show False using False by simp
      qed
      ultimately show ?thesis unfolding k1 k2 k3 using kd by simp
    qed
  qed
qed

lemma switch_page_directory_runs:
  assumes "console_ok s"
  obtains s' where "switch_page_directory dir s = Inr ((), s')" and "console_ok s'" and "only_in 0xB8000 0xBA000 (mem s) (mem s')"
    and "screen_step (s\<lparr>current_directory := dir, cr3 := rd (physicalAddr_at dir) s, cr0 := cr0 s OR 0x80000000\<rparr>) s'"
proof -
  let ?t = "s\<lparr>current_directory := dir, cr3 := rd (physicalAddr_at dir) s, cr0 := cr0 s OR 0x80000000\<rparr>"
  have "console_ok ?t" using assms by (simp add: console_ok_def)
  then obtain s' where s': "tfp_printf (cstr ''page directory switched '' @ [10]) [] ?t = Inr ((), s')" "screen_step ?t s'"
    "console_ok s'" "only_in 0xB8000 0xBA000 (mem ?t) (mem s')"
    by (rule console_text [of _ "cstr ''page directory switched ''"]) (simp_all add: cstr_def)
  moreover have "switch_page_directory dir s = tfp_printf (cstr ''page directory switched '' @ [10]) [] ?t"
    by (simp add: switch_page_directory_def Let_def rd_def)
  ultimately show ?thesis using that by simp
qed

lemma paging_on:
  assumes "kheap s = 0" and "console_ok s" and "unat (placement_address s) mod 4096 + 512 \<le> 4096"
    and "0xBA000 \<le> unat (placement_address s)" and "unat (placement_address s) < 0x2F9000"
    and d: "d = unat (placement_address s) div 4096 + 1"
  obtains s1 s' where "map_memory n s = Inr ((), s1)" and "filled s (placement_address s) d (d + 7) 256 s1"
    and "low_bitmap (placement_address s) d" and "d + 263 \<le> 1024" and "0xBA000 \<le> 4096 * d"
    and "switch_page_directory (kernel_directory s1) s1 = Inr ((), s')" and "console_ok s'"
    and "only_in 0xB8000 0xBA000 (mem s1) (mem s')"
    and "screen_step (s1\<lparr>current_directory := page_word d, cr3 := page_word (d + 1), cr0 := cr0 s1 OR 0x80000000\<rparr>) s'"
proof -
  let ?p = "placement_address s"
  have low: "low_bitmap ?p d" "d + 263 \<le> 1024"
    using map_memory_start(1) [OF assms(1,3) _ assms(5) d] assms(4) by auto
  obtain s1 where s1: "map_memory n s = Inr ((), s1)" "filled s ?p d (d + 7) 256 s1"
    using map_memory_fills [OF assms(1,3) _ assms(5) d] assms(4) by fastforce
  have b: "based s ?p d s1" "kernel_directory s1 = page_word d" "rd (physicalAddr_at (page_word d)) s1 = page_word (d + 1)"
    using s1(2) based_fields unfolding filled_def directory_is_def by blast+
  have "console_ok s1" using b(1) assms(2) unfolding based_def by (auto simp: console_ok_def)
  then obtain s' where "switch_page_directory (page_word d) s1 = Inr ((), s')" "console_ok s'" "only_in 0xB8000 0xBA000 (mem s1) (mem s')"
    "screen_step (s1\<lparr>current_directory := page_word d, cr3 := rd (physicalAddr_at (page_word d)) s1, cr0 := cr0 s1 OR 0x80000000\<rparr>) s'"
    by (rule switch_page_directory_runs)
  then show ?thesis using that s1 low assms(4) b(2,3) by (simp add: low_bitmap_def)
qed

text \<open>
  C1: From any state before the heap exists, with a kernel that ends in the first 3 MB, the first part of
  \<open>initialize_paging\<close> runs to its end. From then on the processor translates every address
  below the first page behind the allocator's memory to itself, the pages of the initial heap
  area to the frames that follow, in order, and no other address; outside the screen and the
  pages given out no byte of memory has changed.
\<close>

theorem paging_identity_mapped:
  assumes "kheap s = 0" and "console_ok s" and "unat (placement_address s) mod 4096 + 512 \<le> 4096"
    and "0xBA000 \<le> unat (placement_address s)" and "unat (placement_address s) < 0x2F9000"
  shows "\<exists>s' top. seq (map_memory n) (\<lambda>_ s. switch_page_directory (kernel_directory s) s) s = Inr ((), s')
    \<and> top = placement_address s' + 0x1000 \<and> unat top = 4096 * (unat (placement_address s) div 4096 + 8)
    \<and> bit (cr0 s') 31
    \<and> (\<forall>a. translate s' a =
          (if a < top then Some a
           else if KHEAP_START \<le> a \<and> a < KHEAP_START + KHEAP_INITIAL_SIZE then Some (top + (a - KHEAP_START))
           else None))
    \<and> (\<forall>x. x < 0xB8000 \<or> 0xBA000 \<le> x \<and> x < placement_address s \<or> top \<le> x \<longrightarrow> mem s' x = mem s x)"
proof -
  define d where "d = unat (placement_address s) div 4096 + 1"
  let ?p = "placement_address s"
  obtain s1 s' where s1: "map_memory n s = Inr ((), s1)" "filled s ?p d (d + 7) 256 s1"
    and low: "low_bitmap ?p d" "d + 263 \<le> 1024" and d4: "0xBA000 \<le> 4096 * d"
    and s': "switch_page_directory (kernel_directory s1) s1 = Inr ((), s')" "only_in 0xB8000 0xBA000 (mem s1) (mem s')"
    and st: "screen_step (s1\<lparr>current_directory := page_word d, cr3 := page_word (d + 1), cr0 := cr0 s1 OR 0x80000000\<rparr>) s'"
    by (rule paging_on [OF assms d_def])
  have b: "based s ?p d s1" "placement_address s1 = page_word (d + 6)" using s1(2) by (simp_all add: filled_def)
  have pl: "placement_address s' = page_word (d + 6)" using screen_step_simps(12) [OF st] b(2) by simp
  have top: "placement_address s' + 0x1000 = page_word (d + 7)" unfolding pl by (simp add: page_word_def)
  have ut: "unat (page_word (d + 7)) = 4096 * (d + 7)" using low(2) by (simp add: unat_page_word)
  have cr: "cr3 s' = page_word (d + 1)" "bit (cr0 s') 31" using st by (auto simp: screen_step_def bit_simps)
  have tr: "translate s' a =
    (if a < page_word (d + 7) then Some a
     else if KHEAP_START \<le> a \<and> a < KHEAP_START + KHEAP_INITIAL_SIZE then Some (page_word (d + 7) + (a - KHEAP_START))
     else None)" for a
  proof (rule translate_up [OF _ low(2) cr(1)])
    show "tables_up d s'"
      by (rule tables_up_kept [OF filled_tables_up [OF s1(2)] low(2)], use screen_step_simps(13) [OF st] in simp)
        (use only_in_same_on [OF s'(2)] d4 in simp)
  qed
  have "mem s' x = mem s x" if x: "x < 0xB8000 \<or> 0xBA000 \<le> x \<and> x < ?p \<or> page_word (d + 7) \<le> x" for x
  proof -
    have "only_in (unat ?p) (4096 * (d + 6)) (mem s) (mem s1)" using b(1) unfolding based_def by auto
    moreover have "unat x < 0xB8000 \<or> 0xBA000 \<le> unat x \<and> unat x < unat ?p \<or> 4096 * (d + 7) \<le> unat x"
      using x ut by (simp add: word_less_nat_alt word_le_nat_alt unat_numeral32)
    ultimately show ?thesis using s'(2) assms(4) d4 unfolding only_in_def by auto
  qed
  then show ?thesis
    using s1(1) s'(1) tr cr(2) ut unfolding top
    by (intro exI [of _ s'] exI [of _ "page_word (d + 7)"] conjI) (simp_all add: seq_def top d_def)
qed

theorem paging_identity_mapped_witness:
  "\<exists>s'. seq (map_memory 0) (\<lambda>_ s. switch_page_directory (kernel_directory s) s)
      ((init_printf Screen_Putc (power_on (\<lambda>_. 0) (\<lambda>_ _. 0)))\<lparr>placement_address := 0x110200\<rparr>) = Inr ((), s')
    \<and> translate s' 0x117FFF = Some 0x117FFF \<and> translate s' 0x118000 = None \<and> translate s' 0xC0000123 = Some 0x118123"
proof -
  let ?s = "(init_printf Screen_Putc (power_on (\<lambda>_. 0) (\<lambda>_ _. 0)))\<lparr>placement_address := 0x110200\<rparr>"
  have s: "kheap ?s = 0" "console_ok ?s" "placement_address ?s = 0x110200"
    by (simp_all add: init_printf_def power_on_def console_ok_def)
  have p: "unat (placement_address ?s) = 0x110200" by (simp add: unat_numeral32)
  obtain s' top where r: "seq (map_memory 0) (\<lambda>_ s. switch_page_directory (kernel_directory s) s) ?s = Inr ((), s')"
    "unat top = 4096 * (unat (placement_address ?s) div 4096 + 8)"
    "\<forall>a. translate s' a = (if a < top then Some a
        else if KHEAP_START \<le> a \<and> a < KHEAP_START + KHEAP_INITIAL_SIZE then Some (top + (a - KHEAP_START)) else None)"
    using paging_identity_mapped [OF s(1,2), of 0] unfolding p by auto
  have "top = 0x118000" using r(2) unfolding p by (intro unat_eqI32) (simp add: unat_numeral32)
  then show ?thesis using r(1,3) by (intro exI [of _ s']) (simp add: KHEAP_START_def KHEAP_INITIAL_SIZE_def)
qed

end
