(* ===== verification/Boot_Heap.thy ===== *)
theory Boot_Heap
  imports Paging_Init
begin

text \<open>
  The rest of \<open>initialize_paging\<close>: the heap is created over the mapped area, a second directory is
  cloned into it and the processor is switched to that one.
\<close>

unbundle bit_operations_syntax


subsection \<open>The kernel's heap and its second directory\<close>

text \<open>A heap is as before when its descriptor and the bytes of index and blocks are.\<close>

lemma heap_ok_same:
  assumes ok: "heap_ok h s bs" and "heap_at s' h = heap_at s h"
    and "same_on (oa_lo (index (heap_at s h))) (heap_end h s) (mem s) (mem s')"
  shows "heap_ok h s' bs" and "index_sorted h s \<Longrightarrow> index_sorted h s'"
proof -
  note D = heap_okD [OF ok]
  have e: "elems (mem s') (index (heap_at s h)) = elems (mem s) (index (heap_at s h))"
    by (rule elems_same_on [OF D(1) same_on_mono [OF assms(3)]]) (use D(3,4) in simp_all)
  moreover have "chain (mem s') (heap_start h s) bs"
    by (rule chain_same_on [OF assms(3) _ _ _ D(5)]) (use D(3,4) unat_bound32 [of "end_address (heap_at s h)"] in simp_all)
  ultimately show "heap_ok h s' bs" using ok assms(2) by (simp add: heap_ok_def)
  assume srt: "index_sorted h s"
  show "index_sorted h s'"
  proof (rule index_sorted_kept [OF srt])
    show "elems (mem s') (index (heap_at s' h)) = elems (mem s) (index (heap_at s h))" using e assms(2) by simp
    fix y assume "y \<in> set (elems (mem s) (index (heap_at s h)))"
    then have "unat y \<in> set_mset (mset (map unat (elems (mem s) (index (heap_at s h)))))" by simp
    then have y: "unat y \<in> set (hole_addrs (heap_start h s) bs)" unfolding D(6) by simp
    show "ld32 (mem s') (y + 8) = ld32 (mem s) (y + 8)"
      using hole_size_same_on [OF assms(3) _ _ _ D(5) y] D(3,4) unat_bound32 [of "end_address (heap_at s h)"] by simp
  qed
qed

text \<open>
  What the heap never touches: the memory behind the screen and in front of the index, and the
  page between the index and the first block. The globals of the scheduler and the registers it
  saves are in \<open>task_regs\<close>.
\<close>

definition kept_low :: "memory \<Rightarrow> memory \<Rightarrow> bool" where
  "kept_low m m' \<longleftrightarrow> same_on 0xBA000 0xC0000000 m m' \<and> same_on 0xC0080000 0xC0081000 m m'"

lemma kept_low_refl [simp]: "kept_low m m"
  by (simp add: kept_low_def same_on_def)

lemma kept_low_trans: "kept_low m m' \<Longrightarrow> kept_low m' m'' \<Longrightarrow> kept_low m m''"
  by (simp add: kept_low_def same_on_def)

lemma kept_low_screen: "only_in 0xB8000 0xBA000 m m' \<Longrightarrow> kept_low m m'"
  by (simp add: kept_low_def only_in_same_on)

lemma kept_low_blocks: "only_in lo hi m m' \<Longrightarrow> 0xC0081000 \<le> lo \<Longrightarrow> kept_low m m'"
  by (simp add: kept_low_def only_in_same_on)

definition task_regs :: "machine \<Rightarrow> u32 \<times> u32 \<times> u32 \<times> u32 \<times> u32 \<times> u32 \<times> u32" where
  "task_regs s = (esp s, ebp s, eip s, initial_esp s, current_task s, ready_queue s, next_pid s)"

lemma task_regs_screen: "screen_step s t \<Longrightarrow> task_regs t = task_regs s \<and> frames t = frames s \<and> nframes t = nframes s"
  by (auto simp: screen_step_def task_regs_def)

lemma used_frames_same:
  assumes "frames t = frames s" and "nframes t = nframes s" and "nframes s = 0x1000" and "unat (frames s) + 512 \<le> 4294967296"
    and "same_on (unat (frames s)) (unat (frames s) + 512) (mem s) (mem t)"
  shows "used_frames t = used_frames s"
proof -
  have B: "bitmap_ok s" and c: "frame_count s = 4096" "frame_count t = 4096"
    using assms(1-4) by (simp_all add: bitmap_ok_def frame_count_def INDEX_FROM_BIT_def)
  have "frame_bit t n = frame_bit s n" if "n < 4096" for n
  proof -
    have u: "unat (frames s + 4 * of_nat (n div 32)) = unat (frames s) + 4 * (n div 32)"
      using unat_frame_word(1) [OF B, of n] that c by simp
    have "n div 32 < 128" using that by (simp add: div_less_iff_less_mult)
    then have "rd (frames s + 4 * of_nat (n div 32)) t = rd (frames s + 4 * of_nat (n div 32)) s"
      unfolding rd_def by (intro ld32_same_on [OF assms(5)]) (use u assms(4) in simp_all)
    then show ?thesis by (simp add: frame_bit_def assms(1))
  qed
  then show ?thesis by (auto simp: used_frames_def c)
qed

text \<open>The heap \<open>initialize_paging\<close> creates, with the blocks \<open>bs\<close>.\<close>

definition kernel_heap :: "u32 \<Rightarrow> block list \<Rightarrow> machine \<Rightarrow> bool" where
  "kernel_heap h bs s \<longleftrightarrow> kheap s = h \<and> heap_ok h s bs \<and> index_sorted h s \<and> heap_start h s = 0xC0081000 \<and> heap_end h s = 0xC0100000
     \<and> max_address (heap_at s h) = 0xCFFFF000
     \<and> array (index (heap_at s h)) = KHEAP_START \<and> max_size (index (heap_at s h)) = HEAP_INDEX_SIZE"

lemma kernel_heap_index:
  assumes "kernel_heap h bs s"
  shows "oa_lo (index (heap_at s h)) = 0xC0000000" and "oa_hi (index (heap_at s h)) = 0xC0080000"
  using assms by (simp_all add: kernel_heap_def KHEAP_START_def HEAP_INDEX_SIZE_def unat_numeral32)

lemma kernel_heap_kept:
  assumes "kernel_heap h bs s" and "kheap s' = kheap s" and "heap_at s' = heap_at s"
    and "same_on 0xC0000000 0xC0100000 (mem s) (mem s')"
  shows "kernel_heap h bs s'"
  using assms heap_ok_same(1,2) [of h s bs s'] kernel_heap_index(1) [OF assms(1)] by (auto simp: kernel_heap_def)

lemma kernel_heap_created:
  assumes k: "kheap s = 0" and con: "console_ok s" and P: "placement_address s \<noteq> 0"
    and up: "tables_up d s" "d + 263 \<le> 1024" "0xBA000 \<le> 4096 * d"
  obtains s' where "create_heap n KHEAP_START (KHEAP_START + KHEAP_INITIAL_SIZE) 0xCFFFF000 0 0 s = Inr (placement_address s, s')"
    and "kernel_heap (placement_address s) [(True, 0x7F000)] (s'\<lparr>kheap := placement_address s\<rparr>)"
    and "console_ok s'" and "tables_up d s'"
    and "cr3 s' = cr3 s" and "kernel_directory s' = kernel_directory s" and "kept_low (mem s) (mem s')"
    and "task_regs s' = task_regs s" and "frames s' = frames s" and "nframes s' = nframes s"
proof -
  let ?h = "placement_address s" and ?s1 = "s\<lparr>placement_address := placement_address s + sizeof_heap\<rparr>"
  have km: "kmalloc n sizeof_heap s = Inr (?h, ?s1)"
    using k by (simp add: kmalloc_def kmalloc_int_def kmalloc_with_def seq_def ret_def)
  have e: "KHEAP_START + KHEAP_INITIAL_SIZE = 0xC0100000" "KHEAP_START = 0xC0000000"
    by (simp_all add: KHEAP_START_def KHEAP_INITIAL_SIZE_def)
  have con1: "console_ok ?s1" using con by (simp add: console_ok_def)
  have u1: "unat KHEAP_START = 0xC0000000" by (simp add: KHEAP_START_def unat_numeral32)
  have u2: "unat (KHEAP_START + KHEAP_INITIAL_SIZE) = 0xC0100000" by (subst e(1)) (simp add: unat_numeral32)
  note u = u1 u2
  have pre: "KHEAP_START mod 0x1000 = 0" "(KHEAP_START + KHEAP_INITIAL_SIZE) mod 0x1000 = 0" "0xBA000 \<le> unat KHEAP_START"
    "unat KHEAP_START + 0x81000 + 20 \<le> unat (KHEAP_START + KHEAP_INITIAL_SIZE)"
    unfolding u1 u2 by (simp_all add: KHEAP_START_def KHEAP_INITIAL_SIZE_def)
  obtain s' where s': "create_heap n KHEAP_START (KHEAP_START + KHEAP_INITIAL_SIZE) 0xCFFFF000 0 0 s = Inr (?h, s')"
    "heap_ok ?h s' [(True, unat (KHEAP_START + KHEAP_INITIAL_SIZE) - (unat KHEAP_START + 0x81000))]" "index_sorted ?h s'"
    "heap_start ?h s' = unat KHEAP_START + 0x81000" "heap_end ?h s' = unat (KHEAP_START + KHEAP_INITIAL_SIZE)"
    "max_size (index (heap_at s' ?h)) = HEAP_INDEX_SIZE" "array (index (heap_at s' ?h)) = KHEAP_START" "console_ok s'"
    and mx: "max_address (heap_at s' ?h) = 0xCFFFF000"
    and eq: "\<exists>m os q hs. s' = ?s1\<lparr>mem := m, outs := os, cursorPosition := q, heap_at := hs\<rparr>"
    and same: "\<forall>lo hi. 0xBA000 \<le> lo \<and> (hi \<le> unat KHEAP_START \<or> unat KHEAP_START + 0x80000 \<le> lo \<and> hi \<le> unat KHEAP_START + 0x81000) \<longrightarrow>
      same_on lo hi (mem ?s1) (mem s')"
    using create_heap_runs [OF km con1 pre, of "0xCFFFF000" 0 0] by blast
  have f: "cr3 s' = cr3 s" "kernel_directory s' = kernel_directory s" using eq by (elim exE; simp)+
  have g: "task_regs s' = task_regs s" "frames s' = frames s" "nframes s' = nframes s" using eq by (elim exE; simp add: task_regs_def)+
  have kl: "kept_low (mem s) (mem s')"
    using same [rule_format, of "0xBA000" "0xC0000000"] same [rule_format, of "0xC0080000" "0xC0081000"] u by (simp add: kept_low_def)
  have t: "tables_up d s'"
    by (rule tables_up_kept [OF up(1,2) f(2)]) (use same [rule_format, of "4096 * d" "4096 * (d + 6)"] up(2,3) u in simp)
  have "heap_ok ?h (s'\<lparr>kheap := ?h\<rparr>) [(True, 0x7F000)]" "index_sorted ?h (s'\<lparr>kheap := ?h\<rparr>)"
    using heap_ok_same [OF s'(2), of "s'\<lparr>kheap := ?h\<rparr>"] s'(3) unfolding u by simp_all
  then have "kernel_heap ?h [(True, 0x7F000)] (s'\<lparr>kheap := ?h\<rparr>)" using s'(4-7) mx by (simp add: kernel_heap_def u)
  then show ?thesis by (rule that [OF s'(1) _ s'(8) t f kl g])
qed

subsection \<open>Requests in the kernel's heap\<close>

text \<open>A step of the heap: only memory and the heap's descriptor change, blocks at \<open>lo\<close> to \<open>hi\<close> and the index apart.\<close>

definition heap_step :: "nat \<Rightarrow> nat \<Rightarrow> machine \<Rightarrow> machine \<Rightarrow> bool" where
  "heap_step lo hi s t \<longleftrightarrow> (\<exists>m a. t = s\<lparr>mem := m, heap_at := a\<rparr>)
     \<and> (\<forall>x. (unat x < 0xC0000000 \<or> 0xC0080000 \<le> unat x) \<and> (unat x < lo \<or> hi \<le> unat x) \<longrightarrow> mem t x = mem s x)"

lemma heap_step_fields:
  assumes "heap_step lo hi s t"
  shows "task_regs t = task_regs s" "frames t = frames s" "nframes t = nframes s" "kernel_directory t = kernel_directory s"
    "current_directory t = current_directory s" "cr3 t = cr3 s" "console_ok t = console_ok s"
  using assms by (auto simp: heap_step_def task_regs_def console_ok_def)

lemma heap_step_same:
  assumes "heap_step lo hi s t" and "b \<le> 0xC0000000 \<or> 0xC0080000 \<le> a" and "b \<le> lo \<or> hi \<le> a"
  shows "same_on a b (mem s) (mem t)"
  using assms by (fastforce simp: heap_step_def same_on_def)

lemma heap_step_kept: "heap_step lo hi s t \<Longrightarrow> 0xC0081000 \<le> lo \<Longrightarrow> kept_low (mem s) (mem t)"
  by (simp add: kept_low_def heap_step_same)

lemma heap_stepI:
  assumes h: "kernel_heap h bs s" and "heap_touched h s lo hi t"
  shows "heap_step lo hi s t" and "heap_start h t = 0xC0081000" and "heap_end h t = 0xC0100000"
    and "array (index (heap_at t h)) = KHEAP_START" and "max_size (index (heap_at t h)) = HEAP_INDEX_SIZE"
    and "kheap t = kheap s" and "max_address (heap_at t h) = 0xCFFFF000"
proof -
  note I = kernel_heap_index [OF h] and F = heap_touched_fields [OF assms(2)]
  have s: "\<exists>m a. t = s\<lparr>mem := m, heap_at := a\<rparr>"
    using assms(2) by (auto simp: heap_touched_def with_index_def upd_heap_def)
  then show "kheap t = kheap s" by auto
  have "4 * unat (max_size (index (heap_at s h))) = 0x80000" using I by simp
  then show "heap_step lo hi s t" using F(5) s by (simp add: heap_step_def outside_heap_def I(1)) blast
qed (use h heap_touched_fields [OF assms(2)] in \<open>simp_all add: kernel_heap_def\<close>)


lemma kernel_heap_room: "kernel_heap h bs s \<Longrightarrow> index_room h s"
  by (rule size_room [of h s bs]) (auto simp: kernel_heap_def HEAP_INDEX_SIZE_def)

text \<open>The physical address of a page of the heap: what \<open>kmalloc_ap\<close> stores through its pointer.\<close>

lemma kmalloc_ap_phys:
  assumes a: "alloc n sz 1 h s = Inr (page_word (0xC0000 + k), s')" and h: "kheap s = h" "h \<noteq> 0"
    and k: "k < 256" "d + 263 \<le> 1024" and kd: "kernel_directory s' = page_word d"
    and slot: "rd (tables_at (page_word d) (of_nat 768)) s' = page_word (d + 3)"
    and entry: "rd (pages_at (page_word (d + 3)) (of_nat k)) s' = new_entry (of_nat (d + 7 + k)) 0 0 0"
  shows "kmalloc_ap n sz s = Inr ((page_word (0xC0000 + k), page_word (d + 7 + k)), s')"
proof -
  let ?p = "page_word (0xC0000 + k)"
  have pk: "unat ?p = 4096 * (0xC0000 + k)" using k(1) by (simp add: unat_page_word)
  have "(0xC0000 + k) mod 1024 = (0xC0000 mod 1024 + k) mod 1024" by (rule mod_add_left_eq [symmetric])
  then have "(0xC0000 + k) mod 1024 = k" using k(1) by simp
  then have ti: "table_index ?p = of_nat 768" "page_index ?p = of_nat k"
    using pk k(1) by (intro unat_eqI32; simp add: table_index_def page_index_def unat_div_distrib unat_mod unat_numeral32 unat_of_nat32)+
  have pt: "page_word (d + 3) \<noteq> 0" using k(2) by (intro page_word_nonzero) simp_all
  have gp: "get_page (\<lambda>_. stop No_Fuel) ?p False (page_word d) s' = Inr (pages_at (page_word (d + 3)) (of_nat k), s')"
    using get_page_present [of "page_word d" ?p s'] slot pt unfolding ti by simp
  have "unat (pages_at (page_word (d + 3)) (of_nat k)) = 4096 * (d + 3) + 4 * k" by (rule entry_address) (use k in simp_all)
  then have nz: "pages_at (page_word (d + 3)) (of_nat k) \<noteq> 0" by auto
  have u: "unat (of_nat (d + 7 + k) :: u32) < 1048576" using k by (subst unat_of_nat32) simp_all
  have "?p AND 0xFFF = 0" using unat_and_fff [of ?p] pk by (intro unat_eqI32) simp
  then have pf: "page_frame (rd (pages_at (page_word (d + 3)) (of_nat k)) s') * 0x1000 + (?p AND 0xFFF) = page_word (d + 7 + k)"
    unfolding entry page_frame_new_entry [OF u] by (simp add: page_word_def algebra_simps)
  show ?thesis
    unfolding kmalloc_ap_def kmalloc_int_def kmalloc_with_def using h a gp nz pf kd by simp
qed

lemma kernel_kmalloc_ap:
  assumes h: "kernel_heap h bs s" "h \<noteq> 0" and up: "tables_up d s" "d + 263 \<le> 1024"
    and sz: "unat sz < 0x7F000" and well: "aligns_well 0xC0081000 (unat sz) bs"
    and M: "bs = bs1 @ (True, N) # bs2" "front_size (0xC0081000 + bsum bs1) + unat sz + 20 \<le> N"
    and only: "\<And>cs1 M cs2. bs = cs1 @ (True, M) # cs2 \<Longrightarrow> front_size (0xC0081000 + bsum cs1) + unat sz + 20 \<le> M \<Longrightarrow> cs1 = bs1"
    and other: "\<forall>M. (True, M) \<in> set (bs1 @ bs2) \<and> M \<le> N \<longrightarrow> M \<le> front_size (0xC0081000 + bsum bs1)"
    and k: "bsum bs1 + front_size (0xC0081000 + bsum bs1) + 0x8100C = 4096 * k" "k < 256"
  obtains s' where "kmalloc_ap (Suc n) sz s = Inr ((page_word (0xC0000 + k), page_word (d + 7 + k)), s')"
    and "kernel_heap h (bs1 @ (True, front_size (0xC0081000 + bsum bs1))
        # cut_blocks (unat sz + 20) (N - front_size (0xC0081000 + bsum bs1)) @ bs2) s'"
    and "tables_up d s'" and "heap_step (0xC0081000 + bsum bs1) (0xC0081000 + bsum bs1 + N) s s'"
proof -
  let ?a = "0xC0081000 + bsum bs1"
  let ?k = "front_size ?a"
  note H = h(1) [unfolded kernel_heap_def] and I = kernel_heap_index [OF h(1)]
  have ok: "heap_ok h s bs" and st: "heap_start h s = 0xC0081000" and en: "heap_end h s = 0xC0100000" and srt: "index_sorted h s"
    using H by blast+
  have B: "bsum bs = 0x7F000" using heap_okD(4) [OF ok] st en by simp
  obtain cs1 M cs2 p s' where r: "bs = cs1 @ (True, M) # cs2" "front_size (0xC0081000 + bsum cs1) + unat sz + 20 \<le> M"
    "alloc (Suc n) sz 1 h s = Inr (p, s')"
    "unat p = 0xC0081000 + bsum cs1 + front_size (0xC0081000 + bsum cs1) + 12"
    "heap_ok h s' (cs1 @ (True, front_size (0xC0081000 + bsum cs1))
        # cut_blocks (unat sz + 20) (M - front_size (0xC0081000 + bsum cs1)) @ cs2)"
    "outside_heap h s (0xC0081000 + bsum cs1) (0xC0081000 + bsum cs1 + M) (mem s')"
    and eq: "\<exists>oa m. s' = with_index h oa m s \<and> array oa = array (index (heap_at s h)) \<and> max_size oa = max_size (index (heap_at s h))"
    and sr: "index_sorted h s \<longrightarrow> (\<forall>K. (True, K) \<in> set (cs1 @ cs2) \<and> K \<le> M \<longrightarrow> K \<le> front_size (0xC0081000 + bsum cs1))
        \<longrightarrow> index_sorted h s'"
    using alloc_aligned_runs [OF ok kernel_heap_room [OF h(1)], of sz bs1 N bs2 n, unfolded st B, OF _ _ _ well M] sz
    by (elim meta_mp [elim_format]) (simp, simp, simp, blast)
  have c: "cs1 = bs1" by (rule only [OF r(1,2)])
  then have c2: "M = N" "cs2 = bs2" using r(1) M(1) by simp_all
  obtain oa m where eq: "s' = with_index h oa m s" "array oa = array (index (heap_at s h))" "max_size oa = max_size (index (heap_at s h))"
    using eq by blast
  have "outside_heap h s ?a (?a + N) m" using r(6) unfolding c c2 eq(1) by simp
  then have tch: "heap_touched h s ?a (?a + N) s'" unfolding eq(1) by (rule heap_touchedI [OF eq(2,3)])
  note S = heap_stepI [OF h(1) tch]
  have kh: "kernel_heap h (bs1 @ (True, ?k) # cut_blocks (unat sz + 20) (N - ?k) @ bs2) s'"
    using S(2-7) r(5) sr other H unfolding c c2 by (simp add: kernel_heap_def)
  have t: "tables_up d s'"
    by (rule tables_up_kept [OF up heap_step_fields(4) [OF S(1)] heap_step_same [OF S(1)]]) (use up(2) in simp_all)
  have p: "p = page_word (0xC0000 + k)" using r(4) k unfolding c by (intro unat_eqI32) (simp add: unat_page_word)
  have D: "directory_is d (both_slots d) s'" "table_maps (d + 3) (d + 7) 256 s'" and kd: "kernel_directory s' = page_word d"
    using t by (simp_all add: tables_up_def)
  have slot: "rd (tables_at (page_word d) (of_nat 768)) s' = page_word (d + 3)"
    by (subst directory_slot(1) [OF D(1)]) (simp_all add: both_slots_def heap_slot_def)
  have entry: "rd (pages_at (page_word (d + 3)) (of_nat k)) s' = new_entry (of_nat (d + 7 + k)) 0 0 0"
    using table_entry [OF D(2), of k] k(2) by (simp add: add.commute)
  have run: "kmalloc_ap (Suc n) sz s = Inr ((page_word (0xC0000 + k), page_word (d + 7 + k)), s')"
    by (rule kmalloc_ap_phys [OF r(3) [unfolded p] _ h(2) k(2) up(2) kd slot entry]) (use H in simp)
  show ?thesis by (rule that [OF run kh t S(1)])
qed

lemma directory_from_heap:
  assumes h: "kernel_heap h [(True, 0x7F000)] s" "h \<noteq> 0" and up: "tables_up d s" "d + 263 \<le> 1024"
  obtains s' where "kmalloc_ap (Suc n) sizeof_page_directory s = Inr ((0xC0082000, page_word (d + 137)), s')"
    and "kernel_heap h [(True, 4084), (False, 8216), (True, 0x7F000 - 12300)] s'" and "tables_up d s'"
    and "s' = s\<lparr>mem := mem s', heap_at := heap_at s'\<rparr>" and "kept_low (mem s) (mem s')"
proof -
  have sz: "unat sizeof_page_directory = 8196" by (simp add: sizeof_page_directory_def)
  have fs: "front_size 0xC0081000 = 4084" by (simp add: front_size_def)
  have well: "aligns_well 0xC0081000 (unat sizeof_page_directory) [(True, 0x7F000)]"
    unfolding aligns_well_def sz by (auto simp: Cons_eq_append_conv Let_def fs)
  have pw: "page_word (0xC0000 + 130) = 0xC0082000" by (simp add: page_word_def)
  obtain s' where s': "kmalloc_ap (Suc n) sizeof_page_directory s = Inr ((page_word (0xC0000 + 130), page_word (d + 7 + 130)), s')"
    "kernel_heap h ([] @ (True, front_size (0xC0081000 + bsum [])) # cut_blocks (unat sizeof_page_directory + 20)
        (0x7F000 - front_size (0xC0081000 + bsum [])) @ []) s'"
    "tables_up d s'" "heap_step (0xC0081000 + bsum []) (0xC0081000 + bsum [] + 0x7F000) s s'"
    by (rule kernel_kmalloc_ap [OF h up, of sizeof_page_directory "[]" "0x7F000" "[]" 130 n])
      (use well in \<open>auto simp: sz fs Cons_eq_append_conv\<close>)
  have kl: "kept_low (mem s) (mem s')" by (rule heap_step_kept [OF s'(4)]) simp
  have "\<exists>m a. s' = s\<lparr>mem := m, heap_at := a\<rparr>" using s'(4) unfolding heap_step_def by (rule conjunct1)
  then have "s' = s\<lparr>mem := mem s', heap_at := heap_at s'\<rparr>" by (elim exE) simp
  then show ?thesis
    using that [of s'] s'(1-3) [unfolded pw] kl by (simp add: sz fs cut_blocks_def add.commute)
qed

subsection \<open>The second directory\<close>

text \<open>The blocks of the heap when \<open>initialize_paging\<close> is done: the second directory between two holes.\<close>

definition boot_blocks :: "block list" where
  "boot_blocks = [(True, 4084), (False, 8216), (True, 0x7F000 - 12300)]"

lemma second_directory:
  assumes h: "kernel_heap h [(True, 0x7F000)] s" "h \<noteq> 0" and up: "tables_up d s" "d + 263 \<le> 1024"
  obtains s' where "clone_directory (kmalloc_ap (Suc n)) (kernel_directory s) s = Inr (0xC0082000, s')"
    and "kernel_heap h boot_blocks s'" and "tables_up d s'" and "s' = s\<lparr>mem := mem s', heap_at := heap_at s'\<rparr>"
    and "kept_low (mem s) (mem s')" and "rd (physicalAddr_at 0xC0082000) s' = page_word (d + 138)"
    and "\<forall>i. unat i < 1024 \<longrightarrow> rd (tables_at 0xC0082000 i) s' = rd (tables_at (page_word d) i) s'
      \<and> rd (tablesPhysical_at 0xC0082000 i) s' = rd (tablesPhysical_at (page_word d) i) s'"
proof -
  obtain s1 where s1: "kmalloc_ap (Suc n) sizeof_page_directory s = Inr ((0xC0082000, page_word (d + 137)), s1)"
    "kernel_heap h [(True, 4084), (False, 8216), (True, 0x7F000 - 12300)] s1" "tables_up d s1"
    "s1 = s\<lparr>mem := mem s1, heap_at := heap_at s1\<rparr>" "kept_low (mem s) (mem s1)"
    by (rule directory_from_heap [OF h up])
  have kd: "kernel_directory s = page_word d" "kernel_directory s1 = page_word d" using up(1) s1(3) by (simp_all add: tables_up_def)
  have ud: "unat (0xC0082000 :: u32) = 0xC0082000" by (simp add: unat_numeral32)
  have ap: "dirs_apart 0xC0082000 (page_word d)"
    using up(2) by (simp add: dirs_apart_def dir_ok_def ud unat_page_word)
  have ap': "dirs_apart 0xC0082000 (kernel_directory s1)" unfolding kd(2) by (rule ap)
  have kt: "kernel_tables (page_word d) s1" by (simp add: kernel_tables_def kd(2))
  obtain s2 where s2: "clone_directory (kmalloc_ap (Suc n)) (page_word d) s = Inr (0xC0082000, s2)"
    "rd (physicalAddr_at 0xC0082000) s2 = page_word (d + 137) + 4096"
    "\<forall>i. unat i < 1024 \<longrightarrow> rd (tables_at 0xC0082000 i) s2 = rd (tables_at (page_word d) i) s1
        \<and> rd (tablesPhysical_at 0xC0082000 i) s2 =
            (if rd (tables_at (page_word d) i) s1 = 0 then 0 else rd (tablesPhysical_at (page_word d) i) s1)"
    "only_in (unat (0xC0082000 :: u32)) (unat (0xC0082000 :: u32) + 8196) (mem s1) (mem s2)" "s2 = s1\<lparr>mem := mem s2\<rparr>"
    using clone_directory_runs [where kap = "kmalloc_ap (Suc n)", OF s1(1) ap ap' kt] by blast
  note H = s1(2) [unfolded kernel_heap_def]
  have "only_in (heap_start h s1 + bsum [(True, 4084)] + 12) (heap_start h s1 + bsum [(True, 4084)] + 8216 - 8) (mem s1) (mem s2)"
    using s2(4) H unfolding ud by simp
  from heap_ok_store(1,3) [OF _ this, of "[(True, 0x7F000 - 12300)]"]
  have "heap_ok h (s1\<lparr>mem := mem s2\<rparr>) boot_blocks" "index_sorted h (s1\<lparr>mem := mem s2\<rparr>)" using H by (simp_all add: boot_blocks_def)
  then have ok: "heap_ok h s2 boot_blocks" "index_sorted h s2" using s2(5) by simp_all
  have "heap_at s2 = heap_at s1" "kheap s2 = kheap s1" by (subst s2(5), simp)+
  then have kh: "kernel_heap h boot_blocks s2" using H ok by (simp add: kernel_heap_def)
  have up2: "tables_up d s2"
    by (rule tables_up_kept [OF s1(3) up(2)], subst s2(5), simp)
      (use only_in_same_on [OF s2(4) [unfolded ud], of "4096 * (d + 6)" "4096 * d"] up(2) in simp)
  have same: "rd (tables_at (page_word d) i) s2 = rd (tables_at (page_word d) i) s1 \<and>
      rd (tablesPhysical_at (page_word d) i) s2 = rd (tablesPhysical_at (page_word d) i) s1" if "unat i < 1024" for i
    using rd_only_in_dir [OF ap s2(4) that] by blast
  have zero: "rd (tablesPhysical_at (page_word d) i) s1 = 0" if "unat i < 1024" "rd (tables_at (page_word d) i) s1 = 0" for i
  proof -
    have D: "directory_is d (both_slots d) s1" using s1(3) by (simp add: tables_up_def)
    show ?thesis using directory_slot [OF D that(1)] that(2) by simp
  qed
  have "page_word (d + 137) + 4096 = page_word (d + 138)" by (simp add: page_word_def)
  moreover have "s2 = s\<lparr>mem := mem s2, heap_at := heap_at s2\<rparr>"
  proof -
    obtain m1 a1 where e1: "s1 = s\<lparr>mem := m1, heap_at := a1\<rparr>" using s1(4) by blast
    obtain m2 where e2: "s2 = s1\<lparr>mem := m2\<rparr>" using s2(5) by blast
    show ?thesis unfolding e2 e1 by simp
  qed
  moreover have "\<forall>i. unat i < 1024 \<longrightarrow> rd (tables_at 0xC0082000 i) s2 = rd (tables_at (page_word d) i) s2
      \<and> rd (tablesPhysical_at 0xC0082000 i) s2 = rd (tablesPhysical_at (page_word d) i) s2"
    using s2(3) same zero by simp
  moreover have "kept_low (mem s) (mem s2)"
    by (rule kept_low_trans [OF s1(5) kept_low_blocks [OF s2(4)]]) (simp add: ud)
  ultimately show ?thesis using that [of s2] s2(1,2) kd(1) kh up2 by simp
qed

subsection \<open>\<open>initialize_paging\<close> as a whole\<close>

lemma console_plain:
  assumes "stdout_putf s = Screen_Putc" and "unat (cursorPosition s) \<le> 2200"
    and "format_out fmt va = Inr cs" and "plain cs" and "length cs \<le> 100"
  obtains s' where "tfp_printf fmt va s = Inr ((), s')" and "screen_step s s'" and "only_in 0xB8000 0xBA000 (mem s) (mem s')"
    and "unat (cursorPosition s') = unat (cursorPosition s) + length cs"
proof -
  let ?t = "fold putc cs s"
  have run: "tfp_printf fmt va s = Inr ((), ?t)" by (rule tfp_printf_screen [OF assms(1,3)])
  have eq: "mem ?t = mem (fold fb_put cs s)" "cursorPosition ?t = cursorPosition (fold fb_put cs s)"
    using fold_putc [of s s cs] by simp_all
  note f = fb_puts_plain [OF assms(4), of s]
  have "only_in 0xB8000 0xBA000 (mem s) (mem ?t)"
    unfolding eq(1) using f assms(2,5) by (simp add: only_in_def)
  then show ?thesis using that [OF run tfp_printf_step [OF run]] f assms(2,5) eq(2) by simp
qed

lemma console_plain_line:
  assumes "stdout_putf s = Screen_Putc" and "unat (cursorPosition s) \<le> 2200"
    and "format_out fmt va = Inr (cs @ [10])" and "plain cs" and "37 \<notin> set cs" and "length cs \<le> 100"
  obtains s' where "tfp_printf fmt va s = Inr ((), s')" and "screen_step s s'" and "only_in 0xB8000 0xBA000 (mem s) (mem s')"
    and "console_ok s'"
proof -
  obtain s1 where s1: "tfp_printf cs [] s = Inr ((), s1)" "only_in 0xB8000 0xBA000 (mem s) (mem s1)"
    "unat (cursorPosition s1) = unat (cursorPosition s) + length cs"
    by (rule console_plain [OF assms(1,2) format_plain [OF assms(5)] assms(4,6)])
  have s1_eq: "s1 = fold putc cs s"
    using s1(1) tfp_printf_screen [OF assms(1) format_plain [OF assms(5)]] by simp
  let ?t = "fold putc [10] s1"
  have run: "tfp_printf fmt va s = Inr ((), ?t)"
    using tfp_printf_screen [OF assms(1,3)] by (simp add: s1_eq)
  have eq: "mem ?t = mem (fold fb_put [10] s1)" "cursorPosition ?t = cursorPosition (fold fb_put [10] s1)"
    using fold_putc [of s1 s1 "[10]"] by simp_all
  have b: "unat (cursorPosition s1) + 80 * length [10 :: u8] < 0xFFF00" using s1(3) assms(2,6) by simp
  note f = fb_puts [OF b]
  have "only_in 0xB8000 0xBA000 (mem s1) (mem ?t)" unfolding eq(1)
    by (rule only_in_mono [OF conjunct2 [OF f]]) (use s1(3) assms(2,6) in simp_all)
  then have o: "only_in 0xB8000 0xBA000 (mem s) (mem ?t)" by (rule only_in_trans [OF s1(2)])
  have step: "screen_step s ?t" by (rule tfp_printf_step [OF run])
  have "console_ok ?t"
    unfolding console_ok_def eq(2) using f fold_next_pos_newline [of "[]" "unat (cursorPosition s1)"] screen_step_simps(6) [OF step] assms(1) by simp
  then show ?thesis by (rule that [OF run step o])
qed

text \<open>Printing leaves the heap and the tables alone.\<close>

lemma kernel_kept_by_screen:
  assumes "screen_step s s'" and "only_in 0xB8000 0xBA000 (mem s) (mem s')"
  shows "kernel_heap h bs s \<Longrightarrow> kernel_heap h bs s'"
    and "tables_up d s \<Longrightarrow> d + 263 \<le> 1024 \<Longrightarrow> 0xBA000 \<le> 4096 * d \<Longrightarrow> tables_up d s'"
    and "0xBA000 \<le> unat x \<Longrightarrow> unat x + 4 \<le> 4294967296 \<Longrightarrow> rd x s' = rd x s"
    and "cr3 s' = cr3 s"
proof -
  show "kernel_heap h bs s \<Longrightarrow> kernel_heap h bs s'"
    by (rule kernel_heap_kept) (use screen_step_simps(10,11) [OF assms(1)] only_in_same_on [OF assms(2), of "0xC0100000" "0xC0000000"] in simp_all)
  show "tables_up d s \<Longrightarrow> d + 263 \<le> 1024 \<Longrightarrow> 0xBA000 \<le> 4096 * d \<Longrightarrow> tables_up d s'"
    by (rule tables_up_kept) (use screen_step_simps(13) [OF assms(1)] only_in_same_on [OF assms(2), of "4096 * (d + 6)" "4096 * d"] in simp_all)
  show "0xBA000 \<le> unat x \<Longrightarrow> unat x + 4 \<le> 4294967296 \<Longrightarrow> rd x s' = rd x s"
    unfolding rd_def by (rule ld32_only_in [OF assms(2)]) simp_all
  show "cr3 s' = cr3 s" using assms(1) by (auto simp: screen_step_def)
qed

lemma initialize_paging_runs:
  assumes "kheap s = 0" and "console_ok s" and "unat (placement_address s) mod 4096 + 512 \<le> 4096"
    and "0xBA000 \<le> unat (placement_address s)" and "unat (placement_address s) < 0x2F9000"
    and d: "d = unat (placement_address s) div 4096 + 1"
  obtains s' where "initialize_paging (Suc n) s = Inr ((), s')" and "console_ok s'"
    and "kernel_heap (page_word (d + 6)) boot_blocks s'" and "tables_up d s'" and "d + 263 \<le> 1024"
    and "current_directory s' = 0xC0082000" and "cr3 s' = page_word (d + 138)"
    and "\<forall>i. unat i < 1024 \<longrightarrow> rd (tables_at 0xC0082000 i) s' = rd (tables_at (page_word d) i) s'
      \<and> rd (tablesPhysical_at 0xC0082000 i) s' = rd (tablesPhysical_at (page_word d) i) s'"
    and "low_bitmap (placement_address s) d" and "frames s' = placement_address s" and "nframes s' = 0x1000"
    and "used_frames s' \<inter> {..<1024} = {..<d + 263}" and "task_regs s' = task_regs s" and "rd 0xC0080FF8 s' = rd 0xC0080FF8 s"
    and "same_on (4096 * (d + 6)) 0xC0000000 (mem s) (mem s')"
proof -
  let ?p = "placement_address s"
  obtain s1 s2 where s1: "map_memory (Suc n) s = Inr ((), s1)" "filled s ?p d (d + 7) 256 s1"
    and low: "d + 263 \<le> 1024" and d4: "0xBA000 \<le> 4096 * d" and lb: "low_bitmap ?p d"
    and s2: "switch_page_directory (kernel_directory s1) s1 = Inr ((), s2)" "console_ok s2" "only_in 0xB8000 0xBA000 (mem s1) (mem s2)"
    and st: "screen_step (s1\<lparr>current_directory := page_word d, cr3 := page_word (d + 1), cr0 := cr0 s1 OR 0x80000000\<rparr>) s2"
    by (rule paging_on [OF assms])
  have b: "based s ?p d s1" "placement_address s1 = page_word (d + 6)" using s1(2) by (simp_all add: filled_def)
  have k2: "kheap s2 = 0" "placement_address s2 = page_word (d + 6)"
    using screen_step_simps(10,12) [OF st] b(2) based_fields [OF b(1)] by simp_all
  have t2: "tables_up d s2"
    by (rule tables_up_kept [OF filled_tables_up [OF s1(2)] low], use screen_step_simps(13) [OF st] in simp)
      (use only_in_same_on [OF s2(3)] d4 in simp)
  have hz: "page_word (d + 6) \<noteq> 0" using low by (intro page_word_nonzero) simp_all
  let ?h = "page_word (d + 6)"
  obtain s3 where s3: "create_heap (Suc n) KHEAP_START (KHEAP_START + KHEAP_INITIAL_SIZE) 0xCFFFF000 0 0 s2 = Inr (?h, s3)"
    "kernel_heap ?h [(True, 0x7F000)] (s3\<lparr>kheap := ?h\<rparr>)" "console_ok s3" "tables_up d s3"
    "kept_low (mem s2) (mem s3)" "task_regs s3 = task_regs s2" "frames s3 = frames s2" "nframes s3 = nframes s2"
    by (rule kernel_heap_created [OF k2(1) s2(2) _ t2 low d4, unfolded k2(2), OF hz])
  let ?s3 = "s3\<lparr>kheap := ?h\<rparr>"
  have c3: "stdout_putf ?s3 = Screen_Putc" "unat (cursorPosition ?s3) \<le> 2200" "tables_up d ?s3"
    using s3(3) tables_up_kept [OF s3(4) low, of ?s3] by (simp_all add: console_ok_def)
  obtain s4 where s4: "tfp_printf (cstr ''about to clone directory'') [] ?s3 = Inr ((), s4)" "screen_step ?s3 s4"
    "only_in 0xB8000 0xBA000 (mem ?s3) (mem s4)" "unat (cursorPosition s4) = unat (cursorPosition ?s3) + length (cstr ''about to clone directory'')"
    by (rule console_plain [OF c3(1,2) format_plain, of "cstr ''about to clone directory''"]) (simp_all add: cstr_def plain_def)
  note K4 = kernel_kept_by_screen [OF s4(2,3)]
  obtain s5 where s5: "clone_directory (kmalloc_ap (Suc n)) (kernel_directory s4) s4 = Inr (0xC0082000, s5)"
    "kernel_heap ?h boot_blocks s5" "tables_up d s5" "s5 = s4\<lparr>mem := mem s5, heap_at := heap_at s5\<rparr>"
    "kept_low (mem s4) (mem s5)" "rd (physicalAddr_at 0xC0082000) s5 = page_word (d + 138)"
    "\<forall>i. unat i < 1024 \<longrightarrow> rd (tables_at 0xC0082000 i) s5 = rd (tables_at (page_word d) i) s5
      \<and> rd (tablesPhysical_at 0xC0082000 i) s5 = rd (tablesPhysical_at (page_word d) i) s5"
    by (rule second_directory [OF K4(1) [OF s3(2)] hz K4(2) [OF c3(3) low d4] low])
  let ?s5 = "s5\<lparr>current_directory := 0xC0082000\<rparr>"
  have c5: "stdout_putf ?s5 = Screen_Putc" "unat (cursorPosition ?s5) \<le> 2200"
  proof -
    obtain m a where e: "s5 = s4\<lparr>mem := m, heap_at := a\<rparr>" using s5(4) by blast
    show "stdout_putf ?s5 = Screen_Putc" "unat (cursorPosition ?s5) \<le> 2200"
      using screen_step_simps(6) [OF s4(2)] c3(1) s3(3) s4(4) unfolding e by (simp_all add: console_ok_def cstr_def)
  qed
  obtain s6 where s6: "tfp_printf (cstr ''about to switch page directory'' @ [10]) [] ?s5 = Inr ((), s6)" "screen_step ?s5 s6"
    "only_in 0xB8000 0xBA000 (mem ?s5) (mem s6)" "console_ok s6"
    by (rule console_plain_line [OF c5 format_plain, of "cstr ''about to switch page directory''"]) (simp_all add: cstr_def plain_def)
  have cd6: "current_directory s6 = 0xC0082000" using screen_step_simps(14) [OF s6(2)] by simp
  obtain s7 where s7: "switch_page_directory 0xC0082000 s6 = Inr ((), s7)" "console_ok s7" "only_in 0xB8000 0xBA000 (mem s6) (mem s7)"
    and st7: "screen_step (s6\<lparr>current_directory := 0xC0082000, cr3 := rd (physicalAddr_at 0xC0082000) s6, cr0 := cr0 s6 OR 0x80000000\<rparr>) s7"
    by (rule switch_page_directory_runs [OF s6(4)])
  let ?s6 = "s6\<lparr>current_directory := 0xC0082000, cr3 := rd (physicalAddr_at 0xC0082000) s6, cr0 := cr0 s6 OR 0x80000000\<rparr>"
  note K6 = kernel_kept_by_screen [OF s6(2,3)]
  have o7: "only_in 0xB8000 0xBA000 (mem ?s6) (mem s7)" using s7(3) by simp
  note K7 = kernel_kept_by_screen [OF st7 o7]
  have r6: "rd x s6 = rd x s5" if "0xBA000 \<le> unat x" "unat x + 4 \<le> 4294967296" for x
    using K6(3) [OF that] by (simp add: rd_def)
  have r7: "rd x s7 = rd x s5" if "0xBA000 \<le> unat x" "unat x + 4 \<le> 4294967296" for x
    using K7(3) [OF that] r6 [OF that] by (simp add: rd_def)
  have h5: "kernel_heap ?h boot_blocks ?s5" by (rule kernel_heap_kept [OF s5(2)]) simp_all
  have t5: "tables_up d ?s5" by (rule tables_up_kept [OF s5(3) low]) simp_all
  have h6: "kernel_heap ?h boot_blocks ?s6" by (rule kernel_heap_kept [OF K6(1) [OF h5]]) simp_all
  have t6: "tables_up d ?s6" by (rule tables_up_kept [OF K6(2) [OF t5 low d4] low]) simp_all
  have run: "initialize_paging (Suc n) s = Inr ((), s7)"
    unfolding initialize_paging_def using s1(1) s2(1) s3(1) s4(1) s5(1) s6(1) cd6 s7(1) by (simp add: seq_def)
  have pa: "unat (physicalAddr_at 0xC0082000) = 0xC0084000" by (simp add: physicalAddr_at_def unat_numeral32)
  have cr: "cr3 s7 = page_word (d + 138)"
    using K7(4) r6 [of "physicalAddr_at 0xC0082000"] s5(6) pa by simp
  have dirs: "rd (tables_at 0xC0082000 i) s7 = rd (tables_at (page_word d) i) s7
      \<and> rd (tablesPhysical_at 0xC0082000 i) s7 = rd (tablesPhysical_at (page_word d) i) s7" if i: "unat i < 1024" for i
  proof -
    have "dir_ok 0xC0082000" "dir_ok (page_word d)" using low by (simp_all add: dir_ok_def unat_numeral32 unat_page_word)
    note u = unat_dir_fields(1,2) [OF this(1) i] unat_dir_fields(1,2) [OF this(2) i]
    have ud: "unat (page_word d) = 4096 * d" "unat (0xC0082000 :: u32) = 0xC0082000" using low by (simp_all add: unat_page_word unat_numeral32)
    have "rd x s7 = rd x s5" if "x \<in> {tables_at 0xC0082000 i, tablesPhysical_at 0xC0082000 i, tables_at (page_word d) i, tablesPhysical_at (page_word d) i}" for x
      by (rule r7; use that u ud i d4 low in auto)
    then show ?thesis using s5(7) i by simp
  qed
  have m5: "kept_low (mem s4) (mem s5)" and e5: "task_regs s5 = task_regs s4 \<and> frames s5 = frames s4 \<and> nframes s5 = nframes s4"
  proof -
    show "kept_low (mem s4) (mem s5)" by (rule s5(5))
    obtain m a where e: "s5 = s4\<lparr>mem := m, heap_at := a\<rparr>" using s5(4) by blast
    show "task_regs s5 = task_regs s4 \<and> frames s5 = frames s4 \<and> nframes s5 = nframes s4" unfolding e by (simp add: task_regs_def)
  qed
  have kl: "kept_low (mem s1) (mem s7)"
  proof -
    have "kept_low (mem s1) (mem s3)" by (rule kept_low_trans [OF kept_low_screen [OF s2(3)] s3(5)])
    moreover have "kept_low (mem s3) (mem s4)" using kept_low_screen [OF s4(3)] by simp
    moreover have "kept_low (mem s5) (mem s6)" using kept_low_screen [OF s6(3)] by simp
    ultimately show ?thesis using m5 kept_low_screen [OF s7(3)] by (blast intro: kept_low_trans)
  qed
  have tr: "task_regs s7 = task_regs s1 \<and> frames s7 = frames s1 \<and> nframes s7 = nframes s1"
    using task_regs_screen [OF st] s3(6-8) task_regs_screen [OF s4(2)] e5 task_regs_screen [OF s6(2)] task_regs_screen [OF st7]
    by (simp add: task_regs_def)
  have fr: "frames s1 = ?p" "nframes s1 = 0x1000" using based_fields [OF b(1)] by blast+
  have "task_regs s1 = task_regs s" "only_in (unat ?p) (4096 * (d + 6)) (mem s) (mem s1)"
    using b(1) by (auto simp: based_def task_regs_def)
  note s0 = this
  have pb: "unat ?p + 512 \<le> 4096 * d" "d < 1024" using lb by (simp_all add: low_bitmap_def)
  have "same_on (unat ?p) (unat ?p + 512) (mem s1) (mem s7)"
    using kl pb assms(4) unfolding kept_low_def by (elim conjE same_on_mono) simp_all
  then have uf: "used_frames s7 = used_frames s1" using tr fr pb by (intro used_frames_same) simp_all
  have w: "rd 0xC0080FF8 s7 = rd 0xC0080FF8 s"
  proof -
    have "same_on 0xC0080000 0xC0081000 (mem s) (mem s1)" using only_in_same_on [OF s0(2)] pb by simp
    then have "same_on 0xC0080000 0xC0081000 (mem s) (mem s7)" using kl same_on_trans unfolding kept_low_def by blast
    then show ?thesis unfolding rd_def by (rule ld32_same_on) (simp_all add: unat_numeral32)
  qed
  have up: "same_on (4096 * (d + 6)) 0xC0000000 (mem s) (mem s7)"
  proof (rule same_on_trans)
    show "same_on (4096 * (d + 6)) 0xC0000000 (mem s) (mem s1)" using only_in_same_on [OF s0(2)] by simp
    show "same_on (4096 * (d + 6)) 0xC0000000 (mem s1) (mem s7)"
      using kl d4 unfolding kept_low_def by (elim conjE same_on_mono) simp_all
  qed
  show ?thesis
    by (rule that [OF run s7(2) K7(1) [OF h6] K7(2) [OF t6 low d4] low _ cr _ lb _ _ _ _ w up])
      (use screen_step_simps(14) [OF st7] dirs tr fr uf s0(1) s1(2) in \<open>simp_all add: filled_def\<close>)
qed

text \<open>
  C2: \<open>initialize_paging\<close> runs to its end from any state before the heap exists, with a kernel that ends in the first 3 MB.
  Then there is a heap in order over the mapped heap area whose only
  allocated block, between two holes, holds the current page directory; that directory has the
  kernel directory's tables in every slot, and the page base the processor has been given is the
  physical address, as the kernel's tables translate it, of the very array of that directory
  that the processor reads.
\<close>

theorem initialize_paging_heap:
  assumes "kheap s = 0" and "console_ok s" and "unat (placement_address s) mod 4096 + 512 \<le> 4096"
    and "0xBA000 \<le> unat (placement_address s)" and "unat (placement_address s) < 0x2F9000"
  shows "\<exists>s'. initialize_paging (Suc n) s = Inr ((), s') \<and> console_ok s'
    \<and> heap_ok (kheap s') s' boot_blocks \<and> heap_start (kheap s') s' = 0xC0081000 \<and> heap_end (kheap s') s' = 0xC0100000
    \<and> current_directory s' = 0xC0082000
    \<and> (\<forall>i. unat i < 1024 \<longrightarrow> rd (tables_at (current_directory s') i) s' = rd (tables_at (kernel_directory s') i) s'
        \<and> rd (tablesPhysical_at (current_directory s') i) s' = rd (tablesPhysical_at (kernel_directory s') i) s')
    \<and> (let k = s'\<lparr>cr3 := rd (physicalAddr_at (kernel_directory s')) s'\<rparr> in translate k (kheap s') = Some (kheap s')
        \<and> (\<forall>i. unat i < 1024 \<longrightarrow> translate k (tablesPhysical_at (current_directory s') i) = Some (cr3 s' + 4 * i)))"
proof -
  define d where "d = unat (placement_address s) div 4096 + 1"
  obtain s' where s': "initialize_paging (Suc n) s = Inr ((), s')" "console_ok s'" "kernel_heap (page_word (d + 6)) boot_blocks s'"
    "tables_up d s'" and low: "d + 263 \<le> 1024" and c: "current_directory s' = 0xC0082000" "cr3 s' = page_word (d + 138)"
    and dirs: "\<forall>i. unat i < 1024 \<longrightarrow> rd (tables_at 0xC0082000 i) s' = rd (tables_at (page_word d) i) s'
      \<and> rd (tablesPhysical_at 0xC0082000 i) s' = rd (tablesPhysical_at (page_word d) i) s'"
    by (rule initialize_paging_runs [OF assms d_def])
  have kd: "kernel_directory s' = page_word d" "rd (physicalAddr_at (page_word d)) s' = page_word (d + 1)"
    using s'(4) by (simp_all add: tables_up_def directory_is_def)
  let ?k = "s'\<lparr>cr3 := page_word (d + 1)\<rparr>"
  have up: "tables_up d ?k" by (rule tables_up_kept [OF s'(4) low]) simp_all
  have "cr3 ?k = page_word (d + 1)" by simp
  note tr = translate_up [OF up low this]
  have h: "kheap s' = page_word (d + 6)" using s'(3) by (simp add: kernel_heap_def)
  have th: "translate ?k (kheap s') = Some (kheap s')"
    unfolding h by (subst tr) (use low in \<open>simp add: word_less_nat_alt unat_page_word\<close>)
  have tp: "translate ?k (tablesPhysical_at 0xC0082000 i) = Some (cr3 s' + 4 * i)" if i: "unat i < 1024" for i
  proof -
    have "unat (0xC0083000 + 4 * i) = 0xC0083000 + 4 * unat i"
      using i by (simp add: unat_add32 unat_times4 unat_numeral32)
    then have r: "\<not> 0xC0083000 + 4 * i < page_word (d + 7)" "KHEAP_START \<le> 0xC0083000 + 4 * i"
      "0xC0083000 + 4 * i < KHEAP_START + KHEAP_INITIAL_SIZE"
      using i low by (simp_all add: word_less_nat_alt word_le_nat_alt unat_page_word KHEAP_START_def KHEAP_INITIAL_SIZE_def unat_numeral32)
    have "page_word (d + 7) + (0xC0083000 + 4 * i - KHEAP_START) = cr3 s' + 4 * i"
      by (simp add: c(2) KHEAP_START_def page_word_def)
    then show ?thesis unfolding tablesPhysical_at_def by (subst tr) (use r in simp)
  qed
  show ?thesis
    using s'(1-3) c(1) dirs kd h th tp unfolding kernel_heap_def Let_def by (intro exI [of _ s'] conjI) simp_all
qed

theorem initialize_paging_heap_witness:
  "\<exists>s'. initialize_paging 1 ((init_printf Screen_Putc (power_on (\<lambda>_. 0) (\<lambda>_ _. 0)))\<lparr>placement_address := 0x110200\<rparr>) = Inr ((), s')
    \<and> heap_ok (kheap s') s' [(True, 4084), (False, 8216), (True, 0x7BFF4)] \<and> current_directory s' = 0xC0082000"
proof -
  let ?s = "(init_printf Screen_Putc (power_on (\<lambda>_. 0) (\<lambda>_ _. 0)))\<lparr>placement_address := 0x110200\<rparr>"
  have s: "kheap ?s = 0" "console_ok ?s" by (simp_all add: init_printf_def power_on_def console_ok_def)
  have p: "unat (placement_address ?s) = 0x110200" by (simp add: unat_numeral32)
  show ?thesis using initialize_paging_heap [OF s, of 0] unfolding p by (auto simp: boot_blocks_def)
qed

end
