(* ===== verification/Boot_Run.thy ===== *)
theory Boot_Run
  imports Boot_Heap
begin

text \<open>
  \<open>kmain\<close> on the running kernel: printing, requests and frees in the kernel's heap, the heap test, and a boot
  from power on until the first task is made.
\<close>

unbundle bit_operations_syntax


subsection \<open>Printing numbers\<close>

lemma ui2a_hex_plain: "plain (ui2a v 16 False)" "37 \<notin> set (ui2a v 16 False)" "length (ui2a v 16 False) \<le> 8"
proof -
  have "\<exists>vs. ui2a v 16 False = map (\<lambda>v. digit_char False (of_nat v)) vs \<and> (\<forall>d \<in> set vs. d < 16)"
    by (rule ui2a_shape [of 16 v False]) (auto simp: unat_numeral32)
  then obtain vs where vs: "ui2a v 16 False = map (\<lambda>v. digit_char False (of_nat v)) vs" "\<forall>d \<in> set vs. d < 16" by blast
  have "digit_char False (of_nat d) \<notin> {8, 10, 37}" if "d < 16" for d
  proof -
    from that have "d \<in> {0, 1, 2, 3, 4, 5, 6, 7, 8, 9, 10, 11, 12, 13, 14, 15}" by simp presburger
    then show ?thesis by (auto simp: digit_char_def word_sless_alt)
  qed
  then show "plain (ui2a v 16 False)" "37 \<notin> set (ui2a v 16 False)" using vs by (auto simp: plain_def)
  show "length (ui2a v 16 False) \<le> 8" by (rule ui2a_shape [of 16 v False]) simp_all
qed

subsection \<open>The running kernel\<close>

text \<open>
  The kernel from the end of \<open>initialize_paging\<close> on: the frame bitmap at \<open>p\<close> with the first \<open>c\<close>
  frames of its first quarter in use, the tables from page \<open>d\<close> on, and the heap with the blocks
  \<open>bs\<close>. The word in front of the first block is not taken for a footer.
\<close>

definition kernel_up :: "u32 \<Rightarrow> nat \<Rightarrow> nat \<Rightarrow> block list \<Rightarrow> machine \<Rightarrow> bool" where
  "kernel_up p d c bs s \<longleftrightarrow> low_bitmap p d \<and> 0xBA000 \<le> unat p \<and> d + 263 \<le> 1024
     \<and> kernel_heap (page_word (d + 6)) bs s \<and> tables_up d s \<and> frames s = p \<and> nframes s = 0x1000
     \<and> used_frames s \<inter> {..<1024} = {..<c} \<and> rd 0xC0080FF8 s \<noteq> HEAP_MAGIC"

lemma kernel_upD:
  assumes "kernel_up p d c bs s"
  shows "low_bitmap p d" "0xBA000 \<le> unat p" "d + 263 \<le> 1024" "kernel_heap (page_word (d + 6)) bs s" "tables_up d s"
    "frames s = p" "nframes s = 0x1000" "used_frames s \<inter> {..<1024} = {..<c}" "rd 0xC0080FF8 s \<noteq> HEAP_MAGIC"
    "0xBA000 \<le> 4096 * d" "unat p + 512 \<le> 4096 * d" "page_word (d + 6) \<noteq> 0" "4096 * (d + 6) \<le> 0x400000"
  using assms by (simp_all add: kernel_up_def low_bitmap_def page_word_nonzero)

text \<open>A step that changes the heap and the screen only.\<close>

lemma kernel_up_step:
  assumes k: "kernel_up p d c bs s" and h: "kernel_heap (page_word (d + 6)) bs' t" and m: "kept_low (mem s) (mem t)"
    and f: "frames t = frames s" "nframes t = nframes s" "kernel_directory t = kernel_directory s"
  shows "kernel_up p d c bs' t"
proof -
  note K = kernel_upD [OF k]
  have lo: "same_on 0xBA000 0xC0000000 (mem s) (mem t)" "same_on 0xC0080000 0xC0081000 (mem s) (mem t)"
    using m by (simp_all add: kept_low_def)
  have "tables_up d t"
    by (rule tables_up_kept [OF K(5,3) f(3) same_on_mono [OF lo(1)]]) (use K(10,13) in simp_all)
  moreover have "used_frames t = used_frames s"
    by (rule used_frames_same [OF f(1,2)], use K in simp, use K in simp, rule same_on_mono [OF lo(1)]) (use K in simp_all)
  moreover have "rd 0xC0080FF8 t = rd 0xC0080FF8 s"
    unfolding rd_def by (rule ld32_same_on [OF lo(2)]) (simp_all add: unat_numeral32)
  ultimately show ?thesis using K h f by (simp add: kernel_up_def)
qed

text \<open>Printing.\<close>

definition printed :: "machine \<Rightarrow> machine \<Rightarrow> bool" where
  "printed s t \<longleftrightarrow> screen_step s t \<and> only_in 0xB8000 0xBA000 (mem s) (mem t)"

lemma kernel_up_printed:
  assumes "kernel_up p d c bs s" and "printed s t"
  shows "kernel_up p d c bs t"
proof -
  have st: "screen_step s t" "only_in 0xB8000 0xBA000 (mem s) (mem t)" using assms(2) by (simp_all add: printed_def)
  note K = kernel_upD(4) [OF assms(1)]
  show ?thesis
    by (rule kernel_up_step [OF assms(1) kernel_kept_by_screen(1) [OF st K] kept_low_screen [OF st(2)]])
      (use screen_step_simps [OF st(1)] in simp_all)
qed

text \<open>The cursor is in the first \<open>k\<close> places, and text goes to the screen.\<close>

definition cursor_in :: "nat \<Rightarrow> machine \<Rightarrow> bool" where
  "cursor_in k s \<longleftrightarrow> stdout_putf s = Screen_Putc \<and> unat (cursorPosition s) \<le> k"

lemma cursor_console: "cursor_in 2080 s = console_ok s"
  by (simp add: cursor_in_def console_ok_def)

lemma say_text:
  assumes c: "cursor_in k s" and f: "format_out (cstr str) va = Inr cs" and cs: "plain cs" "length cs \<le> 40" "k + 40 \<le> 2240"
  obtains t where "say str va s = Inr ((), t)" and "printed s t" and "cursor_in (k + length cs) t"
proof -
  have s: "stdout_putf s = Screen_Putc" "unat (cursorPosition s) \<le> 2200" "unat (cursorPosition s) \<le> k"
    using c cs(3) by (simp_all add: cursor_in_def)
  obtain t where t: "tfp_printf (cstr str) va s = Inr ((), t)" "screen_step s t" "only_in 0xB8000 0xBA000 (mem s) (mem t)"
    "unat (cursorPosition t) = unat (cursorPosition s) + length cs"
    by (rule console_plain [OF s(1,2) f cs(1)]) (use cs(2) in simp)
  show ?thesis
    by (rule that [of t]) (use t s screen_step_simps(6) [OF t(2)] in \<open>simp_all add: say_def printed_def cursor_in_def\<close>)
qed

lemma sayln_text:
  assumes c: "cursor_in k s" "k \<le> 2200" and f: "format_out (cstr str @ [10]) va = Inr (cs @ [10])"
    and cs: "plain cs" "37 \<notin> set cs" "length cs \<le> 100"
  obtains t where "sayln str va s = Inr ((), t)" and "printed s t" and "cursor_in 2080 t"
proof -
  have s: "stdout_putf s = Screen_Putc" "unat (cursorPosition s) \<le> 2200" using c by (simp_all add: cursor_in_def)
  obtain t where t: "tfp_printf (cstr str @ [10]) va s = Inr ((), t)" "screen_step s t" "only_in 0xB8000 0xBA000 (mem s) (mem t)"
    "console_ok t"
    by (rule console_plain_line [OF s f cs])
  show ?thesis by (rule that [of t]) (use t in \<open>simp_all add: sayln_def printed_def cursor_console\<close>)
qed

text \<open>Texts with one number in hexadecimal.\<close>

lemma say_hex:
  assumes "cursor_in k s" and "k + 40 \<le> 2240" and "cstr str = ps @ [37, 120] @ qs"
    and "plain ps" "37 \<notin> set ps" "plain qs" "37 \<notin> set qs" "length ps + length qs \<le> 30"
  obtains t where "say str [VInt v] s = Inr ((), t)" and "printed s t" and "cursor_in (k + 40) t"
proof -
  note u = ui2a_hex_plain [of v]
  have f: "format_out (cstr str) [VInt v] = Inr (ps @ ui2a v 16 False @ qs)"
    unfolding assms(3) by (rule format_hex [OF assms(5,7)])
  obtain t where t: "say str [VInt v] s = Inr ((), t)" "printed s t" "cursor_in (k + length (ps @ ui2a v 16 False @ qs)) t"
    by (rule say_text [OF assms(1) f _ _ assms(2)]) (use u assms in \<open>auto simp: plain_def\<close>)
  have "cursor_in (k + 40) t" using t(3) u(3) assms(8) by (simp add: cursor_in_def)
  then show ?thesis by (rule that [OF t(1,2)])
qed

lemma sayln_hex:
  assumes "cursor_in k s" and "k \<le> 2200" and "cstr str = ps @ [37, 120] @ qs"
    and "plain ps" "37 \<notin> set ps" "plain qs" "37 \<notin> set qs" "length ps + length qs \<le> 30"
  obtains t where "sayln str [VInt v] s = Inr ((), t)" and "printed s t" and "cursor_in 2080 t"
proof -
  note u = ui2a_hex_plain [of v]
  have f: "format_out (cstr str @ [10]) [VInt v] = Inr ((ps @ ui2a v 16 False @ qs) @ [10])"
    using format_hex [OF assms(5), of "qs @ [10]" v] assms(7) by (simp add: assms(3))
  show ?thesis
    by (rule sayln_text [OF assms(1,2) f]) (use u assms in \<open>auto simp: plain_def intro: that\<close>)
qed

subsection \<open>Requests and frees in the kernel's heap\<close>

lemma heap_step_cursor: "heap_step lo hi s t \<Longrightarrow> cursor_in k t = cursor_in k s"
  by (auto simp: heap_step_def cursor_in_def)

lemma kmalloc_up:
  assumes k: "kernel_up p d c bs s" and M: "(True, M) \<in> set bs" "unat z + 20 \<le> M"
  obtains bs1 N bs2 t where "bs = bs1 @ (True, N) # bs2" and "unat z + 20 \<le> N"
    and "\<forall>M. (True, M) \<in> set bs \<and> unat z + 20 \<le> M \<longrightarrow> N \<le> M"
    and "kmalloc (Suc n) z s = Inr (of_nat (0xC0081000 + bsum bs1 + 12), t)"
    and "kernel_up p d c (bs1 @ cut_blocks (cut_size (unat z) N) N @ bs2) t"
    and "heap_step (0xC0081000 + bsum bs1) (0xC0081000 + bsum bs1 + N) s t"
proof -
  let ?h = "page_word (d + 6)"
  note K = kernel_upD [OF k] and H = kernel_upD(4) [OF k, unfolded kernel_heap_def]
  have ok: "heap_ok ?h s bs" and srt: "index_sorted ?h s" and st: "heap_start ?h s = 0xC0081000" and kh: "kheap s = ?h"
    using H by blast+
  obtain bs1 N bs2 oa m where a: "bs = bs1 @ (True, N) # bs2" "unat z + 20 \<le> N"
    "alloc (Suc n) z 0 ?h s = Inr (of_nat (heap_start ?h s + bsum bs1) + sizeof_header, with_index ?h oa m s)"
    "heap_ok ?h (with_index ?h oa m s) (bs1 @ cut_blocks (cut_size (unat z) N) N @ bs2)"
    "index_sorted ?h s \<Longrightarrow> index_sorted ?h (with_index ?h oa m s)"
    "index_sorted ?h s \<Longrightarrow> (\<forall>M. (True, M) \<in> set bs \<and> unat z + 20 \<le> M \<longrightarrow> N \<le> M)"
    "array oa = array (index (heap_at s ?h))" "max_size oa = max_size (index (heap_at s ?h))"
    "outside_heap ?h s (heap_start ?h s + bsum bs1) (heap_start ?h s + bsum bs1 + N) m"
    by (rule alloc_unaligned [OF ok M, of n]) blast
  let ?t = "with_index ?h oa m s"
  have tch: "heap_touched ?h s (0xC0081000 + bsum bs1) (0xC0081000 + bsum bs1 + N) ?t"
    using heap_touchedI [OF a(7-9)] unfolding st .
  note S = heap_stepI [OF K(4) tch]
  have kt: "kernel_heap ?h (bs1 @ cut_blocks (cut_size (unat z) N) N @ bs2) ?t"
    using S(2-7) a(4,5) srt kh by (simp add: kernel_heap_def)
  have up: "kernel_up p d c (bs1 @ cut_blocks (cut_size (unat z) N) N @ bs2) ?t"
    by (rule kernel_up_step [OF k kt heap_step_kept [OF S(1)]]) (use heap_step_fields [OF S(1)] in simp_all)
  have "kmalloc (Suc n) z s = Inr (of_nat (0xC0081000 + bsum bs1 + 12), ?t)"
    using a(3) kh K(12) st by (simp add: kmalloc_def kmalloc_int_def kmalloc_with_def seq_def ret_def sizeof_header_def)
  then show ?thesis using that [OF a(1,2) a(6) [OF srt]] up S(1) by blast
qed

lemma kfree_up:
  assumes k: "kernel_up p d c (bs1 @ (False, n) # bs2) s"
    and l: "bs1 = [] \<or> (\<exists>bs0 k. bs1 = bs0 @ [(False, k)])" and r: "right_clear bs2"
  obtains t where "kfree (of_nat (0xC0081000 + bsum bs1 + 12)) s = Inr ((), t)"
    and "kernel_up p d c (bs1 @ join_right n bs2) t"
    and "heap_step (0xC0081000 + bsum bs1) (0xC0081000 + bsum bs1 + n + right_hole bs2) s t"
proof -
  let ?h = "page_word (d + 6)"
  note K = kernel_upD [OF k] and H = kernel_upD(4) [OF k, unfolded kernel_heap_def]
  have ok: "heap_ok ?h s (bs1 @ (False, n) # bs2)" and srt: "index_sorted ?h s" and st: "heap_start ?h s = 0xC0081000" and kh: "kheap s = ?h"
    using H by blast+
  have "of_nat (heap_start ?h s - 8) = (0xC0080FF8 :: u32)" by (simp add: st)
  then have so: "left_solid ?h s bs1" using l K(9) by (auto simp: left_solid_def)
  have "heap_fit ?h s (bs1 @ (False, n) # bs2)"
    using H K(9) kernel_heap_index [OF K(4)] \<open>of_nat (heap_start ?h s - 8) = 0xC0080FF8\<close>
    by (simp add: heap_fit_def st HEAP_INDEX_SIZE_def)
  note room = heap_fit_room [OF this]
  have st8: "8 \<le> heap_start ?h s" by (simp add: st)
  have lc: "left_clear ?h s bs1" using so by (simp add: left_clear_def)
  obtain v where v: "free (of_nat (heap_start ?h s + bsum bs1 + 12)) ?h s = Inr ((), v)"
    "heap_ok ?h v (join_blocks bs1 n bs2)"
    "heap_touched ?h s (heap_start ?h s + bsum bs1 - left_hole bs1) (heap_start ?h s + bsum bs1 + n + right_hole bs2) v"
    "left_solid ?h s bs1 \<Longrightarrow> index_sorted ?h s \<Longrightarrow> index_sorted ?h v"
    by (rule free_joins [OF ok refl refl st8 lc r room]) blast
  have tch: "heap_touched ?h s (0xC0081000 + bsum bs1) (0xC0081000 + bsum bs1 + n + right_hole bs2) v"
    using v(3) unfolding left_hole_solid [OF so] st by simp
  note S = heap_stepI [OF K(4) tch]
  have kt: "kernel_heap ?h (bs1 @ join_right n bs2) v"
    using S(2-7) v(2,4) srt so kh by (simp add: kernel_heap_def join_blocks_solid)
  have up: "kernel_up p d c (bs1 @ join_right n bs2) v"
    by (rule kernel_up_step [OF k kt heap_step_kept [OF S(1)]]) (use heap_step_fields [OF S(1)] in simp_all)
  have "kfree (of_nat (0xC0081000 + bsum bs1 + 12)) s = Inr ((), v)" using v(1) unfolding st by (simp add: kfree_def kh)
  then show ?thesis using that up S(1) by blast
qed


text \<open>Over both kinds of step, from \<open>0xC0081FF4\<close> to the heap's end, where the second directory is.\<close>

definition live_step :: "machine \<Rightarrow> machine \<Rightarrow> bool" where
  "live_step s t \<longleftrightarrow> task_regs t = task_regs s \<and> current_directory t = current_directory s \<and> cr3 t = cr3 s
     \<and> same_on 0xC0081FF4 0xC0100000 (mem s) (mem t)"

lemma live_step_trans [trans]: "live_step s t \<Longrightarrow> live_step t u \<Longrightarrow> live_step s u"
  by (simp add: live_step_def same_on_def)

lemma live_step_printed:
  assumes "printed s t"
  shows "live_step s t"
proof -
  have p: "screen_step s t" "only_in 0xB8000 0xBA000 (mem s) (mem t)" using assms by (simp_all add: printed_def)
  have "cr3 t = cr3 s" using p(1) by (auto simp: screen_step_def)
  moreover have "same_on 0xC0081FF4 0xC0100000 (mem s) (mem t)" by (rule only_in_same_on [OF p(2)]) simp
  ultimately show ?thesis using screen_step_simps [OF p(1)] p(1) by (simp add: live_step_def task_regs_screen)
qed

lemma live_step_heap: "heap_step lo hi s t \<Longrightarrow> hi \<le> 0xC0081FF4 \<Longrightarrow> live_step s t"
  using heap_step_fields [of lo hi s t] heap_step_same [where b = "0xC0100000" and a = "0xC0081FF4"] by (simp add: live_step_def)

text \<open>A request that fits the first hole goes there when the second hole is larger.\<close>

lemma kmalloc_first:
  assumes k: "kernel_up p d c (bs0 @ [(True, N), (False, F), (True, R)]) s" and u: "\<forall>n. (True, n) \<notin> set bs0"
    and z: "unat z + 20 \<le> N" "N < R" "bsum bs0 + N \<le> 0xFF4"
  obtains t where "kmalloc (Suc n) z s = Inr (of_nat (0xC0081000 + bsum bs0 + 12), t)"
    and "kernel_up p d c (bs0 @ cut_blocks (cut_size (unat z) N) N @ [(False, F), (True, R)]) t"
    and "live_step s t" and "\<And>k. cursor_in k t = cursor_in k s"
proof -
  have m: "(True, N) \<in> set (bs0 @ [(True, N), (False, F), (True, R)])" by simp
  obtain bs1 M bs2 t where t: "bs0 @ [(True, N), (False, F), (True, R)] = bs1 @ (True, M) # bs2"
    "\<forall>K. (True, K) \<in> set (bs0 @ [(True, N), (False, F), (True, R)]) \<and> unat z + 20 \<le> K \<longrightarrow> M \<le> K"
    "kmalloc (Suc n) z s = Inr (of_nat (0xC0081000 + bsum bs1 + 12), t)"
    "kernel_up p d c (bs1 @ cut_blocks (cut_size (unat z) M) M @ bs2) t"
    "heap_step (0xC0081000 + bsum bs1) (0xC0081000 + bsum bs1 + M) s t"
    by (rule kmalloc_up [OF k m z(1)]) blast
  have "M \<le> N" using t(2) z(1) by auto
  then have "bs1 = bs0 \<and> M = N \<and> bs2 = [(False, F), (True, R)]"
    using t(1) u z(2) by (fastforce simp: append_eq_append_conv2 append_eq_Cons_conv Cons_eq_append_conv)
  then show ?thesis
    using that t(3-5) heap_step_cursor [OF t(5)] live_step_heap [OF t(5)] z(3) by simp
qed

lemma kfree_first:
  assumes k: "kernel_up p d c (bs0 @ (False, n) # (True, N) # bs2) s" and u: "\<forall>n. (True, n) \<notin> set bs0"
    and z: "bs2 \<noteq> []" "bsum bs0 + n + N \<le> 0xFF4"
  obtains t where "kfree (of_nat (0xC0081000 + bsum bs0 + 12)) s = Inr ((), t)"
    and "kernel_up p d c (bs0 @ (True, n + N) # bs2) t"
    and "live_step s t" and "\<And>k. cursor_in k t = cursor_in k s"
proof -
  have l: "bs0 = [] \<or> (\<exists>bs k. bs0 = bs @ [(False, k)])"
  proof (cases bs0 rule: rev_cases)
    case (snoc bs x)
    with u show ?thesis by (cases x) (metis (full_types) in_set_conv_decomp)
  qed simp
  have r: "right_clear ((True, N) # bs2)" using z by (simp add: right_clear_def)
  show ?thesis
    by (rule kfree_up [OF k l r])
      (use that z(2) heap_step_cursor live_step_heap in \<open>fastforce\<close>)
qed


text \<open>The heap test of \<open>kmain\<close>.\<close>

definition tested_blocks :: "block list" where
  "tested_blocks = [(False, 32), (True, 4052), (False, 8216), (True, 0x7F000 - 12300)]"

lemma heap_test_runs:
  assumes k: "kernel_up p d c boot_blocks s" and q: "cursor_in 2080 s"
  obtains t where "heap_test (Suc n) a s = Inr ((), t)" and "kernel_up p d c tested_blocks t"
    and "live_step s t" and "cursor_in 2080 t"
proof -
  let ?R = "0x7F000 - 12300 :: nat"
  obtain s1 where s1: "kmalloc (Suc n) 8 s = Inr (0xC008100C, s1)" "live_step s s1" "\<And>k. cursor_in k s1 = cursor_in k s"
    "kernel_up p d c ([(False, 28)] @ [(True, 4056), (False, 8216), (True, ?R)]) s1"
    by (rule kmalloc_first [of p d c "[]" 4084 8216 ?R s 8 n])
      (use k in \<open>simp_all add: boot_blocks_def cut_blocks_def cut_size_def\<close>)
  obtain s2 where s2: "kmalloc (Suc n) 8 s1 = Inr (0xC0081028, s2)" "live_step s1 s2" "\<And>k. cursor_in k s2 = cursor_in k s1"
    "kernel_up p d c [(False, 28), (False, 28), (True, 4028), (False, 8216), (True, ?R)] s2"
    by (rule kmalloc_first [OF s1(4), of 8 n]) (simp_all add: cut_blocks_def cut_size_def)
  have q2: "cursor_in 2080 s2" using q s1(3) s2(3) by simp
  obtain s3 where s3: "say ''a: %x,'' [VInt a] s2 = Inr ((), s3)" "printed s2 s3" "cursor_in 2120 s3"
    by (rule say_hex [OF q2, where ps = "[97, 58, 32]" and qs = "[44]" and str = "''a: %x,''" and v = a])
      (simp_all add: cstr_def plain_def)
  obtain s4 where s4: "say '', b: %x'' [VInt 0xC008100C] s3 = Inr ((), s4)" "printed s3 s4" "cursor_in 2160 s4"
    by (rule say_hex [OF s3(3), where ps = "[44, 32, 98, 58, 32]" and qs = "[]" and str = "'', b: %x''" and v = "0xC008100C"])
      (simp_all add: cstr_def plain_def)
  obtain s5 where s5: "sayln ''c: %x '' [VInt 0xC0081028] s4 = Inr ((), s5)" "printed s4 s5" "cursor_in 2080 s5"
    by (rule sayln_hex [OF s4(3), where ps = "[99, 58, 32]" and qs = "[32]" and str = "''c: %x ''" and v = "0xC0081028"])
      (simp_all add: cstr_def plain_def)
  have k5: "kernel_up p d c ([(False, 28)] @ (False, 28) # (True, 4028) # [(False, 8216), (True, ?R)]) s5"
    using kernel_up_printed [OF kernel_up_printed [OF kernel_up_printed [OF s2(4) s3(2)] s4(2)] s5(2)] by simp
  obtain s6 where s6: "kfree 0xC0081028 s5 = Inr ((), s6)" "live_step s5 s6" "\<And>k. cursor_in k s6 = cursor_in k s5"
    "kernel_up p d c [(False, 28), (True, 4056), (False, 8216), (True, ?R)] s6"
    by (rule kfree_first [OF k5]) simp_all
  have q6: "cursor_in 2080 s6" using s5(3) s6(3) by simp
  obtain s7 where s7: "say ''C free'' [] s6 = Inr ((), s7)" "printed s6 s7" "cursor_in 2086 s7"
    by (rule say_text [OF q6, where cs = "[67, 32, 102, 114, 101, 101]" and str = "''C free''" and va = "[]"])
      (simp_all add: cstr_def plain_def format_out_def)
  have k7: "kernel_up p d c ([] @ (False, 28) # (True, 4056) # [(False, 8216), (True, ?R)]) s7"
    using kernel_up_printed [OF s6(4) s7(2)] by simp
  obtain s8 where s8: "kfree 0xC008100C s7 = Inr ((), s8)" "live_step s7 s8" "\<And>k. cursor_in k s8 = cursor_in k s7"
    "kernel_up p d c ([] @ [(True, 4084), (False, 8216), (True, ?R)]) s8"
    by (rule kfree_first [OF k7]) simp_all
  obtain s9 where s9: "kmalloc (Suc n) 12 s8 = Inr (0xC008100C, s9)" "live_step s8 s9" "\<And>k. cursor_in k s9 = cursor_in k s8"
    "kernel_up p d c tested_blocks s9"
    by (rule kmalloc_first [OF s8(4), of 12 n]) (simp_all add: cut_blocks_def cut_size_def tested_blocks_def)
  have q9: "cursor_in 2086 s9" using s7(3) s8(3) s9(3) by simp
  obtain t where t: "sayln '', d: %x '' [VInt 0xC008100C] s9 = Inr ((), t)" "printed s9 t" "cursor_in 2080 t"
    by (rule sayln_hex [OF q9, where ps = "[44, 32, 100, 58, 32]" and qs = "[32]" and str = "'', d: %x ''" and v = "0xC008100C"])
      (simp_all add: cstr_def plain_def)
  have "heap_test (Suc n) a s = Inr ((), t)"
    by (simp add: heap_test_def seq_def s1(1) s2(1) s3(1) s4(1) s5(1) s6(1) s7(1) s8(1) s9(1) t(1))
  moreover have "live_step s t"
  proof -
    have "live_step s s2" by (rule live_step_trans [OF s1(2) s2(2)])
    also have "live_step s2 s5" using s3(2) s4(2) s5(2) by (blast intro: live_step_printed live_step_trans)
    also have "live_step s5 s7" using s6(2) s7(2) by (blast intro: live_step_printed live_step_trans)
    also have "live_step s7 s9" using s8(2) s9(2) by (rule live_step_trans)
    also have "live_step s9 t" using t(2) by (rule live_step_printed)
    finally show ?thesis .
  qed
  ultimately show ?thesis using that kernel_up_printed [OF s9(4) t(2)] t(3) by blast
qed


subsection \<open>From power on to the first task\<close>

text \<open>
  What the boot loader leaves: its information structure at \<open>ebx\<close> names one module, and the structure and the
  module's entry \<open>m\<close> lie below the video memory.
\<close>

definition one_module :: "u32 \<Rightarrow> u32 \<Rightarrow> machine \<Rightarrow> bool" where
  "one_module ebx m s \<longleftrightarrow> rd (mb_mods_count_at ebx) s = 1 \<and> rd (mb_mods_addr_at ebx) s = m
     \<and> unat ebx + 28 \<le> 0xB8000 \<and> unat m + 16 \<le> 0xB8000"

lemma dev_step_low: "dev_step b s \<Longrightarrow> unat x + 4 \<le> 0xB8000 \<Longrightarrow> rd x s = rd x b"
  unfolding rd_def by (rule ld32_only_in [of "0xB8000" "0xC0000"]) (simp_all add: dev_step_def)

lemma one_module_dev: "dev_step b s \<Longrightarrow> one_module ebx m b \<Longrightarrow> one_module ebx m s"
  by (simp add: one_module_def dev_step_low mb_mods_count_at_def mb_mods_addr_at_def unat_add_numeral32)

text \<open>The second directory has the tables of the first.\<close>

definition clone_slots :: "nat \<Rightarrow> machine \<Rightarrow> bool" where
  "clone_slots d s \<longleftrightarrow> (\<forall>i < 1024. rd (tables_at 0xC0082000 (of_nat i)) s = both_slots d i)"

lemma clone_slots_live:
  assumes "clone_slots d s" and "live_step s t"
  shows "clone_slots d t"
proof -
  have o: "same_on 0xC0081FF4 0xC0100000 (mem s) (mem t)" using assms(2) by (simp add: live_step_def)
  have "rd (tables_at 0xC0082000 (of_nat i)) t = rd (tables_at 0xC0082000 (of_nat i)) s" if "i < 1024" for i
    unfolding rd_def using that unat_dir_fields(1) [of "0xC0082000" "of_nat i"]
    by (intro ld32_same_on [OF o]) (simp_all add: dir_ok_def unat_numeral32 unat_of_nat32)
  then show ?thesis using assms(1) by (simp add: clone_slots_def)
qed

lemma module_text: "cstr ''address_of_module is %x '' = cstr ''address_of_module is '' @ [37, 120, 32]"
  by (simp add: cstr_def)

lemma kmain_paging_runs:
  assumes "always_ready_again s" and "unat (cursorPosition s) \<le> 2080" and "kheap s = 0" and om: "one_module ebx m s"
    and e: "e = unat (rd (mod_end_at m) s) + 8" "0xC0000 \<le> e" "e mod 4096 + 512 \<le> 4096" "e < 0x2F9000"
    and hm: "rd 0xC0080FF8 s \<noteq> HEAP_MAGIC"
  obtains t where "kmain img (Suc n) ebx initial_stack s
      = seq (heap_test (Suc n) (rd (mod_end_at m) s)) (\<lambda>_. seq (start_tasks (Suc n)) (\<lambda>_. start_module img (rd (mod_start_at m) s))) t"
    and "kernel_up (of_nat e) (e div 4096 + 1) (e div 4096 + 264) boot_blocks t" and "cursor_in 2080 t"
    and "current_directory t = 0xC0082000" and "task_regs t = task_regs (booted img initial_stack s)"
    and "clone_slots (e div 4096 + 1) t"
proof -
  let ?b = "booted img initial_stack s" and ?e = "rd (mod_end_at m) s"
  let ?p = "?e + 8"
  have b: "stdout_putf ?b = Screen_Putc" "one_module ebx m ?b" "kheap ?b = 0" "mem ?b = mem s"
    using om assms(3) by (simp_all add: booted_def one_module_def rd_def)
  have low: "rd x t = rd x s" if "dev_step ?b t" "unat x + 4 \<le> 0xB8000" for x t
    using dev_step_low [OF that] b(4) by (simp add: rd_def)
  have m4: "unat m + 4 \<le> 0xB8000" "unat (mod_end_at m) + 4 \<le> 0xB8000"
    using om by (simp_all add: one_module_def mod_end_at_def unat_add_numeral32)
  obtain s1 where s1: "boot_devices img initial_stack s = Inr ((), s1)" "dev_step ?b s1"
    by (rule boot_devices_runs [OF assms(1,2)])
  obtain s2 where s2: "sayln ''mbinfo flags: %x '' [VInt (rd (mb_flags_at ebx) s1)] s1 = Inr ((), s2)" "dev_step ?b s2"
    by (rule dev_step_say_hex [OF s1(2) b(1) boot_texts(2)]) (simp_all add: cstr_def)
  have mb: "rd (mb_mods_count_at ebx) s2 = 1" "rd (mb_mods_addr_at ebx) s2 = m"
    using one_module_dev [OF s2(2) b(2)] by (simp_all add: one_module_def)
  have start: "rd (mod_start_at m) s2 = rd (mod_start_at m) s" using low [OF s2(2) m4(1)] by (simp add: mod_start_at_def)
  obtain s3 where s3: "sayln ''address_of_module is %x '' [VInt (rd (mod_start_at m) s2)] s2 = Inr ((), s3)" "dev_step ?b s3"
    by (rule dev_step_say_hex [OF s2(2) b(1) module_text]) (simp_all add: cstr_def)
  have e3: "rd (mod_end_at m) s3 = ?e" by (rule low [OF s3(2) m4(2)])
  let ?s4 = "s3\<lparr>placement_address := ?p\<rparr>"
  have kh3: "kheap s3 = 0" using b(3) s3(2) by (auto elim: dev_stepE)
  have s4: "kmalloc (Suc n) 8 (s3\<lparr>placement_address := ?e\<rparr>) = Inr (?e, ?s4)"
    by (simp add: kmalloc_def kmalloc_int_def kmalloc_with_def seq_def ret_def kh3)
  have ue: "unat ?p = e" using e by (simp add: unat_add_numeral32)
  have ok4: "console_ok ?s4" using dev_step_cursor [OF s3(2)] dev_step_stdout [OF s3(2)] b(1) by (simp add: console_ok_def)
  have hm4: "rd 0xC0080FF8 ?s4 = rd 0xC0080FF8 s"
    using s3(2) b(4) unfolding rd_def
    by (intro ld32_only_in [of "0xB8000" "0xC0000"]) (simp_all add: dev_step_def unat_numeral32)
  obtain s5 where s5: "initialize_paging (Suc n) ?s4 = Inr ((), s5)" "console_ok s5"
    "kernel_heap (page_word (e div 4096 + 1 + 6)) boot_blocks s5" "tables_up (e div 4096 + 1) s5" "e div 4096 + 1 + 263 \<le> 1024"
    "current_directory s5 = 0xC0082000" "low_bitmap ?p (e div 4096 + 1)" "frames s5 = ?p" "nframes s5 = 0x1000"
    "used_frames s5 \<inter> {..<1024} = {..<e div 4096 + 1 + 263}" "task_regs s5 = task_regs ?s4" "rd 0xC0080FF8 s5 = rd 0xC0080FF8 ?s4"
    "\<forall>i. unat i < 1024 \<longrightarrow> rd (tables_at 0xC0082000 i) s5 = rd (tables_at (page_word (e div 4096 + 1)) i) s5
      \<and> rd (tablesPhysical_at 0xC0082000 i) s5 = rd (tablesPhysical_at (page_word (e div 4096 + 1)) i) s5"
    by (rule initialize_paging_runs [of ?s4 "e div 4096 + 1" n]) (use kh3 ok4 ue e in simp_all)
  have "of_nat e = ?p" by (rule of_nat_unat_eq [OF ue])
  then have up5: "kernel_up (of_nat e) (e div 4096 + 1) (e div 4096 + 264) boot_blocks s5"
    using s5 hm hm4 ue e by (simp add: kernel_up_def)
  obtain s6 where s6: "sayln ''paging up '' [] s5 = Inr ((), s6)" "printed s5 s6" "cursor_in 2080 s6"
    by (rule sayln_text [where k = 2080 and s = s5 and str = "''paging up ''" and va = "[]" and cs = "cstr ''paging up ''"])
      (use s5(2) in \<open>simp_all add: cursor_console cstr_def plain_def format_out_def\<close>)
  obtain s7 where s7: "sayln ''PageFault: %x '' [VInt (rd (placement_address s6 + 0xFD8) s6)] s6 = Inr ((), s7)"
    "printed s6 s7" "cursor_in 2080 s7"
    by (rule sayln_hex [OF s6(3), where ps = "cstr ''PageFault: ''" and qs = "[32]" and str = "''PageFault: %x ''"
          and v = "rd (placement_address s6 + 0xFD8) s6"]) (simp_all add: cstr_def plain_def)
  have up: "kernel_up (of_nat e) (e div 4096 + 1) (e div 4096 + 264) boot_blocks s7"
    by (rule kernel_up_printed [OF kernel_up_printed [OF up5 s6(2)] s7(2)])
  have live: "live_step s5 s7" by (rule live_step_trans [OF live_step_printed live_step_printed]) (fact s6 s7)+
  have "directory_is (e div 4096 + 1) (both_slots (e div 4096 + 1)) s5" using s5(4) by (simp add: tables_up_def)
  then have cl: "clone_slots (e div 4096 + 1) s7"
    using s5(13) by (intro clone_slots_live [OF _ live]) (simp add: clone_slots_def directory_is_def unat_of_nat32)
  have regs: "task_regs s5 = task_regs ?b" using s5(11) s3(2) by (auto elim!: dev_stepE simp: task_regs_def)
  have "kmain img (Suc n) ebx initial_stack s
      = seq (heap_test (Suc n) ?e) (\<lambda>_. seq (start_tasks (Suc n)) (\<lambda>_. start_module img (rd (mod_start_at m) s2))) s7"
    by (simp add: kmain_def seq_def Let_def s1(1) s2(1) s3(1) mb e3 s4 s5(1) s6(1) s7(1))
  then show ?thesis
    unfolding start using that [of s7] up s7(3) live regs s5(6) cl by (simp add: live_step_def)
qed

lemma kmain_heap_runs:
  assumes "always_ready_again s" and "unat (cursorPosition s) \<le> 2080" and "kheap s = 0" and "one_module ebx m s"
    and "e = unat (rd (mod_end_at m) s) + 8" "0xC0000 \<le> e" "e mod 4096 + 512 \<le> 4096" "e < 0x2F9000"
    and "rd 0xC0080FF8 s \<noteq> HEAP_MAGIC"
  obtains t where "kmain img (Suc n) ebx initial_stack s
      = seq (start_tasks (Suc n)) (\<lambda>_. start_module img (rd (mod_start_at m) s)) t"
    and "kernel_up (of_nat e) (e div 4096 + 1) (e div 4096 + 264) tested_blocks t" and "cursor_in 2080 t"
    and "current_directory t = 0xC0082000" and "task_regs t = task_regs (booted img initial_stack s)"
    and "clone_slots (e div 4096 + 1) t"
proof -
  obtain s1 where s1: "kmain img (Suc n) ebx initial_stack s
      = seq (heap_test (Suc n) (rd (mod_end_at m) s)) (\<lambda>_. seq (start_tasks (Suc n)) (\<lambda>_. start_module img (rd (mod_start_at m) s))) s1"
    "kernel_up (of_nat e) (e div 4096 + 1) (e div 4096 + 264) boot_blocks s1" "cursor_in 2080 s1"
    "current_directory s1 = 0xC0082000" "task_regs s1 = task_regs (booted img initial_stack s)"
    "clone_slots (e div 4096 + 1) s1"
    by (rule kmain_paging_runs [OF assms])
  obtain t where t: "heap_test (Suc n) (rd (mod_end_at m) s) s1 = Inr ((), t)"
    "kernel_up (of_nat e) (e div 4096 + 1) (e div 4096 + 264) tested_blocks t" "live_step s1 t" "cursor_in 2080 t"
    by (rule heap_test_runs [OF s1(2,3)])
  show ?thesis
    by (rule that [of t]) (use s1 t clone_slots_live [OF s1(6) t(3)] in \<open>simp_all add: live_step_def seq_def\<close>)
qed

end
