(* ===== verification/Boot_Tasks.thy ===== *)
theory Boot_Tasks
  imports Boot_Run
begin

text \<open>
  \<open>initialize_tasking\<close> on the running kernel: stores into the heap's blocks, page tables from the heap and frames for
  the pages of the new stack, the block of the first task, and the boot from power on to \<open>fork\<close>.
\<close>

unbundle bit_operations_syntax


subsection \<open>Stores into the heap's blocks\<close>

definition blocks_kept :: "block list \<Rightarrow> memory \<Rightarrow> memory \<Rightarrow> bool" where
  "blocks_kept bs m m' \<longleftrightarrow> (\<forall>x. 0xC0000000 \<le> unat x \<longrightarrow> unat x < 0xC0100000 \<longrightarrow> \<not> owned 0xC0081000 bs (unat x) \<longrightarrow> m' x = m x)"

lemma kernel_heap_owned:
  assumes h: "kernel_heap h bs s" and t: "kheap t = kheap s" "heap_at t = heap_at s" and o: "blocks_kept bs (mem s) (mem t)"
  shows "kernel_heap h bs t"
proof -
  note H = h [unfolded kernel_heap_def] and I = kernel_heap_index [OF h]
  have ok: "heap_ok h s bs" and st: "heap_start h s = 0xC0081000" and en: "heap_end h s = 0xC0100000" and srt: "index_sorted h s"
    using H by blast+
  have out: "\<not> owned 0xC0081000 bs x" if "x < 0xC0081000" for x using owned_range [of "0xC0081000" bs x] that by auto
  have "0xC0081000 + bsum bs = 0xC0100000" using heap_okD(4) [OF ok] by (simp add: st en)
  then have "same_but_owned (heap_start h s) bs (mem s) (mem t)" using o unfolding st same_but_owned_def blocks_kept_def by simp
  moreover have "same_on (oa_lo (index (heap_at s h))) (oa_hi (index (heap_at s h))) (mem s) (mem t)"
    unfolding same_on_def using o out I by (simp add: blocks_kept_def)
  ultimately have "heap_ok h t bs" "index_sorted h t" using heap_ok_owned [OF ok, of t] srt t(2) by simp_all
  then show ?thesis using H t by (simp add: kernel_heap_def)
qed

lemma kernel_up_owned:
  assumes k: "kernel_up p d c bs s" and t: "kheap t = kheap s" "heap_at t = heap_at s" "frames t = frames s"
    "nframes t = nframes s" "kernel_directory t = kernel_directory s"
    and o: "blocks_kept bs (mem s) (mem t)" and l: "same_on (4096 * d) (4096 * (d + 6)) (mem s) (mem t)"
    and u: "used_frames t \<inter> {..<1024} = {..<c'}"
  shows "kernel_up p d c' bs t"
proof -
  note K = kernel_upD [OF k]
  have out: "\<not> owned 0xC0081000 bs x" if "x < 0xC0081000" for x using owned_range [of "0xC0081000" bs x] that by auto
  have "same_on 0xC0080000 0xC0081000 (mem s) (mem t)" using o out by (simp add: same_on_def blocks_kept_def)
  then have "rd 0xC0080FF8 t = rd 0xC0080FF8 s"
    unfolding rd_def by (rule ld32_same_on) (simp_all add: unat_numeral32)
  moreover have "kernel_heap (page_word (d + 6)) bs t" by (rule kernel_heap_owned [OF K(4) t(1,2) o])
  moreover have "tables_up d t" by (rule tables_up_kept [OF K(5,3) t(5) l])
  ultimately show ?thesis using K t u by (simp add: kernel_up_def)
qed

text \<open>The frame bitmap apart, only bytes of allocated blocks change.\<close>

definition map_step :: "u32 \<Rightarrow> nat \<Rightarrow> block list \<Rightarrow> machine \<Rightarrow> machine \<Rightarrow> bool" where
  "map_step p d bs s t \<longleftrightarrow> t = s\<lparr>mem := mem t\<rparr>
     \<and> (\<forall>x. \<not> owned 0xC0081000 bs (unat x) \<longrightarrow> unat x < unat p \<or> 4096 * d \<le> unat x \<longrightarrow> mem t x = mem s x)"

lemma map_step_up:
  assumes k: "kernel_up p d c bs s" and m: "map_step p d bs s t" and u: "used_frames t \<inter> {..<1024} = {..<c'}"
  shows "kernel_up p d c' bs t"
proof -
  note K = kernel_upD [OF k]
  have out: "\<not> owned 0xC0081000 bs x" if "x < 0xC0081000" for x using owned_range [of "0xC0081000" bs x] that by auto
  have e: "t = s\<lparr>mem := mem t\<rparr>" and s: "\<And>x. \<not> owned 0xC0081000 bs (unat x) \<Longrightarrow> 4096 * d \<le> unat x \<Longrightarrow> mem t x = mem s x"
    using m by (simp_all add: map_step_def)
  have "kheap t = kheap s" "heap_at t = heap_at s" "frames t = frames s" "nframes t = nframes s" "kernel_directory t = kernel_directory s"
    by (subst e, simp)+
  moreover have "blocks_kept bs (mem s) (mem t)" using s K(13) by (simp add: blocks_kept_def)
  moreover have "same_on (4096 * d) (4096 * (d + 6)) (mem s) (mem t)" using s out K(13) by (simp add: same_on_def)
  ultimately show ?thesis using kernel_up_owned [OF k] u by blast
qed

lemma kernel_up_area:
  assumes k: "kernel_up p d c bs s" and m: "map_step p d bs s t" and b: "same_on (unat p) (unat p + 512) (mem s) (mem t)"
  shows "kernel_up p d c bs t"
proof (rule map_step_up [OF k m])
  note K = kernel_upD [OF k]
  have "t = s\<lparr>mem := mem t\<rparr>" using m by (simp add: map_step_def)
  then obtain m' where e: "t = s\<lparr>mem := m'\<rparr>" by blast
  have "used_frames t = used_frames s"
    by (rule used_frames_same) (use K b in \<open>simp_all add: e\<close>)
  then show "used_frames t \<inter> {..<1024} = {..<c}" using K(8) by simp
qed

text \<open>The next frame for an empty entry of a table in the heap.\<close>

lemma alloc_frame_up:
  assumes k: "kernel_up p d c bs s" and c: "c < 1024" and e: "rd page s = 0"
    and o: "\<forall>x. unat page \<le> x \<longrightarrow> x < unat page + 4 \<longrightarrow> owned 0xC0081000 bs x" and hi: "unat page + 4 \<le> 4294967296"
  obtains t where "alloc_frame page ik iw s = Inr ((), t)" and "rd page t = new_entry (of_nat c) ik iw 0"
    and "kernel_up p d (Suc c) bs t" and "map_step p d bs s t"
    and "\<forall>x. unat x < unat p \<or> 4096 * d \<le> unat x \<longrightarrow> unat x < unat page \<or> unat page + 4 \<le> unat x \<longrightarrow> mem t x = mem s x"
proof -
  note K = kernel_upD [OF k]
  have "owned 0xC0081000 bs (unat page)" using o by simp
  then have "0xC0081000 \<le> unat page" using owned_range by fastforce
  then have lo: "4096 * d \<le> unat page" using K(13) by simp
  obtain m where m: "alloc_frame page ik iw s = Inr ((), s\<lparr>mem := m\<rparr>)" "ld32 m page = new_entry (of_nat c) ik iw 0"
    "\<forall>x. (unat x < unat p \<or> 4096 * d \<le> unat x) \<longrightarrow> (unat x < unat page \<or> unat page + 4 \<le> unat x) \<longrightarrow> m x = mem s x"
    "used_frames (s\<lparr>mem := m\<rparr>) \<inter> {..<1024} = {..<Suc c}"
    by (rule give_frame [OF K(1,6,7) lo hi e K(8) c])
  have st: "map_step p d bs s (s\<lparr>mem := m\<rparr>)" unfolding map_step_def using m(3) o by (auto simp: not_less) 
  show ?thesis
    by (rule that [OF m(1) _ map_step_up [OF k st m(4)] st]) (use m(2,3) in \<open>simp_all add: rd_def\<close>)
qed

text \<open>\<open>get_page\<close> with a new table from the heap.\<close>

definition owned_area :: "block list \<Rightarrow> nat \<Rightarrow> nat \<Rightarrow> bool" where
  "owned_area bs lo hi \<longleftrightarrow> (\<forall>x. lo \<le> x \<longrightarrow> x < hi \<longrightarrow> owned 0xC0081000 bs x)"

lemma map_step_area:
  assumes e: "t = s\<lparr>mem := mem t\<rparr>" and o: "owned_area bs lo1 hi1" "owned_area bs lo2 hi2"
    and m: "\<forall>x. (unat x < lo1 \<or> hi1 \<le> unat x) \<longrightarrow> (unat x < lo2 \<or> hi2 \<le> unat x) \<longrightarrow> mem t x = mem s x"
  shows "map_step p d bs s t"
  unfolding map_step_def
proof (intro conjI allI impI)
  show "t = s\<lparr>mem := mem t\<rparr>" by (rule e)
  fix x :: u32 assume "\<not> owned 0xC0081000 bs (unat x)"
  then have "unat x < lo1 \<or> hi1 \<le> unat x" "unat x < lo2 \<or> hi2 \<le> unat x" using o unfolding owned_area_def by (meson not_less)+
  then show "mem t x = mem s x" by (rule m [rule_format])
qed

lemma get_page_new_table:
  assumes absent: "rd (tables_at 0xC0082000 (table_index a)) s = 0"
    and kap: "kap sizeof_page_table s = Inr ((page_word k, ph), s1)"
    and k: "0xC0085 \<le> k" "k < 0xC0100"
    and o: "owned_area bs 0xC0082000 0xC0084004" "owned_area bs (4096 * k) (4096 * k + 4096)"
  obtains t where "get_page kap a True 0xC0082000 s = Inr (pages_at (page_word k) (page_index a), t)"
    and "map_step p d bs s1 t" and "rd (tables_at 0xC0082000 (table_index a)) t = page_word k"
    and "rd (tablesPhysical_at 0xC0082000 (table_index a)) t = ph OR 7"
    and "\<forall>j < 1024. rd (pages_at (page_word k) (of_nat j)) t = 0"
    and "\<forall>i. unat i < 1024 \<longrightarrow> i \<noteq> table_index a \<longrightarrow> rd (tables_at 0xC0082000 i) t = rd (tables_at 0xC0082000 i) s1"
    and "\<forall>x. (unat x < 4096 * k \<or> 4096 * k + 4096 \<le> unat x) \<longrightarrow> (unat x < 0xC0082000 \<or> 0xC0084004 \<le> unat x) \<longrightarrow> mem t x = mem s1 x"
proof -
  let ?d = "0xC0082000 :: u32" and ?i = "table_index a"
  have d: "dir_ok ?d" "unat ?d = 0xC0082000" by (simp_all add: dir_ok_def unat_numeral32)
  have uk: "unat (page_word k) = 4096 * k" using k by (intro unat_page_word) simp
  have cl: "table_clear_of (page_word k) ?d" using k d by (simp add: table_clear_of_def uk)
  obtain t where t: "get_page kap a True ?d s = Inr (pages_at (page_word k) (page_index a), t)"
    "t = s1\<lparr>mem := mem t\<rparr>" "rd (tables_at ?d ?i) t = page_word k" "rd (tablesPhysical_at ?d ?i) t = ph OR 7"
    "\<forall>j < 1024. rd (pages_at (page_word k) (of_nat j)) t = 0"
    "\<forall>x. (unat x < unat (page_word k) \<or> unat (page_word k) + 4096 \<le> unat x) \<longrightarrow>
        (unat x < unat (tables_at ?d ?i) \<or> unat (tables_at ?d ?i) + 4 \<le> unat x) \<longrightarrow>
        (unat x < unat (tablesPhysical_at ?d ?i) \<or> unat (tablesPhysical_at ?d ?i) + 4 \<le> unat x) \<longrightarrow> mem t x = mem s1 x"
    by (rule get_page_makes [where kap = kap, OF absent kap cl])
  note b = table_index_bound [of a]
  note f = unat_dir_fields [OF d(1) b, unfolded d(2)]
  have area: "\<forall>x. (unat x < 4096 * k \<or> 4096 * k + 4096 \<le> unat x) \<longrightarrow> (unat x < 0xC0082000 \<or> 0xC0084004 \<le> unat x) \<longrightarrow> mem t x = mem s1 x"
    using t(6) f b by (auto simp: uk)
  have step: "map_step p d bs s1 t" by (rule map_step_area [OF t(2) o(2,1) area])
  have slots: "rd (tables_at ?d i) t = rd (tables_at ?d i) s1" if i: "unat i < 1024" "i \<noteq> ?i" for i
  proof -
    note g = unat_dir_fields [OF d(1) i(1), unfolded d(2)]
    have "unat i \<noteq> unat ?i" using i(2) by (metis unat_eqI32)
    then have "unat i < unat ?i \<or> unat ?i < unat i" by linarith
    then show ?thesis unfolding rd_def
      by (intro ld32_same_on [of "unat (tables_at ?d i)" "unat (tables_at ?d i) + 4"])
        (use t(6) f g b i(1) k in \<open>auto simp: same_on_def uk\<close>)
  qed
  show ?thesis by (rule that [OF t(1) step t(3,4,5) _ area]) (use slots in blast)
qed

text \<open>A request for a page-aligned block.\<close>

lemma kmalloc_ap_up:
  assumes u: "kernel_up p d c bs s" and sz: "unat sz < 0x7F000" and well: "aligns_well 0xC0081000 (unat sz) bs"
    and M: "bs = bs1 @ (True, N) # bs2" "front_size (0xC0081000 + bsum bs1) + unat sz + 20 \<le> N"
    and only: "\<And>cs1 M cs2. bs = cs1 @ (True, M) # cs2 \<Longrightarrow> front_size (0xC0081000 + bsum cs1) + unat sz + 20 \<le> M \<Longrightarrow> cs1 = bs1"
    and other: "\<forall>M. (True, M) \<in> set (bs1 @ bs2) \<and> M \<le> N \<longrightarrow> M \<le> front_size (0xC0081000 + bsum bs1)"
    and k: "bsum bs1 + front_size (0xC0081000 + bsum bs1) + 0x8100C = 4096 * k" "k < 256"
  obtains t where "kmalloc_ap (Suc n) sz s = Inr ((page_word (0xC0000 + k), page_word (d + 7 + k)), t)"
    and "kernel_up p d c (bs1 @ (True, front_size (0xC0081000 + bsum bs1))
        # cut_blocks (unat sz + 20) (N - front_size (0xC0081000 + bsum bs1)) @ bs2) t"
    and "heap_step (0xC0081000 + bsum bs1) (0xC0081000 + bsum bs1 + N) s t"
proof -
  note K = kernel_upD [OF u]
  obtain t where t: "kmalloc_ap (Suc n) sz s = Inr ((page_word (0xC0000 + k), page_word (d + 7 + k)), t)"
    "kernel_heap (page_word (d + 6)) (bs1 @ (True, front_size (0xC0081000 + bsum bs1))
        # cut_blocks (unat sz + 20) (N - front_size (0xC0081000 + bsum bs1)) @ bs2) t"
    "tables_up d t" "heap_step (0xC0081000 + bsum bs1) (0xC0081000 + bsum bs1 + N) s t"
    by (rule kernel_kmalloc_ap [OF K(4,12,5,3) sz well M only other k])
  have "kept_low (mem s) (mem t)" by (rule heap_step_kept [OF t(4)]) simp
  from kernel_up_step [OF u t(2) this] heap_step_fields [OF t(4)] show ?thesis using that t(1,4) by simp
qed

subsection \<open>The pages of the new stack\<close>

text \<open>Only the frame bitmap and the heap's memory change.\<close>

definition stack_step :: "u32 \<Rightarrow> nat \<Rightarrow> machine \<Rightarrow> machine \<Rightarrow> bool" where
  "stack_step p d s t \<longleftrightarrow> (\<exists>m a. t = s\<lparr>mem := m, heap_at := a\<rparr>)
     \<and> (\<forall>x. (unat x < unat p \<or> 4096 * d \<le> unat x) \<longrightarrow> (unat x < 0xC0000000 \<or> 0xC0100000 \<le> unat x) \<longrightarrow> mem t x = mem s x)"

lemma stack_step_trans [trans]:
  assumes "stack_step p d s t" and "stack_step p d t u"
  shows "stack_step p d s u"
proof -
  obtain m a m' a' where "t = s\<lparr>mem := m, heap_at := a\<rparr>" "u = t\<lparr>mem := m', heap_at := a'\<rparr>"
    using assms unfolding stack_step_def by blast
  then have "u = s\<lparr>mem := m', heap_at := a'\<rparr>" by simp
  then show ?thesis using assms unfolding stack_step_def by metis
qed

lemma stack_step_heap:
  assumes "heap_step lo hi s t" and "0xC0081000 \<le> lo" and "hi \<le> 0xC0100000"
  shows "stack_step p d s t"
  unfolding stack_step_def using assms by (auto simp: heap_step_def)

lemma stack_step_map:
  assumes "map_step p d bs s t" and "bsum bs = 0x7F000"
  shows "stack_step p d s t"
proof -
  have "t = s\<lparr>mem := mem t, heap_at := heap_at t\<rparr>"
  proof -
    obtain m where e: "t = s\<lparr>mem := m\<rparr>" using assms(1) unfolding map_step_def by blast
    show ?thesis unfolding e by simp
  qed
  moreover have "\<not> owned 0xC0081000 bs x" if "x < 0xC0000000 \<or> 0xC0100000 \<le> x" for x
    using owned_range [of "0xC0081000" bs x] that assms(2) by auto
  ultimately show ?thesis using assms(1) unfolding stack_step_def map_step_def by (intro conjI) (blast, simp)
qed

definition stack_blocks :: "block list" where
  "stack_blocks = [(False, 32), (True, 4052), (False, 8216), (True, 4072), (False, 4116), (True, 4076), (False, 4116), (True, 491512)]"

lemma stack_tables:
  assumes k: "kernel_up p d c tested_blocks s"
  obtains t where "kmalloc_ap (Suc n) sizeof_page_table s = Inr ((page_word 0xC0085, page_word (d + 140)), t)"
    and "kernel_up p d c [(False, 32), (True, 4052), (False, 8216), (True, 4072), (False, 4116), (True, 499704)] t"
    and "heap_step 0xC008400C 0xC0100000 s t"
proof -
  have sz: "unat sizeof_page_table = 4096" by (simp add: sizeof_page_table_def)
  note fs = sz front_size_def tested_blocks_def
  have well: "aligns_well 0xC0081000 (unat sizeof_page_table) tested_blocks"
    unfolding aligns_well_def by (auto simp: fs Cons_eq_append_conv Let_def)
  show ?thesis
    by (rule kmalloc_ap_up [OF k _ well, of "[(False, 32), (True, 4052), (False, 8216)]" "507892" "[]" 133 n])
      (use that in \<open>auto simp: fs Cons_eq_append_conv cut_blocks_def add.commute\<close>)
qed

lemma stack_tables_second:
  assumes k: "kernel_up p d c [(False, 32), (True, 4052), (False, 8216), (True, 4072), (False, 4116), (True, 499704)] s"
  obtains t where "kmalloc_ap (Suc n) sizeof_page_table s = Inr ((page_word 0xC0087, page_word (d + 142)), t)"
    and "kernel_up p d c stack_blocks t" and "heap_step 0xC0086008 0xC0100000 s t"
proof -
  have sz: "unat sizeof_page_table = 4096" by (simp add: sizeof_page_table_def)
  note fs = sz front_size_def stack_blocks_def
  have well: "aligns_well 0xC0081000 (unat sizeof_page_table) [(False, 32), (True, 4052), (False, 8216), (True, 4072), (False, 4116), (True, 499704)]"
    unfolding aligns_well_def by (auto simp: fs Cons_eq_append_conv Let_def)
  show ?thesis
    by (rule kmalloc_ap_up [OF k _ well, of "[(False, 32), (True, 4052), (False, 8216), (True, 4072), (False, 4116)]" "499704" "[]" 135 n])
      (use that in \<open>auto simp: fs Cons_eq_append_conv cut_blocks_def add.commute\<close>)
qed

text \<open>The areas of \<open>stack_blocks\<close> and of the blocks before that the directory and the tables are in.\<close>

lemma stack_areas:
  "owned_area stack_blocks 0xC0082000 0xC0084004" "owned_area stack_blocks 0xC0085000 0xC0086000"
  "owned_area stack_blocks 0xC0087000 0xC0088000"
  "owned_area [(False, 32), (True, 4052), (False, 8216), (True, 4072), (False, 4116), (True, 499704)] 0xC0082000 0xC0084004"
  "owned_area [(False, 32), (True, 4052), (False, 8216), (True, 4072), (False, 4116), (True, 499704)] 0xC0085000 0xC0086000"
  by (simp_all add: owned_area_def stack_blocks_def)

lemma bsum_stack [simp]: "bsum stack_blocks = 0x7F000"
  by (simp add: stack_blocks_def)

text \<open>One round of the loop.\<close>

lemma map_stack_step:
  assumes "limit \<le> i" and "\<not> i < 0x1000" and "get_page kap i True (current_directory s) s = Inr (page, s1)"
    and "alloc_frame page 0 1 s1 = Inr ((), s2)"
  shows "map_stack_loop kap limit i s = map_stack_loop kap limit (i - 0x1000) s2"
  using assms by (subst map_stack_loop.simps) (simp add: seq_def)

text \<open>The slots of the second directory but those with numbers in \<open>I\<close>.\<close>

definition slots_kept :: "u32 set \<Rightarrow> machine \<Rightarrow> machine \<Rightarrow> bool" where
  "slots_kept I s t \<longleftrightarrow> (\<forall>i. unat i < 1024 \<longrightarrow> i \<notin> I \<longrightarrow> rd (tables_at 0xC0082000 i) t = rd (tables_at 0xC0082000 i) s)"

lemma slots_kept_trans: "slots_kept I s t \<Longrightarrow> slots_kept J t u \<Longrightarrow> slots_kept (I \<union> J) s u"
  by (simp add: slots_kept_def)

lemma slot_place: "unat i < 1024 \<Longrightarrow> unat (tables_at 0xC0082000 i) = 0xC0082000 + 4 * unat i"
  using unat_dir_fields(1) [of "0xC0082000" i] by (simp add: dir_ok_def unat_numeral32)

text \<open>The tables of the new stack and the frames of its three pages.\<close>

definition stack_mapped :: "nat \<Rightarrow> machine \<Rightarrow> bool" where
  "stack_mapped c s \<longleftrightarrow> rd (tables_at 0xC0082000 896) s = 0xC0085000 \<and> rd (tables_at 0xC0082000 895) s = 0xC0087000
     \<and> rd (pages_at 0xC0085000 0) s = new_entry (of_nat c) 0 1 0
     \<and> rd (pages_at 0xC0087000 1023) s = new_entry (of_nat (c + 1)) 0 1 0
     \<and> rd (pages_at 0xC0087000 1022) s = new_entry (of_nat (c + 2)) 0 1 0"

lemma rd_same: "\<forall>x. unat a \<le> unat x \<longrightarrow> unat x < unat a + 4 \<longrightarrow> mem t x = mem s x \<Longrightarrow> unat a + 4 \<le> 4294967296 \<Longrightarrow> rd a t = rd a s"
  unfolding rd_def by (rule ld32_same_on [of "unat a" "unat a + 4"]) (simp_all add: same_on_def)

lemma stack_pages_first:
  assumes k: "kernel_up p d c tested_blocks s" and c: "c < 1024" and cd: "current_directory s = 0xC0082000"
    and z: "rd (tables_at 0xC0082000 896) s = 0" "rd (tables_at 0xC0082000 895) s = 0"
  obtains t where "map_stack_loop (kmalloc_ap (Suc n)) 0xDFFFE000 0xE0000000 s = map_stack_loop (kmalloc_ap (Suc n)) 0xDFFFE000 0xDFFFF000 t"
    and "kernel_up p d (Suc c) [(False, 32), (True, 4052), (False, 8216), (True, 4072), (False, 4116), (True, 499704)] t"
    and "stack_step p d s t" and "rd (tables_at 0xC0082000 896) t = 0xC0085000" and "rd (tables_at 0xC0082000 895) t = 0"
    and "rd (pages_at 0xC0085000 0) t = new_entry (of_nat c) 0 1 0" and "slots_kept {896} s t"
proof -
  let ?bs = "[(False, 32), (True, 4052), (False, 8216), (True, 4072), (False, 4116), (True, 499704)] :: block list"
  note K = kernel_upD [OF k]
  have ti: "table_index 0xE0000000 = 896" "page_index 0xE0000000 = 0" by (simp_all add: table_index_def page_index_def)
  have pw: "page_word 0xC0085 = 0xC0085000" by (simp add: page_word_def)
  obtain s1 where s1: "kmalloc_ap (Suc n) sizeof_page_table s = Inr ((page_word 0xC0085, page_word (d + 140)), s1)"
    "kernel_up p d c ?bs s1" "heap_step 0xC008400C 0xC0100000 s s1"
    by (rule stack_tables [OF k])
  have d1: "rd a s1 = rd a s" if "0xC0082000 \<le> unat a" "unat a + 4 \<le> 0xC008400C" for a
    by (rule rd_same) (use s1(3) that in \<open>simp_all add: heap_step_def\<close>)
  obtain s2 where s2: "get_page (kmalloc_ap (Suc n)) 0xE0000000 True 0xC0082000 s = Inr (pages_at 0xC0085000 0, s2)"
    "map_step p d ?bs s1 s2" "rd (tables_at 0xC0082000 896) s2 = 0xC0085000"
    "\<forall>j < 1024. rd (pages_at 0xC0085000 (of_nat j)) s2 = 0"
    "\<forall>i. unat i < 1024 \<longrightarrow> i \<noteq> 896 \<longrightarrow> rd (tables_at 0xC0082000 i) s2 = rd (tables_at 0xC0082000 i) s1"
    "\<forall>x. (unat x < 0xC0085000 \<or> 0xC0086000 \<le> unat x) \<longrightarrow> (unat x < 0xC0082000 \<or> 0xC0084004 \<le> unat x) \<longrightarrow> mem s2 x = mem s1 x"
    by (rule get_page_new_table [where kap = "kmalloc_ap (Suc n)" and a = "0xE0000000" and k = "0xC0085", unfolded ti pw, OF z(1) s1(1) [unfolded pw] _ _ stack_areas(4)])
      (use stack_areas(5) in simp_all)
  have lo: "unat p + 512 \<le> 0xC0082000" using K(11,13) by simp
  have k2: "kernel_up p d c ?bs s2"
    by (rule kernel_up_area [OF s1(2) s2(2)]) (use s2(6) lo in \<open>simp add: same_on_def\<close>)
  have pg: "unat (pages_at 0xC0085000 0) = 0xC0085000" by (simp add: pages_at_def unat_numeral32)
  have e: "rd (pages_at 0xC0085000 0) s2 = 0" using s2(4) [rule_format, of 0] by simp
  obtain t where t: "alloc_frame (pages_at 0xC0085000 0) 0 1 s2 = Inr ((), t)" "rd (pages_at 0xC0085000 0) t = new_entry (of_nat c) 0 1 0"
    "kernel_up p d (Suc c) ?bs t" "map_step p d ?bs s2 t"
    "\<forall>x. unat x < unat p \<or> 4096 * d \<le> unat x \<longrightarrow> unat x < 0xC0085000 \<or> 0xC0085004 \<le> unat x \<longrightarrow> mem t x = mem s2 x"
    by (rule alloc_frame_up [OF k2 c e, of 0 1, unfolded pg])
      (use stack_areas(5) in \<open>auto simp: owned_area_def\<close>)
  have hi: "4096 * d \<le> 0xC0082000" using K(13) by simp
  have slot: "rd (tables_at 0xC0082000 i) t = rd (tables_at 0xC0082000 i) s2" if "unat i < 1024" for i
    by (rule rd_same) (use t(5) hi that unat_dir_fields(1) [of "0xC0082000" i] in \<open>simp_all add: dir_ok_def unat_numeral32\<close>)
  have t896: "rd (tables_at 0xC0082000 896) t = 0xC0085000" using slot [of 896] s2(3) by (simp add: unat_numeral32)
  have "rd (tables_at 0xC0082000 895) t = rd (tables_at 0xC0082000 895) s1" using slot [of 895] s2(5) by (simp add: unat_numeral32)
  also have "\<dots> = 0" using d1 [of "tables_at 0xC0082000 895"] z(2) by (simp add: tables_at_def unat_numeral32)
  finally have t895: "rd (tables_at 0xC0082000 895) t = 0" .
  have "stack_step p d s s1" by (rule stack_step_heap [OF s1(3)]) simp_all
  also have "stack_step p d s1 s2" by (rule stack_step_map [OF s2(2)]) simp
  also have "stack_step p d s2 t" by (rule stack_step_map [OF t(4)]) simp
  finally have st: "stack_step p d s t" .
  have "map_stack_loop (kmalloc_ap (Suc n)) 0xDFFFE000 0xE0000000 s = map_stack_loop (kmalloc_ap (Suc n)) 0xDFFFE000 (0xE0000000 - 0x1000) t"
    by (rule map_stack_step [OF _ _ s2(1) [folded cd] t(1)]) simp_all
  moreover have "slots_kept {896} s t"
    unfolding slots_kept_def
  proof (intro allI impI)
    fix i :: u32 assume i: "unat i < 1024" "i \<notin> {896}"
    then have "rd (tables_at 0xC0082000 i) t = rd (tables_at 0xC0082000 i) s1" using slot [of i] s2(5) by simp
    then show "rd (tables_at 0xC0082000 i) t = rd (tables_at 0xC0082000 i) s"
      using d1 [of "tables_at 0xC0082000 i"] slot_place [OF i(1)] i(1) by simp
  qed
  ultimately show ?thesis using that [of t] t(2,3) t895 t896 st by simp
qed

lemma stack_step_current: "stack_step p d s t \<Longrightarrow> current_directory t = current_directory s"
  by (auto simp: stack_step_def)

lemma stack_pages_second:
  assumes k: "kernel_up p d c [(False, 32), (True, 4052), (False, 8216), (True, 4072), (False, 4116), (True, 499704)] s"
    and c: "c + 1 < 1024" and cd: "current_directory s = 0xC0082000"
    and z: "rd (tables_at 0xC0082000 896) s = 0xC0085000" "rd (tables_at 0xC0082000 895) s = 0"
  obtains t where "map_stack_loop (kmalloc_ap (Suc n)) 0xDFFFE000 0xDFFFF000 s = Inr ((), t)"
    and "kernel_up p d (c + 2) stack_blocks t" and "stack_step p d s t"
    and "rd (tables_at 0xC0082000 896) t = 0xC0085000" and "rd (tables_at 0xC0082000 895) t = 0xC0087000"
    and "rd (pages_at 0xC0085000 0) t = rd (pages_at 0xC0085000 0) s"
    and "rd (pages_at 0xC0087000 1023) t = new_entry (of_nat c) 0 1 0"
    and "rd (pages_at 0xC0087000 1022) t = new_entry (of_nat (c + 1)) 0 1 0" and "slots_kept {895} s t"
proof -
  let ?bs = stack_blocks
  note K = kernel_upD [OF k]
  have ti: "table_index 0xDFFFF000 = 895" "page_index 0xDFFFF000 = 1023" "table_index 0xDFFFE000 = 895" "page_index 0xDFFFE000 = 1022"
    by (simp_all add: table_index_def page_index_def)
  have pw: "page_word 0xC0087 = 0xC0087000" by (simp add: page_word_def)
  have lo: "unat p + 512 \<le> 0xC0082000" "4096 * d \<le> 0xC0082000" using K(11,13) by simp_all
  obtain s1 where s1: "kmalloc_ap (Suc n) sizeof_page_table s = Inr ((page_word 0xC0087, page_word (d + 142)), s1)"
    "kernel_up p d c ?bs s1" "heap_step 0xC0086008 0xC0100000 s s1"
    by (rule stack_tables_second [OF k])
  have d1: "rd a s1 = rd a s" if "0xC0082000 \<le> unat a" "unat a + 4 \<le> 0xC0086008" for a
    by (rule rd_same) (use s1(3) that in \<open>simp_all add: heap_step_def\<close>)
  obtain s2 where s2: "get_page (kmalloc_ap (Suc n)) 0xDFFFF000 True 0xC0082000 s = Inr (pages_at 0xC0087000 1023, s2)"
    "map_step p d ?bs s1 s2" "rd (tables_at 0xC0082000 895) s2 = 0xC0087000"
    "\<forall>j < 1024. rd (pages_at 0xC0087000 (of_nat j)) s2 = 0"
    "\<forall>i. unat i < 1024 \<longrightarrow> i \<noteq> 895 \<longrightarrow> rd (tables_at 0xC0082000 i) s2 = rd (tables_at 0xC0082000 i) s1"
    "\<forall>x. (unat x < 0xC0087000 \<or> 0xC0088000 \<le> unat x) \<longrightarrow> (unat x < 0xC0082000 \<or> 0xC0084004 \<le> unat x) \<longrightarrow> mem s2 x = mem s1 x"
    by (rule get_page_new_table [where kap = "kmalloc_ap (Suc n)" and a = "0xDFFFF000" and k = "0xC0087", unfolded ti pw, OF z(2) s1(1) [unfolded pw] _ _ stack_areas(1)])
      (use stack_areas(3) in simp_all)
  have k2: "kernel_up p d c ?bs s2"
    by (rule kernel_up_area [OF s1(2) s2(2)]) (use s2(6) lo in \<open>simp add: same_on_def\<close>)
  have pg: "unat (pages_at 0xC0087000 1023) = 0xC0087FFC" "unat (pages_at 0xC0087000 1022) = 0xC0087FF8" "unat (pages_at 0xC0085000 0) = 0xC0085000"
    by (simp_all add: pages_at_def unat_numeral32)
  have e: "rd (pages_at 0xC0087000 1023) s2 = 0" "rd (pages_at 0xC0087000 1022) s2 = 0"
    using s2(4) [rule_format, of 1023] s2(4) [rule_format, of 1022] by simp_all
  obtain s3 where s3: "alloc_frame (pages_at 0xC0087000 1023) 0 1 s2 = Inr ((), s3)" "rd (pages_at 0xC0087000 1023) s3 = new_entry (of_nat c) 0 1 0"
    "kernel_up p d (Suc c) ?bs s3" "map_step p d ?bs s2 s3"
    "\<forall>x. unat x < unat p \<or> 4096 * d \<le> unat x \<longrightarrow> unat x < 0xC0087FFC \<or> 0xC0088000 \<le> unat x \<longrightarrow> mem s3 x = mem s2 x"
    by (rule alloc_frame_up [OF k2 _ e(1), of 0 1, unfolded pg(1)])
      (use stack_areas(3) c in \<open>auto simp: owned_area_def\<close>)
  have d3: "rd a s3 = rd a s2" if "0xC0082000 \<le> unat a" "unat a + 4 \<le> 0xC0087FFC" for a
    by (rule rd_same) (use s3(5) lo that in simp_all)
  have t895: "rd (tables_at 0xC0082000 895) s3 = 0xC0087000" using d3 [of "tables_at 0xC0082000 895"] s2(3) by (simp add: tables_at_def unat_numeral32)
  have "stack_step p d s s1" by (rule stack_step_heap [OF s1(3)]) simp_all
  also have "stack_step p d s1 s2" by (rule stack_step_map [OF s2(2)]) simp
  also have "stack_step p d s2 s3" by (rule stack_step_map [OF s3(4)]) simp
  finally have st3: "stack_step p d s s3" .
  have cd3: "current_directory s3 = 0xC0082000" using stack_step_current [OF st3] cd by simp
  have g3: "get_page (kmalloc_ap (Suc n)) 0xDFFFE000 True (current_directory s3) s3 = Inr (pages_at 0xC0087000 1022, s3)"
    using get_page_present [of "0xC0082000" "0xDFFFE000" s3 "kmalloc_ap (Suc n)" True] t895 unfolding ti cd3 by simp
  have e3: "rd (pages_at 0xC0087000 1022) s3 = 0" using d3 [of "pages_at 0xC0087000 1022"] e(2) by (simp add: pg)
  obtain t where t: "alloc_frame (pages_at 0xC0087000 1022) 0 1 s3 = Inr ((), t)" "rd (pages_at 0xC0087000 1022) t = new_entry (of_nat (Suc c)) 0 1 0"
    "kernel_up p d (Suc (Suc c)) ?bs t" "map_step p d ?bs s3 t"
    "\<forall>x. unat x < unat p \<or> 4096 * d \<le> unat x \<longrightarrow> unat x < 0xC0087FF8 \<or> 0xC0087FFC \<le> unat x \<longrightarrow> mem t x = mem s3 x"
    by (rule alloc_frame_up [OF s3(3) _ e3, of 0 1, unfolded pg(2)])
      (use stack_areas(3) c in \<open>auto simp: owned_area_def\<close>)
  have dt: "rd a t = rd a s3" if "0xC0082000 \<le> unat a" "unat a + 4 \<le> 0xC0087FF8 \<or> unat a = 0xC0087FFC" for a
    by (rule rd_same) (use t(5) lo that in auto)
  have all: "rd a t = rd a s" if "0xC0085000 \<le> unat a" "unat a + 4 \<le> 0xC0086008" for a
  proof -
    have "rd a s2 = rd a s1" by (rule rd_same) (use s2(6) that in simp_all)
    then show ?thesis using dt [of a] d3 [of a] d1 [of a] that by simp
  qed
  have "rd (tables_at 0xC0082000 896) t = rd (tables_at 0xC0082000 896) s2"
    using dt [of "tables_at 0xC0082000 896"] d3 [of "tables_at 0xC0082000 896"] by (simp add: tables_at_def unat_numeral32)
  also have "\<dots> = rd (tables_at 0xC0082000 896) s1" using s2(5) by (simp add: unat_numeral32)
  also have "\<dots> = 0xC0085000" using d1 [of "tables_at 0xC0082000 896"] z(1) by (simp add: tables_at_def unat_numeral32)
  finally have t896: "rd (tables_at 0xC0082000 896) t = 0xC0085000" .
  have u895: "rd (tables_at 0xC0082000 895) t = 0xC0087000" using dt [of "tables_at 0xC0082000 895"] t895 by (simp add: tables_at_def unat_numeral32)
  have u: "rd (pages_at 0xC0085000 0) t = rd (pages_at 0xC0085000 0) s" using all [of "pages_at 0xC0085000 0"] pg(3) by simp
  have v: "rd (pages_at 0xC0087000 1023) t = new_entry (of_nat c) 0 1 0" using dt [of "pages_at 0xC0087000 1023"] s3(2) pg(1) by simp
  have "stack_step p d s t" by (rule stack_step_trans [OF st3 stack_step_map [OF t(4)]]) simp
  moreover have "map_stack_loop (kmalloc_ap (Suc n)) 0xDFFFE000 0xDFFFF000 s = Inr ((), t)"
  proof -
    have "map_stack_loop (kmalloc_ap (Suc n)) 0xDFFFE000 0xDFFFF000 s = map_stack_loop (kmalloc_ap (Suc n)) 0xDFFFE000 (0xDFFFF000 - 0x1000) s3"
      by (rule map_stack_step [OF _ _ s2(1) [folded cd] s3(1)]) simp_all
    also have "\<dots> = map_stack_loop (kmalloc_ap (Suc n)) 0xDFFFE000 0xDFFFE000 s3" by simp
    also have "\<dots> = map_stack_loop (kmalloc_ap (Suc n)) 0xDFFFE000 (0xDFFFE000 - 0x1000) t"
      by (rule map_stack_step [OF _ _ g3 t(1)]) simp_all
    also have "\<dots> = Inr ((), t)" by (subst map_stack_loop.simps) simp
    finally show ?thesis .
  qed
  moreover have "slots_kept {895} s t"
    unfolding slots_kept_def
  proof (intro allI impI)
    fix i :: u32 assume i: "unat i < 1024" "i \<notin> {895}"
    note q = slot_place [OF i(1)]
    have "rd (tables_at 0xC0082000 i) t = rd (tables_at 0xC0082000 i) s2"
      using dt [of "tables_at 0xC0082000 i"] d3 [of "tables_at 0xC0082000 i"] q i(1) by simp
    then show "rd (tables_at 0xC0082000 i) t = rd (tables_at 0xC0082000 i) s"
      using s2(5) i d1 [of "tables_at 0xC0082000 i"] q by simp
  qed
  ultimately show ?thesis using that [of t] t(2,3) t896 u895 u v by simp
qed

lemma stack_pages:
  assumes k: "kernel_up p d c tested_blocks s" and c: "c + 2 < 1024" and cd: "current_directory s = 0xC0082000"
    and z: "rd (tables_at 0xC0082000 896) s = 0" "rd (tables_at 0xC0082000 895) s = 0"
  obtains t where "map_stack_loop (kmalloc_ap (Suc n)) 0xDFFFE000 0xE0000000 s = Inr ((), t)"
    and "kernel_up p d (c + 3) stack_blocks t" and "stack_step p d s t" and "stack_mapped c t" and "slots_kept {895, 896} s t"
proof -
  obtain s1 where s1: "map_stack_loop (kmalloc_ap (Suc n)) 0xDFFFE000 0xE0000000 s = map_stack_loop (kmalloc_ap (Suc n)) 0xDFFFE000 0xDFFFF000 s1"
    "kernel_up p d (Suc c) [(False, 32), (True, 4052), (False, 8216), (True, 4072), (False, 4116), (True, 499704)] s1"
    "stack_step p d s s1" "rd (tables_at 0xC0082000 896) s1 = 0xC0085000" "rd (tables_at 0xC0082000 895) s1 = 0"
    "rd (pages_at 0xC0085000 0) s1 = new_entry (of_nat c) 0 1 0" "slots_kept {896} s s1"
    by (rule stack_pages_first [OF k _ cd z]) (use c in simp_all)
  have cd1: "current_directory s1 = 0xC0082000" using stack_step_current [OF s1(3)] cd by simp
  obtain t where t: "map_stack_loop (kmalloc_ap (Suc n)) 0xDFFFE000 0xDFFFF000 s1 = Inr ((), t)"
    "kernel_up p d (Suc c + 2) stack_blocks t" "stack_step p d s1 t"
    "rd (tables_at 0xC0082000 896) t = 0xC0085000" "rd (tables_at 0xC0082000 895) t = 0xC0087000"
    "rd (pages_at 0xC0085000 0) t = rd (pages_at 0xC0085000 0) s1"
    "rd (pages_at 0xC0087000 1023) t = new_entry (of_nat (Suc c)) 0 1 0"
    "rd (pages_at 0xC0087000 1022) t = new_entry (of_nat (Suc c + 1)) 0 1 0" "slots_kept {895} s1 t"
    by (rule stack_pages_second [OF s1(2) _ cd1 s1(4,5)]) (use c in simp_all)
  have "stack_mapped c t" using t s1(6) by (simp add: stack_mapped_def)
  moreover have "kernel_up p d (c + 3) stack_blocks t" using t(2) by (simp add: numeral_3_eq_3)
  moreover have "slots_kept {895, 896} s t" using slots_kept_trans [OF s1(7) t(9)] by (simp add: insert_commute)
  ultimately show ?thesis using that [of t] s1(1) t(1) stack_step_trans [OF s1(3) t(3)] by simp
qed

subsection \<open>\<open>initialize_tasking\<close> on the running kernel\<close>

definition tasked_blocks :: "block list" where
  "tasked_blocks = [(False, 32), (False, 44), (True, 4008), (False, 8216), (True, 4072), (False, 4116), (True, 4076), (False, 4116), (True, 491512)]"

lemma kernel_up_same:
  assumes k: "kernel_up p d c bs s" and f: "kheap t = kheap s" "heap_at t = heap_at s" "frames t = frames s" "nframes t = nframes s"
    "kernel_directory t = kernel_directory s" and m: "kept_low (mem s) (mem t)" "same_on 0xC0000000 0xC0100000 (mem s) (mem t)"
  shows "kernel_up p d c bs t"
  by (rule kernel_up_step [OF k kernel_heap_kept [OF kernel_upD(4) [OF k] f(1,2) m(2)] m(1) f(3-5)])

lemma task_block:
  assumes k: "kernel_up p d c stack_blocks s"
  obtains t where "kmalloc (Suc n) sizeof_task s = Inr (0xC008102C, t)" and "kernel_up p d c tasked_blocks t"
    and "heap_step 0xC0081020 0xC0081FF4 s t"
proof -
  have z: "unat sizeof_task = 24" by (simp add: sizeof_task_def)
  have M: "(True, 4052) \<in> set stack_blocks" "unat sizeof_task + 20 \<le> 4052" by (simp_all add: stack_blocks_def z)
  obtain bs1 N bs2 t where t: "stack_blocks = bs1 @ (True, N) # bs2" "unat sizeof_task + 20 \<le> N"
    "\<forall>M. (True, M) \<in> set stack_blocks \<and> unat sizeof_task + 20 \<le> M \<longrightarrow> N \<le> M"
    "kmalloc (Suc n) sizeof_task s = Inr (of_nat (0xC0081000 + bsum bs1 + 12), t)"
    "kernel_up p d c (bs1 @ cut_blocks (cut_size (unat sizeof_task) N) N @ bs2) t"
    "heap_step (0xC0081000 + bsum bs1) (0xC0081000 + bsum bs1 + N) s t"
    by (rule kmalloc_up [OF k M])
  have "N \<le> 4052" using t(3) M by blast
  then have "bs1 = [(False, 32)] \<and> N = 4052 \<and> bs2 = [(False, 8216), (True, 4072), (False, 4116), (True, 4076), (False, 4116), (True, 491512)]"
    using t(1) by (auto simp: stack_blocks_def Cons_eq_append_conv)
  then show ?thesis using that [of t] t(4-6) by (simp add: z cut_blocks_def cut_size_def tasked_blocks_def)
qed

lemma tasking_runs:
  assumes k: "kernel_up p d c tested_blocks s" and c: "c + 2 < 1024" and cd: "current_directory s = 0xC0082000"
    and z: "rd (tables_at 0xC0082000 896) s = 0" "rd (tables_at 0xC0082000 895) s = 0"
    and st: "unat (initial_esp s) = unat (esp s) + 4 * l" "l < 2048" "unat (initial_esp s) \<le> unat p"
  obtains u where "initialize_tasking (Suc n) s = Inr ((), u)" and "kernel_up p d (c + 3) tasked_blocks u"
    and "stack_mapped c u" and "queue_ok [0xC008102C] u" and "current_task u = 0xC008102C" and "getpid u = next_pid s"
    and "next_pid u = next_pid s + 1" and "rd (task_directory_at 0xC008102C) u = 0xC0082000" and "iflag u"
    and "esp u = esp s + (0xE0000000 - initial_esp s)" and "ebp u = ebp s + (0xE0000000 - initial_esp s)"
    and "current_directory u = 0xC0082000" and "\<And>k. cursor_in k u = cursor_in k s"
    and "\<forall>k. 1 \<le> k \<longrightarrow> k \<le> l \<longrightarrow> rd (0xE0000000 - of_nat (4 * k)) u
          = relocate_word (esp s) (initial_esp s) (0xE0000000 - initial_esp s) (rd (initial_esp s - of_nat (4 * k)) s)"
    and "slots_kept {895, 896} s u" and "eip u = eip s"
proof -
  let ?D = "0xE0000000 - initial_esp s"
  note K = kernel_upD [OF k]
  have k0: "kernel_up p d c tested_blocks (cli s)" by (rule kernel_up_same [OF k]) (simp_all add: cli_def same_on_def)
  obtain s1 where s1: "map_stack_loop (kmalloc_ap (Suc n)) 0xDFFFE000 0xE0000000 (cli s) = Inr ((), s1)"
    "kernel_up p d (c + 3) stack_blocks s1" "stack_step p d (cli s) s1" "stack_mapped c s1" "slots_kept {895, 896} (cli s) s1"
    by (rule stack_pages [OF k0 c]) (use cd z in \<open>simp_all add: cli_def rd_def\<close>)
  obtain m1 a1 where e1: "s1 = (cli s)\<lparr>mem := m1, heap_at := a1\<rparr>" using s1(3) unfolding stack_step_def by blast
  have f1: "initial_esp s1 = initial_esp s" "esp s1 = esp s" "ebp s1 = ebp s" by (simp_all add: e1 cli_def)
  have p: "unat p + 512 \<le> 0x400000" using K(11,13) by simp
  obtain m2 where m2: "move_stack (Suc n) 0xE0000000 0x2000 (cli s) = Inr ((), s1\<lparr>mem := m2, esp := esp s + ?D, ebp := ebp s + ?D\<rparr>)"
    "\<forall>k. 1 \<le> k \<longrightarrow> k \<le> l \<longrightarrow> ld32 m2 (0xE0000000 - of_nat (4 * k))
          = relocate_word (esp s) (initial_esp s) ?D (rd (initial_esp s - of_nat (4 * k)) s1)"
    "only_in 0xDFFFE000 0xE0000004 (mem s1) m2"
    using move_stack_runs [of "Suc n" "0xE0000000" "0x2000" "cli s" s1 2048 l] s1(1) st p unfolding f1
    by (auto simp: unat_numeral32)
  let ?s2 = "s1\<lparr>mem := m2, esp := esp s + ?D, ebp := ebp s + ?D\<rparr>"
  have "same_on 0xBA000 0xC0000000 (mem s1) m2" "same_on 0xC0000000 0xC0100000 (mem s1) m2" "same_on 0xC0080000 0xC0081000 (mem s1) m2"
    by (rule only_in_same_on [OF m2(3)], simp)+
  then have k2: "kernel_up p d (c + 3) stack_blocks ?s2"
    by (intro kernel_up_same [OF s1(2)]) (simp_all add: kept_low_def)
  obtain s3 where s3: "kmalloc (Suc n) sizeof_task ?s2 = Inr (0xC008102C, s3)" "kernel_up p d (c + 3) tasked_blocks s3"
    "heap_step 0xC0081020 0xC0081FF4 ?s2 s3"
    by (rule task_block [OF k2])
  obtain m3 a3 where e3: "s3 = ?s2\<lparr>mem := m3, heap_at := a3\<rparr>" using s3(3) unfolding heap_step_def by blast
  have tp: "task_place 0xC008102C" by (simp add: task_place_def unat_numeral32)
  obtain m4 where m4: "initialize_tasking (Suc n) s = Inr ((), s3\<lparr>ready_queue := 0xC008102C, current_task := 0xC008102C, mem := m4, next_pid := next_pid s3 + 1, iflag := True\<rparr>)"
    "only_in (unat (0xC008102C :: u32)) (unat (0xC008102C :: u32) + 24) (mem s3) m4" "ld32 m4 (task_id_at 0xC008102C) = next_pid s3"
    "ld32 m4 (task_directory_at 0xC008102C) = current_directory s3" "queue_linked [0xC008102C] m4"
    by (rule initialize_tasking_runs [OF m2(1) s3(1) tp])
  let ?u = "s3\<lparr>ready_queue := 0xC008102C, current_task := 0xC008102C, mem := m4, next_pid := next_pid s3 + 1, iflag := True\<rparr>"
  have o4: "only_in 0xC008102C 0xC0081044 (mem s3) m4" using m4(2) by (simp add: unat_numeral32)
  have ku: "kernel_up p d (c + 3) tasked_blocks ?u"
  proof (rule kernel_up_owned [OF s3(2)])
    show "blocks_kept tasked_blocks (mem s3) (mem ?u)"
      using o4 by (auto simp: blocks_kept_def only_in_def tasked_blocks_def)
    show "same_on (4096 * d) (4096 * (d + 6)) (mem s3) (mem ?u)"
      using only_in_same_on [OF o4, of "4096 * (d + 6)" "4096 * d"] K(13) by simp
    have "used_frames ?u = used_frames s3"
      by (rule used_frames_same) (use kernel_upD(6,7) [OF s3(2)] p only_in_same_on [OF o4, of "unat p + 512" "unat p"] in simp_all)
    then show "used_frames ?u \<inter> {..<1024} = {..<c + 3}" using kernel_upD(8) [OF s3(2)] by simp
  qed simp_all
  have m3: "mem s3 x = m2 x" if "0xC0082000 \<le> unat x" for x using s3(3) that by (simp add: heap_step_def)
  have m4u: "mem ?u x = m2 x" if "0xC0082000 \<le> unat x" for x
    using o4 m3 [OF that] that by (simp add: only_in_def)
  have low: "rd a ?u = rd a s1" if "0xC0082000 \<le> unat a" "unat a + 4 \<le> 0xC0100000" for a
    by (rule rd_same) (use that m4u m2(3) in \<open>simp_all add: only_in_def\<close>)
  have top: "rd a ?u = ld32 m2 a" if "0xC0082000 \<le> unat a" "unat a + 4 \<le> 4294967296" for a
    unfolding rd_def by (rule ld32_same_on [of "unat a" "unat a + 4"]) (use that m4u in \<open>simp_all add: same_on_def\<close>)
  have mapped: "stack_mapped c ?u"
    using s1(4) unfolding stack_mapped_def
    by (subst (1 2 3 4 5) low) (simp_all add: tables_at_def pages_at_def unat_numeral32)
  have slots: "slots_kept {895, 896} s ?u"
    unfolding slots_kept_def
  proof (intro allI impI)
    fix i :: u32 assume i: "unat i < 1024" "i \<notin> {895, 896}"
    have "rd (tables_at 0xC0082000 i) ?u = rd (tables_at 0xC0082000 i) s1" by (rule low) (use slot_place [OF i(1)] i(1) in simp_all)
    also have "\<dots> = rd (tables_at 0xC0082000 i) (cli s)" using s1(5) i by (simp add: slots_kept_def)
    also have "\<dots> = rd (tables_at 0xC0082000 i) s" by (simp add: cli_def rd_def)
    finally show "rd (tables_at 0xC0082000 i) ?u = rd (tables_at 0xC0082000 i) s" .
  qed
  have words: "rd (0xE0000000 - of_nat (4 * k)) ?u = relocate_word (esp s) (initial_esp s) ?D (rd (initial_esp s - of_nat (4 * k)) s)"
    if kk: "1 \<le> k" "k \<le> l" for k
  proof -
    have u4: "unat (of_nat (4 * k) :: u32) = 4 * k" using kk st(2) by (intro unat_of_nat32) simp
    have "unat (0xE0000000 - of_nat (4 * k) :: u32) = 0xE0000000 - 4 * k"
      using u4 kk st(2) by (subst unat_sub32) (simp_all add: unat_numeral32)
    then have t1: "rd (0xE0000000 - of_nat (4 * k)) ?u = ld32 m2 (0xE0000000 - of_nat (4 * k))"
      using kk st(2) by (intro top) simp_all
    have "unat (initial_esp s - of_nat (4 * k)) = unat (initial_esp s) - 4 * k"
      using u4 kk st by (subst unat_sub32) simp_all
    then have "rd (initial_esp s - of_nat (4 * k)) s1 = rd (initial_esp s - of_nat (4 * k)) s"
      using kk st p s1(3) by (intro rd_same) (simp_all add: stack_step_def cli_def)
    then show ?thesis using t1 m2(2) kk by simp
  qed
  have "rd (task_id_at 0xC008102C) ?u = next_pid s3" "rd (task_directory_at 0xC008102C) ?u = current_directory s3"
    using m4(3,4) by (simp_all add: rd_def)
  moreover have "next_pid s3 = next_pid s" "current_directory s3 = 0xC0082000" using cd by (simp_all add: e3 e1 cli_def)
  moreover have "queue_ok [0xC008102C] ?u" using tp m4(5) by (simp add: queue_ok_def)
  moreover have "cursor_in k ?u = cursor_in k s" for k by (simp add: cursor_in_def e3 e1 cli_def)
  moreover have "esp ?u = esp s + ?D" "ebp ?u = ebp s + ?D" "eip ?u = eip s" by (simp_all add: e3 e1 cli_def)
  ultimately show ?thesis
    using that [of ?u] m4(1) ku mapped words slots by (simp add: getpid_def)
qed

lemma printed_kept:
  assumes "printed s t" and "0xBA000 \<le> unat a" and "unat a + 4 \<le> 4294967296"
  shows "rd a t = rd a s"
  using assms kernel_kept_by_screen(3) [of s t a] by (simp add: printed_def)

lemma tasking_printed:
  assumes p: "printed s t"
  shows "stack_mapped c s \<Longrightarrow> stack_mapped c t" and "queue_ok [0xC008102C] s \<Longrightarrow> queue_ok [0xC008102C] t"
    and "current_task t = current_task s" and "current_task s = 0xC008102C \<Longrightarrow> getpid t = getpid s"
    and "iflag t = iflag s" and "esp t = esp s" and "current_directory t = current_directory s"
proof -
  have st: "screen_step s t" using p by (simp add: printed_def)
  note S = screen_step_simps [OF st] and R = printed_kept [OF p]
  show "stack_mapped c s \<Longrightarrow> stack_mapped c t"
    unfolding stack_mapped_def by (subst (1 2 3 4 5) R) (simp_all add: tables_at_def pages_at_def unat_numeral32)
  have "rd (task_next_at 0xC008102C) t = rd (task_next_at 0xC008102C) s"
    by (rule R) (simp_all add: task_next_at_def unat_numeral32)
  then show "queue_ok [0xC008102C] s \<Longrightarrow> queue_ok [0xC008102C] t"
    using S by (simp add: queue_ok_def queue_linked_def rd_def)
  have "rd (task_id_at 0xC008102C) t = rd (task_id_at 0xC008102C) s"
    by (rule R) (simp_all add: task_id_at_def unat_numeral32)
  then show "current_task s = 0xC008102C \<Longrightarrow> getpid t = getpid s" using S by (simp add: getpid_def)
qed (use screen_step_simps [of s t] p in \<open>simp_all add: printed_def\<close>)

text \<open>The slots of the running directory, those of the stack apart, and the state in which \<open>fork\<close> is called.\<close>

definition parent_slots :: "nat \<Rightarrow> machine \<Rightarrow> bool" where
  "parent_slots d s \<longleftrightarrow> (\<forall>i < 1024. i \<noteq> 895 \<longrightarrow> i \<noteq> 896 \<longrightarrow> rd (tables_at 0xC0082000 (of_nat i)) s = both_slots d i)"

definition at_fork :: "u32 \<Rightarrow> nat \<Rightarrow> nat \<Rightarrow> machine \<Rightarrow> bool" where
  "at_fork p d c t \<longleftrightarrow> kernel_up p d (c + 3) tasked_blocks t \<and> stack_mapped c t \<and> queue_ok [0xC008102C] t
     \<and> current_task t = 0xC008102C \<and> current_directory t = 0xC0082000 \<and> cursor_in 2080 t \<and> parent_slots d t"

lemma kmain_to_fork:
  assumes "always_ready_again s" and "unat (cursorPosition s) \<le> 2080" and "kheap s = 0" and "one_module ebx m s"
    and e: "e = unat (rd (mod_end_at m) s) + 8" "0xC0000 \<le> e" "e mod 4096 + 512 \<le> 4096" "e < 0x2F6000"
    and "rd 0xC0080FF8 s \<noteq> HEAP_MAGIC"
    and st: "unat initial_stack = unat (esp s) + 4 * l" "l < 2048" "unat initial_stack \<le> e"
  obtains t where "kmain img (Suc n) ebx initial_stack s = seq (report_fork (Suc n)) (\<lambda>_. start_module img (rd (mod_start_at m) s)) t"
    and "at_fork (of_nat e) (e div 4096 + 1) (e div 4096 + 264) t" and "esp t = esp s + (0xE0000000 - initial_stack)"
    and "getpid t = next_pid s" and "next_pid t = next_pid s + 1" and "iflag t" and "eip t = eip s"
proof -
  let ?d = "e div 4096 + 1" and ?c = "e div 4096 + 264"
  obtain s1 where s1: "kmain img (Suc n) ebx initial_stack s = seq (start_tasks (Suc n)) (\<lambda>_. start_module img (rd (mod_start_at m) s)) s1"
    "kernel_up (of_nat e) ?d ?c tested_blocks s1" "cursor_in 2080 s1" "current_directory s1 = 0xC0082000"
    "task_regs s1 = task_regs (booted img initial_stack s)" "clone_slots ?d s1"
    by (rule kmain_heap_runs [OF assms(1-7) _ assms(9)]) (use e(4) in simp_all)
  have r: "esp s1 = esp s" "initial_esp s1 = initial_stack" "next_pid s1 = next_pid s" "eip s1 = eip s"
    using s1(5) by (simp_all add: task_regs_def booted_def)
  have z: "rd (tables_at 0xC0082000 896) s1 = 0" "rd (tables_at 0xC0082000 895) s1 = 0"
    using s1(6) [unfolded clone_slots_def, rule_format, of 896] s1(6) [unfolded clone_slots_def, rule_format, of 895]
    by (simp_all add: both_slots_def heap_slot_def)
  have ue: "unat (of_nat e :: u32) = e" using e(4) by (intro unat_of_nat32) simp
  have c: "?c + 2 < 1024" using e(4) by linarith
  obtain s2 where s2: "initialize_tasking (Suc n) s1 = Inr ((), s2)" "kernel_up (of_nat e) ?d (?c + 3) tasked_blocks s2"
    "stack_mapped ?c s2" "queue_ok [0xC008102C] s2" "current_task s2 = 0xC008102C" "getpid s2 = next_pid s1" "iflag s2"
    "esp s2 = esp s1 + (0xE0000000 - initial_esp s1)" "current_directory s2 = 0xC0082000" "\<And>k. cursor_in k s2 = cursor_in k s1"
    "next_pid s2 = next_pid s1 + 1" "slots_kept {895, 896} s1 s2" "eip s2 = eip s1"
    by (rule tasking_runs [OF s1(2) c s1(4) z, of l n]) (use st r ue in simp_all)
  have q2: "cursor_in 2080 s2" using s2(10) s1(3) by simp
  obtain t where t: "sayln ''about to fork '' [] s2 = Inr ((), t)" "printed s2 t" "cursor_in 2080 t"
    by (rule sayln_text [where k = 2080 and s = s2 and str = "''about to fork ''" and va = "[]" and cs = "cstr ''about to fork ''"])
      (use q2 in \<open>simp_all add: cstr_def plain_def format_out_def\<close>)
  note P = tasking_printed [OF t(2)]
  have up: "kernel_up (of_nat e) ?d (?c + 3) tasked_blocks t" by (rule kernel_up_printed [OF s2(2) t(2)])
  have slots: "rd (tables_at 0xC0082000 (of_nat i)) t = both_slots ?d i" if i: "i < 1024" "i \<noteq> 895" "i \<noteq> 896" for i
  proof -
    have u: "unat (of_nat i :: u32) = i" using i(1) by (intro unat_of_nat32) simp
    have a: "unat (tables_at 0xC0082000 (of_nat i)) = 0xC0082000 + 4 * i" using slot_place [of "of_nat i"] i(1) u by simp
    have "(of_nat i :: u32) \<noteq> 895" "(of_nat i :: u32) \<noteq> 896" using i u by (auto simp: unat_numeral32)
    then have "rd (tables_at 0xC0082000 (of_nat i)) s2 = rd (tables_at 0xC0082000 (of_nat i)) s1"
      using s2(12) i(1) u by (simp add: slots_kept_def)
    then show ?thesis
      using printed_kept [OF t(2), of "tables_at 0xC0082000 (of_nat i)"] a i(1) s1(6) by (simp add: clone_slots_def)
  qed
  have "next_pid t = next_pid s2" "eip t = eip s2" using screen_step_simps [of s2 t] t(2) by (simp_all add: printed_def)
  moreover have "kmain img (Suc n) ebx initial_stack s = seq (report_fork (Suc n)) (\<lambda>_. start_module img (rd (mod_start_at m) s)) t"
    by (simp add: s1(1) start_tasks_def seq_def s2(1) t(1))
  ultimately show ?thesis
    using that [of t] up P s2 t(3) r slots by (simp add: at_fork_def parent_slots_def)
qed

subsection \<open>Properties\<close>

text \<open>A module from \<open>0x110000\<close> to \<open>0x1101F8\<close>.\<close>

definition loaded_memory :: memory where
  "loaded_memory = st32 (st32 (st32 (st32 (\<lambda>_. 0) 0x10014 1) 0x10018 0x11000) 0x11000 0x110000) 0x11004 0x1101F8"

lemma loaded_memory:
  "ld32 loaded_memory 0x10014 = 1" "ld32 loaded_memory 0x10018 = 0x11000" "ld32 loaded_memory 0x11000 = 0x110000"
  "ld32 loaded_memory 0x11004 = 0x1101F8" "ld32 loaded_memory 0xC0080FF8 = 0"
  by (simp_all add: loaded_memory_def ld32_st32_far unat_numeral32) (simp add: ld32_def)

text \<open>
  C3: A boot with one module, from power on to \<open>fork\<close>: when the module ends between \<open>0xBFFF8\<close> and
  \<open>0x2F5FF8\<close> with room for the frame bitmap behind it in its page, and the boot stack is at most 8 KB and lies below
  the module's end, \<open>kmain\<close> sets up the devices, turns paging on, creates the heap, runs its heap test, moves the
  stack to \<open>0xE0000000\<close> and makes the first task, all without an error, and goes on with \<open>fork\<close>. Then the
  kernel heap is consistent and its index sorted: the two test blocks have been given back and merged, the third
  request took the place of the first, and the task and the two new page tables have blocks of their own. The next
  three frames are mapped, writable for user code, for the three pages of the stack in the cloned
  directory, and the ready queue holds the one running task.
\<close>

theorem kmain_reaches_fork:
  assumes "always_ready_again s" and "unat (cursorPosition s) \<le> 2080" and "kheap s = 0" and "one_module ebx m s"
    and e: "e = unat (rd (mod_end_at m) s) + 8" "0xC0000 \<le> e" "e mod 4096 + 512 \<le> 4096" "e < 0x2F6000"
    and "rd 0xC0080FF8 s \<noteq> HEAP_MAGIC"
    and st: "unat initial_stack = unat (esp s) + 4 * l" "l < 2048" "unat initial_stack \<le> e"
  shows "\<exists>t. kmain img (Suc n) ebx initial_stack s = seq (report_fork (Suc n)) (\<lambda>_. start_module img (rd (mod_start_at m) s)) t
    \<and> heap_ok (kheap t) t tasked_blocks \<and> index_sorted (kheap t) t
    \<and> heap_start (kheap t) t = 0xC0081000 \<and> heap_end (kheap t) t = 0xC0100000
    \<and> tables_up (e div 4096 + 1) t \<and> used_frames t \<inter> {..<1024} = {..<e div 4096 + 267}
    \<and> current_directory t = 0xC0082000 \<and> stack_mapped (e div 4096 + 264) t \<and> esp t = esp s + (0xE0000000 - initial_stack)
    \<and> queue_ok [0xC008102C] t \<and> current_task t = 0xC008102C \<and> getpid t = next_pid s \<and> iflag t \<and> stdout_putf t = Screen_Putc"
proof -
  obtain t where t: "kmain img (Suc n) ebx initial_stack s = seq (report_fork (Suc n)) (\<lambda>_. start_module img (rd (mod_start_at m) s)) t"
    "at_fork (of_nat e) (e div 4096 + 1) (e div 4096 + 264) t" "esp t = esp s + (0xE0000000 - initial_stack)"
    "getpid t = next_pid s" "iflag t"
    by (rule kmain_to_fork [OF assms, of img n])
  note A = t(2) [unfolded at_fork_def]
  have up: "kernel_up (of_nat e) (e div 4096 + 1) (e div 4096 + 264 + 3) tasked_blocks t" using A by blast
  note K = kernel_upD(4,5,8) [OF up]
  have "kheap t = page_word (e div 4096 + 1 + 6)" using K(1) by (simp add: kernel_heap_def)
  then show ?thesis
    using K A t by (intro exI [of _ t]) (simp add: kernel_heap_def cursor_in_def)
qed

theorem kmain_reaches_fork_witness:
  "\<exists>t. kmain \<lparr>gdt_address = 0x1000, idt_address = 0x2000, stub_address = (\<lambda>k. of_nat k), idt_init_address = 0x3000,
       run_module = (\<lambda>_. ret ())\<rparr> 1 0x10000 0x9000 ((power_on loaded_memory (\<lambda>_ _. 0x60))\<lparr>esp := 0x8FF0\<rparr>)
      = seq (report_fork 1) (\<lambda>_. start_module \<lparr>gdt_address = 0x1000, idt_address = 0x2000, stub_address = (\<lambda>k. of_nat k),
          idt_init_address = 0x3000, run_module = (\<lambda>_. ret ())\<rparr> 0x110000) t
    \<and> heap_ok (kheap t) t tasked_blocks \<and> queue_ok [0xC008102C] t \<and> getpid t = 1 \<and> esp t = 0xDFFFFFF0"
proof -
  let ?s = "(power_on loaded_memory (\<lambda>_ _. 0x60))\<lparr>esp := 0x8FF0\<rparr>"
  have s: "always_ready_again ?s" "unat (cursorPosition ?s) \<le> 2080" "kheap ?s = 0" "one_module 0x10000 0x11000 ?s"
    by (simp_all add: always_ready_again_def power_on_def one_module_def rd_def mb_mods_count_at_def mb_mods_addr_at_def
        loaded_memory unat_numeral32)
  have e: "unat (rd (mod_end_at 0x11000) ?s) = 0x1101F8" and hm: "rd 0xC0080FF8 ?s \<noteq> HEAP_MAGIC" and st: "rd (mod_start_at 0x11000) ?s = 0x110000"
    by (simp_all add: rd_def mod_end_at_def mod_start_at_def loaded_memory unat_numeral32 HEAP_MAGIC_def)
  have f: "esp ?s = 0x8FF0" "next_pid ?s = 1" by (simp_all add: power_on_def)
  let ?img = "\<lparr>gdt_address = 0x1000, idt_address = 0x2000, stub_address = (\<lambda>k. of_nat k), idt_init_address = 0x3000,
       run_module = (\<lambda>_. ret ())\<rparr> :: image"
  show ?thesis
    using kmain_reaches_fork [OF s refl _ _ _ hm, of "0x9000" 4 ?img 0] unfolding e st f One_nat_def [symmetric]
    by (simp add: unat_numeral32 del: One_nat_def) blast
qed

end
