(* ===== verification/Clone_Table.thy ===== *)
theory Clone_Table
  imports Paging Heap_Blocks
begin

text \<open>
  \<open>clone_table\<close> on a table that is not the kernel's: the loop over its entries, what it makes of each, and the
  store behind the new table.
\<close>

unbundle bit_operations_syntax


subsection \<open>One entry\<close>

text \<open>Where a write is neither in the frame bitmap nor in the area from \<open>lo\<close> to \<open>hi\<close>.\<close>

definition bitmap_or :: "nat \<Rightarrow> nat \<Rightarrow> machine \<Rightarrow> memory \<Rightarrow> bool" where
  "bitmap_or lo hi s m \<longleftrightarrow>
     (\<forall>x. (unat x < bm_lo s \<or> bm_hi s \<le> unat x) \<longrightarrow> (unat x < lo \<or> hi \<le> unat x) \<longrightarrow> m x = mem s x)"

text \<open>The bitmap alone says which frames are in use.\<close>

lemma used_frames_bitmap:
  assumes "bitmap_ok s" and "frames t = frames s" and "nframes t = nframes s" and "same_on (bm_lo s) (bm_hi s) (mem s) (mem t)"
  shows "used_frames t = used_frames s"
proof -
  have "frame_bit t n = frame_bit s n" if "n < frame_count s" for n
  proof -
    note w = unat_frame_word [OF assms(1) that]
    have "rd (frames s + 4 * of_nat (n div 32)) t = rd (frames s + 4 * of_nat (n div 32)) s"
      unfolding rd_def by (rule ld32_same_on [OF assms(4)]) (use w assms(1) in \<open>simp_all add: bitmap_ok_def\<close>)
    then show ?thesis by (simp add: frame_bit_def assms(2))
  qed
  then show ?thesis using assms(3) by (auto simp: used_frames_def frame_count_def)
qed

text \<open>
  The frame that \<open>alloc_frame\<close> gives when there are \<open>N\<close> frames and those in \<open>U\<close> are in use: the least one that is not,
  and frame 0 when there is none.
\<close>

definition next_frame :: "nat \<Rightarrow> nat set \<Rightarrow> nat" where
  "next_frame N U = (case find (\<lambda>k. k \<notin> U) [0..<N] of Some k \<Rightarrow> k | None \<Rightarrow> 0)"

lemma next_frame_least: "k < N \<Longrightarrow> k \<notin> U \<Longrightarrow> \<forall>j < k. j \<in> U \<Longrightarrow> next_frame N U = k"
proof -
  assume k: "k < N" "k \<notin> U" "\<forall>j < k. j \<in> U"
  then have "[0..<N] = [0..<k] @ k # [Suc k..<N]" by (metis upt_add_eq_append upt_conv_Cons le_add_diff_inverse less_imp_le_nat zero_le)
  moreover have "find (\<lambda>k. k \<notin> U) [0..<k] = None" using k(3) by (simp add: find_None_iff)
  moreover have "find P (xs @ ys) = (case find P xs of None \<Rightarrow> find P ys | Some x \<Rightarrow> Some x)" for P and xs ys :: "nat list"
    by (induction xs) simp_all
  ultimately show ?thesis using k(2) by (simp add: next_frame_def)
qed

lemma next_frame_full: "{..<N} \<subseteq> U \<Longrightarrow> next_frame N U = 0"
proof -
  assume "{..<N} \<subseteq> U"
  then have "find (\<lambda>k. k \<notin> U) [0..<N] = None" by (auto simp: find_None_iff)
  then show ?thesis by (simp add: next_frame_def)
qed

lemma next_frame_bound: "0 < N \<Longrightarrow> next_frame N U < N"
  by (auto simp: next_frame_def find_Some_iff split: option.splits)

lemma next_frame_fresh: "U \<subseteq> {..<N} \<Longrightarrow> card U < N \<Longrightarrow> next_frame N U \<notin> U"
proof
  assume U: "U \<subseteq> {..<N}" "card U < N" and in_U: "next_frame N U \<in> U"
  have "\<not> {..<N} \<subseteq> U" using U by (metis card_lessThan subset_antisym nat_less_le)
  then obtain k where "k < N" "k \<notin> U" by auto
  then have "find (\<lambda>k. k \<notin> U) [0..<N] \<noteq> None" by (auto simp: find_None_iff)
  then obtain j where j: "find (\<lambda>k. k \<notin> U) [0..<N] = Some j" by blast
  then have "j \<notin> U" by (auto simp: find_Some_iff)
  then show False using in_U by (simp add: next_frame_def j)
qed

lemma alloc_frame_exact:
  assumes ok: "bitmap_ok s" "0 < frame_count s" and ap: "entry_apart page s" and e: "rd page s = 0"
    and k: "k = next_frame (frame_count s) (used_frames s)"
  obtains m where "alloc_frame page ik iw s = Inr ((), s\<lparr>mem := m\<rparr>)" and "ld32 m page = new_entry (of_nat k) ik iw 0"
    and "bitmap_or (unat page) (unat page + 4) s m" and "used_frames (s\<lparr>mem := m\<rparr>) = insert k (used_frames s)"
proof -
  have kb: "k < frame_count s" unfolding k by (rule next_frame_bound [OF ok(2)])
  have ff: "first_frame s = of_nat k"
  proof (cases "used_frames s = {..<frame_count s}")
    case True
    then show ?thesis using first_frame_least [OF ok(1)] next_frame_full [of "frame_count s" "used_frames s"] k by simp
  next
    case False
    then show ?thesis using first_frame_least [OF ok(1)] next_frame_least k by (metis (no_types, lifting))
  qed
  have ne: "first_frame s \<noteq> - 1"
    unfolding ff by (rule frame_number_not_minus_one [OF frame_count_bound [OF ok(1) kb]])
  let ?w = "frames s + 4 * of_nat (k div 32)"
  let ?v = "rd ?w s OR push_bit (k mod 32) 1"
  note w = unat_frame_word [OF ok(1) kb]
  define m1 where "m1 = st32 (mem s) ?w ?v"
  define m where "m = st32 m1 page (new_entry (of_nat k) ik iw 0)"
  have sf: "set_frame (of_nat k * 0x1000) s = wr ?w ?v s" by (rule set_frame_bits(1) [OF ok(1) kb])
  have "rd page (wr ?w ?v s) = 0" using rd_wr_frame_word [OF ok(1) kb ap] e by simp
  then have run: "alloc_frame page ik iw s = Inr ((), s\<lparr>mem := m\<rparr>)"
    using alloc_frame_eq [of page s ik iw] e ne unfolding ff sf by (simp add: upd_page_def wr_def m_def m1_def page_frame_def)
  have "only_in (bm_lo s) (bm_hi s) (mem s) m1" "only_in (unat page) (unat page + 4) m1 m"
    unfolding m1_def m_def using w ok(1) ap by (intro only_in_st32; simp add: bitmap_ok_def entry_apart_def)+
  then have "bitmap_or (unat page) (unat page + 4) s m" by (simp add: bitmap_or_def only_in_def)
  moreover have "used_frames (s\<lparr>mem := m\<rparr>) = insert k (used_frames s)"
  proof -
    have "s\<lparr>mem := m\<rparr> = wr page (new_entry (of_nat k) ik iw 0) (wr ?w ?v s)" by (simp add: wr_def m_def m1_def)
    then show ?thesis
      using used_frames_wr_apart [of "wr ?w ?v s" page] ok(1) ap used_frames_set [OF ok(1) kb] by (simp add: sf)
  qed
  ultimately show ?thesis using that run by (simp add: m_def)
qed

text \<open>The flags of the old entry.\<close>

definition clone_flags :: "u32 \<Rightarrow> u32 \<Rightarrow> machine \<Rightarrow> machine" where
  "clone_flags src page s =
     clone_flag DIRTY src page (clone_flag ACCESSED src page (clone_flag USER src page
       (clone_flag RW src page (clone_flag PRESENT src page s))))"

definition with_flags :: "u32 \<Rightarrow> u32 \<Rightarrow> u32" where
  "with_flags e f = fold (\<lambda>n e. if bit f n then set_flag n True e else e) [PRESENT, RW, USER, ACCESSED, DIRTY] e"

lemma clone_flag_step:
  assumes "unat page + 4 \<le> 4294967296" and "unat src + 4 \<le> 4294967296" and "unat src + 4 \<le> unat page \<or> unat page + 4 \<le> unat src"
  obtains m where "clone_flag n src page s = s\<lparr>mem := m\<rparr>" and "only_in (unat page) (unat page + 4) (mem s) m"
    and "ld32 m page = (if bit (rd src s) n then set_flag n True (rd page s) else rd page s)" and "ld32 m src = rd src s"
proof (cases "bit (rd src s) n")
  case True
  have "ld32 (st32 (mem s) page v) src = ld32 (mem s) src" for v by (rule ld32_st32_far) (use assms in auto)
  then show ?thesis
    by (intro that [of "st32 (mem s) page (set_flag n True (rd page s))"])
      (use True assms in \<open>simp_all add: clone_flag_def upd_page_def wr_def only_in_st32 rd_def\<close>)
next
  case False
  show ?thesis by (rule that [of "mem s"]) (use False in \<open>simp_all add: clone_flag_def rd_def only_in_refl\<close>)
qed

lemma clone_flags_runs:
  assumes a: "unat page + 4 \<le> 4294967296" "unat src + 4 \<le> 4294967296" "unat src + 4 \<le> unat page \<or> unat page + 4 \<le> unat src"
  obtains m where "clone_flags src page s = s\<lparr>mem := m\<rparr>" and "only_in (unat page) (unat page + 4) (mem s) m"
    and "ld32 m page = with_flags (rd page s) (rd src s)"
proof -
  obtain m1 where 1: "clone_flag PRESENT src page s = s\<lparr>mem := m1\<rparr>" "only_in (unat page) (unat page + 4) (mem s) m1"
    "ld32 m1 page = (if bit (rd src s) PRESENT then set_flag PRESENT True (rd page s) else rd page s)" "ld32 m1 src = rd src s"
    by (rule clone_flag_step [OF a])
  obtain m2 where 2: "clone_flag RW src page (s\<lparr>mem := m1\<rparr>) = s\<lparr>mem := m2\<rparr>" "only_in (unat page) (unat page + 4) m1 m2"
    "ld32 m2 page = (if bit (ld32 m1 src) RW then set_flag RW True (ld32 m1 page) else ld32 m1 page)" "ld32 m2 src = ld32 m1 src"
    by (rule clone_flag_step [OF a, of RW "s\<lparr>mem := m1\<rparr>"]) (simp add: rd_def)
  obtain m3 where 3: "clone_flag USER src page (s\<lparr>mem := m2\<rparr>) = s\<lparr>mem := m3\<rparr>" "only_in (unat page) (unat page + 4) m2 m3"
    "ld32 m3 page = (if bit (ld32 m2 src) USER then set_flag USER True (ld32 m2 page) else ld32 m2 page)" "ld32 m3 src = ld32 m2 src"
    by (rule clone_flag_step [OF a, of USER "s\<lparr>mem := m2\<rparr>"]) (simp add: rd_def)
  obtain m4 where 4: "clone_flag ACCESSED src page (s\<lparr>mem := m3\<rparr>) = s\<lparr>mem := m4\<rparr>" "only_in (unat page) (unat page + 4) m3 m4"
    "ld32 m4 page = (if bit (ld32 m3 src) ACCESSED then set_flag ACCESSED True (ld32 m3 page) else ld32 m3 page)" "ld32 m4 src = ld32 m3 src"
    by (rule clone_flag_step [OF a, of ACCESSED "s\<lparr>mem := m3\<rparr>"]) (simp add: rd_def)
  obtain m5 where 5: "clone_flag DIRTY src page (s\<lparr>mem := m4\<rparr>) = s\<lparr>mem := m5\<rparr>" "only_in (unat page) (unat page + 4) m4 m5"
    "ld32 m5 page = (if bit (ld32 m4 src) DIRTY then set_flag DIRTY True (ld32 m4 page) else ld32 m4 page)" "ld32 m5 src = ld32 m4 src"
    by (rule clone_flag_step [OF a, of DIRTY "s\<lparr>mem := m4\<rparr>"]) (simp add: rd_def)
  have "only_in (unat page) (unat page + 4) (mem s) m5"
    by (rule only_in_trans [OF only_in_trans [OF only_in_trans [OF only_in_trans [OF 1(2) 2(2)] 3(2)] 4(2)] 5(2)])
  moreover have "ld32 m5 page = with_flags (rd page s) (rd src s)"
    unfolding with_flags_def fold_simps 5(3) 4(3) 3(3) 2(3) 1(3) 4(4) 3(4) 2(4) 1(4) by simp
  ultimately show ?thesis using that [of m5] 1(1) 2(1) 3(1) 4(1) 5(1) by (simp add: clone_flags_def)
qed

subsection \<open>The loop\<close>

lemma bitmap_or_mono: "bitmap_or lo hi s m \<Longrightarrow> lo' \<le> lo \<Longrightarrow> hi \<le> hi' \<Longrightarrow> bitmap_or lo' hi' s m"
  by (simp add: bitmap_or_def)

lemma bitmap_or_trans:
  "bitmap_or lo hi s m \<Longrightarrow> bitmap_or lo hi (s\<lparr>mem := m\<rparr>) m' \<Longrightarrow> bitmap_or lo hi s m'"
  by (simp add: bitmap_or_def)

lemma bitmap_or_rd:
  assumes "bitmap_or lo hi s m" and "entry_apart a s" and "unat a + 4 \<le> lo \<or> hi \<le> unat a"
  shows "ld32 m a = rd a s"
  unfolding rd_def
  by (rule ld32_same_on [of "unat a" "unat a + 4"]) (use assms in \<open>auto simp: bitmap_or_def same_on_def entry_apart_def\<close>)

text \<open>
  What the loop makes of the entries \<open>es\<close> of a table, with \<open>N\<close> frames of which those in \<open>U\<close> are in use: an entry that
  has a frame is left empty, and one that has none gets the next frame, which is then in use, with the flags of the old
  entry. \<open>frames_given\<close> are the frames in the order in which they are given.
\<close>

fun clone_entries :: "nat \<Rightarrow> nat set \<Rightarrow> u32 list \<Rightarrow> u32 list" where
  "clone_entries N U [] = []"
| "clone_entries N U (e # es) =
     (if page_frame e = 0
      then with_flags (new_entry (of_nat (next_frame N U)) 0 0 0) e # clone_entries N (insert (next_frame N U) U) es
      else 0 # clone_entries N U es)"

fun frames_given :: "nat \<Rightarrow> nat set \<Rightarrow> u32 list \<Rightarrow> nat list" where
  "frames_given N U [] = []"
| "frames_given N U (e # es) =
     (if page_frame e = 0 then next_frame N U # frames_given N (insert (next_frame N U) U) es else frames_given N U es)"

lemma length_clone_entries [simp]: "length (clone_entries N U es) = length es"
  by (induction N U es rule: clone_entries.induct) simp_all

text \<open>As long as the frames last they are fresh.\<close>

lemma frames_given_bound: "0 < N \<Longrightarrow> set (frames_given N U es) \<subseteq> {..<N}"
  by (induction N U es rule: frames_given.induct) (auto simp: next_frame_bound)

lemma frames_given_fresh:
  "U \<subseteq> {..<N} \<Longrightarrow> card U + length (filter (\<lambda>e. page_frame e = 0) es) \<le> N \<Longrightarrow>
    distinct (frames_given N U es) \<and> set (frames_given N U es) \<inter> U = {}"
proof (induction N U es rule: frames_given.induct)
  case (2 N U e es)
  show ?case
  proof (cases "page_frame e = 0")
    case True
    then have c: "card U < N" using 2(4) by simp
    let ?k = "next_frame N U"
    have k: "?k \<notin> U" "?k < N" using next_frame_fresh [OF 2(3) c] next_frame_bound c by auto
    have "card (insert ?k U) = Suc (card U)" using k(1) finite_subset [OF 2(3)] by simp
    then have "distinct (frames_given N (insert ?k U) es) \<and> set (frames_given N (insert ?k U) es) \<inter> insert ?k U = {}"
      using 2(1) [OF True] 2(3,4) k(2) True by simp
    then show ?thesis using True k(1) by auto
  qed (use 2 in simp)
qed simp

text \<open>The loop, from entry \<open>i\<close> on.\<close>

abbreviation table_entries :: "u32 \<Rightarrow> nat \<Rightarrow> memory \<Rightarrow> u32 list" where
  "table_entries t i m \<equiv> map (\<lambda>j. ld32 m (pages_at t (of_nat j))) [i..<1024]"

lemma clone_table_loop_runs:
  assumes "bitmap_ok s" and "0 < frame_count s" and "table_apart t s" and "table_apart src s"
    and "unat src + 4096 \<le> unat t \<or> unat t + 4096 \<le> unat src"
    and "i + n = 1024" and "\<forall>j < 1024. i \<le> j \<longrightarrow> rd (pages_at t (of_nat j)) s = 0"
  shows "\<exists>m cs. clone_table_loop n (of_nat i) src t s = Inr ((), s\<lparr>mem := m, phys_copies := phys_copies s @ cs\<rparr>)
    \<and> bitmap_or (unat t + 4 * i) (unat t + 4096) s m
    \<and> table_entries t i m = clone_entries (frame_count s) (used_frames s) (table_entries src i (mem s))
    \<and> used_frames (s\<lparr>mem := m\<rparr>) = used_frames s \<union> set (frames_given (frame_count s) (used_frames s) (table_entries src i (mem s)))"
  using assms
proof (induction n arbitrary: i s)
  case 0
  show ?case by (intro exI [of _ "mem s"] exI [of _ "[]"]) (use 0 in \<open>simp add: bitmap_or_def\<close>)
next
  case (Suc n)
  let ?p = "pages_at t (of_nat i)" and ?q = "pages_at src (of_nat i)" and ?N = "frame_count s" and ?U = "used_frames s"
  define k where "k = next_frame ?N ?U"
  define U' where "U' = (if page_frame (rd ?q s) = 0 then insert k ?U else ?U)"
  define e' where "e' = (if page_frame (rd ?q s) = 0 then with_flags (new_entry (of_nat k) 0 0 0) (rd ?q s) else 0)"
  have i: "i < 1024" using Suc.prems(6) by simp
  have at: "unat (pages_at t (of_nat j)) = unat t + 4 * j" "unat (pages_at src (of_nat j)) = unat src + 4 * j" if "j < 1024" for j
    using unat_pages_at [OF _ that] Suc.prems(3,4) by (simp_all add: table_apart_def)
  have step: "\<exists>m cs. clone_table_loop (Suc n) (of_nat i) src t s
        = clone_table_loop n (of_nat (Suc i)) src t (s\<lparr>mem := m, phys_copies := phys_copies s @ cs\<rparr>)
      \<and> bitmap_or (unat ?p) (unat ?p + 4) s m \<and> ld32 m ?p = e' \<and> used_frames (s\<lparr>mem := m\<rparr>) = U'"
  proof (cases "page_frame (rd ?q s) = 0")
    case True
    have "rd ?p s = 0" using Suc.prems(7) i by simp
    then obtain m1 where m1: "alloc_frame ?p 0 0 s = Inr ((), s\<lparr>mem := m1\<rparr>)" "ld32 m1 ?p = new_entry (of_nat k) 0 0 0"
      "bitmap_or (unat ?p) (unat ?p + 4) s m1" "used_frames (s\<lparr>mem := m1\<rparr>) = insert k ?U"
      by (rule alloc_frame_exact [OF Suc.prems(1,2) table_entry_apart [OF Suc.prems(3) i] _ k_def])
    have sep: "unat ?p + 4 \<le> 4294967296" "unat ?q + 4 \<le> 4294967296" "unat ?q + 4 \<le> unat ?p \<or> unat ?p + 4 \<le> unat ?q"
      using at [OF i] i Suc.prems(3-5) by (auto simp: table_apart_def)
    have q: "ld32 m1 ?q = rd ?q s" by (rule bitmap_or_rd [OF m1(3) table_entry_apart [OF Suc.prems(4) i] sep(3)])
    obtain m2 where m2: "clone_flags ?q ?p (s\<lparr>mem := m1\<rparr>) = s\<lparr>mem := m2\<rparr>" "only_in (unat ?p) (unat ?p + 4) m1 m2"
      "ld32 m2 ?p = with_flags (new_entry (of_nat k) 0 0 0) (rd ?q s)"
      by (rule clone_flags_runs [OF sep, of "s\<lparr>mem := m1\<rparr>"]) (simp add: rd_def m1(2) q [unfolded rd_def])
    have "bitmap_or (unat ?p) (unat ?p + 4) s m2" using m1(3) m2(2) by (simp add: bitmap_or_def only_in_def)
    moreover have "used_frames (s\<lparr>mem := m2\<rparr>) = used_frames (s\<lparr>mem := m1\<rparr>)"
    proof (rule used_frames_bitmap)
      have "unat ?p + 4 \<le> bm_lo s \<or> bm_hi s \<le> unat ?p" using table_entry_apart [OF Suc.prems(3) i] by (simp add: entry_apart_def)
      then show "same_on (bm_lo (s\<lparr>mem := m1\<rparr>)) (bm_hi (s\<lparr>mem := m1\<rparr>)) (mem (s\<lparr>mem := m1\<rparr>)) (mem (s\<lparr>mem := m2\<rparr>))"
        using only_in_same_on [OF m2(2), of "bm_hi s" "bm_lo s"] by auto
    qed (use Suc.prems(1) in \<open>simp_all add: bitmap_ok_def\<close>)
    moreover have "\<exists>cs. clone_table_loop (Suc n) (of_nat i) src t s
        = clone_table_loop n (of_nat (Suc i)) src t (s\<lparr>mem := m2, phys_copies := phys_copies s @ cs\<rparr>)"
      using True m1(1) m2(1) by (simp add: Let_def clone_flags_def copy_page_physical_def add.commute) blast
    ultimately show ?thesis using True m2(3) m1(4) by (auto simp: U'_def e'_def)
  next
    case False
    have "rd ?p s = 0" using Suc.prems(7) i by simp
    then show ?thesis
      by (intro exI [of _ "mem s"] exI [of _ "[]"]) (use False in \<open>simp add: bitmap_or_def U'_def e'_def rd_def add.commute\<close>)
  qed
  then obtain m cs where st: "clone_table_loop (Suc n) (of_nat i) src t s
        = clone_table_loop n (of_nat (Suc i)) src t (s\<lparr>mem := m, phys_copies := phys_copies s @ cs\<rparr>)"
    "bitmap_or (unat ?p) (unat ?p + 4) s m" "ld32 m ?p = e'" "used_frames (s\<lparr>mem := m\<rparr>) = U'" by blast
  let ?s = "s\<lparr>mem := m, phys_copies := phys_copies s @ cs\<rparr>"
  have uf: "used_frames (?s\<lparr>mem := m'\<rparr>) = used_frames (s\<lparr>mem := m'\<rparr>)" "used_frames ?s = U'" for m'
    unfolding st(4) [symmetric] by (simp_all add: used_frames_def frame_bit_def frame_count_def rd_def)
  have ok: "bitmap_ok ?s" "0 < frame_count ?s" "table_apart t ?s" "table_apart src ?s" and N: "frame_count ?s = ?N"
    using Suc.prems(1-4) by (simp_all add: bitmap_ok_def frame_count_def table_apart_def)
  have kept: "rd a ?s = rd a s" if "entry_apart a s" "unat a + 4 \<le> unat ?p \<or> unat ?p + 4 \<le> unat a" for a
    using bitmap_or_rd [OF st(2) that] by (simp add: rd_def)
  have z: "\<forall>j < 1024. Suc i \<le> j \<longrightarrow> rd (pages_at t (of_nat j)) ?s = 0"
    using Suc.prems(7) kept [OF table_entry_apart [OF Suc.prems(3)]] at i by simp
  have src: "rd (pages_at src (of_nat j)) ?s = rd (pages_at src (of_nat j)) s" if "j < 1024" for j
    by (rule kept [OF table_entry_apart [OF Suc.prems(4) that]]) (use at [OF that] at [OF i] Suc.prems(5) i that in auto)
  let ?es = "table_entries src (Suc i) (mem s)"
  have es: "table_entries src (Suc i) (mem ?s) = ?es" using src by (simp add: rd_def)
  obtain m' cs' where r: "clone_table_loop n (of_nat (Suc i)) src t ?s = Inr ((), ?s\<lparr>mem := m', phys_copies := phys_copies ?s @ cs'\<rparr>)"
    "bitmap_or (unat t + 4 * Suc i) (unat t + 4096) ?s m'" "table_entries t (Suc i) m' = clone_entries ?N U' ?es"
    "used_frames (s\<lparr>mem := m'\<rparr>) = U' \<union> set (frames_given ?N U' ?es)"
    using Suc.IH [OF ok Suc.prems(5) _ z] Suc.prems(6) unfolding es N uf by auto
  have "bitmap_or (unat t + 4 * i) (unat t + 4096) s m"
    by (rule bitmap_or_mono [OF st(2)]) (use at [OF i] i in simp_all)
  moreover have "bitmap_or (unat t + 4 * i) (unat t + 4096) (s\<lparr>mem := m\<rparr>) m'"
    using bitmap_or_mono [OF r(2), of "unat t + 4 * i" "unat t + 4096"] by (simp add: bitmap_or_def)
  ultimately have b: "bitmap_or (unat t + 4 * i) (unat t + 4096) s m'" by (rule bitmap_or_trans)
  have "ld32 m' ?p = ld32 m ?p"
    using bitmap_or_rd [OF r(2), of ?p] table_entry_apart [OF Suc.prems(3) i] at [OF i]
    by (simp add: rd_def entry_apart_def)
  then have p: "ld32 m' ?p = e'" using st(3) by simp
  have "table_entries t i m' = e' # table_entries t (Suc i) m'" "table_entries src i (mem s) = rd ?q s # ?es"
    using i p by (simp_all add: upt_conv_Cons rd_def)
  then show ?case using r st(1) b
    by (intro exI [of _ m'] exI [of _ "cs @ cs'"]) (auto simp: U'_def e'_def k_def)
qed

subsection \<open>\<open>clone_table\<close>\<close>

lemma with_flags_bits:
  "bit (with_flags (new_entry k 0 0 0) f) PRESENT" "bit (with_flags (new_entry k 0 0 0) f) USER"
  "bit (with_flags (new_entry k 0 0 0) f) RW = bit f RW" "bit (with_flags (new_entry k 0 0 0) f) ACCESSED = bit f ACCESSED"
  "bit (with_flags (new_entry k 0 0 0) f) DIRTY = bit f DIRTY"
proof -
  have s: "bit (set_flag n True e) b = (b = n \<or> bit e b)" if "b < 32" "n < 32" for n b and e :: u32
    using that by (auto simp: set_flag_def bit_simps)
  note b = s [of PRESENT] s [of RW] s [of USER] s [of ACCESSED] s [of DIRTY]
  have "PRESENT = 0" "RW = 1" "USER = 2" "ACCESSED = 3" "DIRTY = 4"
    by (simp_all add: PRESENT_def RW_def USER_def ACCESSED_def DIRTY_def)
  note n = this
  show "bit (with_flags (new_entry k 0 0 0) f) PRESENT" "bit (with_flags (new_entry k 0 0 0) f) USER"
    "bit (with_flags (new_entry k 0 0 0) f) RW = bit f RW" "bit (with_flags (new_entry k 0 0 0) f) ACCESSED = bit f ACCESSED"
    "bit (with_flags (new_entry k 0 0 0) f) DIRTY = bit f DIRTY"
    using new_entry_bits [of k 0 0 0] unfolding with_flags_def n by (simp_all add: s)
qed

text \<open>An entry of the table that is being cloned and what stands for it in the clone.\<close>

definition entry_kept :: "u32 \<Rightarrow> u32 \<Rightarrow> bool" where
  "entry_kept e e' \<longleftrightarrow> (if page_frame e = 0
     then bit e' PRESENT \<and> bit e' USER \<and> bit e' RW = bit e RW \<and> bit e' ACCESSED = bit e ACCESSED \<and> bit e' DIRTY = bit e DIRTY
     else e' = 0)"

lemma clone_entries_kept: "j < length es \<Longrightarrow> entry_kept (es ! j) (clone_entries N U es ! j)"
proof (induction N U es arbitrary: j rule: clone_entries.induct)
  case (2 N U e es)
  then show ?case by (cases j) (auto simp: entry_kept_def with_flags_bits)
qed simp

lemma with_flags_frame: "page_frame (with_flags e f) = page_frame e"
proof -
  have "page_frame (set_flag n True e) = page_frame e" if "n < 12" for n and e :: u32
    using that by (auto simp: page_frame_def set_flag_def bit_simps intro!: bit_word_eqI)
  then show ?thesis by (simp add: with_flags_def PRESENT_def RW_def USER_def ACCESSED_def DIRTY_def)
qed

lemma clone_entries_frames:
  "0 < N \<Longrightarrow> N \<le> 1048576 \<Longrightarrow>
    map (page_frame \<circ> snd) (filter (\<lambda>p. page_frame (fst p) = 0) (zip es (clone_entries N U es))) = map of_nat (frames_given N U es)"
proof (induction N U es rule: clone_entries.induct)
  case (2 N U e es)
  have "next_frame N U < 1048576" using next_frame_bound [OF 2(3), of U] 2(4) by simp
  then have "unat (of_nat (next_frame N U) :: u32) < 1048576" by (simp add: unat_of_nat32)
  then show ?case using 2 by (simp add: with_flags_frame)
qed simp

text \<open>The whole function, and where it writes.\<close>

lemma clone_table_runs:
  assumes kap: "kap sizeof_page_table s = Inr ((t, ph), s1)" and ok: "bitmap_ok s1" "0 < frame_count s1"
    and t: "unat t + 8196 \<le> 4294967296" "unat t + 8196 \<le> bm_lo s1 \<or> bm_hi s1 \<le> unat t"
    and src: "table_apart src s1" "unat src + 4096 \<le> unat t \<or> unat t + 8196 \<le> unat src"
  obtains m cs where "clone_table kap src s = Inr ((t, ph), s1\<lparr>mem := m, phys_copies := phys_copies s1 @ cs\<rparr>)"
    and "\<forall>j < 1024. entry_kept (rd (pages_at src (of_nat j)) s1) (ld32 m (pages_at t (of_nat j)))"
    and "\<forall>x. unat t + 4096 \<le> unat x \<longrightarrow> unat x < unat t + 8196 \<longrightarrow> m x = 0"
    and "bitmap_or (unat t) (unat t + 8196) s1 m"
    and "table_entries t 0 m = clone_entries (frame_count s1) (used_frames s1) (table_entries src 0 (mem s1))"
    and "used_frames (s1\<lparr>mem := m\<rparr>) = used_frames s1 \<union> set (frames_given (frame_count s1) (used_frames s1) (table_entries src 0 (mem s1)))"
proof -
  let ?s = "s1\<lparr>mem := memset t 0 sizeof_page_directory (mem s1)\<rparr>"
  let ?es = "table_entries src 0 (mem s1)"
  have sz: "unat sizeof_page_directory = 8196" by (simp add: sizeof_page_directory_def)
  have o: "only_in (unat t) (unat t + 8196) (mem s1) (mem ?s)"
    using memset_only_in [of t sizeof_page_directory "mem s1" 0] t(1) by (simp add: sz)
  have zero: "mem ?s x = 0" if "unat t \<le> unat x" "unat x < unat t + 8196" for x
  proof -
    have "unat x - unat t < 8196" using that by linarith
    then show ?thesis using that by (simp add: memset_apply sz unat_sub32)
  qed
  have ap: "table_apart t ?s" "table_apart src ?s" "bitmap_ok ?s" "0 < frame_count ?s"
    using ok t src(1) by (auto simp: table_apart_def bitmap_ok_def frame_count_def)
  have N: "frame_count ?s = frame_count s1" by (simp add: frame_count_def)
  have U: "used_frames ?s = used_frames s1"
    by (rule used_frames_bitmap [OF ok(1)]) (use only_in_same_on [OF o, of "bm_hi s1" "bm_lo s1"] t(2) in auto)
  have pt: "unat (pages_at t (of_nat j)) = unat t + 4 * j" "unat (pages_at src (of_nat j)) = unat src + 4 * j" if "j < 1024" for j
    using unat_pages_at [OF _ that] t(1) src(1) by (simp_all add: table_apart_def)
  have z: "\<forall>j < 1024. 0 \<le> j \<longrightarrow> rd (pages_at t (of_nat j)) ?s = 0"
    unfolding rd_def using pt t(1) by (auto simp: sz intro!: ld32_memset_zero)
  have sr: "rd (pages_at src (of_nat j)) ?s = rd (pages_at src (of_nat j)) s1" if "j < 1024" for j
    unfolding rd_def by (rule ld32_only_in [OF o]) (use pt [OF that] src that in \<open>auto simp: table_apart_def\<close>)
  then have es: "table_entries src 0 (mem ?s) = ?es" by (simp add: rd_def)
  obtain m cs where r: "clone_table_loop 1024 (of_nat 0) src t ?s = Inr ((), ?s\<lparr>mem := m, phys_copies := phys_copies ?s @ cs\<rparr>)"
    "bitmap_or (unat t + 4 * 0) (unat t + 4096) ?s m"
    "table_entries t 0 m = clone_entries (frame_count s1) (used_frames s1) ?es"
    "used_frames (?s\<lparr>mem := m\<rparr>) = used_frames s1 \<union> set (frames_given (frame_count s1) (used_frames s1) ?es)"
    using clone_table_loop_runs [OF ap(3,4,1,2) _ _ z, where n = 1024] src(2) unfolding N U es by auto
  have run: "clone_table kap src s = Inr ((t, ph), s1\<lparr>mem := m, phys_copies := phys_copies s1 @ cs\<rparr>)"
    using kap r(1) by (simp add: clone_table_def)
  have behind: "m x = 0" if x: "unat t + 4096 \<le> unat x" "unat x < unat t + 8196" for x
  proof -
    have "unat x < bm_lo ?s \<or> bm_hi ?s \<le> unat x" "unat x < unat t + 4 * 0 \<or> unat t + 4096 \<le> unat x"
      using x t(2) by auto
    then have "m x = mem ?s x" by (rule r(2) [unfolded bitmap_or_def, rule_format])
    then show ?thesis using zero [of x] x by simp
  qed
  have "bitmap_or (unat t) (unat t + 8196) s1 m" using r(2) o by (auto simp: bitmap_or_def only_in_def)
  moreover have "entry_kept (rd (pages_at src (of_nat j)) s1) (ld32 m (pages_at t (of_nat j)))" if "j < 1024" for j
    using clone_entries_kept [of j ?es "frame_count s1" "used_frames s1"] that unfolding r(3) [symmetric] by (simp add: rd_def)
  ultimately show ?thesis using that run behind r(3,4) by simp
qed

text \<open>A block of the heap behind the table loses its header.\<close>

lemma blanked_header:
  assumes m: "\<forall>x. unat t + 4096 \<le> unat x \<longrightarrow> unat x < unat t + 8196 \<longrightarrow> mem s x = 0"
    and h: "unat t = heap_start h s + bsum bs1 + 12" and t: "unat t + 8196 \<le> 4294967296"
  shows "\<not> heap_ok h s (bs1 @ (False, 4116) # (b, n) # bs2)"
proof
  let ?a = "heap_start h s + bsum (bs1 @ [(False, 4116)])"
  assume "heap_ok h s (bs1 @ (False, 4116) # (b, n) # bs2)"
  then have "chain (mem s) (heap_start h s) ((bs1 @ [(False, 4116)]) @ (b, n) # bs2)" using heap_okD(5) by fastforce
  then have "hdr (mem s) ?a b n" by (rule chain_split(3))
  then have g: "ld32 (mem s) (of_nat ?a) = HEAP_MAGIC" by (simp add: hdr_def)
  have eq: "?a = unat t + 4104" using h by simp
  have "unat (of_nat (unat t + 4104) :: u32) = unat t + 4104" using t by (intro unat_of_nat32) simp
  then have "ld32 (mem s) (of_nat (unat t + 4104)) = 0"
    using t m by (intro ld32_zero allI impI) (simp add: unat_add32 unat_of_nat32)
  then have "HEAP_MAGIC = 0" using g unfolding eq by (rule trans [OF sym, rotated])
  then show False by (simp add: HEAP_MAGIC_def)
qed

text \<open>
  C35: \<open>clone_table\<close>, as it is written, and the frames it gives. Of the entries \<open>es\<close> of the table, every one that has a
  frame is left out of the clone, and every one without a frame is given one, present and for user code, with the other
  flags of the old entry: in the order of the entries the least frame not in use, which is in use from then on, and frame
  0 once there is none left (\<open>clone_entries\<close> is the whole new table). The frames in use afterwards are those before and
  those given; as long as there are enough frames, the ones given are all different and none was in use. And
  the clone is blanked over the size of a directory, 4100 bytes more than the table has: when the table is a block of
  the heap with another block behind it, the header of that block is lost and the heap is no longer consistent.
\<close>

theorem clone_table_as_written:
  assumes kap: "kap sizeof_page_table s = Inr ((t, ph), s1)" and ok: "bitmap_ok s1" "0 < frame_count s1"
    and t: "unat t + 8196 \<le> 4294967296" "unat t + 8196 \<le> bm_lo s1 \<or> bm_hi s1 \<le> unat t"
    and src: "table_apart src s1" "unat src + 4096 \<le> unat t \<or> unat t + 8196 \<le> unat src"
    and N: "N = frame_count s1" and U: "U = used_frames s1" and es: "es = table_entries src 0 (mem s1)"
  shows "\<exists>s2. clone_table kap src s = Inr ((t, ph), s2)
    \<and> (\<forall>j < 1024. entry_kept (rd (pages_at src (of_nat j)) s1) (rd (pages_at t (of_nat j)) s2))
    \<and> table_entries t 0 (mem s2) = clone_entries N U es
    \<and> map (page_frame \<circ> snd) (filter (\<lambda>p. page_frame (fst p) = 0) (zip es (table_entries t 0 (mem s2)))) = map of_nat (frames_given N U es)
    \<and> used_frames s2 = U \<union> set (frames_given N U es)
    \<and> (card U + length (filter (\<lambda>e. page_frame e = 0) es) \<le> N \<longrightarrow> distinct (frames_given N U es) \<and> set (frames_given N U es) \<inter> U = {})
    \<and> (\<forall>x. unat t + 4096 \<le> unat x \<longrightarrow> unat x < unat t + 8196 \<longrightarrow> mem s2 x = 0)
    \<and> (\<forall>h bs1 b n bs2. unat t = heap_start h s2 + bsum bs1 + 12 \<longrightarrow> \<not> heap_ok h s2 (bs1 @ (False, 4116) # (b, n) # bs2))"
proof -
  obtain m cs where r: "clone_table kap src s = Inr ((t, ph), s1\<lparr>mem := m, phys_copies := phys_copies s1 @ cs\<rparr>)"
    "\<forall>j < 1024. entry_kept (rd (pages_at src (of_nat j)) s1) (ld32 m (pages_at t (of_nat j)))"
    "\<forall>x. unat t + 4096 \<le> unat x \<longrightarrow> unat x < unat t + 8196 \<longrightarrow> m x = 0"
    "table_entries t 0 m = clone_entries N U es" "used_frames (s1\<lparr>mem := m\<rparr>) = U \<union> set (frames_given N U es)"
    unfolding N U es by (rule clone_table_runs [where kap = kap, OF assms(1-7)])
  let ?u = "s1\<lparr>mem := m, phys_copies := phys_copies s1 @ cs\<rparr>"
  have broken: "\<not> heap_ok h ?u (bs1 @ (False, 4116) # (b, n) # bs2)" if h: "unat t = heap_start h ?u + bsum bs1 + 12" for h bs1 b n bs2
    by (rule blanked_header [OF _ h]) (use t(1) r(3) in simp_all)
  have "N \<le> 1048576" using frame_count_bound [OF ok(1), of "N - 1"] ok(2) by (simp add: N)
  from clone_entries_frames [OF _ this, of es U] have frames: "map (page_frame \<circ> snd) (filter (\<lambda>p. page_frame (fst p) = 0)
      (zip es (table_entries t 0 m))) = map of_nat (frames_given N U es)"
    using ok(2) by (simp add: N r(4))
  have "U \<subseteq> {..<N}" by (auto simp: U N used_frames_def)
  note fresh = frames_given_fresh [OF this]
  have "used_frames ?u = used_frames (s1\<lparr>mem := m\<rparr>)" by (simp add: used_frames_def frame_bit_def frame_count_def rd_def)
  then have "used_frames ?u = U \<union> set (frames_given N U es)" using r(5) by simp
  then show ?thesis using r(1-4) frames fresh broken by (intro exI [of _ ?u] conjI) (simp_all add: rd_def)
qed

text \<open>A table with a frame in its first entry, and a block behind the place of its clone.\<close>

definition clone_example :: machine where
  "clone_example = (power_on (st32 (st32 (\<lambda>_. 0) 0x3000 0x5003) 0x11008 HEAP_MAGIC) (\<lambda>_ _. 0))\<lparr>frames := 0x1000, nframes := 64\<rparr>"

theorem clone_table_as_written_witness:
  "\<exists>s2. clone_table (\<lambda>_. ret (0x10000, 0x10000)) 0x3000 clone_example = Inr ((0x10000, 0x10000), s2)
    \<and> rd 0x10000 s2 = 0 \<and> bit (rd 0x10004 s2) PRESENT \<and> page_frame (rd 0x10004 s2) = 0 \<and> page_frame (rd 0x10008 s2) = 1
    \<and> rd 0x11008 clone_example = HEAP_MAGIC \<and> mem s2 0x11008 = 0"
proof -
  let ?es = "table_entries 0x3000 0 (mem clone_example)" and ?U = "used_frames clone_example"
  have ok: "bitmap_ok clone_example" "0 < frame_count clone_example" "table_apart 0x3000 clone_example"
    "unat (0x10000 :: u32) + 8196 \<le> bm_lo clone_example \<or> bm_hi clone_example \<le> unat (0x10000 :: u32)"
    by (simp_all add: clone_example_def bitmap_ok_def frame_count_def table_apart_def unat_numeral32)
  have e: "rd 0x3000 clone_example = 0x5003" "rd 0x3004 clone_example = 0" "rd 0x3008 clone_example = 0" "rd 0x11008 clone_example = HEAP_MAGIC"
    by (simp_all add: clone_example_def rd_def ld32_st32_far unat_numeral32 ld32_def [of "\<lambda>_. 0"])
  obtain s2 where s2: "clone_table (\<lambda>_. ret (0x10000, 0x10000)) 0x3000 clone_example = Inr ((0x10000, 0x10000), s2)"
    "\<forall>j < 1024. entry_kept (rd (pages_at 0x3000 (of_nat j)) clone_example) (rd (pages_at 0x10000 (of_nat j)) s2)"
    "table_entries 0x10000 0 (mem s2) = clone_entries (frame_count clone_example) ?U ?es"
    "\<forall>x. 0x11000 \<le> unat x \<longrightarrow> unat x < 0x12004 \<longrightarrow> mem s2 x = 0"
    using clone_table_as_written [of "\<lambda>_. ret (0x10000, 0x10000)" clone_example "0x10000" "0x10000" clone_example "0x3000", OF _ ok(1,2) _ ok(4,3) _ refl refl refl]
    by (auto simp: ret_def unat_numeral32)
  have pf: "page_frame 0x5003 \<noteq> 0" "page_frame 0 = 0" by (simp_all add: page_frame_def)
  have k0: "entry_kept 0x5003 (rd 0x10000 s2)" "entry_kept 0 (rd 0x10004 s2)"
    using s2(2) [rule_format, of 0] s2(2) [rule_format, of 1] by (simp_all add: pages_at_def e)
  have fc: "frame_count clone_example = 64" by (simp add: clone_example_def frame_count_def)
  have w: "rd 0x1000 clone_example = 0" "rd 0x1004 clone_example = 0"
    by (simp_all add: clone_example_def rd_def ld32_st32_far unat_numeral32 ld32_def [of "\<lambda>_. 0"])
  have "\<not> frame_bit clone_example n" if "n < 64" for n
  proof -
    have "n div 32 = 0 \<or> n div 32 = 1" using that by linarith
    moreover have "frames clone_example = 0x1000" by (simp add: clone_example_def)
    ultimately have "rd (frames clone_example + 4 * of_nat (n div 32)) clone_example = 0" using w by auto
    then show ?thesis by (simp add: frame_bit_def)
  qed
  then have U: "?U = {}" by (auto simp: used_frames_def fc)
  have "[i..<1024] = i # [Suc i..<1024]" if "i < 3" for i using that by (intro upt_conv_Cons) linarith
  from this [of 0] this [of 1] this [of 2] obtain js where up: "[0..<1024] = 0 # 1 # 2 # js"
    by (auto simp: numeral_2_eq_2 simp del: upt_rec_numeral)
  have nf: "next_frame 64 {} = 0" "next_frame 64 {0} = 1" by (rule next_frame_least; simp)+
  have "rd 0x10004 s2 = with_flags (new_entry (of_nat 0) 0 0 0) 0" "rd 0x10008 s2 = with_flags (new_entry (of_nat 1) 0 0 0) 0"
    using s2(3) e(1-3) unfolding up fc U by (simp_all add: pages_at_def rd_def pf nf)
  then have "page_frame (rd 0x10004 s2) = 0" "page_frame (rd 0x10008 s2) = 1" by (simp_all add: with_flags_frame)
  moreover have "rd 0x10000 s2 = 0" "bit (rd 0x10004 s2) PRESENT" using k0 pf by (simp_all add: entry_kept_def)
  moreover have "mem s2 0x11008 = 0" using s2(4) by (simp add: unat_numeral32)
  ultimately show ?thesis using s2(1) e(4) by (intro exI [of _ s2]) simp
qed

end
