(* ===== verification/Boot_Fork.thy ===== *)
theory Boot_Fork
  imports Boot_Tasks Clone_Table
begin

text \<open>
  The first \<open>fork\<close> of the boot: the clone of the page directory with its two tables of the stack, the growth of the
  heap it makes necessary, the task of the child, and the boot from power on to the call of the program. The first part
  follows the index of the heap while its blocks are no longer in order, which is what the clone does to them.
\<close>

unbundle bit_operations_syntax


subsection \<open>A page-aligned request, from the index alone\<close>

text \<open>
  What \<open>alloc\<close> does with a page-aligned request depends on the entries of the index and the sizes in the headers they
  name, whatever else is in the heap: here the only entry that fits is the one at \<open>a\<close>.
\<close>

definition index_fine :: "u32 \<Rightarrow> nat \<Rightarrow> machine \<Rightarrow> bool" where
  "index_fine h a s \<longleftrightarrow> oa_ok (index (heap_at s h)) \<and> less_than (index (heap_at s h)) = Header_T_Less_Than
     \<and> unat (oa_size (index (heap_at s h))) < unat (max_size (index (heap_at s h))) \<and> oa_hi (index (heap_at s h)) \<le> a"

lemma alloc_front_run:
  assumes i: "index_fine h a s" and x: "of_nat a \<in> set (elems (mem s) (index (heap_at s h)))"
    and size: "h_size (of_nat a) s = of_nat N"
    and fits: "\<And>y. y \<in> set (elems (mem s) (index (heap_at s h))) \<Longrightarrow> hole_fits (of_nat (z + 20)) 1 y s = (y = of_nat a)"
    and a: "4096 \<le> a" "a mod 4096 \<le> 4064" "a + N \<le> heap_end h s"
    and b: "b = a + front_size a" and c: "c = b + z + 20" and N: "a + N = c + r" and r: "r = 0 \<or> 20 \<le> r"
  obtains oa m3 m where "alloc (Suc n) (of_nat z) 1 h s = Inr (of_nat (b + 12), with_index h oa m s)"
    and "only_in a (a + N) (mem s) m3" and "hdr m3 a True (front_size a)" and "hdr m3 b False (z + 20)"
    and "r \<noteq> 0 \<Longrightarrow> hdr m3 c True r"
    and "only_in (oa_lo (index (heap_at s h))) (oa_hi (index (heap_at s h))) m3 m" and "r = 0 \<Longrightarrow> m = m3"
    and "elems m oa = (if r = 0 then elems (mem s) (index (heap_at s h))
      else insert_by (header_t_less_than m3) (of_nat c) (elems (mem s) (index (heap_at s h))))"
    and "oa_ok oa" and "oa = index (heap_at s h)\<lparr>oa_size := oa_size (index (heap_at s h)) + (if r = 0 then 0 else 1)\<rparr>"
proof -
  let ?oa = "index (heap_at s h)" and ?k = "front_size a" and ?new = "of_nat z + sizeof_header + sizeof_footer :: u32"
  let ?xs = "elems (mem s) ?oa" and ?a = "a + front_size a"
  note I = i [unfolded index_fine_def]
  have N: "N = ?k + z + 20 + r" using N b c by simp
  have en: "heap_end h s < 4294967296" by (rule unat_bound32)
  have k: "20 \<le> ?k" using a(2) by (simp add: front_size_def)
  have new: "?new = of_nat (z + 20)" by (simp add: sizeof_header_def sizeof_footer_def)
  have fa: "hole_fits ?new 1 (of_nat a) s" using fits [OF x] unfolding new by simp
  note ff = first_fit_props [OF x fa]
  let ?j = "first_fit ?new 1 h s"
  have "?xs ! ?j \<in> set ?xs" using ff(1) by (intro nth_mem) simp
  then have at: "?xs ! ?j = of_nat a" using fits ff(2) unfolding new by blast
  have ok: "oa_ok ?oa" using I by blast
  note found = find_smallest_hole_found [OF ok ff(1)]
  have j: "of_nat ?j < oa_size ?oa" using ff(1) found(2) by (simp add: word_less_nat_alt)
  have run: "alloc (Suc n) (of_nat z) 1 h s = alloc_take (of_nat ?j) (of_nat z) 1 ?new h s"
    using found by (simp add: alloc_body_def Let_def)
  define m1 where "m1 = front_mem a ?k (mem s)"
  define t where "t = with_index h ?oa m1 s"
  have top: "a + (?k + z + 20 + r) < 4294967296" using a(3) en by (simp add: N)
  have f: "only_in a (a + ?k) (mem s) m1" "hdr m1 a True ?k"
    unfolding m1_def using front_mem [of a ?k "mem s"] k top by simp_all
  have take: "alloc_take (of_nat ?j) (of_nat z) 1 ?new h s =
      place_block (of_nat ?a) (of_nat (z + 20 + r)) (of_nat z) (of_nat (z + 20)) h t"
  proof -
    have n: "N - ?k = z + 20 + r" "?k + z + 20 \<le> N" "a + N < 4294967296" using N top by simp_all
    have "elems (mem s) ?oa ! unat (of_nat ?j :: u32) = of_nat a" unfolding found(2) by (rule at)
    from alloc_take_front [OF j this _ a(1,2) n(2,3)] size show ?thesis unfolding n(1) by (simp add: rd_def t_def m1_def)
  qed
  define m3 where "m3 = cut_mem ?a (z + 20) (z + 20 + r) m1"
  have w: "only_in ?a (?a + (z + 20 + r)) m1 m3" "chain m3 ?a (cut_blocks (z + 20) (z + 20 + r))"
    unfolding m3_def using cut_mem_chain [of "z + 20" "z + 20 + r" ?a m1] r top by auto
  have e3: "elems m3 ?oa = ?xs"
  proof -
    have "elems m3 ?oa = elems m1 ?oa" using I by (intro elems_same_on [OF ok only_in_same_on [OF w(1)]]) simp
    also have "\<dots> = ?xs" using I by (intro elems_same_on [OF ok only_in_same_on [OF f(1)]]) simp
    finally show ?thesis .
  qed
  have room: "unat (oa_size ?oa) < unat (max_size ?oa)" and lt: "less_than ?oa = Header_T_Less_Than" using I by blast+
  obtain oa' m' where ins: "insert_ordered_array (of_nat (?a + (z + 20))) ?oa m3 = Inr (oa', m')"
    "oa' = ?oa\<lparr>oa_size := oa_size ?oa + 1\<rparr>" "oa_ok oa'" "only_in (oa_lo ?oa) (oa_hi ?oa) m3 m'"
    "elems m' oa' = insert_by (header_t_less_than m3) (of_nat (?a + (z + 20))) (elems m3 ?oa)"
    by (rule insert_hole [OF ok room lt])
  let ?oa2 = "if r = 0 then ?oa else oa'" and ?m = "if r = 0 then m3 else m'"
  have place: "place_block (of_nat ?a) (of_nat (z + 20 + r)) (of_nat z) (of_nat (z + 20)) h t
      = Inr (of_nat ?a + sizeof_header, with_index h ?oa2 ?m s)"
    using place_block_run [where n = "z + 20" and N = "z + 20 + r" and a = ?a and h = h and s = t and ?oa2.0 = oa' and ?m2.0 = m'] r top a(3) ins(1)
    by (auto simp: t_def m3_def cut_mem_def N)
  have o3: "only_in a (a + N) (mem s) m3"
    by (rule only_in_trans [OF only_in_mono [OF f(1)] only_in_mono [OF w(1)]]) (simp_all add: N)
  have "hdr m3 a True ?k"
    using hdr_same_on [OF only_in_same_on [OF w(1), of "a + 12" a]] f(2) k top by simp
  moreover have "(of_nat ?a + sizeof_header :: u32) = of_nat (?a + 12)" by (simp add: sizeof_header_def)
  ultimately show ?thesis
    using that [of ?oa2 ?m m3] run take place o3 w(2) ins e3 ok r by (auto simp: add.assoc b c cut_blocks_def)
qed

subsection \<open>The blocks that \<open>fork\<close> takes from the heap\<close>

definition fork_blocks :: "block list" where
  "fork_blocks = [(False, 32), (False, 44), (True, 4008), (False, 8216), (True, 4072), (False, 4116), (True, 4076), (False, 4116),
     (True, 4076), (False, 8216), (True, 479220)]"

lemma fork_directory_block:
  assumes k: "kernel_up p d c tasked_blocks s"
  obtains t where "kmalloc_ap (Suc n) sizeof_page_directory s = Inr ((0xC0089000, page_word (d + 144)), t)"
    and "kernel_up p d c fork_blocks t" and "heap_step 0xC0088008 0xC0100000 s t"
proof -
  have sz: "unat sizeof_page_directory = 8196" by (simp add: sizeof_page_directory_def)
  note fs = sz front_size_def tasked_blocks_def fork_blocks_def
  have well: "aligns_well 0xC0081000 (unat sizeof_page_directory) tasked_blocks"
    unfolding aligns_well_def by (auto simp: fs Cons_eq_append_conv Let_def)
  have pw: "page_word (0xC0000 + 137) = 0xC0089000" by (simp add: page_word_def)
  show ?thesis
    by (rule kmalloc_ap_up [OF k _ well, of "[(False, 32), (False, 44), (True, 4008), (False, 8216), (True, 4072), (False, 4116), (True, 4076), (False, 4116)]" "491512" "[]" 137 n, unfolded pw])
      (use that in \<open>auto simp: fs Cons_eq_append_conv cut_blocks_def add.commute\<close>)
qed

subsection \<open>The index while \<open>fork\<close> works\<close>

text \<open>
  The entries of the index are the six holes, the smallest one first; the sizes are the ones in the headers, and \<open>z\<close>
  that of the last hole, whose header the code destroys.
\<close>

definition fork_holes :: "u32 list" where
  "fork_holes = [0xC008104C, 0xC008400C, 0xC0086008, 0xC0088008, 0xC008B00C, 0xC008D008]"

definition fork_index :: "u32 list \<Rightarrow> u32 \<Rightarrow> u32 \<Rightarrow> machine \<Rightarrow> bool" where
  "fork_index xs z h s \<longleftrightarrow> kheap s = h \<and> elems (mem s) (index (heap_at s h)) = xs \<and> mset xs = mset fork_holes \<and> hd xs = 0xC008104C
     \<and> oa_ok (index (heap_at s h)) \<and> less_than (index (heap_at s h)) = Header_T_Less_Than
     \<and> array (index (heap_at s h)) = KHEAP_START \<and> max_size (index (heap_at s h)) = HEAP_INDEX_SIZE
     \<and> start_address (heap_at s h) = 0xC0081000 \<and> max_address (heap_at s h) = 0xCFFFF000
     \<and> h_size 0xC008104C s = 4008 \<and> h_size 0xC008400C s = 4072 \<and> h_size 0xC0086008 s = 4076 \<and> h_size 0xC0088008 s = 4076
     \<and> h_size 0xC008B00C s = 4072 \<and> h_size 0xC008D008 s = z"

text \<open>The holes before the first of the two tables is cloned.\<close>

lemma fork_block_holes:
  assumes h: "kernel_heap h fork_blocks s"
  obtains ys where "elems (mem s) (index (heap_at s h)) = 0xC008104C # ys"
    and "mset (0xC008104C # ys) = mset [0xC008104C, 0xC008400C, 0xC0086008, 0xC0088008, 0xC008B00C]"
    and "h_size 0xC008104C s = 4008" and "h_size 0xC008400C s = 4072" and "h_size 0xC0086008 s = 4076" and "h_size 0xC0088008 s = 4076"
    and "h_size 0xC008B00C s = 479220"
proof -
  let ?xs = "elems (mem s) (index (heap_at s h))"
  let ?H = "[0xC008104C, 0xC008400C, 0xC0086008, 0xC0088008, 0xC008B00C] :: u32 list"
  note H = h [unfolded kernel_heap_def]
  have ok: "heap_ok h s fork_blocks" and srt: "index_sorted h s" and st: "heap_start h s = 0xC0081000" using H by blast+
  note D = heap_okD [OF ok, unfolded st]
  have "?xs = map of_nat (map unat ?xs)" by (simp add: o_def)
  then have "mset ?xs = image_mset of_nat (mset (map unat ?xs))" by (metis mset_map)
  then have ms: "mset ?xs = mset ?H" unfolding D(6) by (simp add: fork_blocks_def)
  have e: "h_size x s = of_nat N" if "fork_blocks = bs1 @ (True, N) # bs2" "unat x = 0xC0081000 + bsum bs1" for bs1 N bs2 x
    by (rule hole_entry(1) [OF ok that(1)]) (simp add: st that(2))
  have szs: "h_size 0xC008104C s = 4008" "h_size 0xC008400C s = 4072" "h_size 0xC0086008 s = 4076" "h_size 0xC0088008 s = 4076"
    "h_size 0xC008B00C s = 479220"
    using e [of "take 2 fork_blocks" 4008 "drop 3 fork_blocks" "0xC008104C"]
      e [of "take 4 fork_blocks" 4072 "drop 5 fork_blocks" "0xC008400C"]
      e [of "take 6 fork_blocks" 4076 "drop 7 fork_blocks" "0xC0086008"]
      e [of "take 8 fork_blocks" 4076 "drop 9 fork_blocks" "0xC0088008"]
      e [of "take 10 fork_blocks" 479220 "drop 11 fork_blocks" "0xC008B00C"]
    by (simp_all add: fork_blocks_def unat_numeral32)
  have set: "set ?xs = set ?H" using ms by (metis set_mset_mset)
  obtain y ys where xs: "?xs = y # ys" using ms by (cases ?xs) simp_all
  have le: "h_size y s \<le> h_size x s" if "x \<in> set ys" for x
    using srt that unfolding index_sorted_def xs sorted_by_def header_t_less_than_def by (auto simp: rd_def not_less)
  have "0xC008104C \<in> set (y # ys)" "y \<in> set ?H" using set unfolding xs by auto
  then have y: "y = 0xC008104C"
    using szs le [of "0xC008104C"] by auto
  show ?thesis by (rule that [of ys]) (use xs ms szs y in simp_all)
qed

lemma tables_up_page:
  assumes "tables_up d s" and "k < 256"
  shows "kernel_directory s = page_word d" and "rd (tables_at (page_word d) (of_nat 768)) s = page_word (d + 3)"
    and "rd (pages_at (page_word (d + 3)) (of_nat k)) s = new_entry (of_nat (d + 7 + k)) 0 0 0"
proof -
  have D: "directory_is d (both_slots d) s" "table_maps (d + 3) (d + 7) 256 s" using assms(1) by (simp_all add: tables_up_def)
  show "kernel_directory s = page_word d" using assms(1) by (simp add: tables_up_def)
  show "rd (tables_at (page_word d) (of_nat 768)) s = page_word (d + 3)"
    by (subst directory_slot(1) [OF D(1)]) (simp_all add: both_slots_def heap_slot_def)
  show "rd (pages_at (page_word (d + 3)) (of_nat k)) s = new_entry (of_nat (d + 7 + k)) 0 0 0"
    using table_entry [OF D(2), of k] assms(2) by (simp add: add.commute)
qed

lemma fork_table_block:
  assumes k: "kernel_up p d c fork_blocks s"
  obtains xs t where "kmalloc_ap (Suc n) sizeof_page_table s = Inr ((0xC008C000, page_word (d + 147)), t)"
    and "fork_index xs 471032 (page_word (d + 6)) t" and "heap_end (page_word (d + 6)) t = 0xC0100000"
    and "heap_step 0xC008B00C 0xC0100000 s t"
proof -
  let ?h = "page_word (d + 6)"
  note K = kernel_upD [OF k]
  note H = K(4) [unfolded kernel_heap_def] and IX = kernel_heap_index [OF K(4)]
  obtain ys where ys: "elems (mem s) (index (heap_at s ?h)) = 0xC008104C # ys"
    "mset (0xC008104C # ys) = mset [0xC008104C, 0xC008400C, 0xC0086008, 0xC0088008, 0xC008B00C :: u32]"
    and szs: "h_size 0xC008104C s = 4008" "h_size 0xC008400C s = 4072" "h_size 0xC0086008 s = 4076" "h_size 0xC0088008 s = 4076"
      "h_size 0xC008B00C s = 479220"
    by (rule fork_block_holes [OF K(4)])
  let ?xs = "elems (mem s) (index (heap_at s ?h))"
  have ms: "mset ?xs = mset [0xC008104C, 0xC008400C, 0xC0086008, 0xC0088008, 0xC008B00C :: u32]" using ys by simp
  then have set: "set ?xs = {0xC008104C, 0xC008400C, 0xC0086008, 0xC0088008, 0xC008B00C}" by (metis set_mset_mset list.set(1,2))
  have ok: "oa_ok (index (heap_at s ?h))" "less_than (index (heap_at s ?h)) = Header_T_Less_Than"
    using H heap_okD(1,2) [of ?h s fork_blocks] by blast+
  have room: "unat (oa_size (index (heap_at s ?h))) < unat (max_size (index (heap_at s ?h)))"
    using kernel_heap_room [OF K(4)] by (simp add: index_room_def word_less_nat_alt)
  have fine: "index_fine ?h 0xC008B00C s" using ok room IX by (simp add: index_fine_def)
  have fits: "hole_fits (of_nat (4096 + 20)) 1 y s = (y = of_nat 0xC008B00C)" if "y \<in> set ?xs" for y
    using that szs unfolding set by (auto simp: hole_fits_def sizeof_header_def)
  have x: "of_nat 0xC008B00C \<in> set ?xs" unfolding set by simp
  have sz: "h_size (of_nat 0xC008B00C) s = of_nat 479220" using szs by simp
  obtain oa m3 m where r: "alloc (Suc n) (of_nat 4096) 1 ?h s = Inr (of_nat (0xC008BFF4 + 12), with_index ?h oa m s)"
    "only_in 0xC008B00C (0xC008B00C + 479220) (mem s) m3" "hdr m3 0xC008B00C True (front_size 0xC008B00C)" "hdr m3 0xC008D008 True 471032"
    "only_in (oa_lo (index (heap_at s ?h))) (oa_hi (index (heap_at s ?h))) m3 m"
    "elems m oa = (if 471032 = (0 :: nat) then ?xs else insert_by (header_t_less_than m3) (of_nat 0xC008D008) ?xs)"
    "oa_ok oa" "oa = index (heap_at s ?h)\<lparr>oa_size := oa_size (index (heap_at s ?h)) + (if 471032 = (0 :: nat) then 0 else 1)\<rparr>"
    by (rule alloc_front_run [OF fine x sz fits, of "0xC008BFF4" "0xC008D008" 471032 n]) (use H in \<open>simp_all add: front_size_def\<close>)
  let ?t = "with_index ?h oa m s"
  have tch: "heap_touched ?h s 0xC008B00C 0xC0100000 ?t"
    by (rule heap_touchedI) (use r(2,5,8) in \<open>auto simp: outside_heap_def only_in_def\<close>)
  note S = heap_stepI [OF K(4) tch]
  have m: "rd x ?t = ld32 m3 x" if "0xC0080000 \<le> unat x" "unat x + 4 \<le> 4294967296" for x
    using ld32_only_in [OF r(5), of x] that IX by simp
  have low: "ld32 m3 x = rd x s" if "unat x + 4 \<le> 0xC008B00C" for x
    unfolding rd_def by (rule ld32_only_in [OF r(2)]) (use that in simp_all)
  have sizes: "h_size 0xC008104C ?t = 4008" "h_size 0xC008400C ?t = 4072" "h_size 0xC0086008 ?t = 4076" "h_size 0xC0088008 ?t = 4076"
    "h_size 0xC008B00C ?t = 4072" "h_size 0xC008D008 ?t = 471032"
    using szs r(3,4) by (simp_all add: m low unat_numeral32 hdr_def front_size_def del: with_index_simps)
  have lt: "header_t_less_than m3 0xC008104C 0xC008D008"
    using sizes(1,6) m [of "0xC0081054"] m [of "0xC008D010"] by (simp add: header_t_less_than_def unat_numeral32 del: with_index_simps)
  have e: "elems (mem ?t) (index (heap_at ?t ?h)) = 0xC008104C # insert_by (header_t_less_than m3) 0xC008D008 ys"
    using r(6) ys(1) lt by simp
  have ix: "fork_index (0xC008104C # insert_by (header_t_less_than m3) 0xC008D008 ys) 471032 ?h ?t"
    using e sizes ys(2) r(7,8) ok S(2-7) H unat_eqI32 [of "start_address (heap_at s ?h)" "0xC0081000"]
    by (simp add: fork_index_def fork_holes_def unat_numeral32)
  have tu: "tables_up d ?t"
    by (rule tables_up_kept [OF K(5,3) heap_step_fields(4) [OF S(1)] heap_step_same [OF S(1)]]) (use K(13) in simp_all)
  note T = tables_up_page [OF tu, of 140]
  have "kmalloc_ap (Suc n) sizeof_page_table s = Inr ((page_word (0xC0000 + 140), page_word (d + 7 + 140)), ?t)"
    by (rule kmalloc_ap_phys [OF _ _ K(12) _ K(3) T]) (use r(1) H in \<open>simp_all add: sizeof_page_table_def page_word_def\<close>)
  then show ?thesis using that [OF _ ix S(3,1)] by (simp add: page_word_def)
qed

lemma fork_index_kept:
  assumes i: "fork_index xs z h s" and k: "kheap t = kheap s" "index (heap_at t h) = index (heap_at s h)"
    "start_address (heap_at t h) = start_address (heap_at s h)" "max_address (heap_at t h) = max_address (heap_at s h)"
    and m: "same_on 0xC0000000 0xC0089000 (mem s) (mem t)" "same_on 0xC008B004 0xC008C000 (mem s) (mem t)" and z: "h_size 0xC008D008 t = z'"
  shows "fork_index xs z' h t"
proof -
  note I = i [unfolded fork_index_def]
  have ok: "oa_ok (index (heap_at s h))" using I by blast
  have b: "oa_lo (index (heap_at s h)) = 0xC0000000" "oa_hi (index (heap_at s h)) = 0xC0080000"
    using I by (simp_all add: KHEAP_START_def HEAP_INDEX_SIZE_def unat_numeral32)
  have "elems (mem t) (index (heap_at s h)) = elems (mem s) (index (heap_at s h))"
    by (rule elems_same_on [OF ok same_on_mono [OF m(1)]]) (use b in linarith)+
  moreover have "rd a t = rd a s" if "0xC0000000 \<le> unat a" "unat a + 4 \<le> 0xC0089000" for a
    unfolding rd_def by (rule ld32_same_on [OF m(1)]) (use that in simp_all)
  moreover have "rd 0xC008B014 t = rd 0xC008B014 s"
    unfolding rd_def by (rule ld32_same_on [OF m(2)]) (simp_all add: unat_numeral32)
  ultimately show ?thesis using I k z by (simp add: fork_index_def unat_numeral32)
qed


subsection \<open>The request for the second table: the heap is expanded\<close>

lemma no_hole_fits:
  assumes "\<And>y. y \<in> set (elems (mem s) (index (heap_at s h))) \<Longrightarrow> \<not> hole_fits sz al y s"
  shows "find_smallest_hole sz al h s = Inr (- 1, s)"
proof -
  have "takeWhile (\<lambda>x. \<not> hole_fits sz al x s) (elems (mem s) (index (heap_at s h))) = elems (mem s) (index (heap_at s h))"
    using assms by simp
  then show ?thesis unfolding find_smallest_hole_def find_hole_loop_spec by (simp only:) simp
qed

text \<open>The search for the endmost header ends with the greatest entry.\<close>

lemma endmost_loop_greatest:
  assumes "\<forall>y \<in> set (elems (mem s) (index (heap_at s h))). y \<le> g" and "unat i \<le> length (elems (mem s) (index (heap_at s h)))"
    and "(v = g \<and> idx < oa_size (index (heap_at s h)) \<and> elems (mem s) (index (heap_at s h)) ! unat idx = g)
      \<or> (v < g \<and> g \<in> set (drop (unat i) (elems (mem s) (index (heap_at s h)))))"
  shows "\<exists>k < oa_size (index (heap_at s h)). endmost_loop h i idx v s = Inr k \<and> elems (mem s) (index (heap_at s h)) ! unat k = g"
  using assms
proof (induction h i idx v s rule: endmost_loop.induct)
  case (1 h i idx v s)
  let ?xs = "elems (mem s) (index (heap_at s h))"
  show ?case
  proof (cases "i < oa_size (index (heap_at s h))")
    case False
    then have "drop (unat i) ?xs = []" by (simp add: word_less_nat_alt)
    then have "idx < oa_size (index (heap_at s h)) \<and> ?xs ! unat idx = g" using 1(5) by auto
    then show ?thesis using False by (subst endmost_loop.simps) auto
  next
    case True
    then have l: "unat i < length ?xs" by (simp add: word_less_nat_alt)
    let ?y = "?xs ! unat i"
    have look: "heap_lookup i h s = Inr (?y, s)" by (rule heap_lookup_elems [OF True])
    have d: "drop (unat i) ?xs = ?y # drop (Suc (unat i)) ?xs" using l by (simp only: Cons_nth_drop_Suc)
    have si: "unat (i + 1) = Suc (unat i)" using True by (rule unat_Suc32)
    have y: "?y \<le> g" using 1(3) l by (simp only: nth_mem)
    show ?thesis
    proof (cases "v < ?y")
      case y1: True
      have st: "(?y = g \<and> i < oa_size (index (heap_at s h)) \<and> ?xs ! unat i = g) \<or> (?y < g \<and> g \<in> set (drop (unat (i + 1)) ?xs))"
        using 1(5) True y y1 unfolding d si by auto
      have "\<exists>k < oa_size (index (heap_at s h)). endmost_loop h (i + 1) i ?y s = Inr k \<and> ?xs ! unat k = g"
        by (rule 1(1) [OF True look refl y1 1(3) _ st]) (use l si in simp)
      then show ?thesis using True look y1 by (subst endmost_loop.simps) simp
    next
      case y2: False
      have st: "(v = g \<and> idx < oa_size (index (heap_at s h)) \<and> ?xs ! unat idx = g) \<or> (v < g \<and> g \<in> set (drop (unat (i + 1)) ?xs))"
        using 1(5) y y2 unfolding d si by auto
      have "\<exists>k < oa_size (index (heap_at s h)). endmost_loop h (i + 1) idx v s = Inr k \<and> ?xs ! unat k = g"
        by (rule 1(2) [OF True look refl y2 1(3) _ st]) (use l si in simp)
      then show ?thesis using True look y2 by (subst endmost_loop.simps) simp
    qed
  qed
qed


text \<open>One page of an expansion of the kernel's heap, the table being there.\<close>

lemma heap_page_entry:
  assumes e: "j < 1024" and kd: "kernel_directory s = page_word d" and d: "d + 263 \<le> 1024"
    and slot: "rd (tables_at (page_word d) (of_nat 768)) s = page_word (d + 3)"
    and z: "rd (pages_at (page_word (d + 3)) (of_nat j)) s = 0"
    and b: "bitmap_ok s" "0 < frame_count s" "bm_hi s \<le> 4096 * d"
  obtains m where "seq (get_page kap (page_word (0xC0000 + j)) True (kernel_directory s)) (\<lambda>page s. alloc_frame page (ik s) (iw s) s) s = Inr ((), s\<lparr>mem := m\<rparr>)"
    and "bitmap_or (4096 * (d + 3) + 4 * j) (4096 * (d + 3) + 4 * j + 4) s m"
proof -
  let ?p = "page_word (0xC0000 + j)" and ?e = "pages_at (page_word (d + 3)) (of_nat j)"
  have pk: "unat ?p = 4096 * (0xC0000 + j)" using e by (simp add: unat_page_word)
  have "(0xC0000 + j) mod 1024 = (0xC0000 mod 1024 + j) mod 1024" by (rule mod_add_left_eq [symmetric])
  then have "(0xC0000 + j) mod 1024 = j" using e by simp
  moreover have "(0xC0000 + j) div 1024 = 768" using e by (simp add: div_nat_eqI)
  ultimately have ti: "table_index ?p = of_nat 768" "page_index ?p = of_nat j"
    using pk e by (intro unat_eqI32; simp add: table_index_def page_index_def unat_div_distrib unat_mod unat_numeral32 unat_of_nat32)+
  have pt: "page_word (d + 3) \<noteq> 0" using d by (intro page_word_nonzero) simp_all
  have gp: "get_page kap ?p True (page_word d) s = Inr (?e, s)"
    using get_page_present [of "page_word d" ?p s kap True] slot pt unfolding ti by simp
  have at: "unat ?e = 4096 * (d + 3) + 4 * j" by (rule entry_address) (use d e in simp_all)
  have ap: "entry_apart ?e s" using at b(3) e d by (simp add: entry_apart_def)
  obtain m where m: "alloc_frame ?e (ik s) (iw s) s = Inr ((), s\<lparr>mem := m\<rparr>)" "bitmap_or (unat ?e) (unat ?e + 4) s m"
    by (rule alloc_frame_exact [OF b(1,2) ap z refl])
  show ?thesis by (rule that [of m]) (use m gp in \<open>simp_all add: seq_def kd at\<close>)
qed


lemma heap_grows:
  assumes T: "tables_up d s" "d + 263 \<le> 1024" and b: "bitmap_ok s" "0 < frame_count s" "bm_hi s \<le> 4096 * d"
    and h: "start_address (heap_at s h) = 0xC0081000" "end_address (heap_at s h) = 0xC0100000" "max_address (heap_at s h) = 0xCFFFF000"
  obtains m where "expand kap 0x80014 h s = Inr ((), upd_heap h (\<lambda>hp. hp\<lparr>end_address := start_address hp + 0x81000\<rparr>) (s\<lparr>mem := m\<rparr>))"
    and "bitmap_or (4096 * (d + 3) + 1024) (4096 * (d + 3) + 1032) s m"
proof -
  let ?ik = "\<lambda>s. if supervisor (heap_at s h) \<noteq> 0 then 1 else 0 :: s32" and ?iw = "\<lambda>s. if readonly (heap_at s h) \<noteq> 0 then 0 else 1 :: s32"
  have P: "kernel_directory s = page_word d" "rd (tables_at (page_word d) (of_nat 768)) s = page_word (d + 3)"
    by (rule tables_up_page [OF T(1), of 0], simp)+
  have D: "table_maps (d + 3) (d + 7) 256 s" using T(1) by (simp add: tables_up_def)
  have z: "rd (pages_at (page_word (d + 3)) (of_nat 256)) s = 0" "rd (pages_at (page_word (d + 3)) (of_nat 257)) s = 0"
    using table_entry [OF D, of 256] table_entry [OF D, of 257] by simp_all
  obtain m1 where m1: "seq (get_page kap (page_word (0xC0000 + 256)) True (kernel_directory s)) (\<lambda>page s. alloc_frame page (?ik s) (?iw s) s) s = Inr ((), s\<lparr>mem := m1\<rparr>)"
    "bitmap_or (4096 * (d + 3) + 4 * 256) (4096 * (d + 3) + 4 * 256 + 4) s m1"
    by (rule heap_page_entry [OF _ P(1) T(2) P(2) z(1) b]) simp
  let ?s1 = "s\<lparr>mem := m1\<rparr>"
  have far: "rd x ?s1 = rd x s" if "entry_apart x s" "unat x + 4 \<le> 4096 * (d + 3) + 4 * 256 \<or> 4096 * (d + 3) + 4 * 256 + 4 \<le> unat x" for x
    using bitmap_or_rd [OF m1(2) that] by (simp add: rd_def)
  have u: "unat (tables_at (page_word d) (of_nat 768)) = 4096 * d + 4 * 768"
    "unat (pages_at (page_word (d + 3)) (of_nat 257)) = 4096 * (d + 3) + 4 * 257"
    using slot_address [of d 768] entry_address [of "d + 3" 257] T(2) by simp_all
  have slot1: "rd (tables_at (page_word d) (of_nat 768)) ?s1 = page_word (d + 3)"
    by (subst far) (use u b(3) T(2) P(2) in \<open>simp_all add: entry_apart_def\<close>)
  have z1: "rd (pages_at (page_word (d + 3)) (of_nat 257)) ?s1 = 0"
    by (subst far) (use u b(3) T(2) z(2) in \<open>simp_all add: entry_apart_def\<close>)
  have b1: "bitmap_ok ?s1" "0 < frame_count ?s1" "bm_hi ?s1 \<le> 4096 * d" using b by (simp_all add: bitmap_ok_def frame_count_def)
  have P1: "kernel_directory ?s1 = page_word d" using P(1) by simp
  obtain m2 where m2: "seq (get_page kap (page_word (0xC0000 + 257)) True (kernel_directory ?s1)) (\<lambda>page s. alloc_frame page (?ik s) (?iw s) s) ?s1 = Inr ((), ?s1\<lparr>mem := m2\<rparr>)"
    "bitmap_or (4096 * (d + 3) + 4 * 257) (4096 * (d + 3) + 4 * 257 + 4) ?s1 m2"
    by (rule heap_page_entry [OF _ P1 T(2) slot1 z1 b1]) simp
  have pw: "page_word (0xC0000 + 256) = 0xC0100000" "page_word (0xC0000 + 257) = 0xC0101000" by (simp_all add: page_word_def)
  define body where "body = (\<lambda>i s. seq (get_page kap (start_address (heap_at s h) + i) True (kernel_directory s))
      (\<lambda>page s. alloc_frame page (?ik s) (?iw s) s) s)"
  let ?s2 = "?s1\<lparr>mem := m2\<rparr>"
  have body: "body 0x7F000 s = Inr ((), ?s1)" "body 0x80000 ?s1 = Inr ((), ?s2)"
    unfolding body_def using m1(1) m2(1) h(1) unfolding pw by simp_all
  have "page_for (\<lambda>_. 0x81000) body 0x7F000 s = page_for (\<lambda>_. 0x81000) body 0x80000 ?s1"
    by (subst page_for.simps) (simp add: body(1))
  also have "\<dots> = page_for (\<lambda>_. 0x81000) body 0x81000 ?s2"
    by (subst page_for.simps) (simp add: body(2))
  also have "\<dots> = Inr ((), ?s2)" by (subst page_for.simps) simp
  finally have loop: "page_for (\<lambda>_. 0x81000) body 0x7F000 s = Inr ((), ?s2)" .
  have "expand kap 0x80014 h s = Inr ((), upd_heap h (\<lambda>hp. hp\<lparr>end_address := start_address hp + 0x81000\<rparr>) ?s2)"
    using loop unfolding body_def by (simp add: expand_def Let_def h)
  moreover have "bitmap_or (4096 * (d + 3) + 1024) (4096 * (d + 3) + 1032) s m2"
    using m1(2) m2(2) by (simp add: bitmap_or_def)
  ultimately show ?thesis using that [of m2] by simp
qed


lemma fork_index_fields:
  assumes "fork_index xs z h s"
  shows "set (elems (mem s) (index (heap_at s h))) = set fork_holes" and "unat (oa_size (index (heap_at s h))) = 6"
    and "oa_lo (index (heap_at s h)) = 0xC0000000" and "oa_hi (index (heap_at s h)) = 0xC0080000"
    and "elems (mem s) (index (heap_at s h)) = xs"
    and "0xC0080000 \<le> a \<Longrightarrow> index_fine h a s"
proof -
  note I = assms [unfolded fork_index_def]
  have e: "elems (mem s) (index (heap_at s h)) = xs" and ms: "mset xs = mset fork_holes" using I by blast+
  show "elems (mem s) (index (heap_at s h)) = xs" by (rule e)
  show "set (elems (mem s) (index (heap_at s h))) = set fork_holes" unfolding e using ms by (metis set_mset_mset)
  have "length xs = length fork_holes" using ms by (metis size_mset)
  then show n: "unat (oa_size (index (heap_at s h))) = 6"
    unfolding e [symmetric] by (simp add: fork_holes_def)
  show "oa_lo (index (heap_at s h)) = 0xC0000000" "oa_hi (index (heap_at s h)) = 0xC0080000"
    using I by (simp_all add: KHEAP_START_def HEAP_INDEX_SIZE_def unat_numeral32)
  then show "index_fine h a s" if "0xC0080000 \<le> a"
    using I n that by (simp add: index_fine_def HEAP_INDEX_SIZE_def unat_numeral32)
qed

lemma fork_expands:
  assumes ix: "fork_index xs 0 h v" and hp: "heap_end h v = 0xC0100000" "h \<noteq> 0" and T: "tables_up d v" "d + 263 \<le> 1024"
    and b: "bitmap_ok v" "0 < frame_count v" "bm_hi v \<le> 4096 * d"
  obtains w where "find_smallest_hole 0x1014 1 h v = Inr (- 1, v)"
    and "alloc_expand (\<lambda>sz. kmalloc_with (alloc (Suc n)) sz 1 True) 0x1014 h v = Inr ((), w)"
    and "fork_index xs 0x2000 h w" and "heap_end h w = 0xC0102000" and "\<exists>m a. w = v\<lparr>mem := m, heap_at := a\<rparr>"
    and "\<forall>x. (unat x < bm_lo v \<or> bm_hi v \<le> unat x) \<longrightarrow> (unat x < 4096 * (d + 3) + 1024 \<or> 4096 * (d + 3) + 1032 \<le> unat x)
      \<longrightarrow> (unat x < 0xC008D008 \<or> 0xC008F008 \<le> unat x) \<longrightarrow> mem w x = mem v x"
proof -
  note I = ix [unfolded fork_index_def] and F = fork_index_fields [OF ix]
  let ?kap = "\<lambda>sz. kmalloc_with (alloc (Suc n)) sz 1 True"
  have en: "end_address (heap_at v h) = 0xC0100000" using hp(1) by (intro unat_eqI32) (simp add: unat_numeral32)
  have st: "start_address (heap_at v h) = 0xC0081000" "max_address (heap_at v h) = 0xCFFFF000" using I by blast+
  have none: "\<not> hole_fits 0x1014 1 y v" if "y \<in> set (elems (mem v) (index (heap_at v h)))" for y
    using that I unfolding F(1) by (auto simp: fork_holes_def hole_fits_def sizeof_header_def)
  have fs: "find_smallest_hole 0x1014 1 h v = Inr (- 1, v)" by (rule no_hole_fits) (rule none)
  obtain m1 where m1: "expand ?kap 0x80014 h v = Inr ((), upd_heap h (\<lambda>hp. hp\<lparr>end_address := start_address hp + 0x81000\<rparr>) (v\<lparr>mem := m1\<rparr>))"
    "bitmap_or (4096 * (d + 3) + 1024) (4096 * (d + 3) + 1032) v m1"
    by (rule heap_grows [OF T b st(1) en st(2)])
  let ?v1 = "upd_heap h (\<lambda>hp. hp\<lparr>end_address := start_address hp + 0x81000\<rparr>) (v\<lparr>mem := m1\<rparr>)"
  have hi: "m1 x = mem v x" if "0xC0000000 \<le> unat x" for x
    using m1(2) that b(3) T(2) by (simp add: bitmap_or_def)
  have ix1: "fork_index xs 0 h ?v1"
    by (rule fork_index_kept [OF ix]) (use hi I in \<open>simp_all add: same_on_def upd_heap_def rd_def ld32_same_on [of "0xC0000000" "0xC0100000" "mem v" m1] unat_numeral32\<close>)
  note I1 = ix1 [unfolded fork_index_def] and F1 = fork_index_fields [OF ix1]
  have e1: "end_address (heap_at ?v1 h) = 0xC0102000" using st by simp
  have "\<forall>y \<in> set (elems (mem ?v1) (index (heap_at ?v1 h))). y \<le> 0xC008D008" unfolding F1(1) by (simp add: fork_holes_def)
  moreover have "(0xC008D008 :: u32) \<in> set (drop (unat (0 :: u32)) (elems (mem ?v1) (index (heap_at ?v1 h))))"
    using F1(1) by (simp add: fork_holes_def)
  ultimately have "\<exists>k < oa_size (index (heap_at ?v1 h)). endmost_loop h 0 0xFFFF 0 ?v1 = Inr k
      \<and> elems (mem ?v1) (index (heap_at ?v1 h)) ! unat k = 0xC008D008"
    by (intro endmost_loop_greatest) simp_all
  then obtain k where k: "k < oa_size (index (heap_at ?v1 h))" "endmost_loop h 0 0xFFFF 0 ?v1 = Inr k"
    "elems (mem ?v1) (index (heap_at ?v1 h)) ! unat k = 0xC008D008" by blast
  have k6: "k \<noteq> 0xFFFF" using k(1) F1(2) by (auto simp: word_less_nat_alt unat_numeral32)
  have look: "heap_lookup k h ?v1 = Inr (0xC008D008, ?v1)" using heap_lookup_elems [OF k(1)] k(3) by simp
  define m2 where "m2 = st32 (st32 (st32 m1 0xC008D010 0x2000) 0xC008F004 0xC008D008) 0xC008F000 HEAP_MAGIC"
  define w1 where "w1 = ?v1\<lparr>mem := m2\<rparr>"
  have z: "rd 0xC008D010 ?v1 = 0" using I1 by simp
  have ex: "alloc_expand ?kap 0x1014 h v = Inr ((), w1)"
    using m1(1) k(2) k6 look z by (simp add: alloc_expand_def Let_def en st w1_def m2_def wr_def heap_simps sizeof_footer_def)
  have o2: "m2 x = m1 x" if "unat x < 0xC008D010 \<or> 0xC008D014 \<le> unat x" "unat x < 0xC008F000 \<or> 0xC008F008 \<le> unat x" for x
  proof -
    have s1: "only_in 0xC008D010 0xC008D014 m1 (st32 m1 0xC008D010 0x2000)" by (intro only_in_st32) (simp_all add: unat_numeral32)
    have s2: "only_in 0xC008F000 0xC008F008 (st32 m1 0xC008D010 0x2000) m2"
      unfolding m2_def by (intro only_in_st32_step only_in_refl) (simp_all add: unat_numeral32)
    from s1 s2 that show ?thesis unfolding only_in_def by (metis (no_types))
  qed
  have sz: "h_size 0xC008D008 w1 = 0x2000" by (simp add: w1_def m2_def rd_def ld32_st32_far unat_numeral32)
  have ix2: "fork_index xs 0x2000 h w1"
    by (rule fork_index_kept [OF ix1 _ _ _ _ _ _ sz]) (simp_all add: w1_def same_on_def o2 upd_heap_def)
  have e2: "heap_end h w1 = 0xC0102000" using e1 by (simp add: w1_def heap_simps unat_numeral32)
  have frame: "mem w1 x = mem v x" if "unat x < bm_lo v \<or> bm_hi v \<le> unat x"
      "unat x < 4096 * (d + 3) + 1024 \<or> 4096 * (d + 3) + 1032 \<le> unat x" "unat x < 0xC008D008 \<or> 0xC008F008 \<le> unat x" for x
  proof -
    have "mem w1 x = m1 x" unfolding w1_def by (simp, rule o2) (use that(3) in auto)
    also have "\<dots> = mem v x" by (rule m1(2) [unfolded bitmap_or_def, rule_format]) (fact that)+
    finally show ?thesis .
  qed
  have "\<exists>m a. w1 = v\<lparr>mem := m, heap_at := a\<rparr>"
    by (rule exI [of _ m2], rule exI [of _ "heap_at w1"]) (simp add: upd_heap_def w1_def)
  then show ?thesis using that [of w1] fs ex ix2 e2 frame by simp
qed

lemma fork_table_expand:
  assumes ix: "fork_index xs 0 h v" and hp: "heap_end h v = 0xC0100000" "h \<noteq> 0" and T: "tables_up d v" "d + 263 \<le> 1024"
    and b: "bitmap_ok v" "0 < frame_count v" "bm_hi v \<le> 4096 * d"
  obtains w where "kmalloc_ap (Suc (Suc n)) sizeof_page_table v = Inr ((0xC008E000, page_word (d + 149)), w)"
    and "fork_index xs 4076 h w" and "heap_end h w = 0xC0102000" and "hdr (mem w) 0xC008DFF4 False 4116"
    and "\<exists>m a. w = v\<lparr>mem := m, heap_at := a\<rparr>"
    and "\<forall>x. (unat x < bm_lo v \<or> bm_hi v \<le> unat x) \<longrightarrow> (unat x < 4096 * (d + 3) + 1024 \<or> 4096 * (d + 3) + 1032 \<le> unat x)
      \<longrightarrow> (unat x < 0xC008D008 \<or> 0xC008F008 \<le> unat x) \<longrightarrow> mem w x = mem v x"
proof -
  note I = ix [unfolded fork_index_def]
  obtain w1 where w1: "find_smallest_hole 0x1014 1 h v = Inr (- 1, v)"
    "alloc_expand (\<lambda>sz. kmalloc_with (alloc (Suc n)) sz 1 True) 0x1014 h v = Inr ((), w1)"
    "fork_index xs 0x2000 h w1" "heap_end h w1 = 0xC0102000" "\<exists>m a. w1 = v\<lparr>mem := m, heap_at := a\<rparr>"
    "\<forall>x. (unat x < bm_lo v \<or> bm_hi v \<le> unat x) \<longrightarrow> (unat x < 4096 * (d + 3) + 1024 \<or> 4096 * (d + 3) + 1032 \<le> unat x)
      \<longrightarrow> (unat x < 0xC008D008 \<or> 0xC008F008 \<le> unat x) \<longrightarrow> mem w1 x = mem v x"
    by (rule fork_expands [OF assms])
  note I2 = w1(3) [unfolded fork_index_def] and F2 = fork_index_fields [OF w1(3)] and e2 = w1(4)
  have fits: "hole_fits (of_nat (4096 + 20)) 1 y w1 = (y = of_nat 0xC008D008)" if "y \<in> set (elems (mem w1) (index (heap_at w1 h)))" for y
    using that I2 unfolding F2(1) by (auto simp: fork_holes_def hole_fits_def sizeof_header_def)
  have x: "of_nat 0xC008D008 \<in> set (elems (mem w1) (index (heap_at w1 h)))" unfolding F2(1) by (simp add: fork_holes_def)
  have sz': "h_size (of_nat 0xC008D008) w1 = of_nat 8192" using I2 by simp
  obtain oa m3 m where r: "alloc (Suc n) (of_nat 4096) 1 h w1 = Inr (of_nat (0xC008DFF4 + 12), with_index h oa m w1)"
    "only_in 0xC008D008 (0xC008D008 + 8192) (mem w1) m3" "hdr m3 0xC008D008 True (front_size 0xC008D008)" "hdr m3 0xC008DFF4 False (4096 + 20)"
    "(0 :: nat) = 0 \<Longrightarrow> m = m3" "oa = index (heap_at w1 h)\<lparr>oa_size := oa_size (index (heap_at w1 h)) + (if 0 = (0 :: nat) then 0 else 1)\<rparr>"
    by (rule alloc_front_run [OF F2(6) x sz' fits, of "0xC008DFF4" "0xC008F008" 0 n]) (use e2 in \<open>simp_all add: front_size_def\<close>)
  let ?w = "with_index h oa m w1"
  have m: "m = m3" and oa: "oa = index (heap_at w1 h)" using r(5,6) by simp_all
  have run: "alloc (Suc (Suc n)) sizeof_page_table 1 h v = Inr (page_word (0xC0000 + 142), ?w)"
    using w1(1,2) r(1) by (simp add: alloc_body_def sizeof_page_table_def sizeof_header_def sizeof_footer_def page_word_def)
  have out: "mem ?w x = mem w1 x" if "unat x < 0xC008D008 \<or> 0xC008F008 \<le> unat x" for x
    using r(2) [unfolded only_in_def, rule_format, of x] that by (simp add: m)
  have ix3: "fork_index xs 4076 h ?w"
    by (rule fork_index_kept [OF w1(3)]) (use out r(3) I2 in \<open>simp_all add: same_on_def oa m hdr_def front_size_def with_index_def upd_heap_def rd_def\<close>)
  have frame: "mem ?w x = mem v x" if "unat x < bm_lo v \<or> bm_hi v \<le> unat x"
      "unat x < 4096 * (d + 3) + 1024 \<or> 4096 * (d + 3) + 1032 \<le> unat x" "unat x < 0xC008D008 \<or> 0xC008F008 \<le> unat x" for x
  proof -
    have "mem ?w x = mem w1 x" by (rule out) (rule that(3))
    also have "\<dots> = mem v x" by (rule w1(6) [rule_format]) (fact that)+
    finally show ?thesis .
  qed
  have low: "rd y ?w = rd y v" if "4096 * d \<le> unat y" "unat y + 4 \<le> 4096 * (d + 3) + 1024" for y
    by (rule rd_same) (use frame that b(3) T(2) in auto)
  have e3: "\<exists>m a. ?w = v\<lparr>mem := m, heap_at := a\<rparr>"
    using w1(5) by (elim exE) (rule exI [of _ m], rule exI [of _ "heap_at ?w"], simp add: with_index_def upd_heap_def)
  then have kd: "kernel_directory ?w = page_word d" using tables_up_page(1) [OF T(1), of 0] by auto
  have slot: "rd (tables_at (page_word d) (of_nat 768)) ?w = page_word (d + 3)"
    by (subst low) (use slot_address [of d 768] T(2) tables_up_page(2) [OF T(1), of 0] in simp_all)
  have entry: "rd (pages_at (page_word (d + 3)) (of_nat 142)) ?w = new_entry (of_nat (d + 7 + 142)) 0 0 0"
    by (subst low) (use entry_address [of "d + 3" 142] T(2) tables_up_page(3) [OF T(1), of 142] in simp_all)
  have "kmalloc_ap (Suc (Suc n)) sizeof_page_table v = Inr ((page_word (0xC0000 + 142), page_word (d + 7 + 142)), ?w)"
    by (rule kmalloc_ap_phys [OF run _ hp(2) _ T(2) kd slot entry]) (use I in simp_all)
  moreover have "heap_end h ?w = 0xC0102000" using e2 by simp
  moreover have "hdr (mem ?w) 0xC008DFF4 False 4116" using r(4) by (simp add: m)
  ultimately show ?thesis
    using that [of ?w] ix3 e3 frame by (simp add: page_word_def)
qed


subsection \<open>The block of the child's task\<close>

lemma fork_task_block:
  assumes ix: "fork_index xs z h w" and hp: "0xC0100000 \<le> heap_end h w" "h \<noteq> 0"
  obtains t where "kmalloc (Suc n) sizeof_task w = Inr (0xC0081058, t)" and "\<exists>m a. t = w\<lparr>mem := m, heap_at := a\<rparr>"
    and "0xC008D008 \<in> set (elems (mem t) (index (heap_at t h)))" and "start_address (heap_at t h) = 0xC0081000"
    and "heap_end h t = heap_end h w"
    and "oa_ok (index (heap_at t h))" and "array (index (heap_at t h)) = KHEAP_START" and "max_size (index (heap_at t h)) = HEAP_INDEX_SIZE"
    and "\<forall>x. (unat x < 0xC0000000 \<or> 0xC0080000 \<le> unat x) \<longrightarrow> (unat x < 0xC008104C \<or> 0xC0081FF4 \<le> unat x) \<longrightarrow> mem t x = mem w x"
proof -
  note I = ix [unfolded fork_index_def] and F = fork_index_fields [OF ix]
  let ?oa = "index (heap_at w h)"
  have xs: "xs = 0xC008104C # tl xs"
  proof (cases xs)
    case Nil
    then show ?thesis using I by (simp add: fork_holes_def)
  qed (use I in simp)
  have ok: "oa_ok ?oa" "less_than ?oa = Header_T_Less_Than" using I by blast+
  have e0: "elems (mem w) ?oa ! 0 = 0xC008104C" unfolding F(5) by (subst xs) simp
  have fit: "hole_fits 44 0 0xC008104C w" using I by (simp add: fits_unaligned unat_numeral32)
  have mem0: "0xC008104C \<in> set (elems (mem w) ?oa)" unfolding F(1) by (simp add: fork_holes_def)
  note ff = first_fit_props [OF mem0 fit]
  have k0: "first_fit 44 0 h w = 0" using ff(3) [of 0] e0 fit by auto
  note found = find_smallest_hole_found [OF ok(1) ff(1), unfolded k0]
  have i0: "0 < oa_size ?oa" using F(2) by (simp add: word_less_nat_alt)
  have new: "(of_nat 24 :: u32) + sizeof_header + sizeof_footer = 44" by (simp add: sizeof_header_def sizeof_footer_def)
  have take: "alloc_take 0 (of_nat 24) 0 (of_nat 24 + sizeof_header + sizeof_footer) h w =
    place_block (of_nat 0xC008104C) (of_nat 4008) (of_nat (cut_size 24 4008 - 20)) (of_nat (cut_size 24 4008)) h (heap_remove 0 h w)"
    by (rule alloc_take_places [OF i0]) (use e0 I in \<open>simp_all add: rd_def\<close>)
  obtain oa1 m1 where r: "remove_ordered_array 0 ?oa (mem w) = (oa1, m1)" by (cases "remove_ordered_array 0 ?oa (mem w)")
  note q = remove_ordered_array_elems [OF ok(1) i0, of "mem w", unfolded r fst_conv snd_conv F(5)]
  have rm: "elems m1 oa1 = tl xs" using conjunct1 [OF q] by (simp add: drop_Suc)
  have oa1: "oa1 = ?oa\<lparr>oa_size := oa_size ?oa - 1\<rparr>" using q by blast
  have same1: "only_in 0xC0000000 0xC0080000 (mem w) m1" using q F(3,4) by simp
  have sz1: "unat (oa_size oa1) = 5" using F(2) unfolding oa1 by (simp add: unat_sub32)
  have ok1: "oa_ok oa1" "unat (oa_size oa1) < unat (max_size oa1)" "less_than oa1 = Header_T_Less_Than"
    using ok sz1 F(2) I by (simp_all add: oa1 oa_ok_def HEAP_INDEX_SIZE_def)
  let ?t1 = "with_index h oa1 m1 w"
  let ?m2 = "put_block 0xC0081078 True 3964 (put_block 0xC008104C False 44 m1)"
  obtain oa2 m2 where ins: "insert_ordered_array (of_nat 0xC0081078) oa1 ?m2 = Inr (oa2, m2)" "oa2 = oa1\<lparr>oa_size := oa_size oa1 + 1\<rparr>" "oa_ok oa2"
    "only_in (oa_lo oa1) (oa_hi oa1) ?m2 m2" "elems m2 oa2 = insert_by (header_t_less_than ?m2) (of_nat 0xC0081078) (elems ?m2 oa1)"
    by (rule insert_hole [OF ok1])
  have place: "place_block (of_nat 0xC008104C) (of_nat 4008) (of_nat (44 - 20)) (of_nat 44) h ?t1
      = Inr (of_nat 0xC008104C + sizeof_header, if 44 < (4008 :: nat) then with_index h oa2 m2 ?t1
        else with_index h (index (heap_at ?t1 h)) (put_block 0xC008104C False 4008 (mem ?t1)) ?t1)"
    by (rule place_block_run) (use ins(1) hp in simp_all)
  let ?t = "with_index h oa2 m2 w"
  have run: "alloc (Suc n) 24 0 h w = Inr (0xC0081058, ?t)"
  proof -
    have "alloc (Suc n) 24 0 h w = alloc_take 0 (of_nat 24) 0 (of_nat 24 + sizeof_header + sizeof_footer) h w"
      using found unfolding new by (simp add: alloc_body_def sizeof_header_def sizeof_footer_def)
    also have "\<dots> = Inr (0xC0081058, ?t)"
      unfolding take using place by (simp add: heap_remove_with [OF r] cut_size_def sizeof_header_def)
    finally show ?thesis .
  qed
  have o: "only_in 0xC008104C 0xC0081FF4 m1 ?m2"
    by (rule only_in_trans [OF only_in_mono [OF put_block(1)] only_in_mono [OF put_block(1)]]) simp_all
  have frame: "mem ?t x = mem w x" if "unat x < 0xC0000000 \<or> 0xC0080000 \<le> unat x" "unat x < 0xC008104C \<or> 0xC0081FF4 \<le> unat x" for x
  proof -
    have "oa_lo oa1 = 0xC0000000" "oa_hi oa1 = 0xC0080000" using F(3,4) by (simp_all add: oa1)
    then have "m2 x = ?m2 x" using ins(4) [unfolded only_in_def, rule_format, of x] that(1) by simp
    also have "\<dots> = m1 x" by (rule o [unfolded only_in_def, rule_format]) (rule that(2))
    also have "\<dots> = mem w x" by (rule same1 [unfolded only_in_def, rule_format]) (rule that(1))
    finally show ?thesis by simp
  qed
  have "elems ?m2 oa1 = elems m1 oa1"
    by (rule elems_same_on [OF ok1(1) only_in_same_on [OF o]]) (use F(3,4) in \<open>simp add: oa1\<close>)
  moreover have "0xC008D008 \<in> set (tl xs)"
  proof -
    have "(0xC008D008 :: u32) \<in> set xs" using F(1,5) by (simp add: fork_holes_def)
    then show ?thesis by (subst (asm) xs) simp
  qed
  ultimately have "0xC008D008 \<in> set (elems (mem ?t) (index (heap_at ?t h)))" using ins(5) rm by simp
  moreover have "\<exists>m a. ?t = w\<lparr>mem := m, heap_at := a\<rparr>"
    by (rule exI [of _ m2], rule exI [of _ "heap_at ?t"]) (simp add: with_index_def upd_heap_def)
  moreover have "kmalloc (Suc n) sizeof_task w = Inr (0xC0081058, ?t)"
    using run I hp(2) by (simp add: kmalloc_def kmalloc_int_def kmalloc_with_def seq_def ret_def sizeof_task_def)
  moreover have "oa_ok oa2" "array oa2 = KHEAP_START" "max_size oa2 = HEAP_INDEX_SIZE"
    using ins(2,3) I by (simp_all add: oa1)
  ultimately show ?thesis using that [of ?t] frame I by simp
qed


subsection \<open>The clone of the directory\<close>

abbreviation child_directory :: u32 where "child_directory \<equiv> 0xC0089000"

lemma child_apart:
  assumes "d + 263 \<le> 1024"
  shows "dir_ok child_directory" and "dirs_apart child_directory 0xC0082000" and "dirs_apart child_directory (page_word d)"
  using assms by (simp_all add: dirs_apart_def dir_ok_def unat_numeral32 unat_page_word)

lemma child_slot: "unat i < 1024 \<Longrightarrow> unat (tables_at child_directory i) = 0xC0089000 + 4 * unat i"
  and child_phys: "unat i < 1024 \<Longrightarrow> unat (tablesPhysical_at child_directory i) = 0xC008A000 + 4 * unat i"
  using unat_dir_fields(1,2) [of child_directory i] by (simp_all add: dir_ok_def unat_numeral32)

text \<open>The slots of the running directory.\<close>

lemma parent_kept:
  assumes "same_on 0xC0080000 0xC0088008 (mem s) (mem t)"
  shows "parent_slots d s \<Longrightarrow> parent_slots d t" and "stack_mapped c s \<Longrightarrow> stack_mapped c t"
proof -
  have r: "rd a t = rd a s" if "0xC0080000 \<le> unat a" "unat a + 4 \<le> 0xC0088008" for a
    unfolding rd_def by (rule ld32_same_on [OF assms]) (use that in simp_all)
  have u: "unat (tables_at 0xC0082000 (of_nat i)) = 0xC0082000 + 4 * i" if "i < 1024" for i
    using slot_place [of "of_nat i"] that by (simp add: unat_of_nat32)
  show "parent_slots d s \<Longrightarrow> parent_slots d t" by (simp add: parent_slots_def r u)
  show "stack_mapped c s \<Longrightarrow> stack_mapped c t"
    unfolding stack_mapped_def by (subst (1 2 3 4 5) r) (simp_all add: tables_at_def pages_at_def unat_numeral32)
qed

lemma parent_slot:
  assumes "parent_slots d s" and "unat i < 1024" and "i \<noteq> 895" and "i \<noteq> 896"
  shows "rd (tables_at 0xC0082000 i) s = both_slots d (unat i)"
proof -
  have "unat i \<noteq> 895" "unat i \<noteq> 896"
    using assms(3,4) unat_eqI32 [of i 895] unat_eqI32 [of i 896] by (auto simp: unat_numeral32)
  then have "rd (tables_at 0xC0082000 (of_nat (unat i))) s = both_slots d (unat i)"
    using assms(1,2) by (simp add: parent_slots_def del: of_nat_unat)
  then show ?thesis by simp
qed

text \<open>The part of the loop in front of the two tables.\<close>

lemma fork_clones_shared:
  assumes k: "kernel_up p d c tasked_blocks s" and ps: "parent_slots d s"
  obtains t where "kernel_up p d c fork_blocks t" and "same_on 0xC0080000 0xC0088008 (mem s) (mem t)"
    and "\<exists>m a. t = s\<lparr>mem := m, heap_at := a\<rparr>" and "\<forall>i. unat i < 895 \<longrightarrow> rd (tables_at child_directory i) t = both_slots d (unat i)"
    and "\<forall>i. 895 \<le> unat i \<longrightarrow> unat i < 1024 \<longrightarrow> rd (tables_at child_directory i) t = 0"
    and "\<forall>u. clone_directory_loop 129 (kmalloc_ap (Suc n)) 895 0xC0082000 child_directory t = Inr ((), u) \<longrightarrow>
      clone_directory (kmalloc_ap (Suc n)) 0xC0082000 s = Inr (child_directory, u)"
proof -
  note K = kernel_upD [OF k]
  obtain s1 where s1: "kmalloc_ap (Suc n) sizeof_page_directory s = Inr ((0xC0089000, page_word (d + 144)), s1)"
    "kernel_up p d c fork_blocks s1" "heap_step 0xC0088008 0xC0100000 s s1"
    by (rule fork_directory_block [OF k])
  note ca = child_apart [OF K(3)]
  let ?s2 = "blank_directory child_directory (page_word (d + 144)) s1"
  note B = blank_directory [OF ca(1), where phys = "page_word (d + 144)" and s = s1]
  have sm1: "same_on 0xC0080000 0xC0088008 (mem s) (mem s1)" by (rule heap_step_same [OF s1(3)]) simp_all
  have cd: "unat child_directory = 0xC0089000" by (simp add: unat_numeral32)
  have sm2: "same_on 0xC0080000 0xC0088008 (mem s1) (mem ?s2)" by (rule only_in_same_on [OF B(2)]) (simp add: cd)
  have ps2: "parent_slots d ?s2" by (rule parent_kept(1) [OF sm2 parent_kept(1) [OF sm1 ps]])
  have area: "owned_area fork_blocks 0xC0089000 0xC008B004" by (simp add: owned_area_def fork_blocks_def)
  have up: "kernel_up p d c fork_blocks t" if t: "t = s1\<lparr>mem := mem t\<rparr>" "only_in 0xC0089000 0xC008B004 (mem s1) (mem t)" for t
    by (rule kernel_up_area [OF s1(2) map_step_area [OF t(1) area area]])
      (use t(2) only_in_same_on [OF t(2)] K(11,13) in \<open>auto simp: only_in_def\<close>)
  have u2: "kernel_up p d c fork_blocks ?s2" by (rule up [OF B(1)]) (use B(2) in \<open>simp add: cd\<close>)
  note K2 = kernel_upD [OF u2]
  have kd2: "kernel_directory ?s2 = page_word d" using K2(5) by (simp add: tables_up_def)
  have kslot: "rd (tables_at (page_word d) j) ?s2 = both_slots d (unat j)" if "unat j < 1024" for j
    using directory_slot(1) [of d "both_slots d" ?s2 "unat j"] K2(5) that by (simp add: tables_up_def)
  have shared: "shared_range 0xC0082000 0 895 ?s2"
    unfolding shared_range_def
  proof (intro allI impI)
    fix j :: u32 assume "unat j < unat (0 :: u32) + 895"
    then have j: "unat j < 895" by simp
    then have "j \<noteq> 895" "j \<noteq> 896" by (auto simp: unat_numeral32)
    then show "rd (tables_at 0xC0082000 j) ?s2 = 0 \<or> rd (tables_at (kernel_directory ?s2) j) ?s2 = rd (tables_at 0xC0082000 j) ?s2"
      using parent_slot [OF ps2, of j] kslot [of j] kd2 j by simp
  qed
  have ca3: "dirs_apart child_directory (kernel_directory ?s2)" unfolding kd2 by (rule ca(3))
  obtain t m where t: "clone_directory_loop (895 + 129) (kmalloc_ap (Suc n)) 0 0xC0082000 child_directory ?s2
      = clone_directory_loop 129 (kmalloc_ap (Suc n)) (0 + of_nat 895) 0xC0082000 child_directory t" "t = ?s2\<lparr>mem := m\<rparr>"
    "only_in (unat child_directory) (unat child_directory + 8196) (mem ?s2) (mem t)"
    "\<And>j. unat j < 1024 \<Longrightarrow> (if unat (0 :: u32) \<le> unat j \<and> unat j < unat (0 :: u32) + 895 \<and> rd (tables_at 0xC0082000 j) ?s2 \<noteq> 0
         then rd (tables_at child_directory j) t = rd (tables_at 0xC0082000 j) ?s2
           \<and> rd (tablesPhysical_at child_directory j) t = rd (tablesPhysical_at 0xC0082000 j) ?s2
         else rd (tables_at child_directory j) t = rd (tables_at child_directory j) ?s2
           \<and> rd (tablesPhysical_at child_directory j) t = rd (tablesPhysical_at child_directory j) ?s2)"
    using clone_directory_loop_part [OF ca(2) ca3 shared, of 129 "kmalloc_ap (Suc n)"] by auto
  have sm3: "same_on 0xC0080000 0xC0088008 (mem ?s2) (mem t)" by (rule only_in_same_on [OF t(3)]) (simp add: cd)
  have ot: "only_in 0xC0089000 0xC008B004 (mem s1) (mem t)" using only_in_trans [OF B(2) t(3)] by (simp add: cd)
  have et: "t = s1\<lparr>mem := mem t\<rparr>" unfolding t(2) by (subst B(1)) simp
  obtain ms hs where e1: "s1 = s\<lparr>mem := ms, heap_at := hs\<rparr>" using s1(3) unfolding heap_step_def by blast
  have "t = s\<lparr>mem := mem t, heap_at := hs\<rparr>" by (subst et, subst e1) simp
  then have ext: "\<exists>m a. t = s\<lparr>mem := m, heap_at := a\<rparr>" by blast
  have sm: "same_on 0xC0080000 0xC0088008 (mem s) (mem t)" using sm1 sm2 sm3 by (simp add: same_on_def)
  have low: "rd (tables_at child_directory i) t = both_slots d (unat i)" if i: "unat i < 895" for i
  proof -
    have "i \<noteq> 895" "i \<noteq> 896" using i by (auto simp: unat_numeral32)
    then have "rd (tables_at 0xC0082000 i) ?s2 = both_slots d (unat i)" using parent_slot [OF ps2, of i] i by simp
    then show ?thesis using t(4) [of i] B(4) [of i] i by (auto split: if_splits)
  qed
  have high: "rd (tables_at child_directory i) t = 0" if i: "895 \<le> unat i" "unat i < 1024" for i
    using t(4) [of i] B(4) [of i] i by simp
  have fin: "\<forall>u. clone_directory_loop 129 (kmalloc_ap (Suc n)) 895 0xC0082000 child_directory t = Inr ((), u) \<longrightarrow>
      clone_directory (kmalloc_ap (Suc n)) 0xC0082000 s = Inr (child_directory, u)"
  proof (intro allI impI)
    fix u assume "clone_directory_loop 129 (kmalloc_ap (Suc n)) 895 0xC0082000 child_directory t = Inr ((), u)"
    then have "clone_directory_loop 1024 (kmalloc_ap (Suc n)) 0 0xC0082000 child_directory ?s2 = Inr ((), u)"
      using t(1) by simp
    then show "clone_directory (kmalloc_ap (Suc n)) 0xC0082000 s = Inr (child_directory, u)"
      by (rule clone_directory_start [where kap = "kmalloc_ap (Suc n)", OF s1(1)])
  qed
  show ?thesis by (rule that [OF up [OF et ot] sm ext _ _ fin]) (use low high in blast)+
qed


text \<open>One entry that has a table of its own.\<close>

lemma clone_directory_step:
  assumes "rd (tables_at src i) s \<noteq> 0" and "rd (tables_at (kernel_directory s) i) s \<noteq> rd (tables_at src i) s"
    and "clone_table kap (rd (tables_at src i) s) s = Inr ((t, ph), s1)"
  shows "clone_directory_loop (Suc n) kap i src dir s =
    clone_directory_loop n kap (i + 1) src dir (wr (tablesPhysical_at dir i) (ph OR 7) (wr (tables_at dir i) t s1))"
  using assms by (simp add: Let_def)

lemma link_table:
  assumes i: "unat i < 1024" and t: "t = wr (tablesPhysical_at child_directory i) ph (wr (tables_at child_directory i) a s)"
  shows "only_in 0xC0089000 0xC008B004 (mem s) (mem t)" and "rd (tables_at child_directory i) t = a"
    and "t = s\<lparr>mem := mem t\<rparr>" and "unat j < 1024 \<Longrightarrow> j \<noteq> i \<Longrightarrow> rd (tables_at child_directory j) t = rd (tables_at child_directory j) s"
proof -
  note u = child_slot [OF i] child_phys [OF i]
  show "only_in 0xC0089000 0xC008B004 (mem s) (mem t)"
    unfolding t mem_wr using u i by (intro only_in_st32_step only_in_refl) simp_all
  show "rd (tables_at child_directory i) t = a" using u i by (simp add: t rd_def ld32_st32_far)
  show "t = s\<lparr>mem := mem t\<rparr>" by (simp add: t wr_def)
  assume j: "unat j < 1024" "j \<noteq> i"
  then have "unat j \<noteq> unat i" using unat_eqI32 by blast
  then have "unat j < unat i \<or> unat i < unat j" by linarith
  then have f: "ld32 (st32 m (tables_at child_directory i) v) (tables_at child_directory j) = ld32 m (tables_at child_directory j)" for m v
    using u child_slot [OF j(1)] i j(1) by (intro ld32_st32_far) auto
  have "ld32 (st32 m (tablesPhysical_at child_directory i) v) (tables_at child_directory j) = ld32 m (tables_at child_directory j)" for m v
    using u child_slot [OF j(1)] i j(1) by (intro ld32_st32_far) auto
  then show "rd (tables_at child_directory j) t = rd (tables_at child_directory j) s" using f by (simp add: t rd_def)
qed

lemma own_slots:
  assumes "tables_up d s" and "i = 895 \<or> i = (896 :: u32)"
  shows "rd (tables_at (kernel_directory s) i) s = 0"
proof -
  have "unat i \<in> {895, 896}" using assms(2) by (auto simp: unat_numeral32)
  then have "rd (tables_at (page_word d) (of_nat (unat i))) s = 0"
    using assms(1) directory_slot(1) [of d "both_slots d" s "unat i"] by (auto simp: tables_up_def both_slots_def heap_slot_def simp del: of_nat_unat)
  then show ?thesis using assms(1) by (simp add: tables_up_def)
qed

lemma stack_frames:
  assumes "stack_mapped c s" and "0 < c" and "c + 2 < 1024"
  shows "page_frame (rd (pages_at 0xC0085000 (of_nat 0)) s) \<noteq> 0" and "page_frame (rd (pages_at 0xC0087000 (of_nat 1023)) s) \<noteq> 0"
    and "page_frame (rd (pages_at 0xC0087000 (of_nat 1022)) s) \<noteq> 0"
proof -
  have u: "unat (of_nat k :: u32) = k" if "k < 1024" for k using that by (intro unat_of_nat32) simp
  have "page_frame (new_entry (of_nat k) 0 1 0) \<noteq> 0" if "0 < k" "k < 1024" for k
    using page_frame_new_entry [of "of_nat k" 0 1] u [of k] that by auto
  from this [of c] this [of "c + 1"] this [of "c + 2"] assms
  show "page_frame (rd (pages_at 0xC0085000 (of_nat 0)) s) \<noteq> 0" "page_frame (rd (pages_at 0xC0087000 (of_nat 1023)) s) \<noteq> 0"
    "page_frame (rd (pages_at 0xC0087000 (of_nat 1022)) s) \<noteq> 0"
    by (simp_all add: stack_mapped_def)
qed

text \<open>
  A table of the stack is cloned into a block of the heap and linked: its entries with a frame are dropped, and the memory
  behind it is blank.
\<close>

lemma fork_clone_table:
  assumes kap: "kap sizeof_page_table s = Inr ((t, ph), s1)" and bm: "frames s1 = p" "nframes s1 = 0x1000" "unat p + 512 \<le> 0xC0000000"
    and t: "0xC008C000 \<le> unat t" "unat t + 8196 \<le> 0xC0100000" and a: "0xC0084000 \<le> unat a" "unat a + 4096 \<le> 0xC0089000"
    and src: "rd (tables_at 0xC0082000 i) s = a" "rd (tables_at (kernel_directory s) i) s = 0" and i: "unat i < 1024"
  obtains u m cs where "clone_directory_loop (Suc k) kap i 0xC0082000 child_directory s = clone_directory_loop k kap (i + 1) 0xC0082000 child_directory u"
    and "u = s1\<lparr>mem := m, phys_copies := cs\<rparr>" and "rd (tables_at child_directory i) u = t"
    and "\<forall>j. unat j < 1024 \<longrightarrow> j \<noteq> i \<longrightarrow> rd (tables_at child_directory j) u = rd (tables_at child_directory j) s1"
    and "\<forall>j < 1024. page_frame (rd (pages_at a (of_nat j)) s1) \<noteq> 0 \<longrightarrow> rd (pages_at t (of_nat j)) u = 0"
    and "\<forall>x. unat t + 4096 \<le> unat x \<longrightarrow> unat x < unat t + 8196 \<longrightarrow> mem u x = 0"
    and "\<forall>x. (unat x < unat p \<or> unat p + 512 \<le> unat x) \<longrightarrow> (unat x < unat t \<or> unat t + 8196 \<le> unat x)
        \<longrightarrow> (unat x < 0xC0089000 \<or> 0xC008B004 \<le> unat x) \<longrightarrow> mem u x = mem s1 x"
proof -
  have ok: "bitmap_ok s1" "0 < frame_count s1" "bm_hi s1 = unat p + 512"
    using bm by (simp_all add: bitmap_ok_def frame_count_def unat_numeral32)
  have ap: "unat t + 8196 \<le> 4294967296" "unat t + 8196 \<le> bm_lo s1 \<or> bm_hi s1 \<le> unat t" "table_apart a s1"
    "unat a + 4096 \<le> unat t \<or> unat t + 8196 \<le> unat a"
    using t a bm(3) ok(3) by (simp_all add: table_apart_def)
  obtain m cs where c: "clone_table kap a s = Inr ((t, ph), s1\<lparr>mem := m, phys_copies := phys_copies s1 @ cs\<rparr>)"
    "\<forall>j < 1024. entry_kept (rd (pages_at a (of_nat j)) s1) (ld32 m (pages_at t (of_nat j)))"
    "\<forall>x. unat t + 4096 \<le> unat x \<longrightarrow> unat x < unat t + 8196 \<longrightarrow> m x = 0" "bitmap_or (unat t) (unat t + 8196) s1 m"
    by (rule clone_table_runs [where kap = kap, OF kap ok(1,2) ap])
  let ?s2 = "s1\<lparr>mem := m, phys_copies := phys_copies s1 @ cs\<rparr>"
  define u where "u = wr (tablesPhysical_at child_directory i) (ph OR 7) (wr (tables_at child_directory i) t ?s2)"
  note L = link_table [OF i u_def]
  have cl: "m x = mem s1 x" if "unat x < unat p \<or> unat p + 512 \<le> unat x" "unat x < unat t \<or> unat t + 8196 \<le> unat x" for x
    by (rule c(4) [unfolded bitmap_or_def, rule_format]) (use that bm ok(3) in auto)
  have dir: "mem u x = m x" if "unat x < 0xC0089000 \<or> 0xC008B004 \<le> unat x" for x
    using L(1) [unfolded only_in_def, rule_format, of x] that by simp
  have a0: "a \<noteq> 0" using a by auto
  have "clone_directory_loop (Suc k) kap i 0xC0082000 child_directory s = clone_directory_loop k kap (i + 1) 0xC0082000 child_directory u"
    using clone_directory_step [of "0xC0082000" i s kap t ph ?s2 k child_directory] c(1) src a0 by (simp add: u_def)
  moreover have "u = s1\<lparr>mem := mem u, phys_copies := phys_copies s1 @ cs\<rparr>" by (subst L(3)) simp
  moreover have "rd (tables_at child_directory j) u = rd (tables_at child_directory j) s1" if j: "unat j < 1024" "j \<noteq> i" for j
  proof -
    have "rd (tables_at child_directory j) u = rd (tables_at child_directory j) ?s2" by (rule L(4) [OF j])
    also have "\<dots> = rd (tables_at child_directory j) s1" by (rule rd_same) (use cl child_slot [OF j(1)] j(1) t bm in simp_all)
    finally show ?thesis .
  qed
  moreover have "rd (pages_at t (of_nat j)) u = 0" if j: "j < 1024" "page_frame (rd (pages_at a (of_nat j)) s1) \<noteq> 0" for j
  proof -
    have at: "unat (pages_at t (of_nat j)) = unat t + 4 * j" using t j(1) by (intro unat_pages_at) simp_all
    have "rd (pages_at t (of_nat j)) u = ld32 m (pages_at t (of_nat j))"
      using rd_same [of "pages_at t (of_nat j)" u ?s2] dir at t j(1) by (simp add: rd_def)
    then show ?thesis using c(2) j by (simp add: entry_kept_def)
  qed
  moreover have "mem u x = 0" if "unat t + 4096 \<le> unat x" "unat x < unat t + 8196" for x
    using dir [of x] c(3) that t by simp
  moreover have "mem u x = mem s1 x" if "unat x < unat p \<or> unat p + 512 \<le> unat x" "unat x < unat t \<or> unat t + 8196 \<le> unat x"
    "unat x < 0xC0089000 \<or> 0xC008B004 \<le> unat x" for x
    using cl [OF that(1,2)] dir [OF that(3)] by simp
  ultimately show ?thesis using that [where u = u and m = "mem u" and cs = "phys_copies s1 @ cs"] L(2) by simp
qed


lemma fork_clones_first:
  assumes k: "kernel_up p d c' fork_blocks s" and ps: "parent_slots d s" and sm: "stack_mapped c s" "0 < c" "c + 2 < 1024"
  obtains xs u where "clone_directory_loop 129 (kmalloc_ap (Suc n)) 895 0xC0082000 child_directory s
      = clone_directory_loop 128 (kmalloc_ap (Suc n)) 896 0xC0082000 child_directory u"
    and "fork_index xs 0 (page_word (d + 6)) u" and "heap_end (page_word (d + 6)) u = 0xC0100000"
    and "tables_up d u" and "frames u = p" and "nframes u = 0x1000" and "same_on 0xC0080000 0xC0088008 (mem s) (mem u)"
    and "\<exists>m a cs. u = s\<lparr>mem := m, heap_at := a, phys_copies := cs\<rparr>"
    and "rd (tables_at child_directory 895) u = 0xC008C000"
    and "\<forall>i. unat i < 1024 \<longrightarrow> i \<noteq> 895 \<longrightarrow> rd (tables_at child_directory i) u = rd (tables_at child_directory i) s"
    and "rd (pages_at 0xC008C000 1023) u = 0" and "rd (pages_at 0xC008C000 1022) u = 0"
proof -
  let ?h = "page_word (d + 6)" and ?t = "0xC008C000 :: u32" and ?kap = "kmalloc_ap (Suc n)"
  note K = kernel_upD [OF k]
  have p: "unat p + 512 \<le> 4096 * d" "4096 * (d + 6) \<le> 0x400000" using K(11,13) by simp_all
  have src: "rd (tables_at 0xC0082000 895) s = 0xC0087000" using sm(1) by (simp add: stack_mapped_def)
  have n895: "unat (895 :: u32) < 1024" and ut: "unat ?t = 0xC008C000" by (simp_all add: unat_numeral32)
  obtain xs s1 where s1: "?kap sizeof_page_table s = Inr ((?t, page_word (d + 147)), s1)"
    "fork_index xs 471032 ?h s1" "heap_end ?h s1 = 0xC0100000" "heap_step 0xC008B00C 0xC0100000 s s1"
    by (rule fork_table_block [OF k])
  obtain m1 a1 where e1: "s1 = s\<lparr>mem := m1, heap_at := a1\<rparr>" using s1(4) unfolding heap_step_def by blast
  have bm: "frames s1 = p" "nframes s1 = 0x1000" "unat p + 512 \<le> 0xC0000000" using K(6,7) p by (simp_all add: e1)
  have tb: "0xC008C000 \<le> unat ?t" "unat ?t + 8196 \<le> 0xC0100000" "0xC0084000 \<le> unat (0xC0087000 :: u32)" "unat (0xC0087000 :: u32) + 4096 \<le> 0xC0089000"
    by (simp_all add: unat_numeral32)
  obtain u mu cs where u: "clone_directory_loop (Suc 128) ?kap 895 0xC0082000 child_directory s = clone_directory_loop 128 ?kap (895 + 1) 0xC0082000 child_directory u"
    "u = s1\<lparr>mem := mu, phys_copies := cs\<rparr>" "rd (tables_at child_directory 895) u = ?t"
    "\<forall>j. unat j < 1024 \<longrightarrow> j \<noteq> 895 \<longrightarrow> rd (tables_at child_directory j) u = rd (tables_at child_directory j) s1"
    "\<forall>j < 1024. page_frame (rd (pages_at 0xC0087000 (of_nat j)) s1) \<noteq> 0 \<longrightarrow> rd (pages_at ?t (of_nat j)) u = 0"
    "\<forall>x. unat ?t + 4096 \<le> unat x \<longrightarrow> unat x < unat ?t + 8196 \<longrightarrow> mem u x = 0"
    "\<forall>x. (unat x < unat p \<or> unat p + 512 \<le> unat x) \<longrightarrow> (unat x < unat ?t \<or> unat ?t + 8196 \<le> unat x)
        \<longrightarrow> (unat x < 0xC0089000 \<or> 0xC008B004 \<le> unat x) \<longrightarrow> mem u x = mem s1 x"
    by (rule fork_clone_table [where kap = ?kap, OF s1(1) bm tb src own_slots [OF K(5)] n895]) simp
  have eu: "u = s\<lparr>mem := mu, heap_at := a1, phys_copies := cs\<rparr>" using u(2) by (simp add: e1)
  have fr: "mem u x = mem s1 x" if "unat x < unat p \<or> unat p + 512 \<le> unat x" "unat x < 0xC008C000 \<or> 0xC008E004 \<le> unat x"
    "unat x < 0xC0089000 \<or> 0xC008B004 \<le> unat x" for x
    by (rule u(7) [rule_format]) (use that ut in simp_all)
  have same: "mem u x = mem s x" if "unat x < unat p \<or> unat p + 512 \<le> unat x" "unat x < 0xC0089000 \<or> 0xC0100000 \<le> unat x"
    "unat x < 0xC0000000 \<or> 0xC0080000 \<le> unat x" for x
  proof -
    have "mem u x = mem s1 x" by (rule fr) (use that in auto)
    moreover have "unat x < 0xC008B00C \<or> 0xC0100000 \<le> unat x" using that(2) by auto
    then have "mem s1 x = mem s x" using s1(4) that(3) by (simp add: heap_step_def)
    ultimately show ?thesis by simp
  qed
  have kept: "rd y s1 = rd y s" if "0xC0080000 \<le> unat y" "unat y + 4 \<le> 0xC008B00C" for y
    unfolding rd_def by (rule ld32_same_on [OF heap_step_same [OF s1(4), where a = "0xC0080000" and b = "0xC008B00C"]]) (use that in simp_all)
  have blank: "h_size 0xC008D008 u = 0"
    unfolding rd_def by (intro ld32_zero allI impI) (use u(6) in \<open>simp add: unat_add32 unat_of_nat32 unat_numeral32\<close>)
  have ix: "fork_index xs 0 ?h u"
    by (rule fork_index_kept [OF s1(2) _ _ _ _ _ _ blank]) (use fr p in \<open>simp_all add: eu e1 same_on_def\<close>)
  have tu: "tables_up d u" by (rule tables_up_kept [OF K(5,3)]) (use same p in \<open>simp_all add: eu same_on_def\<close>)
  have slots: "rd (tables_at child_directory i) u = rd (tables_at child_directory i) s" if i: "unat i < 1024" "i \<noteq> 895" for i
    using u(4) i kept [of "tables_at child_directory i"] child_slot [OF i(1)] i(1) by simp
  note sf = stack_frames [OF sm]
  have entry: "rd (pages_at ?t (of_nat j)) u = 0" if j: "j < 1024" "page_frame (rd (pages_at 0xC0087000 (of_nat j)) s) \<noteq> 0" for j
  proof -
    have "unat (pages_at 0xC0087000 (of_nat j)) = 0xC0087000 + 4 * j" using j(1) by (simp add: unat_pages_at unat_numeral32)
    then show ?thesis using u(5) j kept [of "pages_at 0xC0087000 (of_nat j)"] by simp
  qed
  have "rd (pages_at ?t 1023) u = 0" "rd (pages_at ?t 1022) u = 0" using entry [OF _ sf(2)] entry [OF _ sf(3)] by simp_all
  moreover have "same_on 0xC0080000 0xC0088008 (mem s) (mem u)" using same p by (simp add: same_on_def)
  moreover have "heap_end ?h u = 0xC0100000" using s1(3) by (simp add: eu e1)
  moreover have "\<exists>m a cs. u = s\<lparr>mem := m, heap_at := a, phys_copies := cs\<rparr>" using eu by blast
  moreover have "frames u = p" "nframes u = 0x1000" using K(6,7) by (simp_all add: eu)
  ultimately show ?thesis using that [of u xs] u(1,3) ix tu slots by simp
qed

text \<open>The part of the loop behind the two tables, where the parent has nothing.\<close>

lemma fork_clones_rest:
  assumes ps: "parent_slots d s" and kd: "kernel_directory s = page_word d" and d: "d + 263 \<le> 1024"
  obtains u m where "clone_directory_loop 127 kap 897 0xC0082000 child_directory s = Inr ((), u)" and "u = s\<lparr>mem := m\<rparr>"
    and "only_in 0xC0089000 0xC008B004 (mem s) (mem u)"
    and "\<forall>j. unat j < 1024 \<longrightarrow> rd (tables_at child_directory j) u = rd (tables_at child_directory j) s"
proof -
  note ca = child_apart [OF d]
  have zero: "rd (tables_at 0xC0082000 j) s = 0" if "897 \<le> unat j" "unat j < 1024" for j
  proof -
    have "j \<noteq> 895" "j \<noteq> 896" using that(1) by (auto simp: unat_numeral32)
    then show ?thesis using parent_slot [OF ps that(2)] that by (simp add: both_slots_def heap_slot_def)
  qed
  have shared: "shared_range 0xC0082000 897 127 s" using zero by (simp add: shared_range_def unat_numeral32)
  have ca3: "dirs_apart child_directory (kernel_directory s)" unfolding kd by (rule ca(3))
  obtain u m where u: "clone_directory_loop (127 + 0) kap 897 0xC0082000 child_directory s
      = clone_directory_loop 0 kap (897 + of_nat 127) 0xC0082000 child_directory u" "u = s\<lparr>mem := m\<rparr>"
    "only_in (unat child_directory) (unat child_directory + 8196) (mem s) (mem u)"
    "\<And>j. unat j < 1024 \<Longrightarrow> (if unat (897 :: u32) \<le> unat j \<and> unat j < unat (897 :: u32) + 127 \<and> rd (tables_at 0xC0082000 j) s \<noteq> 0
         then rd (tables_at child_directory j) u = rd (tables_at 0xC0082000 j) s
           \<and> rd (tablesPhysical_at child_directory j) u = rd (tablesPhysical_at 0xC0082000 j) s
         else rd (tables_at child_directory j) u = rd (tables_at child_directory j) s
           \<and> rd (tablesPhysical_at child_directory j) u = rd (tablesPhysical_at child_directory j) s)"
    using clone_directory_loop_part [OF ca(2) ca3 shared, of 0 kap] by (auto simp: unat_numeral32)
  have "rd (tables_at child_directory j) u = rd (tables_at child_directory j) s" if "unat j < 1024" for j
    using u(4) [OF that] zero [of j] that by (simp add: unat_numeral32 split: if_splits)
  moreover have "only_in 0xC0089000 0xC008B004 (mem s) (mem u)" using u(3) by (simp add: unat_numeral32)
  ultimately show ?thesis using that [of u m] u(1,2) by simp
qed


lemma fork_clones_second:
  assumes ix: "fork_index xs 0 (page_word (d + 6)) s" and en: "heap_end (page_word (d + 6)) s = 0xC0100000" and T: "tables_up d s" "d + 263 \<le> 1024"
    and bm: "frames s = p" "nframes s = 0x1000" and p: "unat p + 512 \<le> 4096 * d"
    and ps: "parent_slots d s" and sm: "stack_mapped c s" "0 < c" "c + 2 < 1024"
  obtains u where "clone_directory_loop 128 (kmalloc_ap (Suc (Suc n))) 896 0xC0082000 child_directory s = Inr ((), u)"
    and "fork_index xs 4076 (page_word (d + 6)) u" and "heap_end (page_word (d + 6)) u = 0xC0102000"
    and "hdr (mem u) 0xC008DFF4 False 4116" and "rd 0xC008F000 u = 0"
    and "same_on 0xC0080000 0xC0089000 (mem s) (mem u)" and "same_on 0xC008C000 0xC008D008 (mem s) (mem u)"
    and "\<exists>m a cs. u = s\<lparr>mem := m, heap_at := a, phys_copies := cs\<rparr>"
    and "rd (tables_at child_directory 896) u = 0xC008E000"
    and "\<forall>i. unat i < 1024 \<longrightarrow> i \<noteq> 896 \<longrightarrow> rd (tables_at child_directory i) u = rd (tables_at child_directory i) s"
    and "rd (pages_at 0xC008E000 0) u = 0"
proof -
  let ?h = "page_word (d + 6)" and ?t = "0xC008E000 :: u32" and ?kap = "kmalloc_ap (Suc (Suc n))"
  have d: "4096 * (d + 6) \<le> 0x400000" "?h \<noteq> 0" using T(2) by (simp_all add: page_word_nonzero)
  have src: "rd (tables_at 0xC0082000 896) s = 0xC0085000" using sm(1) by (simp add: stack_mapped_def)
  have n896: "unat (896 :: u32) < 1024" and ut: "unat ?t = 0xC008E000" by (simp_all add: unat_numeral32)
  have ok: "bitmap_ok s" "0 < frame_count s" "bm_hi s = unat p + 512"
    using bm p d by (simp_all add: bitmap_ok_def frame_count_def unat_numeral32)
  obtain s1 where s1: "?kap sizeof_page_table s = Inr ((?t, page_word (d + 149)), s1)"
    "fork_index xs 4076 ?h s1" "heap_end ?h s1 = 0xC0102000" "hdr (mem s1) 0xC008DFF4 False 4116"
    "\<exists>m a. s1 = s\<lparr>mem := m, heap_at := a\<rparr>"
    "\<forall>x. (unat x < bm_lo s \<or> bm_hi s \<le> unat x) \<longrightarrow> (unat x < 4096 * (d + 3) + 1024 \<or> 4096 * (d + 3) + 1032 \<le> unat x)
      \<longrightarrow> (unat x < 0xC008D008 \<or> 0xC008F008 \<le> unat x) \<longrightarrow> mem s1 x = mem s x"
    by (rule fork_table_expand [OF ix en d(2) T ok(1,2)]) (use ok(3) p in simp_all)
  obtain m1 a1 where e1: "s1 = s\<lparr>mem := m1, heap_at := a1\<rparr>" using s1(5) by blast
  have bm1: "frames s1 = p" "nframes s1 = 0x1000" "unat p + 512 \<le> 0xC0000000" using bm p d by (simp_all add: e1)
  have tb: "0xC008C000 \<le> unat ?t" "unat ?t + 8196 \<le> 0xC0100000" "0xC0084000 \<le> unat (0xC0085000 :: u32)" "unat (0xC0085000 :: u32) + 4096 \<le> 0xC0089000"
    by (simp_all add: unat_numeral32)
  obtain s2 m2 cs where s2: "clone_directory_loop (Suc 127) ?kap 896 0xC0082000 child_directory s = clone_directory_loop 127 ?kap (896 + 1) 0xC0082000 child_directory s2"
    "s2 = s1\<lparr>mem := m2, phys_copies := cs\<rparr>" "rd (tables_at child_directory 896) s2 = ?t"
    "\<forall>j. unat j < 1024 \<longrightarrow> j \<noteq> 896 \<longrightarrow> rd (tables_at child_directory j) s2 = rd (tables_at child_directory j) s1"
    "\<forall>j < 1024. page_frame (rd (pages_at 0xC0085000 (of_nat j)) s1) \<noteq> 0 \<longrightarrow> rd (pages_at ?t (of_nat j)) s2 = 0"
    "\<forall>x. unat ?t + 4096 \<le> unat x \<longrightarrow> unat x < unat ?t + 8196 \<longrightarrow> mem s2 x = 0"
    "\<forall>x. (unat x < unat p \<or> unat p + 512 \<le> unat x) \<longrightarrow> (unat x < unat ?t \<or> unat ?t + 8196 \<le> unat x)
        \<longrightarrow> (unat x < 0xC0089000 \<or> 0xC008B004 \<le> unat x) \<longrightarrow> mem s2 x = mem s1 x"
    by (rule fork_clone_table [where kap = ?kap, OF s1(1) bm1 tb src own_slots [OF T(1)] n896]) simp
  have e2: "s2 = s\<lparr>mem := m2, heap_at := a1, phys_copies := cs\<rparr>" using s2(2) by (simp add: e1)
  have fr2: "mem s2 x = mem s1 x" if "0xC0000000 \<le> unat x" "unat x < 0xC008E000" "unat x < 0xC0089000 \<or> 0xC008B004 \<le> unat x" for x
    by (rule s2(7) [rule_format]) (use that ut bm1(3) in simp_all)
  have fr1: "mem s1 x = mem s x" if "0xC0000000 \<le> unat x" "unat x < 0xC008D008" for x
    by (rule s1(6) [rule_format]) (use that ok(3) p d in auto)
  have ps2: "parent_slots d s2" by (rule parent_kept(1) [OF _ ps]) (use fr1 fr2 in \<open>simp add: same_on_def\<close>)
  have kd2: "kernel_directory s2 = page_word d" using tables_up_page(1) [OF T(1), of 0] by (simp add: e2)
  obtain u m where u: "clone_directory_loop 127 ?kap 897 0xC0082000 child_directory s2 = Inr ((), u)" "u = s2\<lparr>mem := m\<rparr>"
    "only_in 0xC0089000 0xC008B004 (mem s2) (mem u)"
    "\<forall>j. unat j < 1024 \<longrightarrow> rd (tables_at child_directory j) u = rd (tables_at child_directory j) s2"
    by (rule fork_clones_rest [OF ps2 kd2 T(2)])
  have dir: "mem u x = mem s2 x" if "unat x < 0xC0089000 \<or> 0xC008B004 \<le> unat x" for x
    using u(3) [unfolded only_in_def, rule_format, of x] that by simp
  have frs: "mem u x = mem s1 x" if "0xC0000000 \<le> unat x" "unat x < 0xC008E000" "unat x < 0xC0089000 \<or> 0xC008B004 \<le> unat x" for x
    using dir fr2 that by simp
  have lo: "rd x s1 = rd x s" if "0xC0080000 \<le> unat x" "unat x + 4 \<le> 0xC008D008" for x
    by (rule rd_same) (use fr1 that in auto)
  have ix: "fork_index xs 4076 ?h u"
  proof (rule fork_index_kept [OF s1(2)])
    show "same_on 0xC0000000 0xC0089000 (mem s1) (mem u)" "same_on 0xC008B004 0xC008C000 (mem s1) (mem u)"
      using frs by (simp_all add: same_on_def)
    have "rd 0xC008D010 u = rd 0xC008D010 s1" by (rule rd_same) (use frs in \<open>simp_all add: unat_numeral32\<close>)
    then show "h_size 0xC008D008 u = 4076" using s1(2) by (simp add: fork_index_def)
  qed (simp_all add: u(2) e2 e1)
  have foot: "rd 0xC008F000 u = 0"
    unfolding rd_def by (intro ld32_zero allI impI) (use dir s2(6) in \<open>simp add: unat_add32 unat_of_nat32 unat_numeral32\<close>)
  have "same_on 0xC008DFF4 0xC008E000 (mem s1) (mem u)" using frs by (simp add: same_on_def)
  from hdr_same_on [OF this] have head: "hdr (mem u) 0xC008DFF4 False 4116" using s1(4) by simp
  have "rd (pages_at ?t (of_nat 0)) s2 = 0"
    using s2(5) [rule_format, of 0] lo [of "pages_at 0xC0085000 0"] stack_frames(1) [OF sm] by (simp add: pages_at_def unat_numeral32)
  moreover have "rd (pages_at ?t 0) u = rd (pages_at ?t 0) s2" by (rule rd_same) (use dir in \<open>simp_all add: pages_at_def unat_numeral32\<close>)
  ultimately have entry: "rd (pages_at ?t 0) u = 0" by simp
  have slots: "rd (tables_at child_directory i) u = rd (tables_at child_directory i) s" if i: "unat i < 1024" "i \<noteq> 896" for i
    using u(4) s2(4) lo [of "tables_at child_directory i"] child_slot [OF i(1)] i by simp
  have "same_on 0xC0080000 0xC0089000 (mem s) (mem u)" "same_on 0xC008C000 0xC008D008 (mem s) (mem u)"
    using frs fr1 by (simp_all add: same_on_def)
  moreover have "heap_end ?h u = 0xC0102000" using s1(3) by (simp add: u(2) e2 e1)
  moreover have "u = s\<lparr>mem := m, heap_at := a1, phys_copies := cs\<rparr>" using u(2) e2 by simp
  then have "\<exists>m a cs. u = s\<lparr>mem := m, heap_at := a, phys_copies := cs\<rparr>" by blast
  moreover have "rd (tables_at child_directory 896) u = ?t" using u(4) s2(3) n896 by simp
  ultimately show ?thesis using that [of u] s2(1) u(1) ix head foot entry slots by simp
qed

subsection \<open>The whole clone\<close>

text \<open>
  The child's directory: the parent's slots but the two of the stack, whose new tables have no entry for the three pages
  of the stack.
\<close>

definition child_tables :: "nat \<Rightarrow> machine \<Rightarrow> bool" where
  "child_tables d s \<longleftrightarrow> (\<forall>i. unat i < 1024 \<longrightarrow> i \<noteq> 895 \<longrightarrow> i \<noteq> 896 \<longrightarrow> rd (tables_at child_directory i) s = both_slots d (unat i))
     \<and> rd (tables_at child_directory 895) s = 0xC008C000 \<and> rd (tables_at child_directory 896) s = 0xC008E000
     \<and> rd (pages_at 0xC008C000 1023) s = 0 \<and> rd (pages_at 0xC008C000 1022) s = 0 \<and> rd (pages_at 0xC008E000 0) s = 0"

text \<open>The headers and footers that the second table's request and its clearing leave behind.\<close>

definition heap_torn :: "u32 \<Rightarrow> machine \<Rightarrow> bool" where
  "heap_torn h s \<longleftrightarrow> heap_end h s = 0xC0102000 \<and> h_size 0xC008D008 s = 4076 \<and> hdr (mem s) 0xC008DFF4 False 4116 \<and> rd 0xC008F000 s = 0"

lemma fork_clones:
  assumes k: "kernel_up p d c' tasked_blocks s" and ps: "parent_slots d s" and sm: "stack_mapped c s" "0 < c" "c + 2 < 1024"
  obtains u xs where "clone_directory (kmalloc_ap (Suc (Suc n))) 0xC0082000 s = Inr (child_directory, u)"
    and "fork_index xs 4076 (page_word (d + 6)) u" and "heap_torn (page_word (d + 6)) u" and "child_tables d u"
    and "parent_slots d u" and "stack_mapped c u" and "same_on 0xC0080000 0xC0088008 (mem s) (mem u)"
    and "\<exists>m a cs. u = s\<lparr>mem := m, heap_at := a, phys_copies := cs\<rparr>"
proof -
  let ?h = "page_word (d + 6)"
  note K = kernel_upD [OF k]
  have p: "unat p + 512 \<le> 4096 * d" using K(11) by simp
  obtain s1 where s1: "kernel_up p d c' fork_blocks s1" "same_on 0xC0080000 0xC0088008 (mem s) (mem s1)"
    "\<exists>m a. s1 = s\<lparr>mem := m, heap_at := a\<rparr>" "\<forall>i. unat i < 895 \<longrightarrow> rd (tables_at child_directory i) s1 = both_slots d (unat i)"
    "\<forall>i. 895 \<le> unat i \<longrightarrow> unat i < 1024 \<longrightarrow> rd (tables_at child_directory i) s1 = 0"
    "\<forall>u. clone_directory_loop 129 (kmalloc_ap (Suc (Suc n))) 895 0xC0082000 child_directory s1 = Inr ((), u) \<longrightarrow>
      clone_directory (kmalloc_ap (Suc (Suc n))) 0xC0082000 s = Inr (child_directory, u)"
    by (rule fork_clones_shared [OF k ps, of "Suc n"])
  note k1 = parent_kept [OF s1(2)]
  obtain xs s2 where s2: "clone_directory_loop 129 (kmalloc_ap (Suc (Suc n))) 895 0xC0082000 child_directory s1
      = clone_directory_loop 128 (kmalloc_ap (Suc (Suc n))) 896 0xC0082000 child_directory s2"
    "fork_index xs 0 ?h s2" "heap_end ?h s2 = 0xC0100000" "tables_up d s2" "frames s2 = p" "nframes s2 = 0x1000"
    "same_on 0xC0080000 0xC0088008 (mem s1) (mem s2)" "\<exists>m a cs. s2 = s1\<lparr>mem := m, heap_at := a, phys_copies := cs\<rparr>"
    "rd (tables_at child_directory 895) s2 = 0xC008C000"
    "\<forall>i. unat i < 1024 \<longrightarrow> i \<noteq> 895 \<longrightarrow> rd (tables_at child_directory i) s2 = rd (tables_at child_directory i) s1"
    "rd (pages_at 0xC008C000 1023) s2 = 0" "rd (pages_at 0xC008C000 1022) s2 = 0"
    by (rule fork_clones_first [OF s1(1) k1(1) [OF ps] k1(2) [OF sm(1)] sm(2,3), of "Suc n"])
  note k2 = parent_kept [OF s2(7)]
  have ps2: "parent_slots d s2" "stack_mapped c s2" using k1 k2 ps sm(1) by blast+
  obtain u where u: "clone_directory_loop 128 (kmalloc_ap (Suc (Suc n))) 896 0xC0082000 child_directory s2 = Inr ((), u)"
    "fork_index xs 4076 ?h u" "heap_end ?h u = 0xC0102000" "hdr (mem u) 0xC008DFF4 False 4116" "rd 0xC008F000 u = 0"
    "same_on 0xC0080000 0xC0089000 (mem s2) (mem u)" "same_on 0xC008C000 0xC008D008 (mem s2) (mem u)"
    "\<exists>m a cs. u = s2\<lparr>mem := m, heap_at := a, phys_copies := cs\<rparr>" "rd (tables_at child_directory 896) u = 0xC008E000"
    "\<forall>i. unat i < 1024 \<longrightarrow> i \<noteq> 896 \<longrightarrow> rd (tables_at child_directory i) u = rd (tables_at child_directory i) s2"
    "rd (pages_at 0xC008E000 0) u = 0"
    by (rule fork_clones_second [OF s2(2,3,4) K(3) s2(5,6) p ps2 sm(2,3)])
  have "same_on 0xC0080000 0xC0088008 (mem s2) (mem u)" by (rule same_on_mono [OF u(6)]) simp_all
  note su = this and k3 = parent_kept [OF this]
  have same: "same_on 0xC0080000 0xC0088008 (mem s) (mem u)" using s1(2) s2(7) su by (simp add: same_on_def)
  have slots: "rd (tables_at child_directory i) u = both_slots d (unat i)" if i: "unat i < 1024" "i \<noteq> 895" "i \<noteq> 896" for i
  proof -
    have "rd (tables_at child_directory i) u = rd (tables_at child_directory i) s1" using u(10) s2(10) i by simp
    also have "\<dots> = both_slots d (unat i)"
    proof (cases "unat i < 895")
      case False
      have "unat i \<noteq> 895" "unat i \<noteq> 896"
        using i(2,3) unat_eqI32 [of i 895] unat_eqI32 [of i 896] by (auto simp: unat_numeral32)
      then show ?thesis using s1(5) i(1) False by (simp add: both_slots_def heap_slot_def)
    qed (use s1(4) in blast)
    finally show ?thesis .
  qed
  have t895: "rd (tables_at child_directory 895) u = 0xC008C000" using u(10) s2(9) by (simp add: unat_numeral32)
  have entry: "rd (pages_at 0xC008C000 i) u = rd (pages_at 0xC008C000 i) s2" if "unat i < 1024" for i
    unfolding rd_def by (rule ld32_same_on [OF u(7)]) (use that unat_pages_at [of "0xC008C000" "unat i"] in \<open>simp_all add: unat_numeral32\<close>)
  have "rd (pages_at 0xC008C000 1023) u = 0" "rd (pages_at 0xC008C000 1022) u = 0"
    using entry [of 1023] entry [of 1022] s2(11,12) by (simp_all add: unat_numeral32)
  then have ct: "child_tables d u" using slots t895 u(9,11) by (simp add: child_tables_def)
  have z: "h_size 0xC008D008 u = 4076" using u(2) unfolding fork_index_def by blast
  have torn: "heap_torn ?h u" unfolding heap_torn_def using z u(3-5) by blast
  have ext: "\<exists>m a cs. u = s\<lparr>mem := m, heap_at := a, phys_copies := cs\<rparr>"
  proof -
    obtain m1 a1 where e1: "s1 = s\<lparr>mem := m1, heap_at := a1\<rparr>" using s1(3) by blast
    obtain m2 a2 c2 where e2: "s2 = s1\<lparr>mem := m2, heap_at := a2, phys_copies := c2\<rparr>" using s2(8) by blast
    obtain m3 a3 c3 where e3: "u = s2\<lparr>mem := m3, heap_at := a3, phys_copies := c3\<rparr>" using u(8) by blast
    have "u = s\<lparr>mem := m3, heap_at := a3, phys_copies := c3\<rparr>" by (simp add: e1 e2 e3)
    then show ?thesis by blast
  qed
  show ?thesis
    by (rule that [OF s1(6) [rule_format] u(2) torn ct k3(1) [OF ps2(1)] k3(2) [OF ps2(2)] same ext]) (simp only: s2(1) u(1))
qed


subsection \<open>\<open>fork\<close>\<close>

definition child_task :: u32 where "child_task = 0xC0081058"

text \<open>What the memory above the first blocks of the heap holds.\<close>

lemma upper_kept:
  assumes "same_on 0xC0082000 0xC0100000 (mem s) (mem t)"
  shows "child_tables d s \<Longrightarrow> child_tables d t" and "parent_slots d s \<Longrightarrow> parent_slots d t" and "stack_mapped c s \<Longrightarrow> stack_mapped c t"
    and "heap_torn h s \<Longrightarrow> heap_at t h = heap_at s h \<Longrightarrow> heap_torn h t"
proof -
  have r: "rd a t = rd a s" if "0xC0082000 \<le> unat a" "unat a + 4 \<le> 0xC0100000" for a
    unfolding rd_def by (rule ld32_same_on [OF assms]) (use that in simp_all)
  have u: "unat (tables_at 0xC0082000 (of_nat i)) = 0xC0082000 + 4 * i" if "i < 1024" for i
    using slot_place [of "of_nat i"] that by (simp add: unat_of_nat32)
  have e: "rd (tables_at child_directory 895) t = rd (tables_at child_directory 895) s" "rd (tables_at child_directory 896) t = rd (tables_at child_directory 896) s"
    "rd (pages_at 0xC008C000 1023) t = rd (pages_at 0xC008C000 1023) s" "rd (pages_at 0xC008C000 1022) t = rd (pages_at 0xC008C000 1022) s"
    "rd (pages_at 0xC008E000 0) t = rd (pages_at 0xC008E000 0) s"
    by (rule r; simp add: tables_at_def pages_at_def unat_numeral32)+
  show "child_tables d s \<Longrightarrow> child_tables d t"
    using e by (simp add: child_tables_def r child_slot del: mult_zero_right)
  show "parent_slots d s \<Longrightarrow> parent_slots d t" by (simp add: parent_slots_def r u)
  show "stack_mapped c s \<Longrightarrow> stack_mapped c t"
    unfolding stack_mapped_def by (subst (1 2 3 4 5) r) (simp_all add: tables_at_def pages_at_def unat_numeral32)
  have "same_on 0xC008DFF4 0xC008E000 (mem s) (mem t)" by (rule same_on_mono [OF assms]) simp_all
  from hdr_same_on [OF this] have "hdr (mem s) 0xC008DFF4 False 4116 \<Longrightarrow> hdr (mem t) 0xC008DFF4 False 4116" by simp
  then show "heap_torn h s \<Longrightarrow> heap_at t h = heap_at s h \<Longrightarrow> heap_torn h t"
    by (simp add: heap_torn_def r unat_numeral32)
qed

text \<open>The index names a block that no division of the heap into blocks can have.\<close>

definition heap_lost :: "machine \<Rightarrow> bool" where
  "heap_lost s \<longleftrightarrow> heap_torn (kheap s) s \<and> start_address (heap_at s (kheap s)) = 0xC0081000
     \<and> 0xC008D008 \<in> set (elems (mem s) (index (heap_at s (kheap s)))) \<and> oa_ok (index (heap_at s (kheap s)))
     \<and> array (index (heap_at s (kheap s))) = KHEAP_START \<and> max_size (index (heap_at s (kheap s))) = HEAP_INDEX_SIZE"

lemma heap_lost:
  assumes "heap_lost s"
  shows "\<not> heap_ok (kheap s) s bs"
proof
  assume ok: "heap_ok (kheap s) s bs"
  let ?h = "kheap s"
  have L: "heap_end ?h s = 0xC0102000" "h_size 0xC008D008 s = 4076" "hdr (mem s) 0xC008DFF4 False 4116" "rd 0xC008F000 s = 0"
    "heap_start ?h s = 0xC0081000" "0xC008D008 \<in> set (elems (mem s) (index (heap_at s ?h)))"
    using assms by (simp_all add: heap_lost_def heap_torn_def unat_numeral32)
  obtain bs1 n bs2 where bs: "bs = bs1 @ (True, n) # bs2" "unat (0xC008D008 :: u32) = heap_start ?h s + bsum bs1"
    by (rule index_hole [OF ok L(6)])
  have at: "0xC0081000 + bsum bs1 = 0xC008D008" using bs(2) L(5) by (simp add: unat_numeral32)
  have c: "chain (mem s) 0xC008D008 ((True, n) # bs2)"
    using heap_okD(5) [OF ok] unfolding L(5) bs(1) chain_append at by blast
  have sum: "0xC008D008 + n + bsum bs2 = 0xC0102000"
    using heap_okD(4) [OF ok] at by (simp add: L(1,5) bs(1))
  have "of_nat n = (of_nat 4076 :: u32)" using c L(2) by (simp add: hdr_def rd_def)
  moreover have "unat (of_nat n :: u32) = n" by (rule unat_of_nat32) (use sum in simp)
  ultimately have n: "n = 4076" by simp
  then obtain hole k bs3 where b2: "bs2 = (hole, k) # bs3" using sum by (cases bs2) auto
  have h: "hdr (mem s) 0xC008DFF4 hole k" "\<not> hole \<longrightarrow> ftr (mem s) 0xC008DFF4 k" using c by (simp_all add: n b2)
  have k: "unat (of_nat k :: u32) = k" by (rule unat_of_nat32) (use sum n b2 in simp)
  have "hole_byte hole = hole_byte False" "(of_nat k :: u32) = of_nat 4116" using h(1) L(3) by (simp_all add: hdr_def)
  then have "\<not> hole" "k = 4116" using k by (auto simp: hole_byte_def split: if_splits)
  then show False using h(2) L(4) by (simp add: ftr_def rd_def HEAP_MAGIC_def)
qed

lemma heap_lost_kept:
  assumes "heap_lost s" and t: "kheap t = kheap s" "heap_at t (kheap s) = heap_at s (kheap s)"
    and m: "same_on 0xC0000000 0xC0080000 (mem s) (mem t)" "same_on 0xC0082000 0xC0100000 (mem s) (mem t)"
  shows "heap_lost t"
proof -
  let ?oa = "index (heap_at s (kheap s))"
  have L: "heap_torn (kheap s) s" "start_address (heap_at s (kheap s)) = 0xC0081000" "0xC008D008 \<in> set (elems (mem s) ?oa)"
    "oa_ok ?oa" "array ?oa = KHEAP_START" "max_size ?oa = HEAP_INDEX_SIZE"
    using assms(1) by (simp_all add: heap_lost_def)
  have "oa_lo ?oa = 0xC0000000" "oa_hi ?oa = 0xC0080000"
    using L(5,6) by (simp_all add: KHEAP_START_def HEAP_INDEX_SIZE_def unat_numeral32)
  then have "elems (mem t) ?oa = elems (mem s) ?oa" by (intro elems_same_on [OF L(4) same_on_mono [OF m(1)]]) linarith+
  moreover have "heap_torn (kheap s) t" by (rule upper_kept(4) [OF m(2) L(1) t(2)])
  ultimately show ?thesis using L t by (simp add: heap_lost_def)
qed

text \<open>The state after \<open>fork\<close>.\<close>

definition forked :: "nat \<Rightarrow> nat \<Rightarrow> machine \<Rightarrow> bool" where
  "forked d c s \<longleftrightarrow> queue_ok [0xC008102C, child_task] s \<and> current_task s = 0xC008102C \<and> current_directory s = 0xC0082000
     \<and> rd (task_directory_at child_task) s = child_directory \<and> saved child_task s = regs s \<and> iflag s
     \<and> child_tables d s \<and> parent_slots d s \<and> stack_mapped c s \<and> heap_lost s"

lemma forked_printed:
  assumes p: "printed s t"
  shows "forked d c s \<Longrightarrow> forked d c t" and "current_task s = 0xC008102C \<Longrightarrow> getpid t = getpid s"
    and "rd (task_id_at child_task) t = rd (task_id_at child_task) s"
proof -
  have st: "screen_step s t" using p by (simp add: printed_def)
  note S = screen_step_simps [OF st] and R = printed_kept [OF p]
  have o: "only_in 0xB8000 0xBA000 (mem s) (mem t)" using p by (simp add: printed_def)
  have up: "same_on 0xC0000000 0xC0102000 (mem s) (mem t)" by (rule only_in_same_on [OF o]) simp
  note U = upper_kept [OF same_on_mono [OF up]]
  show "rd (task_id_at child_task) t = rd (task_id_at child_task) s"
    by (rule R) (simp_all add: task_id_at_def child_task_def unat_numeral32)
  show "current_task s = 0xC008102C \<Longrightarrow> getpid t = getpid s"
    using S R [of "task_id_at 0xC008102C"] by (simp add: getpid_def task_id_at_def unat_numeral32)
  assume f: "forked d c s"
  note F = f [unfolded forked_def]
  have q: "queue_ok [0xC008102C, child_task] s" using F by blast
  have "queue_linked [0xC008102C, child_task] (mem t)"
  proof (rule queue_linked_same [where m = "mem s"])
    show "\<forall>p \<in> set [0xC008102C, child_task]. task_place p \<and> task_same p (mem s) (mem t)"
      using q task_same_screen [OF o] unfolding queue_ok_def by blast
  qed (use q in \<open>simp add: queue_ok_def\<close>)
  then have "queue_ok [0xC008102C, child_task] t" by (intro queue_ok_keep [OF q]) (simp_all add: S)
  moreover have "rd (task_directory_at child_task) t = rd (task_directory_at child_task) s"
    by (rule R) (simp_all add: task_directory_at_def child_task_def unat_numeral32)
  moreover have "saved child_task t = saved child_task s"
    using q by (intro saved_same task_same_screen [OF o]) (simp_all add: queue_ok_def)
  moreover have "child_tables d t" "parent_slots d t" "stack_mapped c t" using U F by simp_all
  moreover have "heap_lost t"
    by (rule heap_lost_kept [of s]) (use F S(10,11) same_on_mono [OF up] in simp_all)
  ultimately show "forked d c t" using F S by (simp add: forked_def regs_def)
qed


lemma fork_from:
  assumes a: "at_fork p d c s" and c: "0 < c" "c + 2 < 1024"
  obtains u where "fork (Suc (Suc n)) s = Inr (next_pid s, u)" and "forked d c u" and "rd (task_id_at child_task) u = next_pid s"
    and "getpid u = getpid s" and "next_pid u = next_pid s + 1" and "regs u = regs s" and "cursor_in 2080 u"
proof -
  let ?h = "page_word (d + 6)"
  note A = a [unfolded at_fork_def]
  have k: "kernel_up p d (c + 3) tasked_blocks s" and q: "queue_ok [0xC008102C] s" and cur: "current_task s = 0xC008102C" "current_directory s = 0xC0082000"
    using A by blast+
  note K = kernel_upD [OF k]
  have k0: "kernel_up p d (c + 3) tasked_blocks (cli s)" by (rule kernel_up_same [OF k]) (simp_all add: cli_def same_on_def)
  have low: "parent_slots d (cli s)" "stack_mapped c (cli s)"
    using A by (simp_all add: parent_slots_def stack_mapped_def cli_def rd_def)
  obtain v xs where v: "clone_directory (kmalloc_ap (Suc (Suc n))) 0xC0082000 (cli s) = Inr (child_directory, v)"
    "fork_index xs 4076 ?h v" "heap_torn ?h v" "child_tables d v" "parent_slots d v" "stack_mapped c v"
    "same_on 0xC0080000 0xC0088008 (mem (cli s)) (mem v)" "\<exists>m a cs. v = (cli s)\<lparr>mem := m, heap_at := a, phys_copies := cs\<rparr>"
    by (rule fork_clones [OF k0 low c])
  obtain m1 a1 cs where e1: "v = (cli s)\<lparr>mem := m1, heap_at := a1, phys_copies := cs\<rparr>" using v(8) by blast
  have hp: "0xC0100000 \<le> heap_end ?h v" "?h \<noteq> 0" using v(3) K(3) by (simp_all add: heap_torn_def page_word_nonzero)
  obtain w where w: "kmalloc (Suc (Suc n)) sizeof_task v = Inr (0xC0081058, w)" "\<exists>m a. w = v\<lparr>mem := m, heap_at := a\<rparr>"
    "0xC008D008 \<in> set (elems (mem w) (index (heap_at w ?h)))" "start_address (heap_at w ?h) = 0xC0081000" "heap_end ?h w = heap_end ?h v"
    "oa_ok (index (heap_at w ?h))" "array (index (heap_at w ?h)) = KHEAP_START" "max_size (index (heap_at w ?h)) = HEAP_INDEX_SIZE"
    "\<forall>x. (unat x < 0xC0000000 \<or> 0xC0080000 \<le> unat x) \<longrightarrow> (unat x < 0xC008104C \<or> 0xC0081FF4 \<le> unat x) \<longrightarrow> mem w x = mem v x"
    by (rule fork_task_block [OF v(2) hp, of "Suc n"])
  obtain m2 a2 where e2: "w = v\<lparr>mem := m2, heap_at := a2\<rparr>" using w(2) by blast
  have sw: "same_on 0xC0080000 0xC008104C (mem s) (mem w)"
    using v(7) w(9) by (simp add: same_on_def cli_def)
  have tp: "task_place 0xC008102C" using q by (simp add: queue_ok_def)
  have ts: "task_same 0xC008102C (mem s) (mem w)"
    unfolding task_same_def by (rule same_on_mono [OF sw]) (simp_all add: unat_numeral32)
  have qw: "queue_ok [0xC008102C] w"
  proof (rule queue_ok_keep [OF q])
    show "queue_linked [0xC008102C] (mem w)"
      by (rule queue_linked_same [where m = "mem s"]) (use q tp ts in \<open>simp_all add: queue_ok_def\<close>)
  qed (simp add: e2 e1 cli_def)
  have run: "clone_directory (kmalloc_ap (Suc (Suc n))) (current_directory s) (cli s) = Inr (child_directory, v)"
    unfolding cur(2) by (rule v(1))
  have qs: "current_task s \<in> set [0xC008102C]" "current_task w = current_task s" "task_place 0xC0081058"
    "\<forall>p \<in> set [0xC008102C]. task_apart p 0xC0081058"
    by (simp_all add: cur e2 e1 cli_def task_place_def task_apart_def unat_numeral32)
  from fork_runs [OF run w(1) qw qs] obtain u where u: "fork (Suc (Suc n)) s = Inr (next_pid w, u)" "queue_ok [0xC008102C, child_task] u"
    "current_task u = current_task s" "next_pid u = next_pid w + 1" "rd (task_id_at child_task) u = next_pid w"
    "rd (task_directory_at child_task) u = child_directory" "saved child_task u = regs w" "iflag u"
    "u = w\<lparr>mem := mem u, next_pid := next_pid w + 1, iflag := True\<rparr>"
    "\<forall>x. (unat x < unat child_task \<or> unat child_task + 24 \<le> unat x) \<longrightarrow> (unat x < unat (0xC008102C :: u32) + 20 \<or> unat (0xC008102C :: u32) + 24 \<le> unat x)
        \<longrightarrow> mem u x = mem w x"
    unfolding child_task_def append.simps last.simps if_P [OF refl] by (elim exE conjE) (rule that [unfolded child_task_def])
  have out: "mem u x = mem w x" if "unat x < 0xC0081040 \<or> 0xC0081070 \<le> unat x" for x
    by (rule u(10) [rule_format]) (use that in \<open>auto simp: child_task_def unat_numeral32\<close>)
  have "same_on 0xC0082000 0xC0100000 (mem v) (mem u)" using out w(9) by (simp add: same_on_def)
  note U = upper_kept [OF this]
  obtain m3 where e3: "u = w\<lparr>mem := m3, next_pid := next_pid w + 1, iflag := True\<rparr>" using u(9) by blast
  have f: "kheap u = ?h" "heap_at u = a2" "regs u = regs s" "regs w = regs s" "current_directory u = current_directory s"
    "next_pid w = next_pid s" "stdout_putf u = stdout_putf s" "cursorPosition u = cursorPosition s"
    using v(2) by (simp_all add: e3 e2 e1 cli_def regs_def fork_index_def)
  have "heap_torn ?h w"
  proof (rule upper_kept(4))
    show "heap_torn ?h (v\<lparr>heap_at := a2\<rparr>)" using v(3) w(5) by (simp add: heap_torn_def e2 rd_def)
  qed (use w(9) in \<open>simp_all add: same_on_def e2\<close>)
  then have "heap_lost w" using w(3,4,6-8) v(2) by (simp add: heap_lost_def fork_index_def e2)
  then have "heap_lost u" by (rule heap_lost_kept) (use out in \<open>simp_all add: same_on_def e3\<close>)
  then have "forked d c u"
    using u(2,3,6,7,8) U(1-3) v(4-6) f(3-5) cur by (simp add: forked_def)
  moreover have "getpid u = getpid s"
  proof -
    have "rd (task_id_at 0xC008102C) u = rd (task_id_at 0xC008102C) w" by (rule rd_same) (use out in \<open>simp_all add: task_id_at_def unat_numeral32\<close>)
    also have "\<dots> = rd (task_id_at 0xC008102C) s" using task_same_fields(1) [OF tp ts] by (simp add: rd_def)
    finally show ?thesis using u(3) cur by (simp add: getpid_def)
  qed
  moreover have "cursor_in 2080 u" using A f by (simp add: cursor_in_def)
  moreover have "fork (Suc (Suc n)) s = Inr (next_pid s, u)" "rd (task_id_at child_task) u = next_pid s" "next_pid u = next_pid s + 1"
    using u(1,4,5) by (simp_all only: f(6))
  ultimately show ?thesis using that f(3) by blast
qed


text \<open>\<open>kmain\<close> prints what \<open>fork\<close> and \<open>getpid\<close> return.\<close>

lemma report_fork_from:
  assumes a: "at_fork p d c s" and c: "0 < c" "c + 2 < 1024"
  obtains u where "report_fork (Suc (Suc n)) s = Inr ((), u)" and "forked d c u" and "rd (task_id_at child_task) u = next_pid s"
    and "getpid u = getpid s" and "regs u = regs s" and "cursor_in 2080 u"
proof -
  obtain s1 where s1: "fork (Suc (Suc n)) s = Inr (next_pid s, s1)" "forked d c s1" "rd (task_id_at child_task) s1 = next_pid s"
    "getpid s1 = getpid s" "next_pid s1 = next_pid s + 1" "regs s1 = regs s" "cursor_in 2080 s1"
    by (rule fork_from [OF a c])
  obtain s2 where s2: "say ''fork() returned %x, '' [VInt (next_pid s)] s1 = Inr ((), s2)" "printed s1 s2" "cursor_in 2120 s2"
    by (rule say_hex [OF s1(7), of "''fork() returned %x, ''" "cstr ''fork() returned ''" "cstr '', ''" "next_pid s"])
      (simp_all add: cstr_def plain_def)
  obtain s3 where s3: "sayln ''and getpid() returned %x '' [VInt (getpid s2)] s2 = Inr ((), s3)" "printed s2 s3" "cursor_in 2080 s3"
    by (rule sayln_hex [OF s2(3), of "''and getpid() returned %x ''" "cstr ''and getpid() returned ''" "cstr '' ''" "getpid s2"])
      (simp_all add: cstr_def plain_def)
  let ?note = "''Note: errors begin to occur when switch_task() is called. Debugging in process.''"
  obtain u where u: "sayln ?note [] s3 = Inr ((), u)" "printed s3 u" "cursor_in 2080 u"
    by (rule sayln_text [OF s3(3), of ?note "[]" "cstr ?note"])
      (simp_all add: cstr_def plain_def format_out_def)
  note F = forked_printed [OF s2(2)] forked_printed [OF s3(2)] forked_printed [OF u(2)]
  have f: "forked d c s2" "forked d c s3" "forked d c u" using F(1,4,7) s1(2) by simp_all
  have cur: "current_task s1 = 0xC008102C" "current_task s2 = 0xC008102C" "current_task s3 = 0xC008102C"
    using s1(2) f by (simp_all add: forked_def)
  have "regs u = regs s1"
    using screen_step_simps(18-20) [of s1 s2] screen_step_simps(18-20) [of s2 s3] screen_step_simps(18-20) [of s3 u] s2(2) s3(2) u(2)
    by (simp add: printed_def regs_def)
  moreover have "report_fork (Suc (Suc n)) s = Inr ((), u)"
    using s1(1) s2(1) s3(1) u(1) by (simp add: report_fork_def seq_def gets_def)
  ultimately show ?thesis
    using that [of u] f(3) F cur s1(3,4,6) u(3) by simp
qed


subsection \<open>From power on to the program\<close>

lemma kmain_past_fork:
  assumes "always_ready_again s" and "unat (cursorPosition s) \<le> 2080" and "kheap s = 0" and "one_module ebx m s"
    and e: "e = unat (rd (mod_end_at m) s) + 8" "0xC0000 \<le> e" "e mod 4096 + 512 \<le> 4096" "e < 0x2F6000"
    and "rd 0xC0080FF8 s \<noteq> HEAP_MAGIC"
    and st: "unat initial_stack = unat (esp s) + 4 * l" "l < 2048" "unat initial_stack \<le> e"
  obtains t u where "kmain img (Suc (Suc n)) ebx initial_stack s = seq (report_fork (Suc (Suc n))) (\<lambda>_. start_module img (rd (mod_start_at m) s)) t"
    and "at_fork (of_nat e) (e div 4096 + 1) (e div 4096 + 264) t" and "report_fork (Suc (Suc n)) t = Inr ((), u)"
    and "forked (e div 4096 + 1) (e div 4096 + 264) u" and "getpid u = next_pid s" and "rd (task_id_at child_task) u = next_pid s + 1"
    and "esp u = esp s + (0xE0000000 - initial_stack)" and "cursor_in 2080 u" and "eip u = eip s"
proof -
  obtain t where t: "kmain img (Suc (Suc n)) ebx initial_stack s = seq (report_fork (Suc (Suc n))) (\<lambda>_. start_module img (rd (mod_start_at m) s)) t"
    "at_fork (of_nat e) (e div 4096 + 1) (e div 4096 + 264) t" "esp t = esp s + (0xE0000000 - initial_stack)"
    "getpid t = next_pid s" "next_pid t = next_pid s + 1" "eip t = eip s"
    by (rule kmain_to_fork [OF assms, of img "Suc n"])
  have c: "0 < e div 4096 + 264" "e div 4096 + 264 + 2 < 1024" using e(4) by linarith+
  obtain u where u: "report_fork (Suc (Suc n)) t = Inr ((), u)" "forked (e div 4096 + 1) (e div 4096 + 264) u"
    "rd (task_id_at child_task) u = next_pid t" "getpid u = getpid t" "regs u = regs t" "cursor_in 2080 u"
    by (rule report_fork_from [OF t(2) c])
  have "esp u = esp t" "eip u = eip t" using u(5) by (simp_all add: regs_def)
  then show ?thesis using that [OF t(1,2) u(1,2)] u(3,4,6) t(3-6) by simp
qed

text \<open>
  C4: A boot with one module, through \<open>fork\<close> to the call of the program: under the conditions of
  \<open>kmain_reaches_fork\<close>, \<open>fork\<close> clones the page directory and makes the child without an error, its result and the
  running task's id are printed, and \<open>kmain\<close> goes on with the call of the module at its start address plus one. The
  ready queue then holds the running task, which is still the current one, and behind it the child, which has the next
  id, the running task's registers and the directory at \<open>0xC0089000\<close>. In that directory every slot is the running
  directory's but those of the two tables the stack is mapped in: the child has new tables there, and the entries of the
  stack's three pages, present in the parent, are empty in the child, so that the saved stack pointer of the child
  points at memory that is not there.
\<close>

theorem kmain_starts_program:
  assumes "always_ready_again s" and "unat (cursorPosition s) \<le> 2080" and "kheap s = 0" and "one_module ebx m s"
    and e: "e = unat (rd (mod_end_at m) s) + 8" "0xC0000 \<le> e" "e mod 4096 + 512 \<le> 4096" "e < 0x2F6000"
    and "rd 0xC0080FF8 s \<noteq> HEAP_MAGIC"
    and st: "unat initial_stack = unat (esp s) + 4 * l" "l < 2048" "unat initial_stack \<le> e"
  shows "\<exists>u. kmain img (Suc (Suc n)) ebx initial_stack s = seq (run_module img (rd (mod_start_at m) s + 1)) (\<lambda>_. sayln ''program ran '' []) u
    \<and> queue_ok [0xC008102C, child_task] u \<and> current_task u = 0xC008102C \<and> getpid u = next_pid s \<and> iflag u
    \<and> esp u = esp s + (0xE0000000 - initial_stack)
    \<and> rd (task_id_at child_task) u = next_pid s + 1 \<and> saved child_task u = regs u \<and> rd (task_directory_at child_task) u = 0xC0089000
    \<and> (\<forall>i < 1024. i \<noteq> 895 \<longrightarrow> i \<noteq> 896 \<longrightarrow> rd (tables_at 0xC0089000 (of_nat i)) u = rd (tables_at 0xC0082000 (of_nat i)) u)
    \<and> stack_mapped (e div 4096 + 264) u
    \<and> rd (tables_at 0xC0089000 895) u = 0xC008C000 \<and> rd (tables_at 0xC0089000 896) u = 0xC008E000
    \<and> rd (pages_at 0xC008C000 1023) u = 0 \<and> rd (pages_at 0xC008C000 1022) u = 0 \<and> rd (pages_at 0xC008E000 0) u = 0"
proof -
  obtain t u where u: "kmain img (Suc (Suc n)) ebx initial_stack s = seq (report_fork (Suc (Suc n))) (\<lambda>_. start_module img (rd (mod_start_at m) s)) t"
    "report_fork (Suc (Suc n)) t = Inr ((), u)"
    "forked (e div 4096 + 1) (e div 4096 + 264) u" "getpid u = next_pid s" "rd (task_id_at child_task) u = next_pid s + 1"
    "esp u = esp s + (0xE0000000 - initial_stack)" "cursor_in 2080 u"
    by (rule kmain_past_fork [OF assms, of img n])
  obtain v where v: "sayln ''about to start program '' [] u = Inr ((), v)" "printed u v" "cursor_in 2080 v"
    by (rule sayln_text [OF u(7), of "''about to start program ''" "[]" "cstr ''about to start program ''"])
      (simp_all add: cstr_def plain_def format_out_def)
  have f: "forked (e div 4096 + 1) (e div 4096 + 264) v" by (rule forked_printed(1) [OF v(2) u(3)])
  have slots: "rd (tables_at 0xC0089000 (of_nat i)) v = rd (tables_at 0xC0082000 (of_nat i)) v" if i: "i < 1024" "i \<noteq> 895" "i \<noteq> 896" for i
  proof -
    have n: "unat (of_nat i :: u32) = i" using i(1) by (intro unat_of_nat32) simp
    then have "(of_nat i :: u32) \<noteq> 895" "(of_nat i :: u32) \<noteq> 896" using i by (auto simp: unat_numeral32)
    then show ?thesis using f i n by (simp add: forked_def child_tables_def parent_slots_def)
  qed
  have "kmain img (Suc (Suc n)) ebx initial_stack s = seq (run_module img (rd (mod_start_at m) s + 1)) (\<lambda>_. sayln ''program ran '' []) v"
    using u(1,2) v(1) by (simp add: start_module_def seq_def)
  moreover have "esp v = esp u" "getpid v = getpid u" "rd (task_id_at child_task) v = rd (task_id_at child_task) u"
    using forked_printed(2,3) [OF v(2)] screen_step_simps(18) [of u v] v(2) u(3) by (simp_all add: forked_def printed_def)
  ultimately show ?thesis
    using f slots u(4-6) by (intro exI [of _ v]) (simp add: forked_def child_tables_def)
qed


text \<open>The boot of \<open>kmain_reaches_fork_witness\<close>.\<close>

definition example_image :: image where
  "example_image = \<lparr>gdt_address = 0x1000, idt_address = 0x2000, stub_address = (\<lambda>k. of_nat k), idt_init_address = 0x3000,
     run_module = (\<lambda>_. ret ())\<rparr>"

definition loaded :: machine where
  "loaded = (power_on loaded_memory (\<lambda>_ _. 0x60))\<lparr>esp := 0x8FF0\<rparr>"

lemma loaded_ready:
  "always_ready_again loaded" "unat (cursorPosition loaded) \<le> 2080" "kheap loaded = 0" "one_module 0x10000 0x11000 loaded"
  "0x1101F8 + 8 = unat (rd (mod_end_at 0x11000) loaded) + 8" "rd 0xC0080FF8 loaded \<noteq> HEAP_MAGIC"
  "unat (0x9000 :: u32) = unat (esp loaded) + 4 * 4"
  "rd (mod_start_at 0x11000) loaded = 0x110000" "esp loaded = 0x8FF0" "next_pid loaded = 1"
  by (simp_all add: loaded_def always_ready_again_def power_on_def one_module_def rd_def mb_mods_count_at_def mb_mods_addr_at_def
      mod_end_at_def mod_start_at_def loaded_memory unat_numeral32 HEAP_MAGIC_def)

theorem kmain_starts_program_witness:
  "\<exists>u. kmain example_image 2 0x10000 0x9000 loaded = seq (run_module example_image 0x110001) (\<lambda>_. sayln ''program ran '' []) u
    \<and> queue_ok [0xC008102C, child_task] u \<and> getpid u = 1 \<and> rd (task_id_at child_task) u = 2
    \<and> esp u = 0xDFFFFFF0 \<and> saved child_task u = regs u \<and> rd (pages_at 0xC008C000 1023) u = 0"
proof -
  have "\<exists>u. kmain example_image (Suc (Suc 0)) 0x10000 0x9000 loaded = seq (run_module example_image (rd (mod_start_at 0x11000) loaded + 1)) (\<lambda>_. sayln ''program ran '' []) u
    \<and> queue_ok [0xC008102C, child_task] u \<and> getpid u = next_pid loaded \<and> rd (task_id_at child_task) u = next_pid loaded + 1
    \<and> esp u = esp loaded + (0xE0000000 - 0x9000) \<and> saved child_task u = regs u \<and> rd (pages_at 0xC008C000 1023) u = 0"
    using kmain_starts_program [OF loaded_ready(1-5) _ _ _ loaded_ready(6,7), of example_image 0] by auto
  then show ?thesis unfolding loaded_ready(8-10) numeral_2_eq_2 by simp
qed

text \<open>
  C5: The first \<open>fork\<close> destroys the kernel heap: when \<open>fork\<close> is called the heap is the list of blocks
  \<open>tasked_blocks\<close>, with its index in order; when its results have been printed there is no list of blocks at all that
  the heap could be. The blanking of a page directory's size in \<open>clone_table\<close> clears the header of the last hole,
  the request for the second table finds no hole and lets the heap grow, which makes that hole of size nothing two pages
  long, and the blanking behind the second table clears the footer of the table's own block: the header of an allocated
  block of 4116 bytes is left whose footer is zero, below the new end of the heap.
\<close>

theorem fork_destroys_heap:
  assumes "always_ready_again s" and "unat (cursorPosition s) \<le> 2080" and "kheap s = 0" and "one_module ebx m s"
    and e: "e = unat (rd (mod_end_at m) s) + 8" "0xC0000 \<le> e" "e mod 4096 + 512 \<le> 4096" "e < 0x2F6000"
    and "rd 0xC0080FF8 s \<noteq> HEAP_MAGIC"
    and st: "unat initial_stack = unat (esp s) + 4 * l" "l < 2048" "unat initial_stack \<le> e"
  shows "\<exists>t u. kmain img (Suc (Suc n)) ebx initial_stack s = seq (report_fork (Suc (Suc n))) (\<lambda>_. start_module img (rd (mod_start_at m) s)) t
    \<and> heap_ok (kheap t) t tasked_blocks \<and> index_sorted (kheap t) t
    \<and> report_fork (Suc (Suc n)) t = Inr ((), u) \<and> (\<forall>bs. \<not> heap_ok (kheap u) u bs)
    \<and> heap_end (kheap u) u = 0xC0102000 \<and> hdr (mem u) 0xC008DFF4 False 4116 \<and> rd 0xC008F000 u = 0"
proof -
  obtain t u where u: "kmain img (Suc (Suc n)) ebx initial_stack s = seq (report_fork (Suc (Suc n))) (\<lambda>_. start_module img (rd (mod_start_at m) s)) t"
    "at_fork (of_nat e) (e div 4096 + 1) (e div 4096 + 264) t" "report_fork (Suc (Suc n)) t = Inr ((), u)"
    "forked (e div 4096 + 1) (e div 4096 + 264) u"
    by (rule kmain_past_fork [OF assms, of img n])
  have "kernel_up (of_nat e) (e div 4096 + 1) (e div 4096 + 264 + 3) tasked_blocks t" using u(2) by (simp add: at_fork_def)
  from kernel_upD(4) [OF this] have "heap_ok (kheap t) t tasked_blocks" "index_sorted (kheap t) t" by (auto simp: kernel_heap_def)
  moreover have l: "heap_lost u" using u(4) by (simp add: forked_def)
  then have "heap_end (kheap u) u = 0xC0102000" "hdr (mem u) 0xC008DFF4 False 4116" "rd 0xC008F000 u = 0"
    by (simp_all add: heap_lost_def heap_torn_def)
  ultimately show ?thesis using u(1,3) heap_lost [OF l] by blast
qed

theorem fork_destroys_heap_witness:
  "\<exists>t u. kmain example_image 2 0x10000 0x9000 loaded = seq (report_fork 2) (\<lambda>_. start_module example_image 0x110000) t
    \<and> heap_ok (kheap t) t tasked_blocks \<and> report_fork 2 t = Inr ((), u) \<and> (\<forall>bs. \<not> heap_ok (kheap u) u bs)"
proof -
  have "\<exists>t u. kmain example_image (Suc (Suc 0)) 0x10000 0x9000 loaded = seq (report_fork (Suc (Suc 0))) (\<lambda>_. start_module example_image (rd (mod_start_at 0x11000) loaded)) t
    \<and> heap_ok (kheap t) t tasked_blocks \<and> report_fork (Suc (Suc 0)) t = Inr ((), u) \<and> (\<forall>bs. \<not> heap_ok (kheap u) u bs)"
    using fork_destroys_heap [OF loaded_ready(1-5) _ _ _ loaded_ready(6,7), of example_image 0] by auto
  then show ?thesis unfolding loaded_ready(8) numeral_2_eq_2 .
qed

subsection \<open>The first switch\<close>

lemma stack_address:
  assumes "unat a = 0xE0000000 - 4 * l" and "l < 2048"
  obtains "table_index a = 896" "page_index a = 0" | "table_index a = 895" "page_index a = 1023" | "table_index a = 895" "page_index a = 1022"
proof -
  have "unat (a div 0x1000) = unat a div 0x1000" by (simp add: unat_div unat_numeral32)
  moreover consider "l = 0" | "1 \<le> l" "l \<le> 1024" | "1024 < l" by linarith
  then have "unat a div 0x1000 \<in> {0xE0000, 0xDFFFF, 0xDFFFE}"
  proof cases
    case 2
    have "unat a div 0x1000 = 0xDFFFF" by (rule div_nat_eqI) (use assms 2 in simp_all)
    then show ?thesis by simp
  next
    case 3
    have "unat a div 0x1000 = 0xDFFFE" by (rule div_nat_eqI) (use assms 3 in simp_all)
    then show ?thesis by simp
  qed (simp add: assms(1))
  ultimately have "unat (a div 0x1000) = unat (0xE0000 :: u32) \<or> unat (a div 0x1000) = unat (0xDFFFF :: u32) \<or> unat (a div 0x1000) = unat (0xDFFFE :: u32)"
    by (simp add: unat_numeral32)
  then have "a div 0x1000 = 0xE0000 \<or> a div 0x1000 = 0xDFFFF \<or> a div 0x1000 = 0xDFFFE" using unat_eqI32 by blast
  then show ?thesis
  proof (elim disjE)
    assume "a div 0x1000 = 0xE0000"
    then show ?thesis by (intro that(1)) (simp_all add: table_index_def page_index_def)
  next
    assume "a div 0x1000 = 0xDFFFF"
    then show ?thesis by (intro that(2)) (simp_all add: table_index_def page_index_def)
  next
    assume "a div 0x1000 = 0xDFFFE"
    then show ?thesis by (intro that(3)) (simp_all add: table_index_def page_index_def)
  qed
qed

text \<open>The page of an address in the stack, looked up in the parent's directory and in the child's.\<close>

lemma stack_lookup:
  assumes f: "child_tables d s" "stack_mapped c s" and c: "0 < c" "c + 2 < 1024" and a: "unat a = 0xE0000000 - 4 * l" "l < 2048"
  shows "\<exists>page. get_page kap a mk 0xC0082000 s = Inr (page, s) \<and> page_frame (rd page s) \<noteq> 0"
    and "\<exists>page. get_page kap a mk 0xC0089000 s = Inr (page, s) \<and> rd page s = 0"
proof -
  note sf = stack_frames [OF f(2) c]
  have t: "rd (tables_at 0xC0082000 896) s = 0xC0085000" "rd (tables_at 0xC0082000 895) s = 0xC0087000"
    "rd (tables_at 0xC0089000 896) s = 0xC008E000" "rd (tables_at 0xC0089000 895) s = 0xC008C000"
    "rd (pages_at 0xC008C000 1023) s = 0" "rd (pages_at 0xC008C000 1022) s = 0" "rd (pages_at 0xC008E000 0) s = 0"
    using f by (simp_all add: child_tables_def stack_mapped_def)
  show "\<exists>page. get_page kap a mk 0xC0082000 s = Inr (page, s) \<and> page_frame (rd page s) \<noteq> 0"
    by (rule stack_address [OF a]) (use t(1,2) sf in \<open>simp_all add: get_page_present\<close>)
  show "\<exists>page. get_page kap a mk 0xC0089000 s = Inr (page, s) \<and> rd page s = 0"
    by (rule stack_address [OF a]) (use t(3-7) in \<open>simp_all add: get_page_present\<close>)
qed

text \<open>
  C6: The first \<open>switch_task\<close> goes wrong: called where \<open>kmain\<close> has its call commented out, behind the first
  \<open>fork\<close> of a boot with one module, it resumes the child in the child's directory, at the address and with the stack
  pointer that \<open>fork\<close> saved. The page of that stack pointer has a frame in the parent's directory, and an empty entry in
  the child's, which is the one the processor uses: the first access to the stack faults. (\<open>get_page\<close> finds the
  table in both cases, whatever its allocator does.)
\<close>

theorem first_switch_faults:
  assumes "always_ready_again s" and "unat (cursorPosition s) \<le> 2080" and "kheap s = 0" and "one_module ebx m s"
    and e: "e = unat (rd (mod_end_at m) s) + 8" "0xC0000 \<le> e" "e mod 4096 + 512 \<le> 4096" "e < 0x2F6000"
    and "rd 0xC0080FF8 s \<noteq> HEAP_MAGIC"
    and st: "unat initial_stack = unat (esp s) + 4 * l" "l < 2048" "unat initial_stack \<le> e" and ip: "eip s \<noteq> 0x12345"
  shows "\<exists>u v. kmain img (Suc (Suc n)) ebx initial_stack s = start_module img (rd (mod_start_at m) s) u
    \<and> current_task u = 0xC008102C \<and> current_directory u = 0xC0082000
    \<and> switch_task u = Inr (Jumped, v) \<and> current_task v = child_task \<and> current_directory v = 0xC0089000
    \<and> esp v = esp s + (0xE0000000 - initial_stack) \<and> eip v = eip s
    \<and> (\<exists>page. get_page kap (esp v) mk 0xC0082000 v = Inr (page, v) \<and> page_frame (rd page v) \<noteq> 0)
    \<and> (\<exists>page. get_page kap (esp v) mk (current_directory v) v = Inr (page, v) \<and> rd page v = 0)"
proof -
  obtain t u where u: "kmain img (Suc (Suc n)) ebx initial_stack s = seq (report_fork (Suc (Suc n))) (\<lambda>_. start_module img (rd (mod_start_at m) s)) t"
    "report_fork (Suc (Suc n)) t = Inr ((), u)"
    "forked (e div 4096 + 1) (e div 4096 + 264) u" "esp u = esp s + (0xE0000000 - initial_stack)" "cursor_in 2080 u" "eip u = eip s"
    by (rule kmain_past_fork [OF assms(1-12), of img n])
  note F = u(3) [unfolded forked_def]
  have q: "queue_ok [0xC008102C, child_task] u" "0 < length [0xC008102C, child_task]" "current_task u = [0xC008102C, child_task] ! 0"
    "console_ok u" "eip u \<noteq> 0x12345"
    using F u(5,6) ip by (simp_all add: cursor_console)
  obtain v where v: "switch_task u = Inr (Jumped, v)" "current_task v = [0xC008102C, child_task] ! next_index [0xC008102C, child_task] 0"
    "\<forall>j < length [0xC008102C, child_task]. j \<noteq> 0 \<longrightarrow> saved ([0xC008102C, child_task] ! j) v = saved ([0xC008102C, child_task] ! j) u"
    "regs v = saved ([0xC008102C, child_task] ! next_index [0xC008102C, child_task] 0) v"
    "current_directory v = rd (task_directory_at ([0xC008102C, child_task] ! next_index [0xC008102C, child_task] 0)) u"
    "\<exists>m. only_in (unat ([0xC008102C, child_task] ! 0) + 4) (unat ([0xC008102C, child_task] ! 0) + 16) (mem u) m \<and> only_in 0xB8000 0xBA000 m (mem v)"
    by (rule switch_task_runs [OF q])
  have n: "next_index [0xC008102C, child_task] 0 = 1" by (simp add: next_index_def)
  have r: "regs v = regs u" using v(3) [rule_format, of 1] v(4) F unfolding n by simp
  have same: "same_on 0xC0082000 0xC0100000 (mem u) (mem v)" using v(6) by (auto simp: same_on_def only_in_def unat_numeral32)
  have tb: "child_tables (e div 4096 + 1) v" "stack_mapped (e div 4096 + 264) v" using upper_kept(1,3) [OF same] F by blast+
  have ev: "esp v = esp s + (0xE0000000 - initial_stack)" "eip v = eip s" using r u(4,6) by (simp_all add: regs_def)
  have off: "unat (initial_stack - esp s) = 4 * l" using st(1) by (simp add: unat_sub32)
  have "esp v = 0xE0000000 - (initial_stack - esp s)" unfolding ev(1) by simp
  then have a: "unat (esp v) = 0xE0000000 - 4 * l" using off st(2) by (simp add: unat_sub32 unat_numeral32)
  have c: "0 < e div 4096 + 264" "e div 4096 + 264 + 2 < 1024" using e(4) by linarith+
  note look = stack_lookup [OF tb c a st(2), of kap mk]
  have dir: "current_directory v = 0xC0089000" using v(5) F unfolding n by simp
  have "kmain img (Suc (Suc n)) ebx initial_stack s = start_module img (rd (mod_start_at m) s) u"
    using u(1,2) by (simp add: seq_def)
  moreover have "current_task v = child_task" using v(2) unfolding n by simp
  ultimately show ?thesis
    using F v(1) ev look by (intro exI [of _ u] exI [of _ v] conjI) (simp_all only: dir)
qed

theorem first_switch_faults_witness:
  "\<exists>u v. kmain example_image 2 0x10000 0x9000 loaded = start_module example_image 0x110000 u \<and> switch_task u = Inr (Jumped, v)
    \<and> current_task v = child_task \<and> esp v = 0xDFFFFFF0
    \<and> (\<exists>page. get_page (kmalloc_ap 1) 0xDFFFFFF0 False 0xC0089000 v = Inr (page, v) \<and> rd page v = 0)"
proof -
  have ip: "eip loaded \<noteq> 0x12345" by (simp add: loaded_def power_on_def)
  have "\<exists>u v. kmain example_image (Suc (Suc 0)) 0x10000 0x9000 loaded = start_module example_image (rd (mod_start_at 0x11000) loaded) u
    \<and> switch_task u = Inr (Jumped, v) \<and> current_task v = child_task \<and> current_directory v = 0xC0089000
    \<and> esp v = esp loaded + (0xE0000000 - 0x9000)
    \<and> (\<exists>page. get_page (kmalloc_ap 1) (esp v) False (current_directory v) v = Inr (page, v) \<and> rd page v = 0)"
    using first_switch_faults [OF loaded_ready(1-5) _ _ _ loaded_ready(6,7) _ _ ip, of example_image 0 "kmalloc_ap 1" False] by auto
  then show ?thesis unfolding loaded_ready(8,9) numeral_2_eq_2 by auto
qed

end
