(* ===== verification/Fs.thy ===== *)
theory Fs
  imports Tasks
begin

text \<open>
  \<open>fs.c\<close>: the virtual file system. Its operations look at the function pointers of a node
  and call through them; what stands behind the pointers is an argument.
\<close>

unbundle bit_operations_syntax

subsection \<open>State\<close>

text \<open>
  The globals of \<open>fs.c\<close> and \<open>initrd.c\<close>, with the kernel's state as they see it. \<open>dirent\<close> is the
  address of the static \<open>struct dirent\<close>; \<open>str_dev\<close> and \<open>str_initrd\<close> are where the linker put
  the string literals, and the \<open>fn_\<close> fields the addresses of the functions stored in nodes.
\<close>

record vfs =
  kernel :: machine
  fs_root :: u32
  initrd_header :: u32
  file_headers :: u32
  initrd_root :: u32
  initrd_dev :: u32
  root_nodes :: u32
  nroot_nodes :: u32
  dirent :: u32
  str_dev :: u32
  str_initrd :: u32
  fn_read :: u32
  fn_readdir :: u32
  fn_finddir :: u32

abbreviation vmem :: "vfs \<Rightarrow> memory" where
  "vmem s \<equiv> mem (kernel s)"

definition vld :: "u32 \<Rightarrow> vfs \<Rightarrow> u32" where
  "vld a s = ld32 (vmem s) a"

definition set_vmem :: "memory \<Rightarrow> vfs \<Rightarrow> vfs" where
  "set_vmem m s = s\<lparr>kernel := (kernel s)\<lparr>mem := m\<rparr>\<rparr>"

definition vst :: "u32 \<Rightarrow> u32 \<Rightarrow> vfs \<Rightarrow> vfs" where
  "vst a v s = set_vmem (st32 (vmem s) a v) s"

text \<open>\<open>fs_node_t\<close>: the name is at the start; the offsets of the other members.\<close>

definition node_mask :: "u32 \<Rightarrow> u32" where "node_mask a = a + 128"
definition node_uid :: "u32 \<Rightarrow> u32" where "node_uid a = a + 132"
definition node_gid :: "u32 \<Rightarrow> u32" where "node_gid a = a + 136"
definition node_flags :: "u32 \<Rightarrow> u32" where "node_flags a = a + 140"
definition node_inode :: "u32 \<Rightarrow> u32" where "node_inode a = a + 144"
definition node_length :: "u32 \<Rightarrow> u32" where "node_length a = a + 148"
definition node_impl :: "u32 \<Rightarrow> u32" where "node_impl a = a + 152"
definition node_read :: "u32 \<Rightarrow> u32" where "node_read a = a + 156"
definition node_write :: "u32 \<Rightarrow> u32" where "node_write a = a + 160"
definition node_open :: "u32 \<Rightarrow> u32" where "node_open a = a + 164"
definition node_close :: "u32 \<Rightarrow> u32" where "node_close a = a + 168"
definition node_readdir :: "u32 \<Rightarrow> u32" where "node_readdir a = a + 172"
definition node_finddir :: "u32 \<Rightarrow> u32" where "node_finddir a = a + 176"
definition node_ptr :: "u32 \<Rightarrow> u32" where "node_ptr a = a + 180"
definition sizeof_node :: u32 where "sizeof_node = 184"

lemmas node_offsets = node_mask_def node_uid_def node_gid_def node_flags_def node_inode_def node_length_def
  node_impl_def node_read_def node_write_def node_open_def node_close_def node_readdir_def node_finddir_def node_ptr_def

definition FS_FILE :: u32 where "FS_FILE = 1"
definition FS_DIRECTORY :: u32 where "FS_DIRECTORY = 2"

definition dirent_ino :: "u32 \<Rightarrow> u32" where "dirent_ino a = a + 128"

subsection \<open>Calls through the pointers of a node\<close>

text \<open>
  What the code at a function pointer does: the functions a file system may put in a node. A
  null pointer is \<open>Null_Call\<close>.
\<close>

record fs_calls =
  call_read :: "u32 \<Rightarrow> u32 \<Rightarrow> u32 \<Rightarrow> u32 \<Rightarrow> u32 \<Rightarrow> (vfs, u32) prog"
  call_write :: "u32 \<Rightarrow> u32 \<Rightarrow> u32 \<Rightarrow> u32 \<Rightarrow> u32 \<Rightarrow> (vfs, u32) prog"
  call_open :: "u32 \<Rightarrow> u32 \<Rightarrow> (vfs, unit) prog"
  call_close :: "u32 \<Rightarrow> u32 \<Rightarrow> (vfs, unit) prog"
  call_readdir :: "u32 \<Rightarrow> u32 \<Rightarrow> u32 \<Rightarrow> (vfs, u32) prog"
  call_finddir :: "u32 \<Rightarrow> u32 \<Rightarrow> u32 \<Rightarrow> (vfs, u32) prog"

definition through :: "u32 \<Rightarrow> (u32 \<Rightarrow> ('s, 'a) prog) \<Rightarrow> ('s, 'a) prog" where
  "through p f = (if p = 0 then stop Null_Call else f p)"

subsection \<open>Operations of \<open>fs.c\<close>\<close>

definition read_fs :: "fs_calls \<Rightarrow> u32 \<Rightarrow> u32 \<Rightarrow> u32 \<Rightarrow> u32 \<Rightarrow> (vfs, u32) prog" where
  "read_fs fc node offset sz buffer s =
     (if vld (node_read node) s \<noteq> 0
      then through (vld (node_read node) s) (\<lambda>p. call_read fc p node offset sz buffer) s
      else Inr (0, s))"

definition write_fs :: "fs_calls \<Rightarrow> u32 \<Rightarrow> u32 \<Rightarrow> u32 \<Rightarrow> u32 \<Rightarrow> (vfs, u32) prog" where
  "write_fs fc node offset sz buffer s =
     (if vld (node_write node) s \<noteq> 0
      then through (vld (node_write node) s) (\<lambda>p. call_write fc p node offset sz buffer) s
      else Inr (0, s))"

text \<open>\<open>open_fs\<close> looks at \<open>write\<close> and calls \<open>open\<close>; its flags are not used.\<close>

definition open_fs :: "fs_calls \<Rightarrow> u32 \<Rightarrow> u8 \<Rightarrow> u8 \<Rightarrow> (vfs, unit) prog" where
  "open_fs fc node rflag wflag s =
     (if vld (node_write node) s \<noteq> 0
      then through (vld (node_open node) s) (\<lambda>p. call_open fc p node) s
      else Inr ((), s))"

definition close_fs :: "fs_calls \<Rightarrow> u32 \<Rightarrow> (vfs, unit) prog" where
  "close_fs fc node s =
     (if vld (node_close node) s \<noteq> 0
      then through (vld (node_close node) s) (\<lambda>p. call_close fc p node) s
      else Inr ((), s))"

definition readdir_fs :: "fs_calls \<Rightarrow> u32 \<Rightarrow> u32 \<Rightarrow> (vfs, u32) prog" where
  "readdir_fs fc node idx s =
     (if vld (node_flags node) s AND 0x7 = FS_DIRECTORY \<and> vld (node_readdir node) s \<noteq> 0
      then through (vld (node_readdir node) s) (\<lambda>p. call_readdir fc p node idx) s
      else Inr (0, s))"

text \<open>\<open>finddir_fs\<close> looks at \<open>readdir\<close> and calls \<open>finddir\<close>.\<close>

definition finddir_fs :: "fs_calls \<Rightarrow> u32 \<Rightarrow> u32 \<Rightarrow> (vfs, u32) prog" where
  "finddir_fs fc node name s =
     (if vld (node_flags node) s AND 0x7 = FS_DIRECTORY \<and> vld (node_readdir node) s \<noteq> 0
      then through (vld (node_finddir node) s) (\<lambda>p. call_finddir fc p node name) s
      else Inr (0, s))"

end
