(* ===== verification/Initrd.thy ===== *)
theory Initrd
  imports Fs
begin

text \<open>
  \<open>initrd.c\<close>: the ramdisk behind the file system's pointers. \<open>initrd_read\<close> is shown to
  meet the contract a reader of files relies on, which is stated as a locale.
\<close>

unbundle bit_operations_syntax

subsection \<open>Operations\<close>

text \<open>\<open>initrd_file_header_t\<close> of entry \<open>i\<close>: 76 bytes, with the name at 1.\<close>

definition file_header :: "u32 \<Rightarrow> vfs \<Rightarrow> u32" where "file_header i s = file_headers s + 76 * i"
definition header_name :: "u32 \<Rightarrow> u32" where "header_name a = a + 1"
definition header_offset :: "u32 \<Rightarrow> u32" where "header_offset a = a + 68"
definition header_length :: "u32 \<Rightarrow> u32" where "header_length a = a + 72"

definition root_node :: "u32 \<Rightarrow> vfs \<Rightarrow> u32" where "root_node i s = root_nodes s + sizeof_node * i"

definition initrd_read :: "u32 \<Rightarrow> u32 \<Rightarrow> u32 \<Rightarrow> u32 \<Rightarrow> (vfs, u32) prog" where
  "initrd_read node offset sz buffer s =
     (let header = file_header (vld (node_inode node) s) s;
          len = vld (header_length header) s
      in
      if len < offset then Inr (0, s)
      else
        let sz = (if len < offset + sz then len - offset else sz);
            s = set_vmem (memcpy buffer (vld (header_offset header) s + offset) sz (vmem s)) s
        in Inr (sz, s))"

text \<open>\<open>strcpy\<close> and \<open>strlen\<close> as steps: a string without an end diverges.\<close>

definition vstrcpy :: "u32 \<Rightarrow> u32 \<Rightarrow> (vfs, unit) prog" where
  "vstrcpy dest src s =
     (case strcpy dest src (vmem s) of None \<Rightarrow> Inl Diverges | Some m \<Rightarrow> Inr ((), set_vmem m s))"

definition vstrlen :: "u32 \<Rightarrow> (vfs, u32) prog" where
  "vstrlen a s = (case strlen a (vmem s) of None \<Rightarrow> Inl Diverges | Some n \<Rightarrow> Inr (n, s))"

definition vst8 :: "u32 \<Rightarrow> u8 \<Rightarrow> vfs \<Rightarrow> vfs" where
  "vst8 a v s = set_vmem (st8 (vmem s) a v) s"

definition initrd_readdir :: "u32 \<Rightarrow> u32 \<Rightarrow> (vfs, u32) prog" where
  "initrd_readdir node idx s =
     (if node = initrd_root s \<and> idx = 0 then
        seq (vstrcpy (dirent s) (str_dev s)) (\<lambda>_ s. Inr (dirent s, vst (dirent_ino (dirent s)) 0 (vst8 (dirent s + 3) 0 s))) s
      else if nroot_nodes s \<le> idx - 1 then Inr (0, s)
      else
        seq (vstrcpy (dirent s) (root_node (idx - 1) s)) (\<lambda>_ s.
        seq (vstrlen (root_node (idx - 1) s)) (\<lambda>n s.
          let s = vst8 (dirent s + n) 0 s
          in Inr (dirent s, vst (dirent_ino (dirent s)) (vld (node_inode (root_node (idx - 1) s)) s) s)) s) s)"

function find_root_node :: "u32 \<Rightarrow> u32 \<Rightarrow> vfs \<Rightarrow> u32" where
  "find_root_node name i s =
     (if i < nroot_nodes s then
        if strcmp name (root_node i s) (vmem s) = 0 then root_node i s else find_root_node name (i + 1) s
      else 0)"
  by pat_completeness auto
termination
  by (relation "measure (\<lambda>(name, i, s). unat (nroot_nodes s) - unat i)") (auto intro: up_measure)

declare find_root_node.simps [simp del]

definition initrd_finddir :: "u32 \<Rightarrow> u32 \<Rightarrow> (vfs, u32) prog" where
  "initrd_finddir node name s =
     Inr (if node = initrd_root s \<and> strcmp name (str_dev s) (vmem s) = 0 then initrd_dev s
          else find_root_node name 0 s, s)"

text \<open>The code behind the pointers \<open>initialize_initrd\<close> stores; no other function is ever stored.\<close>

definition initrd_calls :: "u32 \<Rightarrow> u32 \<Rightarrow> u32 \<Rightarrow> fs_calls" where
  "initrd_calls fr frd ffd =
     \<lparr>call_read = (\<lambda>p node offset sz buffer.
        if p = fr then initrd_read node offset sz buffer else stop (Undefined ''node->read'')),
      call_write = (\<lambda>p node offset sz buffer. stop (Undefined ''node->write'')),
      call_open = (\<lambda>p node. stop (Undefined ''node->open'')),
      call_close = (\<lambda>p node. stop (Undefined ''node->close'')),
      call_readdir = (\<lambda>p node idx. if p = frd then initrd_readdir node idx else stop (Undefined ''node->readdir'')),
      call_finddir = (\<lambda>p node name. if p = ffd then initrd_finddir node name else stop (Undefined ''node->finddir''))\<rparr>"

subsection \<open>\<open>initialize_initrd\<close>\<close>

definition vkmalloc :: "nat \<Rightarrow> u32 \<Rightarrow> (vfs, u32) prog" where
  "vkmalloc n sz s = (case kmalloc n sz (kernel s) of Inl e \<Rightarrow> Inl e | Inr (a, k) \<Rightarrow> Inr (a, s\<lparr>kernel := k\<rparr>))"

text \<open>The members of a directory node behind its name, in the order of the assignments.\<close>

definition set_directory :: "u32 \<Rightarrow> vfs \<Rightarrow> vfs" where
  "set_directory a s =
     (let s = vst (node_length a) 0 s;
          s = vst (node_inode a) 0 s;
          s = vst (node_gid a) 0 s;
          s = vst (node_uid a) 0 s;
          s = vst (node_mask a) 0 s;
          s = vst (node_flags a) FS_DIRECTORY s;
          s = vst (node_read a) 0 s;
          s = vst (node_write a) 0 s;
          s = vst (node_open a) 0 s;
          s = vst (node_close a) 0 s;
          s = vst (node_readdir a) (fn_readdir s) s;
          s = vst (node_finddir a) (fn_finddir s) s;
          s = vst (node_ptr a) 0 s
      in vst (node_impl a) 0 s)"

definition set_file :: "u32 \<Rightarrow> u32 \<Rightarrow> u32 \<Rightarrow> vfs \<Rightarrow> vfs" where
  "set_file a i header s =
     (let s = vst (node_gid a) 0 s;
          s = vst (node_uid a) 0 s;
          s = vst (node_mask a) 0 s;
          s = vst (node_length a) (vld (header_length header) s) s;
          s = vst (node_inode a) i s;
          s = vst (node_flags a) FS_FILE s;
          s = vst (node_read a) (fn_read s) s;
          s = vst (node_write a) 0 s;
          s = vst (node_readdir a) 0 s;
          s = vst (node_finddir a) 0 s;
          s = vst (node_open a) 0 s;
          s = vst (node_close a) 0 s
      in vst (node_impl a) 0 s)"

definition add_file :: "u32 \<Rightarrow> u32 \<Rightarrow> (vfs, unit) prog" where
  "add_file location i s =
     (let header = file_header i s;
          s = vst (header_offset header) (vld (header_offset header) s + location) s
      in (case vstrcpy (root_node i s) (header_name header) s of
            Inl e \<Rightarrow> Inl e
          | Inr (_, s) \<Rightarrow> Inr ((), set_file (root_node i s) i header s)))"

function files_loop :: "u32 \<Rightarrow> u32 \<Rightarrow> (vfs, unit) prog" where
  "files_loop location i s =
     (if i < vld (initrd_header s) s then
        (case add_file location i s of
           Inl e \<Rightarrow> Inl e
         | Inr (_, s) \<Rightarrow> files_loop location (i + 1) s)
      else Inr ((), s))"
  by pat_completeness auto

lemma next_file_measure: "i < n \<Longrightarrow> 2 ^ 32 - unat (i + 1) < 2 ^ 32 - unat i" for i n :: u32
  using unat_Suc32 [of i n] unat_bound32 [of n] by (simp add: word_less_nat_alt)

termination files_loop
  by (relation "measure (\<lambda>(loc, i, s). 2 ^ 32 - unat i)") (auto intro: next_file_measure simp del: power_numeral)

declare files_loop.simps [simp del]

definition initialize_initrd :: "nat \<Rightarrow> u32 \<Rightarrow> (vfs, u32) prog" where
  "initialize_initrd n location s =
     (let s = s\<lparr>initrd_header := location, file_headers := location + 4\<rparr>
      in seq (vkmalloc n sizeof_node) (\<lambda>a s.
         seq (vstrcpy a (str_initrd s)) (\<lambda>_ s.
         let s = set_directory a s
         in seq (vkmalloc n sizeof_node) (\<lambda>b s.
            seq (vstrcpy b (str_dev s)) (\<lambda>_ s.
            let s = set_directory b s
            in seq (vkmalloc n (sizeof_node * vld (initrd_header s) s)) (\<lambda>c s.
               let s = s\<lparr>root_nodes := c, nroot_nodes := vld (initrd_header s) s\<rparr>
               in seq (files_loop location 0) (\<lambda>_ s. Inr (initrd_root s, s)) s) s)
              (s\<lparr>initrd_dev := b\<rparr>)) s) (s\<lparr>initrd_root := a\<rparr>)) s)"

lemma set_vmem_simps [simp]:
  "vmem (set_vmem m s) = m" "file_headers (set_vmem m s) = file_headers s" "initrd_root (set_vmem m s) = initrd_root s"
  "initrd_dev (set_vmem m s) = initrd_dev s" "root_nodes (set_vmem m s) = root_nodes s"
  "nroot_nodes (set_vmem m s) = nroot_nodes s" "dirent (set_vmem m s) = dirent s" "fn_read (set_vmem m s) = fn_read s"
  "fn_readdir (set_vmem m s) = fn_readdir s" "fn_finddir (set_vmem m s) = fn_finddir s"
  "initrd_header (set_vmem m s) = initrd_header s" "str_dev (set_vmem m s) = str_dev s"
  "set_vmem m' (set_vmem m s) = set_vmem m' s" "vld a (set_vmem m s) = ld32 m a"
  by (simp_all add: set_vmem_def vld_def)

lemma ld_bytes_append: "ld_bytes m a (n + k) = ld_bytes m a n @ ld_bytes m (a + of_nat n) k"
  unfolding ld_bytes_def upt_add_eq_append [OF le0] map_append
  by (simp add: map_add_upt [of _ k, symmetric] add.assoc comp_def add.left_commute add.commute)

lemma ld_bytes_same:
  assumes "same_on (unat a) (unat a + n) m m'" and "unat a + n \<le> 4294967296"
  shows "ld_bytes m' a n = ld_bytes m a n"
proof -
  have "unat (a + of_nat i) = unat a + i" if "i < n" for i
    using that assms(2) by (simp add: unat_add32 unat_of_nat32)
  then show ?thesis using assms(1) by (simp add: ld_bytes_def same_on_def)
qed

subsection \<open>Reading a file\<close>

text \<open>
  What a reader of a file relies on: a read in the file returns the bytes that are there, up to
  its end, in the buffer, and leaves the file as it is.
\<close>

locale file_reader =
  fixes read :: "u32 \<Rightarrow> u32 \<Rightarrow> u32 \<Rightarrow> (vfs, u32) prog"
    and content :: "vfs \<Rightarrow> u8 list" and good :: "vfs \<Rightarrow> bool" and room :: "vfs \<Rightarrow> nat \<Rightarrow> nat \<Rightarrow> bool"
  assumes room_range: "room s lo hi \<Longrightarrow> hi < 4294967296"
    and read: "good s \<Longrightarrow> room s lo hi \<Longrightarrow> lo \<le> unat b \<Longrightarrow> unat b + unat n \<le> hi \<Longrightarrow>
      unat off + unat n < 4294967296 \<Longrightarrow> unat off \<le> length (content s) \<Longrightarrow> bs = take (unat n) (drop (unat off) (content s)) \<Longrightarrow>
      \<exists>m. read off n b s = Inr (of_nat (length bs), set_vmem m s) \<and> ld_bytes m b (length bs) = bs
        \<and> only_in (unat b) (unat b + length bs) (vmem s) m
        \<and> good (set_vmem m s) \<and> room (set_vmem m s) lo hi \<and> content (set_vmem m s) = content s"
begin

text \<open>Two reads one behind the other read what one read of both lengths reads.\<close>

lemma read_on:
  assumes "good s" and "room s lo hi" and "lo \<le> unat b" and "unat b + unat n + unat k \<le> hi"
    and "unat n + unat k \<le> length (content s)" and "length (content s) < 4294967296"
  shows "\<exists>m m'. read 0 n b s = Inr (n, set_vmem m s) \<and> read n k (b + n) (set_vmem m s) = Inr (k, set_vmem m' s)
    \<and> ld_bytes m' b (unat n + unat k) = take (unat n + unat k) (content s)"
proof -
  let ?c = "content s"
  have ofu: "of_nat (unat w) = w" for w :: u32 by (rule of_nat_unat_eq [OF refl])
  have hi: "hi < 4294967296" by (rule room_range [OF assms(2)])
  have bn: "unat (b + n) = unat b + unat n" using assms(4) hi by (intro unat_add32) simp
  obtain m where m: "read 0 n b s = Inr (n, set_vmem m s)" "ld_bytes m b (unat n) = take (unat n) ?c"
    "good (set_vmem m s)" "room (set_vmem m s) lo hi" "content (set_vmem m s) = ?c"
    using read [OF assms(1-3), of n 0 "take (unat n) ?c"] assms(4-6) by (auto simp: min_absorb2 ofu)
  obtain m' where m': "read n k (b + n) (set_vmem m s) = Inr (k, set_vmem m' s)"
    "ld_bytes m' (b + n) (unat k) = take (unat k) (drop (unat n) ?c)" "only_in (unat b + unat n) (unat b + unat n + unat k) m m'"
    using read [OF m(3,4), of "b + n" k n "take (unat k) (drop (unat n) ?c)"] assms(3-6) m(5)
    by (auto simp: min_absorb2 ofu bn)
  have "ld_bytes m' b (unat n) = ld_bytes m b (unat n)"
    using m'(3) bn assms(4) hi by (intro ld_bytes_same) (auto intro: only_in_same_on)
  then have "ld_bytes m' b (unat n + unat k) = take (unat n) ?c @ take (unat k) (drop (unat n) ?c)"
    unfolding ld_bytes_append using m(2) m'(2) by (simp add: ofu)
  then show ?thesis using m(1) m'(1) by (intro exI [of _ m] exI [of _ m']) (simp add: take_add)
qed

end


subsection \<open>The ramdisk is a file reader\<close>

text \<open>The file of a node: the \<open>length\<close> bytes from \<open>offset\<close> on that its header names.\<close>

definition header_of :: "u32 \<Rightarrow> vfs \<Rightarrow> u32" where
  "header_of node s = file_header (vld (node_inode node) s) s"

definition file_at :: "u32 \<Rightarrow> vfs \<Rightarrow> u32" where
  "file_at node s = vld (header_offset (header_of node s)) s"

definition file_size :: "u32 \<Rightarrow> vfs \<Rightarrow> u32" where
  "file_size node s = vld (header_length (header_of node s)) s"

definition file_bytes :: "u32 \<Rightarrow> vfs \<Rightarrow> u8 list" where
  "file_bytes node s = ld_bytes (vmem s) (file_at node s) (unat (file_size node s))"

definition file_ok :: "u32 \<Rightarrow> u32 \<Rightarrow> vfs \<Rightarrow> bool" where
  "file_ok fr node s \<longleftrightarrow> fr \<noteq> 0 \<and> vld (node_read node) s = fr
     \<and> unat node + 184 \<le> 4294967296 \<and> unat (header_of node s) + 76 \<le> 4294967296
     \<and> unat (file_at node s) + unat (file_size node s) \<le> 4294967296"

definition outside :: "nat \<Rightarrow> nat \<Rightarrow> nat \<Rightarrow> nat \<Rightarrow> bool" where
  "outside lo hi a b \<longleftrightarrow> hi \<le> a \<or> b \<le> lo"

text \<open>The addresses from \<open>lo\<close> below \<open>hi\<close> are free for the reader: not the node, its header or its file.\<close>

definition buffer_room :: "u32 \<Rightarrow> vfs \<Rightarrow> nat \<Rightarrow> nat \<Rightarrow> bool" where
  "buffer_room node s lo hi \<longleftrightarrow> hi < 4294967296 \<and> outside lo hi (unat node) (unat node + 184)
     \<and> outside lo hi (unat (header_of node s)) (unat (header_of node s) + 76)
     \<and> outside lo hi (unat (file_at node s)) (unat (file_at node s) + unat (file_size node s))"

lemma length_file_bytes [simp]: "length (file_bytes node s) = unat (file_size node s)"
  by (simp add: file_bytes_def ld_bytes_def)

lemma same_outside: "only_in lo hi m m' \<Longrightarrow> outside lo hi a b \<Longrightarrow> same_on a b m m'"
  by (auto simp: outside_def intro: only_in_same_on)

lemma outside_mono: "outside lo hi a b \<Longrightarrow> lo \<le> lo' \<Longrightarrow> hi' \<le> hi \<Longrightarrow> outside lo' hi' a b"
  by (auto simp: outside_def)

text \<open>A write in the room leaves the file and what is known of it as they are.\<close>

lemma file_kept:
  assumes "file_ok fr node s" and "buffer_room node s lo hi" and "only_in lo hi (vmem s) m"
  shows "file_ok fr node (set_vmem m s)" and "buffer_room node (set_vmem m s) lo hi"
    and "file_bytes node (set_vmem m s) = file_bytes node s"
proof -
  let ?h = "header_of node s"
  have b: "unat node + 184 \<le> 4294967296" "unat ?h + 76 \<le> 4294967296" using assms(1) by (simp_all add: file_ok_def)
  have n: "same_on (unat node) (unat node + 184) (vmem s) m" and h: "same_on (unat ?h) (unat ?h + 76) (vmem s) m"
    and f: "same_on (unat (file_at node s)) (unat (file_at node s) + unat (file_size node s)) (vmem s) m"
    using assms(2) by (auto simp: buffer_room_def intro: same_outside [OF assms(3)])
  have nf: "ld32 m (node_inode node) = ld32 (vmem s) (node_inode node)" "ld32 m (node_read node) = ld32 (vmem s) (node_read node)"
    by (rule ld32_same_on [OF n]; use b in \<open>simp add: node_offsets unat_add_numeral32\<close>)+
  then have hd: "header_of node (set_vmem m s) = ?h" by (simp add: header_of_def file_header_def vld_def)
  have hf: "ld32 m (header_offset ?h) = ld32 (vmem s) (header_offset ?h)" "ld32 m (header_length ?h) = ld32 (vmem s) (header_length ?h)"
    by (rule ld32_same_on [OF h]; use b in \<open>simp add: header_offset_def header_length_def unat_add_numeral32\<close>)+
  have fa: "file_at node (set_vmem m s) = file_at node s" "file_size node (set_vmem m s) = file_size node s"
    using hf by (simp_all add: file_at_def file_size_def hd vld_def)
  show "file_ok fr node (set_vmem m s)" using assms(1) nf by (simp add: file_ok_def hd fa vld_def)
  show "buffer_room node (set_vmem m s) lo hi" using assms(2) by (simp add: buffer_room_def hd fa)
  show "file_bytes node (set_vmem m s) = file_bytes node s"
    using ld_bytes_same [OF f] assms(1) by (simp add: file_bytes_def fa file_ok_def)
qed

lemma ld_bytes_part:
  assumes "i + k \<le> n"
  shows "take k (drop i (ld_bytes m a n)) = ld_bytes m (a + of_nat i) k"
proof -
  have "ld_bytes m a n = ld_bytes m a i @ ld_bytes m (a + of_nat i) k @ ld_bytes m (a + of_nat (i + k)) (n - (i + k))"
    using ld_bytes_append [of m a i "n - i"] ld_bytes_append [of m "a + of_nat i" k "n - i - k"] assms
    by (simp add: add.assoc)
  then show ?thesis by (simp add: ld_bytes_def)
qed

lemma initrd_read_bytes:
  assumes ok: "file_ok fr node s" and room: "buffer_room node s lo hi" and b: "lo \<le> unat b" "unat b + unat n \<le> hi"
    and o: "unat off + unat n < 4294967296" "unat off \<le> length (file_bytes node s)"
    and bs: "bs = take (unat n) (drop (unat off) (file_bytes node s))"
  shows "\<exists>m. initrd_read node off n b s = Inr (of_nat (length bs), set_vmem m s) \<and> ld_bytes m b (length bs) = bs
    \<and> only_in (unat b) (unat b + length bs) (vmem s) m"
proof -
  let ?len = "file_size node s" and ?f = "file_at node s"
  have ofu: "of_nat (unat w) = w" for w :: u32 by (rule of_nat_unat_eq [OF refl])
  define k where "k = (if ?len < off + n then ?len - off else n)"
  have off: "off \<le> ?len" using o(2) by (simp add: word_le_nat_alt)
  have on: "unat (off + n) = unat off + unat n" using o(1) by (rule unat_add32)
  have lo: "unat (?len - off) = unat ?len - unat off" using off by (simp add: unat_sub32 word_le_nat_alt)
  have k: "unat k = min (unat n) (unat ?len - unat off)"
    using on lo off by (auto simp: k_def word_less_nat_alt word_le_nat_alt)
  have kl: "unat off + unat k \<le> unat ?len" "unat k \<le> unat n" using k o(2) by auto
  have lb: "length bs = unat k" using k by (simp add: bs)
  have hi: "hi < 4294967296" "outside lo hi (unat ?f) (unat ?f + unat ?len)" using room by (simp_all add: buffer_room_def)
  have fl: "unat ?f + unat ?len \<le> 4294967296" using ok by (simp add: file_ok_def)
  define m where "m = memcpy b (?f + off) k (vmem s)"
  have run: "initrd_read node off n b s = Inr (of_nat (length bs), set_vmem m s)"
    using off unfolding not_less [symmetric] by (simp add: initrd_read_def Let_def header_of_def [symmetric] file_at_def [symmetric] file_size_def [symmetric]
        lb of_nat_unat_eq m_def k_def)
  have bytes: "ld_bytes m b (length bs) = bs \<and> only_in (unat b) (unat b + length bs) (vmem s) m"
  proof (cases "k = 0")
    case True
    then show ?thesis using lb by (simp add: m_def memcpy_def ld_bytes_def)
  next
    case False
    then have kp: "0 < unat k" by (simp add: unat_gt_0)
    have u: "unat (?f + off) = unat ?f + unat off" using fl k kp by (intro unat_add32) simp
    have ap: "unat b + unat k \<le> unat (?f + off) \<or> unat (?f + off) + unat k \<le> unat b"
      using hi(2) b k u by (auto simp: outside_def)
    have tp: "unat b + unat k \<le> 4294967296" "unat (?f + off) + unat k \<le> 4294967296"
      using b hi(1) fl kl u by simp_all
    have "bs = take (length bs) (drop (unat off) (file_bytes node s))"
      unfolding bs by (auto simp: min_def)
    then have "bs = ld_bytes (vmem s) (?f + off) (unat k)"
      unfolding lb file_bytes_def ld_bytes_part [OF kl(1)] ofu .
    then show ?thesis
      using ld_st_bytes [of b bs "vmem s"] st_bytes_only_in [of b bs "vmem s"] tp(1) lb
      unfolding m_def memcpy_def memcpy_loop_bytes [OF ap tp] by simp
  qed
  then show ?thesis using run by blast
qed

lemma read_fs_initrd:
  "file_ok fr node s \<Longrightarrow> read_fs (initrd_calls fr frd ffd) node off n b s = initrd_read node off n b s"
  by (simp add: read_fs_def through_def file_ok_def initrd_calls_def)

interpretation ramdisk: file_reader "\<lambda>off n b. read_fs (initrd_calls fr frd ffd) node off n b"
  "file_bytes node" "file_ok fr node" "buffer_room node"
  for fr frd ffd node
proof
  fix s lo hi and b n off :: u32 and bs
  assume a: "file_ok fr node s" "buffer_room node s lo hi" "lo \<le> unat b" "unat b + unat n \<le> hi"
    "unat off + unat n < 4294967296" "unat off \<le> length (file_bytes node s)"
    "bs = take (unat n) (drop (unat off) (file_bytes node s))"
  obtain m where m: "initrd_read node off n b s = Inr (of_nat (length bs), set_vmem m s)" "ld_bytes m b (length bs) = bs"
    "only_in (unat b) (unat b + length bs) (vmem s) m" using initrd_read_bytes [OF a] by blast
  have "only_in lo hi (vmem s) m" by (rule only_in_mono [OF m(3)]) (use a(3,4,7) in simp_all)
  note kept = file_kept [OF a(1,2) this]
  show "\<exists>m. read_fs (initrd_calls fr frd ffd) node off n b s = Inr (of_nat (length bs), set_vmem m s)
      \<and> ld_bytes m b (length bs) = bs \<and> only_in (unat b) (unat b + length bs) (vmem s) m
      \<and> file_ok fr node (set_vmem m s) \<and> buffer_room node (set_vmem m s) lo hi
      \<and> file_bytes node (set_vmem m s) = file_bytes node s"
    using m kept by (auto simp: read_fs_initrd [OF a(1)])
qed (simp add: buffer_room_def)

subsection \<open>A ramdisk with one file\<close>

definition vfs_example :: vfs where
  "vfs_example =
     \<lparr>kernel = power_on (st_bytes (st32 (st32 (st32 (\<lambda>_. 0) 0x109C 0x500) 0x2044 0x3000) 0x2048 5) 0x3000 (cstr ''hello'')) (\<lambda>_ _. 0),
      fs_root = 0, initrd_header = 0x1FFC, file_headers = 0x2000, initrd_root = 0x800, initrd_dev = 0x900,
      root_nodes = 0x1000, nroot_nodes = 1, dirent = 0xA00, str_dev = 0xB00, str_initrd = 0xB10,
      fn_read = 0x500, fn_readdir = 0x510, fn_finddir = 0x520\<rparr>"

lemma vfs_example_file:
  "file_ok 0x500 0x1000 vfs_example" "buffer_room 0x1000 vfs_example 0x4000 0x5000"
  "file_bytes 0x1000 vfs_example = cstr ''hello''"
  "vld (node_inode 0x1000) vfs_example = 0" "vld (node_write 0x1000) vfs_example = 0" "vld (node_flags 0x1000) vfs_example = 0"
  "header_of 0x1000 vfs_example = 0x2000" "file_size 0x1000 vfs_example = 5"
proof -
  let ?m0 = "st32 (st32 (st32 (\<lambda>_. 0) 0x109C 0x500) 0x2044 0x3000) 0x2048 5"
  have z: "ld32 (\<lambda>_. 0) a = 0" for a by (simp add: ld32_def)
  have m: "vmem vfs_example = st_bytes ?m0 0x3000 (cstr ''hello'')" by (simp add: vfs_example_def)
  have o: "only_in 0x3000 0x3005 ?m0 (vmem vfs_example)"
    unfolding m using st_bytes_only_in [of "0x3000" "cstr ''hello''" ?m0] by (simp add: cstr_def unat_numeral32)
  have w: "vld a vfs_example = ld32 ?m0 a" if "unat a + 4 \<le> 0x3000" for a
    unfolding vld_def using that by (intro ld32_only_in [OF o]) simp_all
  have f: "vld 0x1090 vfs_example = 0" "vld 0x109C vfs_example = 0x500" "vld 0x2044 vfs_example = 0x3000"
    "vld 0x2048 vfs_example = 5" "vld 0x10A0 vfs_example = 0" "vld 0x108C vfs_example = 0"
    by (simp_all add: w unat_numeral32 far_simps z)
  show i: "vld (node_inode 0x1000) vfs_example = 0" "vld (node_write 0x1000) vfs_example = 0" "vld (node_flags 0x1000) vfs_example = 0"
    using f by (simp_all add: node_offsets)
  show h: "header_of 0x1000 vfs_example = 0x2000"
    by (simp add: header_of_def i file_header_def) (simp add: vfs_example_def)
  have a: "file_at 0x1000 vfs_example = 0x3000" using f by (simp add: file_at_def h header_offset_def)
  show n: "file_size 0x1000 vfs_example = 5" using f by (simp add: file_size_def h header_length_def)
  show "file_ok 0x500 0x1000 vfs_example" using f by (simp add: file_ok_def h a n node_offsets unat_numeral32)
  show "buffer_room 0x1000 vfs_example 0x4000 0x5000"
    by (simp add: buffer_room_def h a n outside_def unat_numeral32)
  show "file_bytes 0x1000 vfs_example = cstr ''hello''"
  proof -
    have l: "length (cstr ''hello'') = 5" by (simp add: cstr_def)
    have "ld_bytes (vmem vfs_example) 0x3000 (length (cstr ''hello'')) = cstr ''hello''"
      unfolding m by (rule ld_st_bytes) (simp add: l unat_numeral32)
    then show ?thesis by (simp add: file_bytes_def a n l unat_numeral32)
  qed
qed

subsection \<open>Properties\<close>

text \<open>
  Reading a ramdisk file through the file system returns the bytes of the file from the
  offset on, as many as asked for or as there are left, in the buffer; nothing but the buffer
  changes. It holds when offset and size do not add up beyond 32 bits.
\<close>

theorem read_fs_reads_file:
  assumes "file_ok fr node s" and "buffer_room node s lo hi" and "lo \<le> unat b" and "unat b + unat n \<le> hi"
    and "unat off + unat n < 4294967296" and "unat off \<le> length (file_bytes node s)"
    and "bs = take (unat n) (drop (unat off) (file_bytes node s))"
  shows "\<exists>m. read_fs (initrd_calls fr frd ffd) node off n b s = Inr (of_nat (length bs), set_vmem m s)
    \<and> ld_bytes m b (length bs) = bs \<and> only_in (unat b) (unat b + length bs) (vmem s) m
    \<and> file_bytes node (set_vmem m s) = file_bytes node s"
  using ramdisk.read [OF assms, of frd ffd] by blast

theorem read_fs_reads_file_witness:
  "\<exists>m. read_fs (initrd_calls 0x500 0x510 0x520) 0x1000 3 0x10 0x4000 vfs_example = Inr (2, set_vmem m vfs_example)
    \<and> ld_bytes m 0x4000 2 = cstr ''lo''"
proof -
  have "\<exists>m. read_fs (initrd_calls 0x500 0x510 0x520) 0x1000 3 0x10 0x4000 vfs_example
      = Inr (of_nat (length (cstr ''lo'')), set_vmem m vfs_example)
    \<and> ld_bytes m 0x4000 (length (cstr ''lo'')) = cstr ''lo''"
    using read_fs_reads_file [OF vfs_example_file(1,2), of "0x4000" "0x10" 3 "cstr ''lo''" "0x510" "0x520"]
    by (auto simp: vfs_example_file unat_numeral32 cstr_def)
  then show ?thesis by (simp add: cstr_def numeral_2_eq_2)
qed

text \<open>
  C25: A file can be read in pieces: reading \<open>n\<close> bytes at 0 and then \<open>k\<close> bytes at \<open>n\<close> into
  consecutive buffers puts the first \<open>n + k\<close> bytes of the file there.
\<close>

theorem read_fs_in_pieces:
  assumes "file_ok fr node s" and "buffer_room node s lo hi" and "lo \<le> unat b" and "unat b + unat n + unat k \<le> hi"
    and "unat n + unat k \<le> length (file_bytes node s)"
  shows "\<exists>m m'. read_fs (initrd_calls fr frd ffd) node 0 n b s = Inr (n, set_vmem m s)
    \<and> read_fs (initrd_calls fr frd ffd) node n k (b + n) (set_vmem m s) = Inr (k, set_vmem m' s)
    \<and> ld_bytes m' b (unat n + unat k) = take (unat n + unat k) (file_bytes node s)"
proof -
  have "length (file_bytes node s) < 4294967296" using unat_bound32 [of "file_size node s"] by simp
  then show ?thesis using ramdisk.read_on [OF assms] by blast
qed

theorem read_fs_in_pieces_witness:
  "\<exists>m m'. read_fs (initrd_calls 0x500 0x510 0x520) 0x1000 0 2 0x4000 vfs_example = Inr (2, set_vmem m vfs_example)
    \<and> read_fs (initrd_calls 0x500 0x510 0x520) 0x1000 2 3 0x4002 (set_vmem m vfs_example) = Inr (3, set_vmem m' vfs_example)
    \<and> ld_bytes m' 0x4000 5 = cstr ''hello''"
  using read_fs_in_pieces [OF vfs_example_file(1,2), of "0x4000" 2 3 "0x510" "0x520"]
  by (simp add: vfs_example_file unat_numeral32 cstr_def)

text \<open>
  The end of the file is not checked when offset and size add up beyond 32 bits: the read
  then reports the full size asked for, more than the file has left.
\<close>

theorem initrd_read_wraps:
  assumes "0 < off" and "off \<le> file_size node s"
  shows "(\<exists>m. initrd_read node off (- off) b s = Inr (- off, set_vmem m s))
    \<and> unat (file_size node s) - unat off < unat (- off)"
proof -
  have "\<exists>m. initrd_read node off (- off) b s = Inr (- off, set_vmem m s)"
    using assms(2) by (auto simp: initrd_read_def Let_def header_of_def [symmetric] file_size_def [symmetric] not_less [symmetric])
  moreover have "unat (- off) = 4294967296 - unat off"
    using assms(1) unat_sub_if' [of 0 off] by (simp add: word_less_nat_alt)
  ultimately show ?thesis using unat_bound32 [of "file_size node s"] assms(1,2)
    by (simp add: word_less_nat_alt word_le_nat_alt)
qed

theorem initrd_read_wraps_witness:
  "\<exists>m. initrd_read 0x1000 2 (- 2) 0x4000 vfs_example = Inr (- 2, set_vmem m vfs_example)"
  using initrd_read_wraps [of 2 "0x1000" vfs_example "0x4000"] by (simp add: vfs_example_file)

text \<open>The four bytes \<open>strcmp\<close> compares.\<close>

definition four :: "u32 \<Rightarrow> vfs \<Rightarrow> u8 list" where
  "four a s = ld_bytes (vmem s) a 4"

lemma find_root_node_spec:
  "find_root_node name i s =
     (case filter (\<lambda>j. four (root_node (of_nat j) s) s = four name s) [unat i..<unat (nroot_nodes s)] of
        [] \<Rightarrow> 0 | j # _ \<Rightarrow> root_node (of_nat j) s)"
proof (induction name i s rule: find_root_node.induct)
  case (1 name i s)
  show ?case
  proof (cases "i < nroot_nodes s")
    case False
    then show ?thesis by (subst find_root_node.simps) (simp add: word_less_nat_alt)
  next
    case True
    have e: "[unat i..<unat (nroot_nodes s)] = unat i # [unat (i + 1)..<unat (nroot_nodes s)]"
      using True unat_Suc32 [OF True] by (simp add: upt_conv_Cons word_less_nat_alt)
    have w: "of_nat (unat i) = i" by (rule of_nat_unat_eq [OF refl])
    have c: "strcmp name (root_node i s) (vmem s) = 0 \<longleftrightarrow> four (root_node i s) s = four name s"
      by (auto simp: strcmp_eq four_def)
    show ?thesis
    proof (cases "four (root_node i s) s = four name s")
      case True
      then show ?thesis using \<open>i < nroot_nodes s\<close> c by (subst find_root_node.simps) (simp add: e w)
    next
      case False
      then have "find_root_node name i s = find_root_node name (i + 1) s"
        using \<open>i < nroot_nodes s\<close> c by (subst find_root_node.simps) simp
      then show ?thesis using 1 True c False by (simp add: e w)
    qed
  qed
qed


lemma initrd_finddir_spec:
  "initrd_finddir node name s =
     Inr (if node = initrd_root s \<and> four name s = four (str_dev s) s then initrd_dev s
          else case filter (\<lambda>j. four (root_node (of_nat j) s) s = four name s) [0..<unat (nroot_nodes s)] of
            [] \<Rightarrow> 0 | j # _ \<Rightarrow> root_node (of_nat j) s, s)"
  using find_root_node_spec [of name 0 s] by (simp add: initrd_finddir_def strcmp_eq four_def)

text \<open>What the four bytes say of the strings. They hold the first four characters, or the whole string, its NUL and what is behind.\<close>

lemma four_string:
  assumes "c_string (vmem s) a cs"
  shows "take (Suc (length cs)) (four a s) = take 4 (cs @ [0])"
proof (cases "length cs \<le> 3")
  case True
  have "take (Suc (length cs)) (four a s) = ld_bytes (vmem s) a (Suc (length cs))"
    unfolding four_def using ld_bytes_part [of 0 "Suc (length cs)" 4 "vmem s" a] True by simp
  then show ?thesis using assms True by (simp add: c_string_def)
next
  case False
  have "take 4 (ld_bytes (vmem s) a (Suc (length cs))) = four a s"
    unfolding four_def using ld_bytes_part [of 0 4 "Suc (length cs)" "vmem s" a] False by simp
  moreover have "length (four a s) = 4" by (simp add: four_def ld_bytes_def)
  ultimately show ?thesis using assms False by (simp add: c_string_def)
qed

lemma four_chars:
  assumes "c_string (vmem s) a cs"
  shows "takeWhile (\<lambda>c. c \<noteq> 0) (four a s) = take 4 cs"
proof -
  have nz: "0 \<notin> set cs" using assms by (simp add: c_string_def)
  have l: "length (four a s) = 4" by (simp add: four_def ld_bytes_def)
  show ?thesis
  proof (cases "length cs \<le> 3")
    case True
    then have "four a s = cs @ 0 # drop (Suc (length cs)) (four a s)"
      using four_string [OF assms] append_take_drop_id [of "Suc (length cs)" "four a s"] by simp
    then have "takeWhile (\<lambda>c. c \<noteq> 0) (four a s) = takeWhile (\<lambda>c. c \<noteq> 0) (cs @ 0 # drop (Suc (length cs)) (four a s))"
      by (rule arg_cong)
    also have "\<dots> = cs" using nz by (subst takeWhile_append2) auto
    finally show ?thesis using True by simp
  next
    case False
    then have "four a s = take 4 cs" using four_string [OF assms] l by simp
    moreover have "\<forall>c \<in> set (take 4 cs). c \<noteq> 0" using nz in_set_takeD by metis
    ultimately show ?thesis by simp
  qed
qed

text \<open>Two strings, one of at least three characters: \<open>strcmp\<close> finds them equal if they agree in the first four bytes.\<close>

lemma four_eq:
  assumes "c_string (vmem s) a cs" and "c_string (vmem s) b ds" and "3 \<le> length ds"
  shows "four a s = four b s \<longleftrightarrow> take 4 (cs @ [0]) = take 4 (ds @ [0])"
proof -
  have fb: "four b s = take 4 (ds @ [0])" using four_string [OF assms(2)] assms(3) by (simp add: four_def ld_bytes_def)
  have nz: "0 \<notin> set cs" "0 \<notin> set ds" using assms(1,2) by (simp_all add: c_string_def)
  show ?thesis
  proof (cases "3 \<le> length cs")
    case True
    then have "four a s = take 4 (cs @ [0])" using four_string [OF assms(1)] by (simp add: four_def ld_bytes_def)
    then show ?thesis by (simp add: fb)
  next
    case False
    have l: "length (four a s) = 4" by (simp add: four_def ld_bytes_def)
    have "four a s ! length cs = take (Suc (length cs)) (four a s) ! length cs" by simp
    also have "\<dots> = 0" unfolding four_string [OF assms(1)] using False by (simp add: nth_append)
    finally have "four a s ! length cs = 0" .
    moreover have "take 4 (ds @ [0]) ! length cs \<noteq> 0" using False assms(3) nz(2) by (auto simp: nth_append in_set_conv_nth)
    moreover have "length (take 4 (cs @ [0])) \<noteq> length (take 4 (ds @ [0]))" using False assms(3) by simp
    ultimately show ?thesis unfolding fb by metis
  qed
qed

text \<open>
  C26: \<open>initrd_finddir\<close> compares four bytes and not the names. From the root, a name with the four bytes of "dev" gives
  the node of \<open>/dev\<close>; any other gives the first node of the list whose first four bytes are those of the name, and
  null when there is none. For a name of three characters these agree exactly in the nodes that have the name, but for a
  longer one in all that begin with the same four characters: so a file can be returned that has another name, and a
  file that begins like an earlier one is never found. A name of one or two characters must agree with the node behind
  the NUL too; whatever the length, the node that is found begins with the same four characters.
\<close>

theorem finddir_four_bytes:
  "initrd_finddir node name s =
      Inr (if node = initrd_root s \<and> four name s = four (str_dev s) s then initrd_dev s
           else case filter (\<lambda>j. four (root_node (of_nat j) s) s = four name s) [0..<unat (nroot_nodes s)] of
             [] \<Rightarrow> 0 | j # _ \<Rightarrow> root_node (of_nat j) s, s)
    \<and> (\<forall>a cs ds. c_string (vmem s) a cs \<and> c_string (vmem s) name ds \<longrightarrow>
          (four a s = four name s \<longrightarrow> take 4 cs = take 4 ds)
        \<and> (length ds = 3 \<longrightarrow> (four a s = four name s \<longleftrightarrow> cs = ds))
        \<and> (4 \<le> length ds \<longrightarrow> (four a s = four name s \<longleftrightarrow> take 4 cs = take 4 ds)))"
proof (intro conjI allI impI; (elim conjE)?)
  fix a cs ds
  assume c: "c_string (vmem s) a cs" "c_string (vmem s) name ds"
  show agree: "four a s = four name s \<Longrightarrow> take 4 cs = take 4 ds" using four_chars c by metis
  have nz: "0 \<notin> set cs" using c(1) by (simp add: c_string_def)
  show "four a s = four name s \<longleftrightarrow> cs = ds" if l: "length ds = 3"
  proof -
    have "\<not> 4 \<le> length cs" if "take 4 cs = ds @ [0]"
      using that nz by (metis in_set_conv_decomp in_set_takeD)
    then have "take 4 (cs @ [0]) = ds @ [0] \<longleftrightarrow> cs = ds" using l by (cases "4 \<le> length cs") auto
    then show ?thesis using four_eq [OF c] l by simp
  qed
  show "four a s = four name s \<longleftrightarrow> take 4 cs = take 4 ds" if l: "4 \<le> length ds"
  proof
    assume e: "take 4 cs = take 4 ds"
    then have "length (take 4 cs) = 4" using l by simp
    then have "4 \<le> length cs" by simp
    then show "four a s = four name s" using four_eq [OF c] e l by simp
  qed (rule agree)
qed (rule initrd_finddir_spec)

text \<open>
  Three files, "data1", "data2" and "a", the last with a byte behind its NUL: the lookup of "data2" returns "data1", and
  "a" is not found.
\<close>

definition names_example :: vfs where
  "names_example = vfs_example\<lparr>nroot_nodes := 3, kernel := power_on (\<lambda>x.
      if x \<in> {0x1000, 0x10B8, 0xC00, 0xB00} then 100 else
      if x \<in> {0x1001, 0x1003, 0x10B9, 0x10BB, 0x1170, 0xC01, 0xC03, 0xC10} then 97 else
      if x \<in> {0x1002, 0x10BA, 0xC02} then 116 else if x = 0x1004 then 49 else if x \<in> {0x10BC, 0xC04, 0x1172} then 50 else
      if x = 0xB01 then 101 else if x = 0xB02 then 118 else 0) (\<lambda>_ _. 0)\<rparr>"

lemma names_example_strings:
  "c_string (vmem names_example) 0x1000 (cstr ''data1'')" "c_string (vmem names_example) 0x10B8 (cstr ''data2'')"
  "c_string (vmem names_example) 0x1170 (cstr ''a'')" "c_string (vmem names_example) 0xC00 (cstr ''data2'')"
  "c_string (vmem names_example) 0xC10 (cstr ''a'')"
  by (simp_all add: c_string_def ld_bytes_def upt_rec cstr_def names_example_def)

theorem finddir_four_bytes_witness:
  "initrd_finddir 0x800 0xC00 names_example = Inr (0x1000, names_example)
    \<and> c_string (vmem names_example) 0xC00 (cstr ''data2'') \<and> c_string (vmem names_example) 0x1000 (cstr ''data1'')
    \<and> c_string (vmem names_example) (root_node 1 names_example) (cstr ''data2'')
    \<and> initrd_finddir 0x800 0xC10 names_example = Inr (0, names_example)
    \<and> c_string (vmem names_example) 0xC10 (cstr ''a'') \<and> c_string (vmem names_example) (root_node 2 names_example) (cstr ''a'')"
proof -
  have f: "four 0xC00 names_example = [100, 97, 116, 97]" "four 0xC10 names_example = [97, 0, 0, 0]" "four 0xB00 names_example = [100, 101, 118, 0]"
    "four 0x1000 names_example = [100, 97, 116, 97]" "four 0x1170 names_example = [97, 0, 50, 0]" "four 0x10B8 names_example = [100, 97, 116, 97]"
    by (simp_all add: four_def ld_bytes_def upt_rec names_example_def)
  have n: "[0..<unat (nroot_nodes names_example)] = [0, 1, 2]" "str_dev names_example = 0xB00" "root_nodes names_example = 0x1000"
    by (simp_all add: names_example_def vfs_example_def upt_rec)
  have g: "initrd_finddir 0x800 0xC00 names_example = Inr (0x1000, names_example)" "initrd_finddir 0x800 0xC10 names_example = Inr (0, names_example)"
    using finddir_four_bytes [of "0x800" "0xC00" names_example] finddir_four_bytes [of "0x800" "0xC10" names_example]
    by (simp_all add: n f root_node_def sizeof_node_def)
  show ?thesis using g names_example_strings by (simp add: n root_node_def sizeof_node_def)
qed

text \<open>
  \<open>open_fs\<close> decides by the wrong pointer: it never calls a node's \<open>open\<close> function unless the
  node also has a \<open>write\<close> function, and calls a null pointer on a node with \<open>write\<close> but without
  \<open>open\<close>; \<open>finddir_fs\<close> does the same with \<open>readdir\<close> and \<open>finddir\<close>.
\<close>

theorem open_fs_wrong_pointer:
  "(vld (node_write node) s = 0 \<longrightarrow> open_fs fc node r w s = Inr ((), s))
   \<and> (vld (node_write node) s \<noteq> 0 \<and> vld (node_open node) s = 0 \<longrightarrow> open_fs fc node r w s = Inl Null_Call)
   \<and> (vld (node_readdir node) s = 0 \<longrightarrow> finddir_fs fc node name s = Inr (0, s))
   \<and> (vld (node_flags node) s AND 7 = FS_DIRECTORY \<and> vld (node_readdir node) s \<noteq> 0 \<and> vld (node_finddir node) s = 0
        \<longrightarrow> finddir_fs fc node name s = Inl Null_Call)"
  by (simp add: open_fs_def finddir_fs_def through_def stop_def)

theorem open_fs_wrong_pointer_witness:
  "open_fs (initrd_calls 0x500 0x510 0x520) 0x1000 1 0 vfs_example = Inr ((), vfs_example)"
  using open_fs_wrong_pointer [of "0x1000" vfs_example] by (simp add: vfs_example_file)

end
