(* ===== verification/Mount.thy ===== *)
theory Mount
  imports Initrd
begin

text \<open>
  Mounting a ramdisk: \<open>initialize_initrd\<close> turns an image in memory into a list of file nodes, each
  of which reads the bytes the image has for its file.
\<close>

unbundle bit_operations_syntax


subsection \<open>Assigning members\<close>

definition st_members :: "u32 \<Rightarrow> (nat \<times> u32) list \<Rightarrow> memory \<Rightarrow> memory" where
  "st_members a ovs m = fold (\<lambda>(k, v) m. st32 m (a + of_nat k) v) ovs m"

definition member_list :: "(nat \<times> u32) list \<Rightarrow> bool" where
  "member_list ovs \<longleftrightarrow> (\<forall>(k, v) \<in> set ovs. 4 dvd k \<and> 128 \<le> k \<and> k \<le> 180) \<and> distinct (map fst ovs)"

lemma unat_member: "unat a + 184 \<le> 4294967296 \<Longrightarrow> k \<le> 180 \<Longrightarrow> unat (a + of_nat k :: u32) = unat a + k"
  by (simp add: unat_add32 unat_of_nat32)

lemma st_members_only_in:
  assumes "unat a + 184 \<le> 4294967296" and "member_list ovs"
  shows "only_in (unat a + 128) (unat a + 184) m (st_members a ovs m)"
  using assms(2)
proof (induction ovs rule: rev_induct)
  case (snoc kv ovs)
  obtain k v where kv: "kv = (k, v)" by (cases kv)
  have "only_in (unat a + 128) (unat a + 184) m (st_members a ovs m)"
    using snoc by (simp add: member_list_def)
  moreover have "128 \<le> k" "k \<le> 180" using snoc.prems kv by (simp_all add: member_list_def)
  ultimately show ?case
    using assms(1) unat_member [OF assms(1), of k] by (simp add: st_members_def kv only_in_st32_step)
qed (simp add: st_members_def)

lemma ld32_st_members:
  assumes "unat a + 184 \<le> 4294967296" and "member_list ovs" and "(k, v) \<in> set ovs"
  shows "ld32 (st_members a ovs m) (a + of_nat k) = v"
  using assms(2,3)
proof (induction ovs rule: rev_induct)
  case (snoc jw ovs)
  obtain j w where jw: "jw = (j, w)" by (cases jw)
  have b: "k \<le> 180" "j \<le> 180" "4 dvd k" "4 dvd j" using snoc.prems jw by (auto simp: member_list_def)
  show ?case
  proof (cases "k = j")
    case True
    then have "v = w" using snoc.prems jw by (auto simp: member_list_def image_iff)
    then show ?thesis by (simp add: st_members_def jw True)
  next
    case False
    then have "(k, v) \<in> set ovs" "member_list ovs" using snoc.prems jw by (auto simp: member_list_def)
    with snoc.IH have IH: "ld32 (st_members a ovs m) (a + of_nat k) = v" by simp
    have "k + 4 \<le> j \<or> j + 4 \<le> k" using b(3,4) False by (auto elim!: dvdE)
    then have "ld32 (st32 (st_members a ovs m) (a + of_nat j) w) (a + of_nat k) = ld32 (st_members a ovs m) (a + of_nat k)"
      using unat_member [OF assms(1) b(1)] unat_member [OF assms(1) b(2)] assms(1) b by (intro ld32_st32_far) auto
    with IH show ?thesis by (simp add: st_members_def jw)
  qed
qed simp

definition file_members :: "u32 \<Rightarrow> u32 \<Rightarrow> u32 \<Rightarrow> (nat \<times> u32) list" where
  "file_members i len fr = [(136, 0), (132, 0), (128, 0), (148, len), (144, i), (140, FS_FILE), (156, fr), (160, 0),
     (172, 0), (176, 0), (164, 0), (168, 0), (152, 0)]"

lemma file_members: "member_list (file_members i len fr)"
  by (simp add: member_list_def file_members_def)

lemma set_file_members:
  assumes "unat a + 184 \<le> 4294967296" and "unat header + 76 \<le> 4294967296"
    and "unat header + 76 \<le> unat a \<or> unat a + 184 \<le> unat header"
  shows "set_file a i header s = set_vmem (st_members a (file_members i (vld (header_length header) s) (fn_read s)) (vmem s)) s"
proof -
  have u: "unat (header + 72) = unat header + 72" by (rule unat_add_numeral32) (use assms(2) in simp)
  have "member_list [(136, 0), (132, 0), (128, 0 :: u32)]" by (simp add: member_list_def)
  note o = st_members_only_in [OF assms(1) this, of "vmem s"]
  have "ld32 (st_members a [(136, 0), (132, 0), (128, 0)] (vmem s)) (header + 72) = ld32 (vmem s) (header + 72)"
    by (rule ld32_only_in [OF o]) (use u assms in auto)
  then show ?thesis
    by (simp add: set_file_def Let_def vst_def node_offsets header_length_def st_members_def file_members_def vld_def)
qed

subsection \<open>The ramdisk in memory\<close>

text \<open>
  A ramdisk image of \<open>n\<close> files at \<open>L\<close>: their number, then their headers with the names \<open>nm\<close>.
  The list of nodes lies apart from it.
\<close>

definition disk_image :: "u32 \<Rightarrow> nat \<Rightarrow> (nat \<Rightarrow> u8 list) \<Rightarrow> vfs \<Rightarrow> bool" where
  "disk_image L n nm s \<longleftrightarrow> initrd_header s = L \<and> file_headers s = L + 4 \<and> vld L s = of_nat n
     \<and> unat L + 4 + 76 * n \<le> 4294967296 \<and> unat (root_nodes s) + 184 * n \<le> 4294967296
     \<and> (unat L + 4 + 76 * n \<le> unat (root_nodes s) \<or> unat (root_nodes s) + 184 * n \<le> unat L)
     \<and> (\<forall>i < n. c_string (vmem s) (header_name (file_header (of_nat i) s)) (nm i) \<and> length (nm i) < 64)"

text \<open>The function pointers of a node: \<open>write\<close>, \<open>open\<close> and \<open>close\<close> are null in every node of a ramdisk.\<close>

definition calls_at :: "u32 \<Rightarrow> u32 \<Rightarrow> u32 \<Rightarrow> u32 \<Rightarrow> memory \<Rightarrow> bool" where
  "calls_at fr frd ffd a m \<longleftrightarrow> ld32 m (node_read a) = fr \<and> ld32 m (node_write a) = 0 \<and> ld32 m (node_open a) = 0
     \<and> ld32 m (node_close a) = 0 \<and> ld32 m (node_readdir a) = frd \<and> ld32 m (node_finddir a) = ffd"

lemma calls_kept:
  assumes "calls_at fr frd ffd a m" and "same_on (unat a) (unat a + 184) m m'" and "unat a + 184 \<le> 4294967296"
  shows "calls_at fr frd ffd a m'"
proof -
  have "ld32 m' (node_read a) = ld32 m (node_read a)" "ld32 m' (node_write a) = ld32 m (node_write a)"
    "ld32 m' (node_open a) = ld32 m (node_open a)" "ld32 m' (node_close a) = ld32 m (node_close a)"
    "ld32 m' (node_readdir a) = ld32 m (node_readdir a)" "ld32 m' (node_finddir a) = ld32 m (node_finddir a)"
    by (rule ld32_same_on [OF assms(2)]; use assms(3) in \<open>simp add: node_offsets unat_add_numeral32\<close>)+
  then show ?thesis using assms(1) by (simp add: calls_at_def)
qed

text \<open>What mounting does for one file: its node is filled in, its offset becomes an address.\<close>

definition mounted :: "u32 \<Rightarrow> u8 list \<Rightarrow> nat \<Rightarrow> vfs \<Rightarrow> memory \<Rightarrow> bool" where
  "mounted L name j s m \<longleftrightarrow>
     (let h = file_header (of_nat j) s; a = root_node (of_nat j) s in
      calls_at (fn_read s) 0 0 a m \<and> ld32 m (node_inode a) = of_nat j
      \<and> ld32 m (node_flags a) = FS_FILE \<and> ld32 m (node_length a) = vld (header_length h) s \<and> c_string m a name
      \<and> ld32 m (header_offset h) = vld (header_offset h) s + L \<and> ld32 m (header_length h) = vld (header_length h) s)"

lemma disk_addresses:
  assumes "disk_image L n nm s" and "i < n"
  shows "unat (file_header (of_nat i) s) = unat L + 4 + 76 * i" and "unat (root_node (of_nat i) s) = unat (root_nodes s) + 184 * i"
    and "unat L + 4 + 76 * i + 76 \<le> unat L + 4 + 76 * n" and "unat (root_nodes s) + 184 * i + 184 \<le> unat (root_nodes s) + 184 * n"
proof -
  show b: "unat L + 4 + 76 * i + 76 \<le> unat L + 4 + 76 * n" "unat (root_nodes s) + 184 * i + 184 \<le> unat (root_nodes s) + 184 * n"
    using assms(2) by linarith+
  have t: "unat L + 4 + 76 * n \<le> 4294967296" "unat (root_nodes s) + 184 * n \<le> 4294967296"
    using assms(1) by (simp_all add: disk_image_def)
  have "unat (of_nat (76 * i) :: u32) = 76 * i" "unat (of_nat (184 * i) :: u32) = 184 * i"
    using b t by (intro unat_of_nat32; simp)+
  then have m: "unat (76 * of_nat i :: u32) = 76 * i" "unat (184 * of_nat i :: u32) = 184 * i" by simp_all
  have "unat (L + 4) = unat L + 4" by (rule unat_add_numeral32) (use b t in simp)
  then have "unat (L + 4 + 76 * of_nat i) = unat L + 4 + 76 * i" using b t m(1) by (simp add: unat_add32)
  then show "unat (file_header (of_nat i) s) = unat L + 4 + 76 * i" using assms(1) by (simp add: file_header_def disk_image_def)
  show "unat (root_node (of_nat i) s) = unat (root_nodes s) + 184 * i"
    using b t m(2) by (simp add: root_node_def sizeof_node_def unat_add32)
qed

lemma c_string_same_on:
  assumes "c_string m a cs" and "same_on lo hi m m'" and "lo \<le> unat a" and "unat a + length cs < hi"
  shows "c_string m' a cs"
proof -
  have "ld_bytes m' a (Suc (length cs)) = ld_bytes m a (Suc (length cs))"
    using assms by (intro ld_bytes_same [OF same_on_mono [OF assms(2)]]) (simp_all add: c_string_def)
  then show ?thesis using assms(1) by (simp add: c_string_def)
qed

lemma places_set_vmem [simp]:
  "root_node i (set_vmem m s) = root_node i s" "file_header i (set_vmem m s) = file_header i s"
  by (simp_all add: root_node_def file_header_def)

text \<open>One round of the loop writes its node and the offset in its header.\<close>

definition round_only :: "u32 \<Rightarrow> nat \<Rightarrow> vfs \<Rightarrow> memory \<Rightarrow> bool" where
  "round_only L i s m \<longleftrightarrow> (\<forall>x. (unat x < unat (root_nodes s) + 184 * i \<or> unat (root_nodes s) + 184 * i + 184 \<le> unat x) \<longrightarrow>
     (unat x < unat L + 4 + 76 * i + 68 \<or> unat L + 4 + 76 * i + 72 \<le> unat x) \<longrightarrow> m x = vmem s x)"


lemma add_file_mounts:
  assumes d: "disk_image L n nm s" and i: "i < n"
  obtains m where "add_file L (of_nat i) s = Inr ((), set_vmem m s)" and "mounted L (nm i) i s m"
    and "round_only L i s m"
proof -
  let ?h = "file_header (of_nat i) s" and ?a = "root_node (of_nat i) s" and ?v = "vld (header_offset (file_header (of_nat i) s)) s + L"
  note ad = disk_addresses [OF d i]
  have D: "unat L + 4 + 76 * n \<le> 4294967296" "unat (root_nodes s) + 184 * n \<le> 4294967296"
    "unat L + 4 + 76 * n \<le> unat (root_nodes s) \<or> unat (root_nodes s) + 184 * n \<le> unat L"
    "c_string (vmem s) (header_name ?h) (nm i)" "length (nm i) < 64"
    using d i by (simp_all add: disk_image_def)
  have h: "unat ?h + 76 \<le> 4294967296" and a: "unat ?a + 184 \<le> 4294967296" using ad D(1,2) by simp_all
  have apart: "unat ?h + 76 \<le> unat ?a \<or> unat ?a + 184 \<le> unat ?h" using ad D(3) by auto
  have uh: "unat (header_name ?h) = unat ?h + 1" "unat (header_offset ?h) = unat ?h + 68" "unat (header_length ?h) = unat ?h + 72"
    unfolding header_name_def header_offset_def header_length_def
    using h unat_add_numeral32 [of ?h] unat_add32 [of ?h 1] by simp_all
  define m1 where "m1 = st32 (vmem s) (header_offset ?h) ?v"
  have o1: "only_in (unat ?h + 68) (unat ?h + 72) (vmem s) m1"
    unfolding m1_def using h by (intro only_in_st32) (simp_all add: uh)
  have name: "c_string m1 (header_name ?h) (nm i)"
    by (rule c_string_same_on [OF D(4) only_in_same_on [OF o1, of "unat ?h + 68" "unat ?h"]]) (use uh D(5) in simp_all)
  obtain m2 where m2: "strcpy ?a (header_name ?h) m1 = Some m2" "c_string m2 ?a (nm i)"
    "only_in (unat ?a) (unat ?a + length (nm i) + 1) m1 m2"
    using strcpy_copies [OF name, of ?a] a D(5) apart uh by auto
  let ?len = "vld (header_length ?h) (set_vmem m2 s)"
  define m3 where "m3 = st_members ?a (file_members (of_nat i) ?len (fn_read s)) m2"
  have o3: "only_in (unat ?a + 128) (unat ?a + 184) m2 m3"
    unfolding m3_def by (rule st_members_only_in [OF a file_members])
  have run: "add_file L (of_nat i) s = Inr ((), set_vmem m3 s)"
    using set_file_members [OF a h apart, of "of_nat i" "set_vmem m2 s"] m2(1)
    by (simp add: add_file_def Let_def vst_def m1_def [symmetric] vstrcpy_def m3_def)
  have o23: "only_in (unat ?a) (unat ?a + 184) m1 m3"
    using D(5) by (intro only_in_trans [OF only_in_mono [OF m2(3)] only_in_mono [OF o3]]) simp_all
  have hw: "ld32 m (header_length ?h) = vld (header_length ?h) s" "ld32 m (header_offset ?h) = ?v"
    if "only_in (unat ?a) (unat ?a + 184) m1 m" for m
  proof -
    have "ld32 m (header_length ?h) = ld32 m1 (header_length ?h)" "ld32 m (header_offset ?h) = ld32 m1 (header_offset ?h)"
      by (rule ld32_only_in [OF that]; use apart h uh in auto)+
    moreover have "ld32 m1 (header_length ?h) = ld32 (vmem s) (header_length ?h)"
      by (rule ld32_only_in [OF o1]) (use h uh in simp_all)
    ultimately show "ld32 m (header_length ?h) = vld (header_length ?h) s" "ld32 m (header_offset ?h) = ?v"
      by (simp_all add: vld_def m1_def)
  qed
  have len: "?len = vld (header_length ?h) s"
    using hw(1) [OF only_in_mono [OF m2(3)]] D(5) by (simp add: header_length_def)
  have mem: "ld32 m3 (?a + of_nat k) = v" if "(k, v) \<in> set (file_members (of_nat i) ?len (fn_read s))" for k v
    unfolding m3_def by (rule ld32_st_members [OF a file_members that])
  have "c_string m3 ?a (nm i)"
    by (rule c_string_same_on [OF m2(2) only_in_same_on [OF o3, of "unat ?a + 128" "unat ?a"]]) (use D(5) in simp_all)
  then have "mounted L (nm i) i s m3"
    using mem [of 156] mem [of 160] mem [of 164] mem [of 168] mem [of 172] mem [of 176] mem [of 144] mem [of 140] mem [of 148]
      hw [OF o23] len
    by (simp add: mounted_def calls_at_def Let_def node_offsets file_members_def)
  moreover have "round_only L i s m3"
    using o23 o1 ad(1,2) by (auto simp: round_only_def only_in_def)
  ultimately show ?thesis using that [OF run] by blast
qed

subsection \<open>All files\<close>

text \<open>Where the rounds from \<open>i\<close> on write.\<close>

definition mount_area :: "u32 \<Rightarrow> nat \<Rightarrow> nat \<Rightarrow> vfs \<Rightarrow> nat \<Rightarrow> bool" where
  "mount_area L n i s x \<longleftrightarrow> (unat (root_nodes s) + 184 * i \<le> x \<and> x < unat (root_nodes s) + 184 * n)
     \<or> (unat L + 4 + 76 * i \<le> x \<and> x < unat L + 4 + 76 * n)"

lemma disk_image_kept:
  assumes d: "disk_image L n nm s" and i: "i < n"
    and o: "round_only L i s m"
  shows "disk_image L n nm (set_vmem m s)"
    and "j < n \<Longrightarrow> j \<noteq> i \<Longrightarrow> vld (header_offset (file_header (of_nat j) s)) (set_vmem m s) = vld (header_offset (file_header (of_nat j) s)) s"
    and "j < n \<Longrightarrow> vld (header_length (file_header (of_nat j) s)) (set_vmem m s) = vld (header_length (file_header (of_nat j) s)) s"
proof -
  note A = disk_addresses [OF d]
  have D: "unat L + 4 + 76 * n \<le> 4294967296" "unat (root_nodes s) + 184 * n \<le> 4294967296"
    "unat L + 4 + 76 * n \<le> unat (root_nodes s) \<or> unat (root_nodes s) + 184 * n \<le> unat L"
    using d by (simp_all add: disk_image_def)
  note I = A(3,4) [OF i]
  have s1: "same_on lo hi (vmem s) m" if "unat L \<le> lo" "hi \<le> unat L + 4 + 76 * n"
    "hi \<le> unat L + 4 + 76 * i + 68 \<or> unat L + 4 + 76 * i + 72 \<le> lo" for lo hi
    unfolding same_on_def
  proof (intro allI impI)
    fix x :: u32 assume x: "lo \<le> unat x \<and> unat x < hi"
    have "unat x < unat (root_nodes s) + 184 * i \<or> unat (root_nodes s) + 184 * i + 184 \<le> unat x"
      "unat x < unat L + 4 + 76 * i + 68 \<or> unat L + 4 + 76 * i + 72 \<le> unat x"
      using x that D(3) I by linarith+
    then show "m x = vmem s x" using o unfolding round_only_def by blast
  qed
  have uh: "unat (header_name (file_header (of_nat j) s)) = unat L + 4 + 76 * j + 1"
    "unat (header_offset (file_header (of_nat j) s)) = unat L + 4 + 76 * j + 68"
    "unat (header_length (file_header (of_nat j) s)) = unat L + 4 + 76 * j + 72" if "j < n" for j
    unfolding header_name_def header_offset_def header_length_def
    using A(1,3) [OF that] D(1) unat_add_numeral32 [of "file_header (of_nat j) s"] unat_add32 [of "file_header (of_nat j) s" 1]
    by simp_all
  have names: "c_string m (header_name (file_header (of_nat j) s)) (nm j)" if j: "j < n" for j
  proof -
    have c: "c_string (vmem s) (header_name (file_header (of_nat j) s)) (nm j)" "length (nm j) < 64"
      using d j by (simp_all add: disk_image_def)
    have "j = i \<or> Suc j \<le> i \<or> Suc i \<le> j" by linarith
    then have "same_on (unat L + 4 + 76 * j) (unat L + 4 + 76 * j + 68) (vmem s) m"
      using A(3) [OF j] by (intro s1) auto
    from c_string_same_on [OF c(1) this] show ?thesis using c(2) uh(1) [OF j] by simp
  qed
  have n0: "ld32 m L = ld32 (vmem s) L"
    using D(1) by (intro ld32_same_on [OF s1 [of "unat L" "unat L + 4"]]) simp_all
  show "disk_image L n nm (set_vmem m s)"
    using d names n0 by (simp add: disk_image_def vld_def)
  show "vld (header_offset (file_header (of_nat j) s)) (set_vmem m s) = vld (header_offset (file_header (of_nat j) s)) s"
    if j: "j < n" "j \<noteq> i"
  proof -
    have "Suc j \<le> i \<or> Suc i \<le> j" using j(2) by linarith
    then have "same_on (unat L + 4 + 76 * j) (unat L + 4 + 76 * j + 76) (vmem s) m"
      using A(3) [OF j(1)] by (intro s1) auto
    from ld32_same_on [OF this, of "header_offset (file_header (of_nat j) s)"] show ?thesis
      using uh(2) [OF j(1)] A(3) [OF j(1)] D(1) by (simp add: vld_def)
  qed
  show "vld (header_length (file_header (of_nat j) s)) (set_vmem m s) = vld (header_length (file_header (of_nat j) s)) s"
    if j: "j < n"
  proof -
    have "j = i \<or> Suc j \<le> i \<or> Suc i \<le> j" by linarith
    then have "same_on (unat L + 4 + 76 * j + 72) (unat L + 4 + 76 * j + 76) (vmem s) m"
      using A(3) [OF j] by (intro s1) auto
    from ld32_same_on [OF this, of "header_length (file_header (of_nat j) s)"] show ?thesis
      using uh(3) [OF j] A(3) [OF j] D(1) by (simp add: vld_def)
  qed
qed

lemma mounted_same_on:
  assumes d: "disk_image L n nm s" and j: "j < n" and m: "mounted L (nm j) j s m"
    and o: "\<And>x. \<not> mount_area L n (Suc j) s (unat x) \<Longrightarrow> m' x = m x"
  shows "mounted L (nm j) j s m'"
proof -
  let ?h = "file_header (of_nat j) s" and ?a = "root_node (of_nat j) s"
  note A = disk_addresses [OF d j]
  have D: "unat L + 4 + 76 * n \<le> 4294967296" "unat (root_nodes s) + 184 * n \<le> 4294967296"
    "unat L + 4 + 76 * n \<le> unat (root_nodes s) \<or> unat (root_nodes s) + 184 * n \<le> unat L" "length (nm j) < 64"
    using d j by (simp_all add: disk_image_def)
  have h: "unat ?h + 76 \<le> 4294967296" and a: "unat ?a + 184 \<le> 4294967296" using A D(1,2) by simp_all
  have sh: "same_on (unat ?h) (unat ?h + 76) m m'" and sa: "same_on (unat ?a) (unat ?a + 184) m m'"
    unfolding same_on_def using A D(3) by (auto intro!: o simp: mount_area_def)
  have u: "unat (header_offset ?h) = unat ?h + 68" "unat (header_length ?h) = unat ?h + 72"
    unfolding header_offset_def header_length_def using h unat_add_numeral32 [of ?h] by simp_all
  have "ld32 m' (header_offset ?h) = ld32 m (header_offset ?h)" "ld32 m' (header_length ?h) = ld32 m (header_length ?h)"
    by (rule ld32_same_on [OF sh]; use u h in simp)+
  moreover have "ld32 m' (node_inode ?a) = ld32 m (node_inode ?a)" "ld32 m' (node_flags ?a) = ld32 m (node_flags ?a)"
    "ld32 m' (node_length ?a) = ld32 m (node_length ?a)"
    by (rule ld32_same_on [OF sa]; use a in \<open>simp add: node_offsets unat_add_numeral32\<close>)+
  moreover have "calls_at (fn_read s) 0 0 ?a m'" if "calls_at (fn_read s) 0 0 ?a m"
    by (rule calls_kept [OF that sa a])
  moreover have "c_string m' ?a (nm j)" if "c_string m ?a (nm j)"
    by (rule c_string_same_on [OF that sa]) (use D(4) in simp_all)
  ultimately show ?thesis using m by (simp add: mounted_def Let_def)
qed

lemma mounted_since:
  assumes "mounted L name j (set_vmem m s) m'" 
    and "vld (header_offset (file_header (of_nat j) s)) (set_vmem m s) = vld (header_offset (file_header (of_nat j) s)) s"
    and "vld (header_length (file_header (of_nat j) s)) (set_vmem m s) = vld (header_length (file_header (of_nat j) s)) s"
  shows "mounted L name j s m'"
  using assms by (simp add: mounted_def Let_def)

lemma files_loop_mounts:
  assumes "disk_image L n nm s" and "i \<le> n"
  shows "\<exists>m. files_loop L (of_nat i) s = Inr ((), set_vmem m s)
    \<and> (\<forall>j. i \<le> j \<and> j < n \<longrightarrow> mounted L (nm j) j s m)
    \<and> (\<forall>x. \<not> mount_area L n i s (unat x) \<longrightarrow> m x = vmem s x)"
  using assms
proof (induction "n - i" arbitrary: i s)
  case 0
  then have "i = n" "vld (initrd_header s) s = of_nat n" by (simp_all add: disk_image_def)
  then show ?case by (subst files_loop.simps) (intro exI [of _ "vmem s"], auto simp: set_vmem_def)
next
  case (Suc k)
  then have i: "i < n" by simp
  have n: "n < 4294967296" "vld (initrd_header s) s = of_nat n" using Suc.prems(1) by (simp_all add: disk_image_def)
  obtain m1 where m1: "add_file L (of_nat i) s = Inr ((), set_vmem m1 s)" "mounted L (nm i) i s m1"
    "round_only L i s m1"
    by (rule add_file_mounts [OF Suc.prems(1) i]) blast
  note kept = disk_image_kept [OF Suc.prems(1) i m1(3)]
  have "k = n - Suc i" using Suc.hyps(2) by simp
  from Suc.hyps(1) [OF this kept(1)] i obtain m where
    m: "files_loop L (of_nat (Suc i)) (set_vmem m1 s) = Inr ((), set_vmem m (set_vmem m1 s))"
      "\<forall>j. Suc i \<le> j \<and> j < n \<longrightarrow> mounted L (nm j) j (set_vmem m1 s) m"
      "\<forall>x. \<not> mount_area L n (Suc i) (set_vmem m1 s) (unat x) \<longrightarrow> m x = m1 x"
    by (metis Suc_leI set_vmem_simps(1))
  have area: "mount_area L n (Suc i) (set_vmem m1 s) x = mount_area L n (Suc i) s x" for x
    by (simp add: mount_area_def)
  have "(of_nat i :: u32) < of_nat n"
    using i n(1) unat_of_nat32 [of i] unat_of_nat32 [of n] by (simp add: word_less_nat_alt)
  then have run: "files_loop L (of_nat i) s = Inr ((), set_vmem m s)"
    using m(1) m1(1) n(2) by (subst files_loop.simps) (simp add: add.commute [of 1])
  have "mounted L (nm j) j s m" if j: "i \<le> j" "j < n" for j
  proof (cases "j = i")
    case True
    show ?thesis unfolding True using m(3) area by (intro mounted_same_on [OF Suc.prems(1) i m1(2)]) simp
  next
    case False
    then have "mounted L (nm j) j (set_vmem m1 s) m" using m(2) j by simp
    then show ?thesis by (rule mounted_since) (use kept(2,3) [OF j(2)] False in simp_all)
  qed
  moreover have "m x = vmem s x" if x: "\<not> mount_area L n i s (unat x)" for x
  proof -
    note I = disk_addresses(3,4) [OF Suc.prems(1) i]
    have "\<not> mount_area L n (Suc i) s (unat x)" using x by (auto simp: mount_area_def)
    moreover have "unat x < unat (root_nodes s) + 184 * i \<or> unat (root_nodes s) + 184 * i + 184 \<le> unat x"
      "unat x < unat L + 4 + 76 * i + 68 \<or> unat L + 4 + 76 * i + 72 \<le> unat x"
      using x I unfolding mount_area_def by linarith+
    then have "m1 x = vmem s x" using m1(3) unfolding round_only_def by blast
    ultimately show ?thesis using m(3) area by metis
  qed
  ultimately show ?case using run by blast
qed

subsection \<open>Directories\<close>

definition dir_members :: "u32 \<Rightarrow> u32 \<Rightarrow> (nat \<times> u32) list" where
  "dir_members frd ffd = [(148, 0), (144, 0), (136, 0), (132, 0), (128, 0), (140, FS_DIRECTORY), (156, 0), (160, 0),
     (164, 0), (168, 0), (172, frd), (176, ffd), (180, 0), (152, 0)]"

lemma dir_members: "member_list (dir_members frd ffd)"
  by (simp add: member_list_def dir_members_def)

lemma set_directory_members:
  "set_directory a s = set_vmem (st_members a (dir_members (fn_readdir s) (fn_finddir s)) (vmem s)) s"
  by (simp add: set_directory_def Let_def vst_def node_offsets st_members_def dir_members_def)

definition directory_at :: "u32 \<Rightarrow> u32 \<Rightarrow> u32 \<Rightarrow> memory \<Rightarrow> bool" where
  "directory_at frd ffd a m \<longleftrightarrow> ld32 m (node_flags a) = FS_DIRECTORY \<and> calls_at 0 frd ffd a m"

lemma make_directory:
  assumes "c_string (vmem s) src cs" and "length cs < 128" and "unat a + 184 \<le> 4294967296"
    and "unat src + length cs < unat a \<or> unat a + 184 \<le> unat src"
  obtains m m' where "vstrcpy a src s = Inr ((), set_vmem m s)" and "set_directory a (set_vmem m s) = set_vmem m' s"
    and "only_in (unat a) (unat a + 184) (vmem s) m'" and "directory_at (fn_readdir s) (fn_finddir s) a m'"
proof -
  obtain m where m: "strcpy a src (vmem s) = Some m" "only_in (unat a) (unat a + length cs + 1) (vmem s) m"
    using strcpy_copies [OF assms(1), of a] assms(2-4) by auto
  let ?ms = "dir_members (fn_readdir s) (fn_finddir s)"
  let ?m = "st_members a ?ms m"
  have o: "only_in (unat a) (unat a + 184) (vmem s) ?m"
    using assms(2) by (intro only_in_trans [OF only_in_mono [OF m(2)] only_in_mono [OF st_members_only_in [OF assms(3) dir_members]]]) simp_all
  have mem: "ld32 ?m (a + of_nat k) = v" if "(k, v) \<in> set ?ms" for k v
    by (rule ld32_st_members [OF assms(3) dir_members that])
  have "directory_at (fn_readdir s) (fn_finddir s) a ?m"
    using mem [of 140] mem [of 156] mem [of 160] mem [of 164] mem [of 168] mem [of 172] mem [of 176]
    by (simp add: directory_at_def calls_at_def node_offsets dir_members_def)
  then show ?thesis using that [of m ?m] m(1) o by (simp add: vstrcpy_def set_directory_members)
qed

lemma directory_kept:
  assumes "directory_at frd ffd a m" and "same_on (unat a) (unat a + 184) m m'" and "unat a + 184 \<le> 4294967296"
  shows "directory_at frd ffd a m'"
proof -
  have "ld32 m' (node_flags a) = ld32 m (node_flags a)"
    by (rule ld32_same_on [OF assms(2)]; use assms(3) in \<open>simp add: node_offsets unat_add_numeral32\<close>)
  then show ?thesis using assms(1) calls_kept [OF _ assms(2,3)] by (simp add: directory_at_def)
qed

subsection \<open>Mounting\<close>

text \<open>
  A ramdisk that can be mounted: the image at \<open>L\<close> with \<open>n\<close> files, the two string literals and the
  contents of the files lie apart from the memory \<open>kmalloc\<close> hands out for the nodes, and the
  contents also from the image's headers.
\<close>

abbreviation node_space :: "nat \<Rightarrow> vfs \<Rightarrow> nat \<Rightarrow> nat \<Rightarrow> bool" where
  "node_space n s lo hi \<equiv> outside (unat (placement_address (kernel s))) (unat (placement_address (kernel s)) + 368 + 184 * n) lo hi"

definition disk_header :: "u32 \<Rightarrow> nat \<Rightarrow> u32" where
  "disk_header L j = L + 4 + 76 * of_nat j"

definition mountable :: "u32 \<Rightarrow> nat \<Rightarrow> (nat \<Rightarrow> u8 list) \<Rightarrow> vfs \<Rightarrow> bool" where
  "mountable L n nm s \<longleftrightarrow> kheap (kernel s) = 0 \<and> fn_read s \<noteq> 0 \<and> vld L s = of_nat n
     \<and> unat L + 4 + 76 * n \<le> 4294967296 \<and> unat (placement_address (kernel s)) + 368 + 184 * n < 4294967296
     \<and> node_space n s (unat L) (unat L + 4 + 76 * n)
     \<and> c_string (vmem s) (str_initrd s) (cstr ''initrd'') \<and> node_space n s (unat (str_initrd s)) (unat (str_initrd s) + 7)
     \<and> c_string (vmem s) (str_dev s) (cstr ''dev'') \<and> node_space n s (unat (str_dev s)) (unat (str_dev s) + 4)
     \<and> (\<forall>j < n. let h = disk_header L j; at = unat L + unat (vld (header_offset h) s); len = unat (vld (header_length h) s) in
          c_string (vmem s) (header_name h) (nm j) \<and> length (nm j) < 64 \<and> at + len < 4294967296
          \<and> node_space n s at (at + len) \<and> outside (unat L + 4) (unat L + 4 + 76 * n) at (at + len))"

text \<open>The globals after mounting, with the memory \<open>m\<close>.\<close>

definition mount_state :: "u32 \<Rightarrow> nat \<Rightarrow> memory \<Rightarrow> vfs \<Rightarrow> vfs" where
  "mount_state L n m s =
     (let p = placement_address (kernel s) in
      s\<lparr>kernel := (kernel s)\<lparr>mem := m, placement_address := p + 368 + 184 * of_nat n\<rparr>,
        initrd_header := L, file_headers := L + 4, initrd_root := p, initrd_dev := p + 184,
        root_nodes := p + 368, nroot_nodes := of_nat n\<rparr>)"

lemma mount_state_simps [simp]:
  "vmem (mount_state L n m s) = m" "initrd_header (mount_state L n m s) = L" "file_headers (mount_state L n m s) = L + 4"
  "initrd_root (mount_state L n m s) = placement_address (kernel s)" "root_nodes (mount_state L n m s) = placement_address (kernel s) + 368"
  "nroot_nodes (mount_state L n m s) = of_nat n" "fn_read (mount_state L n m s) = fn_read s"
  "file_header i (mount_state L n m s) = L + 4 + 76 * i" "set_vmem m' (mount_state L n m s) = mount_state L n m' s"
  "vld a (mount_state L n m s) = ld32 m a"
  by (simp_all add: mount_state_def Let_def file_header_def set_vmem_def vld_def)

lemma early_vkmalloc:
  "kheap (kernel s) = 0 \<Longrightarrow> vkmalloc k sz s = Inr (placement_address (kernel s),
     s\<lparr>kernel := (kernel s)\<lparr>placement_address := placement_address (kernel s) + sz\<rparr>\<rparr>)"
  by (simp add: vkmalloc_def kmalloc_def kmalloc_int_def kmalloc_with_def seq_def ret_def Let_def)

lemma directories_made:
  assumes M: "mountable L n nm s"
  obtains m where "\<And>k. initialize_initrd k L s =
      seq (files_loop L 0) (\<lambda>_ s. Inr (initrd_root s, s)) (mount_state L n m s)"
    and "directory_at (fn_readdir s) (fn_finddir s) (placement_address (kernel s)) m"
    and "only_in (unat (placement_address (kernel s))) (unat (placement_address (kernel s)) + 368) (vmem s) m"
    and "directory_at (fn_readdir s) (fn_finddir s) (placement_address (kernel s) + 184) m"
proof -
  let ?p = "placement_address (kernel s)" and ?frd = "fn_readdir s" and ?ffd = "fn_finddir s"
  have h: "kheap (kernel s) = 0" and pn: "unat ?p + 368 + 184 * n \<le> 4294967296" and Ln: "vld L s = of_nat n"
    and Lb: "unat L + 4 + 76 * n \<le> 4294967296" "node_space n s (unat L) (unat L + 4 + 76 * n)"
    and si: "c_string (vmem s) (str_initrd s) (cstr ''initrd'')" "node_space n s (unat (str_initrd s)) (unat (str_initrd s) + 7)"
    and sd: "c_string (vmem s) (str_dev s) (cstr ''dev'')" "node_space n s (unat (str_dev s)) (unat (str_dev s) + 4)"
    using M by (simp_all add: mountable_def)
  have len: "length (cstr ''initrd'') = 6" "length (cstr ''dev'') = 3" by (simp_all add: cstr_def)
  have q: "unat (?p + 184) = unat ?p + 184" by (rule unat_add_numeral32) (use pn in simp)
  let ?s1 = "s\<lparr>kernel := (kernel s)\<lparr>placement_address := ?p + 184\<rparr>, initrd_header := L, file_headers := L + 4, initrd_root := ?p\<rparr>"
  have c1: "c_string (vmem ?s1) (str_initrd ?s1) (cstr ''initrd'')" using si by simp
  obtain m1 m2 where m2: "vstrcpy ?p (str_initrd ?s1) ?s1 = Inr ((), set_vmem m1 ?s1)" "set_directory ?p (set_vmem m1 ?s1) = set_vmem m2 ?s1"
    "only_in (unat ?p) (unat ?p + 184) (vmem ?s1) m2" "directory_at (fn_readdir ?s1) (fn_finddir ?s1) ?p m2"
    by (rule make_directory [OF c1]) (use pn si(2) len in \<open>auto simp: outside_def\<close>)
  let ?s2 = "s\<lparr>kernel := (kernel s)\<lparr>mem := m2, placement_address := ?p + 368\<rparr>, initrd_header := L, file_headers := L + 4,
    initrd_root := ?p, initrd_dev := ?p + 184\<rparr>"
  have o2: "only_in (unat ?p) (unat ?p + 184) (vmem s) m2" using m2(3) by simp
  have "c_string m2 (str_dev s) (cstr ''dev'')"
    by (rule c_string_same_on [OF sd(1) only_in_same_on [OF o2, of "unat (str_dev s) + 4" "unat (str_dev s)"]])
      (use sd(2) len in \<open>auto simp: outside_def\<close>)
  then have c2: "c_string (vmem ?s2) (str_dev ?s2) (cstr ''dev'')" by simp
  obtain m3 m4 where m4: "vstrcpy (?p + 184) (str_dev ?s2) ?s2 = Inr ((), set_vmem m3 ?s2)"
    "set_directory (?p + 184) (set_vmem m3 ?s2) = set_vmem m4 ?s2"
    "only_in (unat (?p + 184)) (unat (?p + 184) + 184) (vmem ?s2) m4" "directory_at (fn_readdir ?s2) (fn_finddir ?s2) (?p + 184) m4"
    by (rule make_directory [OF c2, of "?p + 184"]) (use pn sd(2) len q in \<open>auto simp: outside_def\<close>)
  have o4: "only_in (unat ?p + 184) (unat ?p + 368) m2 m4" using m4(3) q by (simp add: add.assoc)
  have o: "only_in (unat ?p) (unat ?p + 368) (vmem s) m4"
    by (rule only_in_trans [OF only_in_mono [OF o2] only_in_mono [OF o4]]) simp_all
  have n4: "ld32 m4 L = of_nat n"
    using ld32_only_in [OF o, of L] Lb Ln by (auto simp: outside_def vld_def)
  have d: "directory_at ?frd ?ffd ?p m4"
    using directory_kept [OF m2(4) only_in_same_on [OF o4]] pn by simp
  have "initialize_initrd k L s = seq (files_loop L 0) (\<lambda>_ s. Inr (initrd_root s, s)) (mount_state L n m4 s)" for k
  proof -
    have v1: "vkmalloc k sizeof_node (s\<lparr>initrd_header := L, file_headers := L + 4\<rparr>) =
        Inr (?p, s\<lparr>kernel := (kernel s)\<lparr>placement_address := ?p + 184\<rparr>, initrd_header := L, file_headers := L + 4\<rparr>)"
      using h by (simp add: early_vkmalloc sizeof_node_def)
    have v2: "vkmalloc k sizeof_node (set_vmem m2 ?s1) = Inr (?p + 184, s\<lparr>kernel := (kernel s)\<lparr>mem := m2, placement_address := ?p + 368\<rparr>,
        initrd_header := L, file_headers := L + 4, initrd_root := ?p\<rparr>)"
      using h by (simp add: early_vkmalloc sizeof_node_def set_vmem_def)
    have v3: "vkmalloc k (sizeof_node * vld L (set_vmem m4 ?s2)) (set_vmem m4 ?s2) =
        Inr (?p + 368, s\<lparr>kernel := (kernel s)\<lparr>mem := m4, placement_address := ?p + 368 + 184 * of_nat n\<rparr>,
        initrd_header := L, file_headers := L + 4, initrd_root := ?p, initrd_dev := ?p + 184\<rparr>)"
      using h n4 by (simp add: early_vkmalloc sizeof_node_def set_vmem_def vld_def)
    show ?thesis
      unfolding initialize_initrd_def Let_def seq_def
      using v1 v2 v3 m2(1,2) m4(1,2) n4 by (simp add: mount_state_def Let_def vld_def)
  qed
  then show ?thesis using that d o m4(4) by simp
qed

text \<open>The image is as it was when the loop over the files starts.\<close>

lemma image_kept:
  assumes M: "mountable L n nm s"
    and o: "only_in (unat (placement_address (kernel s))) (unat (placement_address (kernel s)) + 368) (vmem s) m"
  shows "disk_image L n nm (mount_state L n m s)"
    and "j < n \<Longrightarrow> ld32 m (header_offset (disk_header L j)) = vld (header_offset (disk_header L j)) s"
    and "j < n \<Longrightarrow> ld32 m (header_length (disk_header L j)) = vld (header_length (disk_header L j)) s"
proof -
  let ?p = "placement_address (kernel s)"
  have B: "unat ?p + 368 + 184 * n < 4294967296" "unat L + 4 + 76 * n \<le> 4294967296" "vld L s = of_nat n"
    "unat ?p + 368 + 184 * n \<le> unat L \<or> unat L + 4 + 76 * n \<le> unat ?p"
    and nm: "\<forall>j < n. c_string (vmem s) (header_name (disk_header L j)) (nm j) \<and> length (nm j) < 64"
    using M by (auto simp: mountable_def outside_def Let_def)
  have so: "same_on (unat L) (unat L + 4 + 76 * n) (vmem s) m" using B(4) by (intro only_in_same_on [OF o]) auto
  have uh: "unat (disk_header L j) = unat L + 4 + 76 * j" "76 * j + 76 \<le> 76 * n" if "j < n" for j
  proof -
    show b: "76 * j + 76 \<le> 76 * n" using that by linarith
    have "unat (of_nat (76 * j) :: u32) = 76 * j" using b B(2) by (intro unat_of_nat32) simp
    then have "unat (76 * of_nat j :: u32) = 76 * j" by simp
    moreover have "unat (L + 4) = unat L + 4" by (rule unat_add_numeral32) (use b B(2) in simp)
    ultimately show "unat (disk_header L j) = unat L + 4 + 76 * j"
      using b B(2) by (simp add: disk_header_def unat_add32)
  qed
  have um: "unat (header_name (disk_header L j)) = unat L + 4 + 76 * j + 1"
    "unat (header_offset (disk_header L j)) = unat L + 4 + 76 * j + 68"
    "unat (header_length (disk_header L j)) = unat L + 4 + 76 * j + 72" if "j < n" for j
    unfolding header_name_def header_offset_def header_length_def
    using uh [OF that] B(2) unat_add_numeral32 [of "disk_header L j"] unat_add32 [of "disk_header L j" 1] by simp_all
  show "j < n \<Longrightarrow> ld32 m (header_offset (disk_header L j)) = vld (header_offset (disk_header L j)) s"
    and "j < n \<Longrightarrow> ld32 m (header_length (disk_header L j)) = vld (header_length (disk_header L j)) s"
    unfolding vld_def by (rule ld32_same_on [OF so]; use um uh B(2) in force)+
  have "c_string m (header_name (disk_header L j)) (nm j)" if "j < n" for j
  proof -
    have c: "c_string (vmem s) (header_name (disk_header L j)) (nm j)" "length (nm j) < 64" using nm that by simp_all
    show ?thesis by (rule c_string_same_on [OF c(1) so]) (use c(2) um(1) [OF that] uh(2) [OF that] in simp_all)
  qed
  moreover have "ld32 m L = of_nat n"
    using ld32_same_on [OF so, of L] B(2,3) by (simp add: vld_def)
  moreover have "unat (?p + 368) = unat ?p + 368" by (rule unat_add_numeral32) (use B(1,2,4) in auto)
  ultimately show "disk_image L n nm (mount_state L n m s)"
    using B nm by (auto simp: disk_image_def disk_header_def add.assoc)
qed

lemma mount_runs:
  assumes M: "mountable L n nm s"
  obtains m0 m where "\<And>k. initialize_initrd k L s = Inr (placement_address (kernel s), mount_state L n m s)"
    and "directory_at (fn_readdir s) (fn_finddir s) (placement_address (kernel s)) m"
    and "\<forall>j < n. mounted L (nm j) j (mount_state L n m0 s) m"
    and "only_in (unat (placement_address (kernel s))) (unat (placement_address (kernel s)) + 368) (vmem s) m0"
    and "\<forall>x. \<not> mount_area L n 0 (mount_state L n m0 s) (unat x) \<longrightarrow> m x = m0 x"
    and "directory_at (fn_readdir s) (fn_finddir s) (placement_address (kernel s) + 184) m"
proof -
  let ?p = "placement_address (kernel s)"
  obtain m0 where m0: "\<And>k. initialize_initrd k L s = seq (files_loop L 0) (\<lambda>_ s. Inr (initrd_root s, s)) (mount_state L n m0 s)"
    "directory_at (fn_readdir s) (fn_finddir s) ?p m0" "only_in (unat ?p) (unat ?p + 368) (vmem s) m0"
    "directory_at (fn_readdir s) (fn_finddir s) (?p + 184) m0"
    by (rule directories_made [OF M]) blast
  obtain m where m: "files_loop L (of_nat 0) (mount_state L n m0 s) = Inr ((), set_vmem m (mount_state L n m0 s))"
    "\<forall>j. 0 \<le> j \<and> j < n \<longrightarrow> mounted L (nm j) j (mount_state L n m0 s) m"
    "\<forall>x. \<not> mount_area L n 0 (mount_state L n m0 s) (unat x) \<longrightarrow> m x = m0 x"
    using files_loop_mounts [OF image_kept(1) [OF M m0(3)], of 0] by auto
  have B: "unat ?p + 368 + 184 * n < 4294967296" "unat ?p + 368 + 184 * n \<le> unat L \<or> unat L + 4 + 76 * n \<le> unat ?p"
    using M by (auto simp: mountable_def outside_def)
  have "unat (?p + 368) = unat ?p + 368" if "0 < n" by (rule unat_add_numeral32) (use that B(1) in simp)
  then have so: "same_on (unat ?p) (unat ?p + 368) m0 m"
    using m(3) B(2) unfolding same_on_def mount_area_def by (cases "n = 0") auto
  have q: "unat (?p + 184) = unat ?p + 184" by (rule unat_add_numeral32) (use B(1) in simp)
  have d: "directory_at (fn_readdir s) (fn_finddir s) ?p m" "directory_at (fn_readdir s) (fn_finddir s) (?p + 184) m"
    by (rule directory_kept [OF m0(2) same_on_mono [OF so]] directory_kept [OF m0(4) same_on_mono [OF so]];
        use B(1) q in simp)+
  have "initialize_initrd k L s = Inr (?p, mount_state L n m s)" for k
    unfolding m0(1) using m(1) by (simp add: seq_def)
  then show ?thesis using that [OF _ d(1) _ m0(3) m(3) d(2)] m(2) by simp
qed

lemma mounted_file:
  assumes M: "mountable L n nm s" and j: "j < n"
    and mt: "mounted L (nm j) j (mount_state L n m0 s) m"
    and o: "only_in (unat (placement_address (kernel s))) (unat (placement_address (kernel s)) + 368) (vmem s) m0"
    and a: "\<forall>x. \<not> mount_area L n 0 (mount_state L n m0 s) (unat x) \<longrightarrow> m x = m0 x"
  shows "file_ok (fn_read s) (root_node (of_nat j) (mount_state L n m s)) (mount_state L n m s)"
    and "c_string m (root_node (of_nat j) (mount_state L n m s)) (nm j)"
    and "file_bytes (root_node (of_nat j) (mount_state L n m s)) (mount_state L n m s) =
      ld_bytes (vmem s) (L + vld (header_offset (disk_header L j)) s) (unat (vld (header_length (disk_header L j)) s))"
    and "header_of (root_node (of_nat j) (mount_state L n m s)) (mount_state L n m s) = disk_header L j"
    and "file_at (root_node (of_nat j) (mount_state L n m s)) (mount_state L n m s) = L + vld (header_offset (disk_header L j)) s"
    and "file_size (root_node (of_nat j) (mount_state L n m s)) (mount_state L n m s) = vld (header_length (disk_header L j)) s"
    and "unat (root_node (of_nat j) (mount_state L n m s)) = unat (placement_address (kernel s)) + 368 + 184 * j"
    and "unat (disk_header L j) = unat L + 4 + 76 * j"
proof -
  let ?t = "mount_state L n m s" and ?p = "placement_address (kernel s)"
  let ?a = "root_node (of_nat j) ?t" and ?off = "vld (header_offset (disk_header L j)) s" and ?len = "vld (header_length (disk_header L j)) s"
  have B: "fn_read s \<noteq> 0" "unat ?p + 368 + 184 * n < 4294967296" "unat L + unat ?off + unat ?len < 4294967296"
    "unat L + 4 + 76 * n \<le> 4294967296"
    "node_space n s (unat L + unat ?off) (unat L + unat ?off + unat ?len)"
    "outside (unat L + 4) (unat L + 4 + 76 * n) (unat L + unat ?off) (unat L + unat ?off + unat ?len)"
    using M j by (simp_all add: mountable_def Let_def)
  note K = image_kept [OF M o] and A = disk_addresses [OF image_kept(1) [OF M o] j]
  have rn: "root_node (of_nat j) (mount_state L n m0 s) = ?a" by (simp add: root_node_def)
  have fh: "file_header (of_nat j) ?t = disk_header L j" by (simp add: disk_header_def)
  have mt': "ld32 m (node_read ?a) = fn_read s" "ld32 m (node_inode ?a) = of_nat j"
    "ld32 m (header_offset (disk_header L j)) = ?off + L" "ld32 m (header_length (disk_header L j)) = ?len" "c_string m ?a (nm j)"
    using mt K(2,3) [OF j] unfolding mounted_def Let_def rn by (simp_all add: disk_header_def calls_at_def)
  then show f: "header_of ?a ?t = disk_header L j" "file_at ?a ?t = L + ?off" "file_size ?a ?t = ?len"
    by (simp_all add: header_of_def file_at_def file_size_def disk_header_def add.commute)
  have up: "unat (?p + 368) = unat ?p + 368" by (rule unat_add_numeral32) (use B(2) in simp)
  have ua: "unat ?a = unat ?p + 368 + 184 * j" "184 * j + 184 \<le> 184 * n"
    using A(2,4) up unfolding rn by simp_all
  have uh: "unat (disk_header L j) = unat L + 4 + 76 * j" "76 * j + 76 \<le> 76 * n"
    using A(1,3) by (simp_all add: disk_header_def)
  have uo: "unat (L + ?off) = unat L + unat ?off" using B(3) by (intro unat_add32) simp
  show "unat ?a = unat ?p + 368 + 184 * j" "unat (disk_header L j) = unat L + 4 + 76 * j" by (rule ua(1), rule uh(1))
  show "file_ok (fn_read s) ?a ?t"
    using mt'(1) B f ua uh uo by (simp add: file_ok_def)
  show "c_string m ?a (nm j)" by (rule mt'(5))
  have "same_on (unat (L + ?off)) (unat (L + ?off) + unat ?len) (vmem s) m0"
    using B(5) unfolding uo outside_def by (intro only_in_same_on [OF o]) auto
  moreover have "same_on (unat (L + ?off)) (unat (L + ?off) + unat ?len) m0 m"
    using a B(5,6) up unfolding uo same_on_def outside_def mount_area_def by auto
  ultimately have "same_on (unat (L + ?off)) (unat (L + ?off) + unat ?len) (vmem s) m" by (rule same_on_trans)
  from ld_bytes_same [OF this] show "file_bytes ?a ?t = ld_bytes (vmem s) (L + ?off) (unat ?len)"
    using B(3) uo f by (simp add: file_bytes_def)
qed

subsection \<open>A ramdisk to mount\<close>

definition disk_example :: vfs where
  "disk_example = vfs_example\<lparr>kernel := (power_on (\<lambda>x.
      if x = 0x1FFC then 1 else if x = 0x2001 then 97 else if x = 0x2044 then 4 else if x = 0x2045 then 0x10 else if x = 0x2048 then 5
      else if x = 0x3000 then 104 else if x = 0x3001 then 101 else if x = 0x3002 then 108 else if x = 0x3003 then 108 else if x = 0x3004 then 111
      else if x = 0xB00 then 100 else if x = 0xB01 then 101 else if x = 0xB02 then 118
      else if x = 0xB10 then 105 else if x = 0xB11 then 110 else if x = 0xB12 then 105 else if x = 0xB13 then 116 else if x = 0xB14 then 114 else if x = 0xB15 then 100
      else 0) (\<lambda>_ _. 0))\<lparr>placement_address := 0x5000\<rparr>\<rparr>"

lemma disk_example_fields [simp]:
  "str_dev disk_example = 0xB00" "str_initrd disk_example = 0xB10" "placement_address (kernel disk_example) = 0x5000"
  "kheap (kernel disk_example) = 0" "fn_read disk_example = 0x500" 
  by (simp_all add: disk_example_def vfs_example_def power_on_def)

lemma disk_example_words:
  "vld 0x1FFC disk_example = 1" "vld (header_offset (disk_header 0x1FFC 0)) disk_example = 0x1004"
  "vld (header_length (disk_header 0x1FFC 0)) disk_example = 5"
  by (simp_all add: vld_def ld32_def disk_example_def disk_header_def header_offset_def header_length_def)

lemma disk_example: "mountable 0x1FFC 1 (\<lambda>_. cstr ''a'') disk_example"
proof -
  have "c_string (vmem disk_example) 0xB10 (cstr ''initrd'')" "c_string (vmem disk_example) 0xB00 (cstr ''dev'')"
    "c_string (vmem disk_example) 0x2001 (cstr ''a'')"
    by (simp_all add: c_string_def ld_bytes_def upt_rec cstr_def disk_example_def)
  then show ?thesis
    unfolding mountable_def Let_def
    by (simp add: disk_example_words outside_def) (simp add: disk_header_def header_name_def cstr_def)
qed

subsection \<open>Properties\<close>

text \<open>
  C22: \<open>initialize_initrd\<close> mounts every ramdisk: it returns the root directory, a directory node
  whose calls are the ramdisk's, and for each file of the image a node that carries its name and
  reads exactly the bytes the image has for it.
\<close>

theorem initialize_initrd_mounts:
  assumes "mountable L n nm s"
  shows "\<exists>s'. initialize_initrd k L s = Inr (initrd_root s', s') \<and> nroot_nodes s' = of_nat n
    \<and> directory_at (fn_readdir s) (fn_finddir s) (initrd_root s') (vmem s')
    \<and> (\<forall>j < n. file_ok (fn_read s) (root_node (of_nat j) s') s' \<and> c_string (vmem s') (root_node (of_nat j) s') (nm j)
        \<and> file_bytes (root_node (of_nat j) s') s' =
          ld_bytes (vmem s) (L + vld (header_offset (disk_header L j)) s) (unat (vld (header_length (disk_header L j)) s)))"
proof -
  obtain m0 m where m: "\<And>k. initialize_initrd k L s = Inr (placement_address (kernel s), mount_state L n m s)"
    "directory_at (fn_readdir s) (fn_finddir s) (placement_address (kernel s)) m"
    "\<forall>j < n. mounted L (nm j) j (mount_state L n m0 s) m"
    "only_in (unat (placement_address (kernel s))) (unat (placement_address (kernel s)) + 368) (vmem s) m0"
    "\<forall>x. \<not> mount_area L n 0 (mount_state L n m0 s) (unat x) \<longrightarrow> m x = m0 x"
    by (rule mount_runs [OF assms]) blast
  have "\<forall>j < n. mounted L (nm j) j (mount_state L n m0 s) m" by (rule m(3))
  then show ?thesis
    using m(1,2) mounted_file [OF assms _ _ m(4,5)] by (intro exI [of _ "mount_state L n m s"]) simp
qed

theorem initialize_initrd_mounts_witness:
  "\<exists>s'. initialize_initrd 0 0x1FFC disk_example = Inr (initrd_root s', s')
    \<and> file_ok 0x500 (root_node 0 s') s' \<and> file_bytes (root_node 0 s') s' = cstr ''hello''"
proof -
  have "ld_bytes (vmem disk_example) 0x3000 5 = cstr ''hello''"
    by (simp add: ld_bytes_def upt_rec cstr_def disk_example_def)
  then show ?thesis
    using initialize_initrd_mounts [OF disk_example, of 0] by (auto simp: disk_example_words)
qed

end
