(* ===== verification/Ramdisk.thy ===== *)
theory Ramdisk
  imports Mount
begin

text \<open>
  The ramdisk end to end: mounting an image, looking a file up by its name and reading it.
\<close>

unbundle bit_operations_syntax


subsection \<open>What mounting leaves alone\<close>

text \<open>Memory apart from the new nodes and from the headers of the image.\<close>

definition untouched :: "u32 \<Rightarrow> nat \<Rightarrow> vfs \<Rightarrow> nat \<Rightarrow> nat \<Rightarrow> bool" where
  "untouched L n s lo hi \<longleftrightarrow> node_space n s lo hi \<and> outside (unat L + 4) (unat L + 4 + 76 * n) lo hi"

lemma untouched_same:
  assumes "mountable L n nm s" and "untouched L n s lo hi"
    and "only_in (unat (placement_address (kernel s))) (unat (placement_address (kernel s)) + 368) (vmem s) m0"
    and "\<forall>x. \<not> mount_area L n 0 (mount_state L n m0 s) (unat x) \<longrightarrow> m x = m0 x"
  shows "same_on lo hi (vmem s) m"
proof -
  have b: "unat (placement_address (kernel s)) + 368 + 184 * n < 4294967296" using assms(1) by (simp add: mountable_def)
  then have up: "unat (placement_address (kernel s) + 368) = unat (placement_address (kernel s)) + 368"
    by (intro unat_add_numeral32) simp
  have "same_on lo hi (vmem s) m0"
    using assms(2) by (intro only_in_same_on [OF assms(3)]) (auto simp: untouched_def outside_def)
  moreover have "same_on lo hi m0 m"
    using assms(2,4) up by (auto simp: same_on_def untouched_def outside_def mount_area_def)
  ultimately show ?thesis by (rule same_on_trans)
qed

lemma c_string_same:
  assumes "c_string m a cs" and "same_on (unat a) (unat a + length cs + 1) m m'"
  shows "c_string m' a cs"
  using assms ld_bytes_same [of a "Suc (length cs)" m m'] by (simp add: c_string_def)

subsection \<open>Finding and reading\<close>

text \<open>The names of an image that can be told apart from that of file \<open>j\<close>.\<close>

definition found_by_name :: "nat \<Rightarrow> (nat \<Rightarrow> u8 list) \<Rightarrow> nat \<Rightarrow> bool" where
  "found_by_name n nm j \<longleftrightarrow> 3 \<le> length (nm j) \<and> take 4 (nm j @ [0]) \<noteq> cstr ''dev'' @ [0]
     \<and> (\<forall>i < n. i \<noteq> j \<longrightarrow> take 4 (nm i @ [0]) \<noteq> take 4 (nm j @ [0]))"

lemma filter_only: "j < n \<Longrightarrow> (\<And>i. i < n \<Longrightarrow> P i \<longleftrightarrow> i = j) \<Longrightarrow> filter P [0..<n] = [j]"
proof (induction n)
  case (Suc n)
  show ?case
  proof (cases "j = n")
    case True
    then have "filter P [0..<n] = []" using Suc.prems(2) by (auto simp: filter_empty_conv)
    then show ?thesis using Suc.prems(2) [of n] True by simp
  next
    case False
    then show ?thesis using Suc.IH Suc.prems by simp
  qed
qed simp

lemma finddir_finds:
  assumes root: "directory_at frd ffd (initrd_root t) (vmem t)" "frd \<noteq> 0" "ffd \<noteq> 0"
    and n: "nroot_nodes t = of_nat n" "n < 4294967296" and j: "j < n" and names: "found_by_name n nm j"
    and nodes: "\<forall>i < n. c_string (vmem t) (root_node (of_nat i) t) (nm i)"
    and name: "c_string (vmem t) name (nm j)" and dev: "c_string (vmem t) (str_dev t) (cstr ''dev'')"
  shows "finddir_fs (initrd_calls fr frd ffd) (initrd_root t) name t = Inr (root_node (of_nat j) t, t)"
proof -
  have l: "3 \<le> length (nm j)" using names by (simp add: found_by_name_def)
  have "four (root_node (of_nat i) t) t = four name t \<longleftrightarrow> i = j" if "i < n" for i
    using four_eq [of t _ "nm i", OF _ name l] nodes that names by (auto simp: found_by_name_def)
  then have f: "filter (\<lambda>i. four (root_node (of_nat i) t) t = four name t) [0..<n] = [j]" by (intro filter_only j)
  have "take 4 (cstr ''dev'' @ [0]) = cstr ''dev'' @ [0]" by (simp add: cstr_def)
  then have "four name t \<noteq> four (str_dev t) t"
    using four_eq [OF dev name l] names by (auto simp: found_by_name_def)
  then have "initrd_finddir (initrd_root t) name t = Inr (root_node (of_nat j) t, t)"
    using f n unat_of_nat32 [of n] by (simp add: initrd_finddir_spec)
  then show ?thesis
    using root by (simp add: finddir_fs_def through_def initrd_calls_def directory_at_def calls_at_def vld_def FS_DIRECTORY_def)
qed

text \<open>
  C23: The ramdisk end to end: after \<open>initialize_initrd\<close> the file whose name is looked up in the
  directory returned is found and reading it delivers the bytes the image has for it, from the
  offset on; it holds for every file whose name has at least three characters and differs from
  those of the other files, and from "dev", within the first four bytes.
\<close>

theorem ramdisk_finds_and_reads:
  assumes M: "mountable L n nm s" and fns: "fn_readdir s \<noteq> 0" "fn_finddir s \<noteq> 0"
    and j: "j < n" and names: "found_by_name n nm j"
    and name: "c_string (vmem s) name (nm j)" "untouched L n s (unat name) (unat name + length (nm j) + 1)"
    and dev: "untouched L n s (unat (str_dev s)) (unat (str_dev s) + 4)"
    and bytes: "bytes = ld_bytes (vmem s) (L + vld (header_offset (disk_header L j)) s) (unat (vld (header_length (disk_header L j)) s))"
    and buf: "unat b + unat sz < 4294967296" "untouched L n s (unat b) (unat b + unat sz)"
      "outside (unat b) (unat b + unat sz) (unat L + unat (vld (header_offset (disk_header L j)) s))
        (unat L + unat (vld (header_offset (disk_header L j)) s) + length bytes)"
    and off: "unat off \<le> length bytes" "unat off + unat sz < 4294967296"
    and calls: "calls = initrd_calls (fn_read s) (fn_readdir s) (fn_finddir s)"
  shows "\<exists>root s' m. initialize_initrd k L s = Inr (root, s')
    \<and> seq (finddir_fs calls root name) (\<lambda>node. read_fs calls node off sz b) s'
        = Inr (of_nat (length (take (unat sz) (drop (unat off) bytes))), set_vmem m s')
    \<and> ld_bytes m b (length (take (unat sz) (drop (unat off) bytes))) = take (unat sz) (drop (unat off) bytes)"
proof -
  let ?p = "placement_address (kernel s)"
  obtain m0 m where m: "\<And>k. initialize_initrd k L s = Inr (?p, mount_state L n m s)"
    "directory_at (fn_readdir s) (fn_finddir s) ?p m" "\<forall>j < n. mounted L (nm j) j (mount_state L n m0 s) m"
    "only_in (unat ?p) (unat ?p + 368) (vmem s) m0"
    "\<forall>x. \<not> mount_area L n 0 (mount_state L n m0 s) (unat x) \<longrightarrow> m x = m0 x"
    by (rule mount_runs [OF M]) blast
  let ?t = "mount_state L n m s" and ?node = "root_node (of_nat j) (mount_state L n m s)"
  note F = mounted_file [OF M _ _ m(4,5)]
  have B: "unat ?p + 368 + 184 * n < 4294967296" "unat L + 4 + 76 * n \<le> 4294967296" "c_string (vmem s) (str_dev s) (cstr ''dev'')"
    using M by (simp_all add: mountable_def)
  have sd: "str_dev ?t = str_dev s" by (simp add: mount_state_def Let_def)
  have same: "same_on lo hi (vmem s) m" if "untouched L n s lo hi" for lo hi
    by (rule untouched_same [OF M that m(4,5)])
  have nodes: "\<forall>i < n. c_string (vmem ?t) (root_node (of_nat i) ?t) (nm i)" using F(2) m(3) by simp
  have nm': "c_string (vmem ?t) name (nm j)" using c_string_same [OF name(1)] same [OF name(2)] by simp
  have dev': "c_string (vmem ?t) (str_dev ?t) (cstr ''dev'')"
    unfolding sd by (simp, rule c_string_same [OF B(3)]) (use same [OF dev] in \<open>simp add: cstr_def eval_nat_numeral\<close>)
  have "n < 4294967296" using B(2) by simp
  then have fd: "finddir_fs calls ?p name ?t = Inr (?node, ?t)"
    unfolding calls using finddir_finds [of "fn_readdir s" "fn_finddir s" ?t n j nm name "fn_read s"] m(2) fns j names nodes nm' dev' by simp
  have mj: "mounted L (nm j) j (mount_state L n m0 s) m" using m(3) j by blast
  note Fj = F [OF j mj]
  have fb: "file_bytes ?node ?t = bytes" using Fj(3) bytes by simp
  have at: "unat L + unat (vld (header_offset (disk_header L j)) s) + unat (vld (header_length (disk_header L j)) s) < 4294967296"
    using M j by (simp add: mountable_def Let_def)
  then have ua: "unat (L + vld (header_offset (disk_header L j)) s) = unat L + unat (vld (header_offset (disk_header L j)) s)"
    by (intro unat_add32) simp
  have lb: "length bytes = unat (vld (header_length (disk_header L j)) s)" unfolding bytes by (simp add: ld_bytes_def)
  have jn: "184 * j + 184 \<le> 184 * n" "76 * j + 76 \<le> 76 * n" using j by simp_all
  have room: "buffer_room ?node ?t (unat b) (unat b + unat sz)"
    unfolding buffer_room_def Fj(4-7) Fj(8) ua using buf jn lb by (auto simp: untouched_def outside_def)
  obtain m' where "read_fs calls ?node off sz b ?t
      = Inr (of_nat (length (take (unat sz) (drop (unat off) bytes))), set_vmem m' ?t)"
    "ld_bytes m' b (length (take (unat sz) (drop (unat off) bytes))) = take (unat sz) (drop (unat off) bytes)"
    using ramdisk.read [OF Fj(1) room le_refl le_refl off(2), of _ "fn_readdir s" "fn_finddir s"] off(1)
    unfolding calls fb by blast
  then show ?thesis using m(1) [of k] fd
    by (intro exI [of _ ?p] exI [of _ ?t] exI [of _ m'] conjI) (simp_all add: seq_def)
qed

subsection \<open>A ramdisk with two files\<close>

definition two_files :: vfs where
  "two_files = vfs_example\<lparr>kernel := (power_on (\<lambda>x.
      if x = 0x1FFC then 2 else if x = 0x2044 then 4 else if x = 0x2045 then 16 else if x = 0x2048 then 2 else
      if x = 0x2090 then 20 else if x = 0x2091 then 16 else if x = 0x2094 then 5 else if x = 0x2001 then 97 else
      if x = 0x2002 then 98 else if x = 0x2003 then 99 else if x = 0x204D then 109 else if x = 0x204E then 111 else
      if x = 0x204F then 116 else if x = 0x2050 then 100 else if x = 0x3000 then 120 else if x = 0x3001 then 121 else
      if x = 0x3010 then 104 else if x = 0x3011 then 101 else if x = 0x3012 then 108 else if x = 0x3013 then 108 else
      if x = 0x3014 then 111 else if x = 0xB00 then 100 else if x = 0xB01 then 101 else if x = 0xB02 then 118 else
      if x = 0xB10 then 105 else if x = 0xB11 then 110 else if x = 0xB12 then 105 else if x = 0xB13 then 116 else
      if x = 0xB14 then 114 else if x = 0xB15 then 100 else if x = 0xC00 then 109 else if x = 0xC01 then 111 else
      if x = 0xC02 then 116 else if x = 0xC03 then 100 else 0) (\<lambda>_ _. 0))\<lparr>placement_address := 0x5000\<rparr>\<rparr>"

definition two_names :: "nat \<Rightarrow> u8 list" where
  "two_names j = (if j = 0 then cstr ''abc'' else cstr ''motd'')"

lemma two_files_fields [simp]:
  "str_dev two_files = 0xB00" "str_initrd two_files = 0xB10" "placement_address (kernel two_files) = 0x5000"
  "kheap (kernel two_files) = 0" "fn_read two_files = 0x500" "fn_readdir two_files = 0x510" "fn_finddir two_files = 0x520"
  by (simp_all add: two_files_def vfs_example_def power_on_def)

lemma two_files_words:
  "vld 0x1FFC two_files = 2"
  "vld (header_offset (disk_header 0x1FFC 0)) two_files = 0x1004" "vld (header_length (disk_header 0x1FFC 0)) two_files = 2"
  "vld (header_offset (disk_header 0x1FFC (Suc 0))) two_files = 0x1014" "vld (header_length (disk_header 0x1FFC (Suc 0))) two_files = 5"
  by (simp_all add: vld_def ld32_def two_files_def disk_header_def header_offset_def header_length_def)

lemma two_files_strings:
  "c_string (vmem two_files) 0xB10 (cstr ''initrd'')" "c_string (vmem two_files) 0xB00 (cstr ''dev'')"
  "c_string (vmem two_files) 0x2001 (cstr ''abc'')" "c_string (vmem two_files) 0x204D (cstr ''motd'')"
  "c_string (vmem two_files) 0xC00 (cstr ''motd'')" "ld_bytes (vmem two_files) 0x3010 5 = cstr ''hello''"
  by (simp_all add: c_string_def ld_bytes_def upt_rec cstr_def two_files_def)

lemma two_files: "mountable 0x1FFC 2 two_names two_files"
  unfolding mountable_def Let_def
  by (simp add: two_files_words two_files_strings outside_def two_names_def less_2_cases_iff all_conj_distrib disj_imp)
    (simp add: two_files_strings(3,4) [unfolded cstr_def, simplified] disk_header_def header_name_def cstr_def)

theorem ramdisk_finds_and_reads_witness:
  "\<exists>root s' m. initialize_initrd 0 0x1FFC two_files = Inr (root, s')
    \<and> seq (finddir_fs (initrd_calls 0x500 0x510 0x520) root 0xC00)
        (\<lambda>node. read_fs (initrd_calls 0x500 0x510 0x520) node 1 0x10 0x7000) s' = Inr (4, set_vmem m s')
    \<and> ld_bytes m 0x7000 4 = cstr ''ello''"
proof -
  have n: "found_by_name 2 two_names 1" by (simp add: found_by_name_def two_names_def cstr_def less_2_cases_iff)
  have name: "c_string (vmem two_files) 0xC00 (two_names 1)" by (simp add: two_names_def two_files_strings)
  have u: "untouched 0x1FFC 2 two_files (unat (0xC00 :: u32)) (unat (0xC00 :: u32) + length (two_names 1) + 1)"
    "untouched 0x1FFC 2 two_files (unat (str_dev two_files)) (unat (str_dev two_files) + 4)"
    "untouched 0x1FFC 2 two_files (unat (0x7000 :: u32)) (unat (0x7000 :: u32) + unat (0x10 :: u32))"
    by (simp_all add: untouched_def outside_def two_names_def cstr_def unat_numeral32)
  have b: "cstr ''hello'' = ld_bytes (vmem two_files) (0x1FFC + vld (header_offset (disk_header 0x1FFC 1)) two_files)
      (unat (vld (header_length (disk_header 0x1FFC 1)) two_files))"
    by (simp add: two_files_words two_files_strings unat_numeral32)
  have o: "outside (unat (0x7000 :: u32)) (unat (0x7000 :: u32) + unat (0x10 :: u32))
      (unat (0x1FFC :: u32) + unat (vld (header_offset (disk_header 0x1FFC 1)) two_files))
      (unat (0x1FFC :: u32) + unat (vld (header_offset (disk_header 0x1FFC 1)) two_files) + length (cstr ''hello''))"
    by (simp add: two_files_words outside_def unat_numeral32 cstr_def)
  have t: "take (unat (0x10 :: u32)) (drop (unat (1 :: u32)) (cstr ''hello'')) = cstr ''ello''" by (simp add: cstr_def)
  have l: "length (cstr ''ello'') = 4" by (simp add: cstr_def)
  from ramdisk_finds_and_reads [OF two_files _ _ _ n name u(1,2) b _ u(3) o _ _ refl, of 1 0, unfolded t l] show ?thesis
    by (simp add: cstr_def unat_numeral32)
qed

subsection \<open>Nodes with the calls of their kind\<close>

text \<open>
  The types of nodes: a file reads through the ramdisk, a directory lists and searches through it, and no
  node has another call.
\<close>

definition node_typed :: "vfs \<Rightarrow> u32 \<Rightarrow> bool" where
  "node_typed s a \<longleftrightarrow> vld (node_flags a) s = FS_FILE \<and> calls_at (fn_read s) 0 0 a (vmem s)
     \<or> directory_at (fn_readdir s) (fn_finddir s) a (vmem s)"

definition vfs_typed :: "vfs \<Rightarrow> bool" where
  "vfs_typed s \<longleftrightarrow> node_typed s (initrd_root s) \<and> node_typed s (initrd_dev s)
     \<and> (\<forall>j < nroot_nodes s. node_typed s (root_node j s))"

lemma find_root_node_result: "find_root_node name i s = 0 \<or> (\<exists>j < nroot_nodes s. find_root_node name i s = root_node j s)"
proof (induction name i s rule: find_root_node.induct)
  case (1 name i s)
  then show ?case by (auto simp: find_root_node.simps [of name i s])
qed

text \<open>The calls of a typed node go through, and what a directory finds is typed.\<close>

lemma typed_calls:
  assumes t: "vfs_typed s" and n: "node_typed s a" and f: "fn_finddir s \<noteq> 0"
    and calls: "calls = initrd_calls (fn_read s) (fn_readdir s) (fn_finddir s)"
  shows "\<exists>r m. read_fs calls a off sz b s = Inr (r, set_vmem m s)"
    and "write_fs calls a off sz b s = Inr (0, s)" and "open_fs calls a rd' wr' s = Inr ((), s)" and "close_fs calls a s = Inr ((), s)"
    and "\<exists>r. finddir_fs calls a name s = Inr (r, s) \<and> (r = 0 \<or> node_typed s r)"
    and "(\<exists>r u. readdir_fs calls a i s = Inr (r, u)) \<or> readdir_fs calls a i s = Inl Diverges"
proof -
  have k: "vld (node_read a) s \<in> {0, fn_read s} \<and> vld (node_write a) s = 0 \<and> vld (node_close a) s = 0
    \<and> (vld (node_readdir a) s = 0 \<or> vld (node_readdir a) s = fn_readdir s \<and> vld (node_finddir a) s = fn_finddir s)"
    using n by (auto simp: node_typed_def calls_at_def directory_at_def vld_def)
  have sv: "set_vmem (vmem s) s = s" by (simp add: set_vmem_def)
  show "\<exists>r m. read_fs calls a off sz b s = Inr (r, set_vmem m s)"
  proof (cases "vld (node_read a) s = 0")
    case True
    then show ?thesis by (intro exI [of _ 0] exI [of _ "vmem s"]) (simp add: read_fs_def sv)
  next
    case False
    then have e: "vld (node_read a) s = fn_read s" using k by simp
    have "\<exists>r m. initrd_read a off sz b s = Inr (r, set_vmem m s)"
    proof (cases "vld (header_length (file_header (vld (node_inode a) s) s)) s < off")
      case True
      then show ?thesis by (intro exI [of _ 0] exI [of _ "vmem s"]) (simp add: initrd_read_def sv)
    qed (simp add: initrd_read_def Let_def, blast)
    then show ?thesis using False e by (simp add: read_fs_def through_def calls initrd_calls_def)
  qed
  show "write_fs calls a off sz b s = Inr (0, s)" "open_fs calls a rd' wr' s = Inr ((), s)" "close_fs calls a s = Inr ((), s)"
    using k by (simp_all add: write_fs_def open_fs_def close_fs_def)
  have found: "r = 0 \<or> node_typed s r" if "initrd_finddir a name s = Inr (r, s)" for r
    using that t find_root_node_result [of name 0 s] by (auto simp: initrd_finddir_def vfs_typed_def split: if_splits)
  show "\<exists>r. finddir_fs calls a name s = Inr (r, s) \<and> (r = 0 \<or> node_typed s r)"
  proof (cases "vld (node_flags a) s AND 0x7 = FS_DIRECTORY \<and> vld (node_readdir a) s \<noteq> 0")
    case True
    then have "finddir_fs calls a name s = initrd_finddir a name s"
      using k f by (auto simp: finddir_fs_def through_def calls initrd_calls_def)
    moreover have "\<exists>r. initrd_finddir a name s = Inr (r, s)" by (simp add: initrd_finddir_def)
    ultimately show ?thesis using found by auto
  next
    case False
    then have "finddir_fs calls a name s = Inr (0, s)" unfolding finddir_fs_def by (rule if_not_P)
    then show ?thesis by simp
  qed
  have dir: "(\<exists>r u. initrd_readdir a i s = Inr (r, u)) \<or> initrd_readdir a i s = Inl Diverges"
    by (auto simp: initrd_readdir_def seq_def vstrcpy_def vstrlen_def Let_def split: option.splits sum.splits)
  show "(\<exists>r u. readdir_fs calls a i s = Inr (r, u)) \<or> readdir_fs calls a i s = Inl Diverges"
    using k dir by (auto simp: readdir_fs_def through_def calls initrd_calls_def)
qed

text \<open>
  C24: The nodes of a mounted ramdisk are well typed, and well-typed nodes do not go wrong: after
  \<open>initialize_initrd\<close> the root, \<open>dev\<close> and every file have the calls of their kind, and through any node with
  such calls no operation of \<open>fs.c\<close> calls a null pointer or a function of another kind. Reading changes
  memory only, writing, opening and closing do nothing, searching changes nothing and returns null or a well-typed node again, and
  listing returns unless a name has no end.
\<close>

theorem ramdisk_nodes_typed:
  assumes "mountable L n nm s" and "fn_finddir s \<noteq> 0" and calls: "calls = initrd_calls (fn_read s) (fn_readdir s) (fn_finddir s)"
  shows "\<exists>s'. initialize_initrd k L s = Inr (initrd_root s', s') \<and> vfs_typed s'
    \<and> (\<forall>a. node_typed s' a \<longrightarrow> (\<forall>off sz b. \<exists>r m. read_fs calls a off sz b s' = Inr (r, set_vmem m s'))
        \<and> (\<forall>off sz b. write_fs calls a off sz b s' = Inr (0, s'))
        \<and> (\<forall>rd' wr'. open_fs calls a rd' wr' s' = Inr ((), s')) \<and> close_fs calls a s' = Inr ((), s')
        \<and> (\<forall>name. \<exists>r. finddir_fs calls a name s' = Inr (r, s') \<and> (r = 0 \<or> node_typed s' r))
        \<and> (\<forall>i. (\<exists>r u. readdir_fs calls a i s' = Inr (r, u)) \<or> readdir_fs calls a i s' = Inl Diverges))"
proof -
  let ?p = "placement_address (kernel s)"
  obtain m0 m where m: "\<And>k. initialize_initrd k L s = Inr (?p, mount_state L n m s)"
    "directory_at (fn_readdir s) (fn_finddir s) ?p m" "\<forall>j < n. mounted L (nm j) j (mount_state L n m0 s) m"
    "directory_at (fn_readdir s) (fn_finddir s) (?p + 184) m"
    by (rule mount_runs [OF assms(1)]) blast
  let ?t = "mount_state L n m s"
  have f: "fn_readdir ?t = fn_readdir s" "fn_finddir ?t = fn_finddir s" "initrd_dev ?t = ?p + 184"
    by (simp_all add: mount_state_def Let_def)
  have n: "n < 4294967296" using assms(1) by (auto simp: mountable_def)
  have nodes: "node_typed ?t (root_node j ?t)" if j: "j < of_nat n" for j
  proof -
    have "unat j < n" using j n by (simp add: word_less_nat_alt unat_of_nat32)
    then have "mounted L (nm (unat j)) (unat j) (mount_state L n m0 s) m" using m(3) by blast
    moreover have "root_node j (mount_state L n m0 s) = root_node j ?t" by (simp add: root_node_def)
    ultimately show ?thesis by (simp add: node_typed_def mounted_def Let_def)
  qed
  have t: "vfs_typed ?t" using m(2,4) nodes by (simp add: vfs_typed_def node_typed_def f)
  note C = typed_calls [OF t _ _ calls [folded f, folded mount_state_simps(7) [of L n m s]], unfolded f, OF _ assms(2)]
  show ?thesis
    by (intro exI [of _ ?t]) (use m(1) t C in auto)
qed

theorem ramdisk_nodes_typed_witness:
  "\<exists>s'. initialize_initrd 0 0x1FFC two_files = Inr (initrd_root s', s') \<and> vfs_typed s'
    \<and> write_fs (initrd_calls 0x500 0x510 0x520) (root_node 1 s') 0 8 0x9000 s' = Inr (0, s') \<and> nroot_nodes s' = 2"
proof -
  have "nroot_nodes s' = 2" if "initialize_initrd 0 0x1FFC two_files = Inr (initrd_root s', s')" for s'
  proof -
    obtain m where "\<And>k. initialize_initrd k 0x1FFC two_files = Inr (0x5000, mount_state 0x1FFC 2 m two_files)"
      by (rule mount_runs [OF two_files]) simp
    then show ?thesis using that by auto
  qed
  moreover have "node_typed s' (root_node 1 s')" if "vfs_typed s'" "nroot_nodes s' = 2" for s'
    using that by (simp add: vfs_typed_def)
  moreover have "fn_finddir two_files \<noteq> 0" by simp
  ultimately show ?thesis
    using ramdisk_nodes_typed [OF two_files _ refl, of 0] unfolding two_files_fields by blast
qed

end
