(* ===== verification/Spec2Isabelle.thy ===== *)
theory Spec2Isabelle
  imports Boot Heap_Runs Paging_Init Boot_Heap Boot_Run Boot_Fork Ramdisk
begin

text \<open>
  IcarusOS, a small 32-bit x86 kernel (\<open>src/IcarusOS\<close>), as Isabelle definitions with the
  properties that make its parts correct.

  \<^bold>\<open>The program.\<close> The boot loader enters \<open>kmain\<close> with the multiboot information. It sets up
  the descriptor tables, the text screen, the serial line, the interrupt controller and the
  timer, then paging, the kernel heap and the first task, forks a second task and calls the
  loaded program. From then on the kernel runs from its interrupt handler: the timer counts
  and shows its count, the keyboard echoes. The ramdisk file system is linked in but
  not called by \<open>kmain\<close>.

  \<^bold>\<open>The state.\<close> Memory is a function from 32-bit addresses to bytes (\<open>Memory\<close>), and the C structures
  lie in it as words at their offsets, so pointers, aliasing and overruns are as in the
  code. \<open>Machine\<close> is the record of all globals, of the registers the code names, of the port
  output so far and of the devices (a function from port and number of the read to the byte
  delivered). Heap structures (\<open>heap_t\<close>) are records in a map from their addresses. A function
  that can fail is a \<open>prog\<close>: it returns \<open>Inl\<close> of a \<open>halt\<close> (a failed assertion, a panic, a null call, a
  division by zero, undefined behaviour, an endless loop) or \<open>Inr\<close> of result and state. Integers
  are words of their width.

  \<^bold>\<open>Theories, in the order of the code's layers.\<close>
  \<^item> \<open>Prelude\<close>, \<open>Memory\<close>: words and \<open>unat\<close>, programs and their sequencing, byte memory with the
    frame predicates \<open>only_in\<close> and \<open>same_on\<close>.
  \<^item> \<open>Printf\<close> (\<open>printf.c\<close>), \<open>Util\<close> (\<open>util.c\<close>): formatting into any sink (locale \<open>char_sink\<close>,
    interpreted for the buffer of \<open>tfp_sprintf\<close>), parsing and printing of numbers; memory and
    string functions.
  \<^item> \<open>Ordered_Array\<close> (\<open>ordered_array.c\<close>): insertion and removal refine insertion into a sorted
    list; the locale of the order is interpreted for the predicates the code passes.
  \<^item> \<open>Keyboard\<close>, \<open>Gdt_Idt\<close>, \<open>Screen\<close>, \<open>Ports\<close> (\<open>keyboard.c\<close>, \<open>gdt_idt.c\<close>, \<open>screen.c\<close>, \<open>util.c\<close>'s panic
    functions, \<open>serial.c\<close>, \<open>pic.c\<close>, \<open>timer.c\<close>): devices and tables.
  \<^item> \<open>Paging\<close> (\<open>paging.c\<close>): the frame bitmap against the set \<open>used_frames\<close>, page tables, cloning of directories;
    \<open>Clone_Table\<close>: cloning of a table, the frame each entry gets (\<open>clone_entries\<close>, \<open>next_frame\<close>), and what it does to
    the memory behind it.
  \<^item> \<open>Kheap\<close> (\<open>kheap.c\<close>): the heap's operations. \<open>Heap_Blocks\<close> states what a heap is: a list of
    blocks laid end to end (\<open>chain\<close>) whose holes are the entries of the index (\<open>heap_ok\<close>); the footers of holes,
    which the code does not always keep, are apart (\<open>footed\<close>). \<open>Heap_Alloc\<close>, \<open>Heap_Free\<close> relate each operation to an
    operation on that list (\<open>cut_blocks\<close>, \<open>join_blocks\<close>); \<open>Heap_Runs\<close> has runs of allocations, frees
    and stores of the owners (\<open>owned\<close>) from \<open>create_heap\<close> on. Their frees are those for which the code keeps the heap in
    order: not behind a hole with a stale footer (\<open>frees_lose_block\<close>), and not up to the end of the heap.
  \<^item> \<open>Interrupts\<close> (\<open>timer_callback\<close>, \<open>echo_keyboard\<close>, \<open>interrupt_handler\<close>) with runs of the handler.
  \<^item> \<open>Tasks\<close> (\<open>task.c\<close>): the ready queue as a list of task addresses (\<open>queue_ok\<close>), \<open>switch_task\<close> as a
    rotation of it, runs of tasks and switches (\<open>schedule\<close>), \<open>fork\<close>, the relocated stack.
  \<^item> \<open>Fs\<close>, \<open>Initrd\<close>, \<open>Mount\<close> (\<open>fs.c\<close>, \<open>initrd.c\<close>): calls through the function pointers of a node, the
    ramdisk as an interpretation of the locale \<open>file_reader\<close>, and mounting. \<open>Ramdisk\<close> composes them: an image
    is mounted, a file whose name the four bytes of \<open>strcmp\<close> tell from the others is looked up and read; the nodes of a mounted image are well typed
    (\<open>node_typed\<close>), and well-typed nodes do not go wrong.
  \<^item> \<open>Boot\<close> (\<open>initialize_paging\<close>, \<open>kmain.c\<close>): the composition. \<open>Paging_Init\<close> follows the loops of
    \<open>initialize_paging\<close> (\<open>map_memory\<close>) with an invariant and reads the tables they leave with the
    processor's address translation (\<open>translate\<close>); \<open>Boot_Heap\<close> goes on to its end, through the
    creation of the heap, the page-aligned request for the second directory and its cloning.
    \<open>Boot_Run\<close> has the kernel that is up from then on (\<open>kernel_up\<close>), the steps that keep it (printing, requests and frees)
    and \<open>heap_test\<close>; \<open>Boot_Tasks\<close> goes on through \<open>initialize_tasking\<close>, whose page tables come from the heap, to
    \<open>fork\<close>, and \<open>Boot_Fork\<close> through the clone of the directory and the child's task to the call of the program:
    a boot with one module runs from power on to there. There the child has no stack mapped, because \<open>clone_table\<close>
    drops the entries that have a frame, and the heap is no list of blocks any more, because it blanks twice what it
    should (\<open>kmain_starts_program\<close>, \<open>fork_destroys_heap\<close>, \<open>first_switch_faults\<close>).

  \<^bold>\<open>Loops and fuel.\<close> Loops with a decreasing measure are total functions. The wait of the serial
  line, the strings without an end and the walk along the ready queue are partial functions
  whose \<open>None\<close> is an endless loop. Only \<open>alloc\<close> has fuel, as the number of nested activations: it
  calls itself after an expansion, and the expansion may call it for a page table. A request
  that a hole can hold needs one activation (\<open>alloc_best_fit\<close>), and more fuel never changes a
  result (\<open>alloc_fuel\<close>); the boot needs two, because the heap grows once, in \<open>fork\<close>. Every function that allocates passes the fuel on.

  \<^bold>\<open>Parameters.\<close> The addresses the linker chooses (tables, stubs, string literals, the address of a
  local array), the loaded program, the allocator in \<open>get_page\<close> and the code behind a node's function
  pointers.

  \<^bold>\<open>Not modelled.\<close> The assembly files; of them the code relies on \<open>read_eip\<close> (the instruction pointer),
  \<open>copy_page_physical\<close> (recorded as an event) and port access. Address translation: memory is
  addressed by linear addresses before and after paging is switched on. \<open>translate\<close> states what
  the tables mean; that no two mapped pages have one frame is why the flat memory is adequate. Branches that are
  not compiled: \<open>PRINTF_LONG_SUPPORT\<close> and the code under \<open>#if 0\<close>. Declarations in \<open>stdarg.h\<close>,
  \<open>stdint.h\<close> and the parts of \<open>multiboot.h\<close> that \<open>kmain\<close> does not read.
\<close>

end
